(* ===== verification/Prelude.thy ===== *)
theory Prelude
  imports Main "HOL-Library.Word" "HOL-Library.Sublist"
begin

text \<open>
  Shared vocabulary of the development: the machine integers of the C sources as words, the two C
  library comparisons every ordering in the daemon is built from (\<^verbatim>\<open>memcmp\<close> and
  \<^verbatim>\<open>strcmp\<close>), the contract a comparison callback has to satisfy, and the list facts that
  several components use. The collection \<open>byte_simps\<close> carries the facts
  on multi-byte fields that the component proofs pass to the simplifier.
\<close>

unbundle bit_operations_syntax

named_theorems byte_simps \<open>reading and writing multi-byte fields\<close>

section \<open>Machine integers\<close>

type_synonym byte = "8 word"
type_synonym u16 = "16 word"
type_synonym u32 = "32 word"
type_synonym u64 = "64 word"
type_synonym bytes = "byte list"

text \<open>The daemon is compiled with \<^verbatim>\<open>-fwrapv\<close>, so a C \<^verbatim>\<open>int\<close> subtraction wraps.\<close>

definition c_int_diff :: "int \<Rightarrow> int \<Rightarrow> int" where
  "c_int_diff a b = sint (word_of_int (a - b) :: 32 word)"

definition c_int_ok :: "int \<Rightarrow> bool" where
  "c_int_ok a \<longleftrightarrow> - (2 ^ 31) \<le> a \<and> a < 2 ^ 31"

lemma c_int_diff_exact:
  assumes "- (2 ^ 31) \<le> a - b" and "a - b < 2 ^ 31"
  shows "c_int_diff a b = a - b"
proof -
  have "signed_take_bit 31 (a - b) = a - b"
    using assms by (intro signed_take_bit_int_eq_self) simp_all
  then show ?thesis
    by (simp only: c_int_diff_def signed_of_int sint_sbintrunc' len_num1 len_bit0 mult_1_right)
       simp
qed

lemma c_int_diff_self [simp]: "c_int_diff a a = 0"
  by (simp add: c_int_diff_def)

text \<open>C's \<^verbatim>\<open>/\<close> and \<^verbatim>\<open>%\<close> on \<^verbatim>\<open>int\<close> truncate towards zero.\<close>

definition trunc_div :: "int \<Rightarrow> int \<Rightarrow> int" where
  "trunc_div a b = sgn a * sgn b * (\<bar>a\<bar> div \<bar>b\<bar>)"

definition trunc_mod :: "int \<Rightarrow> int \<Rightarrow> int" where
  "trunc_mod a b = a - b * trunc_div a b"

text \<open>
  The contract of a comparison callback on the values \<open>ok\<close> it is meant for: the sign of the
  result is a total preorder, and exchanging the arguments exchanges the sign.
\<close>

locale c_compare =
  fixes cmp :: "'a \<Rightarrow> 'a \<Rightarrow> int" and ok :: "'a \<Rightarrow> bool"
  assumes cmp_refl: "ok x \<Longrightarrow> cmp x x = 0"
    and cmp_swap: "ok x \<Longrightarrow> ok y \<Longrightarrow> cmp x y < 0 \<longleftrightarrow> 0 < cmp y x"
    and cmp_trans: "ok x \<Longrightarrow> ok y \<Longrightarrow> ok z \<Longrightarrow> cmp x y \<le> 0 \<Longrightarrow> cmp y z \<le> 0 \<Longrightarrow> cmp x z \<le> 0"
begin

lemma cmp_zero_sym: "ok x \<Longrightarrow> ok y \<Longrightarrow> cmp x y = 0 \<longleftrightarrow> cmp y x = 0"
  using cmp_swap [of x y] cmp_swap [of y x] by linarith

lemma cmp_less_trans:
  assumes "ok x" "ok y" "ok z" "cmp x y < 0" "cmp y z \<le> 0"
  shows "cmp x z < 0"
proof (rule ccontr)
  assume "\<not> cmp x z < 0"
  then have "cmp z x \<le> 0" using cmp_swap [of x z] assms(1,3) cmp_swap [of z x] by linarith
  with assms have "cmp y x \<le> 0" using cmp_trans [of y z x] by simp
  with assms cmp_swap [of x y] show False by simp
qed

lemma cmp_le_less_trans:
  assumes "ok x" "ok y" "ok z" "cmp x y \<le> 0" "cmp y z < 0"
  shows "cmp x z < 0"
proof (rule ccontr)
  assume "\<not> cmp x z < 0"
  then have "cmp z x \<le> 0" using cmp_swap [of x z] assms(1,3) cmp_swap [of z x] by linarith
  with assms have "cmp z y \<le> 0" using cmp_trans [of z x y] by simp
  with assms cmp_swap [of y z] show False by simp
qed

end

text \<open>Comparing by one criterion and, where that does not decide, by a second one.\<close>

lemma c_compare_then:
  assumes f: "c_compare f ok" and g: "c_compare g ok"
  shows "c_compare (\<lambda>x y. if f x y \<noteq> 0 then f x y else g x y) ok"
proof
  fix x y z
  assume ok: "ok x" "ok y"
  note zero = c_compare.cmp_zero_sym [OF f] and swap = c_compare.cmp_swap [OF f] c_compare.cmp_swap [OF g]
  show "(if f x y \<noteq> 0 then f x y else g x y) < 0 \<longleftrightarrow> 0 < (if f y x \<noteq> 0 then f y x else g y x)"
    using ok zero [of x y] swap [of x y] by simp
  assume z: "ok z" and le: "(if f x y \<noteq> 0 then f x y else g x y) \<le> 0" "(if f y z \<noteq> 0 then f y z else g y z) \<le> 0"
  then have "f x y \<le> 0" "f y z \<le> 0" by (auto split: if_splits)
  then consider "f x y < 0" | "f x y = 0" "f y z < 0" | "f x y = 0" "f y z = 0" by linarith
  then show "(if f x z \<noteq> 0 then f x z else g x z) \<le> 0"
  proof cases
    case 1
    with c_compare.cmp_less_trans [OF f ok z] \<open>f y z \<le> 0\<close> show ?thesis by simp
  next
    case 2
    with c_compare.cmp_le_less_trans [OF f ok z] show ?thesis by simp
  next
    case 3
    then have "g x z \<le> 0" "f x z \<le> 0"
      using le c_compare.cmp_trans [OF f ok z] c_compare.cmp_trans [OF g ok z] by simp_all
    then show ?thesis by simp
  qed
qed (use f g in \<open>simp add: c_compare.cmp_refl\<close>)

text \<open>Comparing by a field.\<close>

lemma c_compare_field:
  assumes f: "c_compare f ok" and h: "\<And>x. ok' x \<Longrightarrow> ok (h x)"
  shows "c_compare (\<lambda>x y. f (h x) (h y)) ok'"
proof
  fix x y z
  assume "ok' x"
  then show "f (h x) (h x) = 0" using c_compare.cmp_refl [OF f] h by simp
  assume "ok' y"
  with \<open>ok' x\<close> show "f (h x) (h y) < 0 \<longleftrightarrow> 0 < f (h y) (h x)" using c_compare.cmp_swap [OF f] h by simp
  assume "ok' z" "f (h x) (h y) \<le> 0" "f (h y) (h z) \<le> 0"
  with \<open>ok' x\<close> \<open>ok' y\<close> show "f (h x) (h z) \<le> 0" using c_compare.cmp_trans [OF f, of "h x" "h y" "h z"] h by simp
qed

text \<open>Conversion of an \<^verbatim>\<open>int\<close> to a 64-bit \<^verbatim>\<open>size_t\<close>, and of any value to a 32-bit \<^verbatim>\<open>int\<close>.\<close>

definition size_t_of_int :: "int \<Rightarrow> nat" where
  "size_t_of_int a = nat (a mod 2 ^ 64)"

definition c_int :: "int \<Rightarrow> int" where
  "c_int a = c_int_diff a 0"

lemma size_t_of_int_nonneg: "0 \<le> a \<Longrightarrow> a < 2 ^ 64 \<Longrightarrow> size_t_of_int a = nat a"
  by (simp add: size_t_of_int_def)

lemma c_int_id: "c_int_ok a \<Longrightarrow> c_int a = a"
  using c_int_diff_exact [of a 0] by (simp add: c_int_def c_int_ok_def)

lemma trunc_mod_nonneg: "0 \<le> a \<Longrightarrow> 0 < b \<Longrightarrow> trunc_mod a b = a mod b"
  by (cases "a = 0") (simp_all add: trunc_mod_def trunc_div_def minus_mult_div_eq_mod)

text \<open>\<^verbatim>\<open>tolower\<close> in the C locale, and \<^verbatim>\<open>strcasecmp\<close> tested against zero.\<close>

definition c_tolower :: "char \<Rightarrow> char" where
  "c_tolower c = (let n = of_char c :: nat in if 65 \<le> n \<and> n \<le> 90 then char_of (n + 32) else c)"

definition strcaseeq :: "string \<Rightarrow> string \<Rightarrow> bool" where
  "strcaseeq s t \<longleftrightarrow> map c_tolower s = map c_tolower t"

text \<open>Two bytes in network order.\<close>

definition be16_bytes :: "nat \<Rightarrow> bytes" where
  "be16_bytes n = [of_nat (n div 256), of_nat n]"

definition be16_nat :: "byte \<Rightarrow> byte \<Rightarrow> nat" where
  "be16_nat hi lo = 256 * unat hi + unat lo"

lemma be16_roundtrip [byte_simps]:
  "n < 65536 \<Longrightarrow> be16_nat (of_nat (n div 256)) (of_nat n) = n"
  by (simp add: be16_nat_def unat_of_nat)

lemma be16_less [byte_simps]: "be16_nat hi lo < 65536"
  using unsigned_less [of hi, where 'a = nat] unsigned_less [of lo, where 'a = nat] by (simp add: be16_nat_def)

lemma length_be16_bytes [simp]: "length (be16_bytes n) = 2"
  by (simp add: be16_bytes_def)

section \<open>C comparisons\<close>

text \<open>
  \<^verbatim>\<open>memcmp\<close> on two blocks of the same size: the difference of the first bytes that differ,
  read as unsigned. C fixes only the sign of the result, and the daemon uses only the sign.
\<close>

fun memcmp :: "bytes \<Rightarrow> bytes \<Rightarrow> int" where
  "memcmp (a # as) (b # bs) = (if a = b then memcmp as bs else uint a - uint b)"
| "memcmp _ _ = 0"

text \<open>\<^verbatim>\<open>strcmp\<close>; the terminating NUL compares as 0, below every other character.\<close>

fun strcmp :: "string \<Rightarrow> string \<Rightarrow> int" where
  "strcmp [] [] = 0"
| "strcmp [] (b # bs) = - int (of_char b)"
| "strcmp (a # as) [] = int (of_char a)"
| "strcmp (a # as) (b # bs) =
     (if a = b then strcmp as bs else int (of_char a) - int (of_char b))"

lemma memcmp_swap: "length as = length bs \<Longrightarrow> memcmp as bs < 0 \<longleftrightarrow> 0 < memcmp bs as"
  by (induction as bs rule: list_induct2) auto

lemma memcmp_zero: "length as = length bs \<Longrightarrow> memcmp as bs = 0 \<longleftrightarrow> as = bs"
  by (induction as bs rule: list_induct2) (auto simp flip: word_uint_eq_iff)

lemma memcmp_trans:
  "length as = length bs \<Longrightarrow> length bs = length cs \<Longrightarrow> memcmp as bs \<le> 0 \<Longrightarrow> memcmp bs cs \<le> 0 \<Longrightarrow>
     memcmp as cs \<le> 0"
  by (induction as bs cs rule: list_induct3) (auto split: if_splits simp: word_uint_eq_iff)

text \<open>A C string holds no NUL character.\<close>

definition c_string :: "string \<Rightarrow> bool" where
  "c_string s \<longleftrightarrow> CHR 0x00 \<notin> set s"

lemma c_string_Cons [simp]: "c_string (a # s) \<longleftrightarrow> a \<noteq> CHR 0x00 \<and> c_string s"
  by (auto simp: c_string_def)

lemma of_char_pos: "a \<noteq> CHR 0x00 \<Longrightarrow> 0 < (of_char a :: nat)"
proof -
  assume "a \<noteq> CHR 0x00"
  then have "(of_char a :: nat) \<noteq> of_char (CHR 0x00)" by (auto simp only: of_char_eq_iff)
  then show ?thesis by simp
qed

lemma strcmp_refl [simp]: "strcmp a a = 0"
  by (induction a) auto

lemma strcmp_swap_neg: "strcmp b a = - strcmp a b"
  by (induction a b rule: strcmp.induct) auto

lemma strcmp_zero: "c_string a \<Longrightarrow> c_string b \<Longrightarrow> strcmp a b = 0 \<longleftrightarrow> a = b"
  by (induction a b rule: strcmp.induct) (auto dest: of_char_pos)

lemma strcmp_trans:
  "c_string a \<Longrightarrow> c_string b \<Longrightarrow> c_string c \<Longrightarrow> strcmp a b \<le> 0 \<Longrightarrow> strcmp b c \<le> 0 \<Longrightarrow> strcmp a c \<le> 0"
proof (induction a b arbitrary: c rule: strcmp.induct)
  case (4 a as b bs)
  then show ?case by (cases c) (auto split: if_splits dest: of_char_pos)
next
  case 1
  then show ?case by simp
next
  case (2 b bs)
  then show ?case by (cases c) (auto dest: of_char_pos)
next
  case (3 a as)
  then show ?case by (auto dest: of_char_pos)
qed

interpretation strcmp_order: c_compare strcmp c_string
proof
  show "strcmp x y < 0 \<longleftrightarrow> 0 < strcmp y x" for x y
    using strcmp_swap_neg [of x y] by simp
qed (auto intro: strcmp_trans)

text \<open>A wrapped difference orders the values that are not negative.\<close>

interpretation c_int_order: c_compare c_int_diff "\<lambda>w. 0 \<le> w \<and> c_int_ok w"
  by unfold_locales (auto simp: c_int_ok_def c_int_diff_exact)

end
