(* ===== verification/Splay_Tree.thy ===== *)
theory Splay_Tree
  imports Prelude "HOL-Library.Tree"
begin

text \<open>
  The ordered container behind every table of the daemon (\<^verbatim>\<open>src/splay_tree.c\<close>): a splay
  tree whose nodes are also threaded on a doubly linked list in key order. A
  \<^verbatim>\<open>splay_node_t\<close> is named by its payload, which is unique in a tree; the tree pointers
  are a \<open>tree\<close>, the \<^verbatim>\<open>parent\<close> chain above a node is the list of frames of a zipper, and
  the \<^verbatim>\<open>next\<close>/\<^verbatim>\<open>prev\<close> chain from \<^verbatim>\<open>head\<close> to \<^verbatim>\<open>tail\<close> is a list. Both
  structures are updated separately, as the code does, and the invariant \<open>splay_wf\<close> says that
  they agree.
\<close>

section \<open>State\<close>

record 'a splay_tree =
  links :: "'a list"
  root :: "'a tree"
  compare :: "'a \<Rightarrow> 'a \<Rightarrow> int"
  has_delete :: bool
  count :: u32
  generation :: u32

section \<open>The splay operations\<close>

text \<open>
  \<^verbatim>\<open>leftbottom->right = t\<close> and \<^verbatim>\<open>rightbottom->left = t\<close>: hang a subtree below the last
  node of the left tree's right spine, or of the right tree's left spine.
\<close>

fun hang_right :: "'a tree \<Rightarrow> 'a tree \<Rightarrow> 'a tree" where
  "hang_right Leaf t = t"
| "hang_right (Node l x r) t = Node l x (hang_right r t)"

fun hang_left :: "'a tree \<Rightarrow> 'a tree \<Rightarrow> 'a tree" where
  "hang_left Leaf t = t"
| "hang_left (Node l x r) t = Node (hang_left l t) x r"

text \<open>
  The loop of \<^verbatim>\<open>splay_top_down\<close>: the left tree, the current root, the right tree, and the
  value \<^verbatim>\<open>c\<close> has when the loop stops.
\<close>

function splay_loop ::
  "('a \<Rightarrow> 'a \<Rightarrow> int) \<Rightarrow> 'a \<Rightarrow> 'a tree \<Rightarrow> 'a tree \<Rightarrow> 'a tree \<Rightarrow> 'a tree \<times> 'a tree \<times> 'a tree \<times> int" where
  "splay_loop cmp d L Leaf R = (L, Leaf, R, 0)"
| "splay_loop cmp d L (Node l x r) R =
     (let c = cmp d x in
      if c = 0 then (L, Node l x r, R, c)
      else if c < 0 then
        (case l of
           Leaf \<Rightarrow> (L, Node l x r, R, c)
         | Node ll y lr \<Rightarrow>
             let c' = cmp d y in
             if c' < 0 \<and> ll \<noteq> Leaf
             then splay_loop cmp d L ll (hang_left R (Node Leaf y (Node lr x r)))
             else if c' > 0 \<and> lr \<noteq> Leaf
             then splay_loop cmp d (hang_right L (Node ll y Leaf)) lr
                    (hang_left R (Node Leaf x r))
             else (L, Node ll y lr, hang_left R (Node Leaf x r), c'))
      else
        (case r of
           Leaf \<Rightarrow> (L, Node l x r, R, c)
         | Node rl y rr \<Rightarrow>
             let c' = cmp d y in
             if c' > 0 \<and> rr \<noteq> Leaf
             then splay_loop cmp d (hang_right L (Node (Node l x rl) y Leaf)) rr R
             else if c' < 0 \<and> rl \<noteq> Leaf
             then splay_loop cmp d (hang_right L (Node l x Leaf)) rl
                    (hang_left R (Node Leaf y rr))
             else (hang_right L (Node l x Leaf), Node rl y rr, R, c')))"
  by pat_completeness auto
termination
  by (relation "measure (\<lambda>(cmp, d, L, t, R). size t)") auto

text \<open>The merge at the end of \<^verbatim>\<open>splay_top_down\<close>.\<close>

definition splay_merge :: "'a tree \<Rightarrow> 'a tree \<Rightarrow> 'a tree \<Rightarrow> 'a tree" where
  "splay_merge L t R =
     (case t of
        Leaf \<Rightarrow> Leaf
      | Node l x r \<Rightarrow>
          Node (if L \<noteq> Leaf then hang_right L l else l) x
               (if R \<noteq> Leaf then hang_left R r else r))"

definition splay_top_down :: "'a splay_tree \<Rightarrow> 'a \<Rightarrow> 'a splay_tree \<times> 'a option \<times> int" where
  "splay_top_down T d =
     (case root T of
        Leaf \<Rightarrow> (T, None, 0)
      | Node _ _ _ \<Rightarrow>
          (case splay_loop (compare T) d Leaf (root T) Leaf of
             (L, t, R, c) \<Rightarrow>
               (case splay_merge L t R of
                  Leaf \<Rightarrow> (T\<lparr>root := Leaf\<rparr>, None, c)
                | Node l x r \<Rightarrow> (T\<lparr>root := Node l x r\<rparr>, Some x, c))))"

text \<open>
  One frame per ancestor: \<open>LeftOf p r\<close> when the node hangs left of \<open>p\<close> and \<open>r\<close> is the other
  subtree, \<open>RightOf l p\<close> when it hangs right of \<open>p\<close>.
\<close>

datatype 'a frame = LeftOf 'a "'a tree" | RightOf "'a tree" 'a

fun path_to :: "'a \<Rightarrow> 'a tree \<Rightarrow> 'a frame list \<Rightarrow> ('a tree \<times> 'a tree \<times> 'a frame list) option" where
  "path_to n Leaf path = None"
| "path_to n (Node l x r) path =
     (if x = n then Some (l, r, path)
      else case path_to n l (LeftOf x r # path) of
             Some p \<Rightarrow> Some p
           | None \<Rightarrow> path_to n r (RightOf l x # path))"

text \<open>
  The loop of \<^verbatim>\<open>splay_bottom_up\<close> on the subtrees of the node and its ancestors, nearest
  first: zig, the two zig-zigs and the two zig-zags in the order of the code.
\<close>

fun rotate_up :: "'a tree \<Rightarrow> 'a \<Rightarrow> 'a tree \<Rightarrow> 'a frame list \<Rightarrow> 'a tree" where
  "rotate_up l n r [] = Node l n r"
| "rotate_up l n r [LeftOf p pr] = Node l n (Node r p pr)"
| "rotate_up l n r [RightOf pl p] = Node (Node pl p l) n r"
| "rotate_up l n r (LeftOf p pr # LeftOf g gr # path) =
     rotate_up l n (Node r p (Node pr g gr)) path"
| "rotate_up l n r (RightOf pl p # RightOf gl g # path) =
     rotate_up (Node (Node gl g pl) p l) n r path"
| "rotate_up l n r (RightOf pl p # LeftOf g gr # path) =
     rotate_up (Node pl p l) n (Node r g gr) path"
| "rotate_up l n r (LeftOf p pr # RightOf gl g # path) =
     rotate_up (Node gl g l) n (Node r p pr) path"

definition splay_bottom_up :: "'a splay_tree \<Rightarrow> 'a \<Rightarrow> 'a splay_tree" where
  "splay_bottom_up T n =
     (case path_to n (root T) [] of
        None \<Rightarrow> T
      | Some (l, r, path) \<Rightarrow> T\<lparr>root := rotate_up l n r path\<rparr>)"

section \<open>Searching\<close>

text \<open>
  The value of \<^verbatim>\<open>next\<close> and \<^verbatim>\<open>prev\<close> of a node, read off the threaded list.
\<close>

fun next_link :: "'a \<Rightarrow> 'a list \<Rightarrow> 'a option" where
  "next_link n (x # y # zs) = (if x = n then Some y else next_link n (y # zs))"
| "next_link n _ = None"

fun prev_link :: "'a \<Rightarrow> 'a list \<Rightarrow> 'a option" where
  "prev_link n (x # y # zs) = (if y = n then Some x else prev_link n (y # zs))"
| "prev_link n _ = None"

definition splay_search_closest_node :: "'a splay_tree \<Rightarrow> 'a \<Rightarrow> 'a splay_tree \<times> 'a option \<times> int" where
  "splay_search_closest_node T d = splay_top_down T d"

definition splay_search_node :: "'a splay_tree \<Rightarrow> 'a \<Rightarrow> 'a splay_tree \<times> 'a option" where
  "splay_search_node T d =
     (case splay_search_closest_node T d of (T', node, result) \<Rightarrow>
        (T', if result \<noteq> 0 then None else node))"

definition splay_search :: "'a splay_tree \<Rightarrow> 'a \<Rightarrow> 'a splay_tree \<times> 'a option" where
  "splay_search T d = splay_search_node T d"

definition splay_search_closest_smaller_node :: "'a splay_tree \<Rightarrow> 'a \<Rightarrow> 'a splay_tree \<times> 'a option" where
  "splay_search_closest_smaller_node T d =
     (case splay_search_closest_node T d of (T', node, result) \<Rightarrow>
        (T', if result < 0 then Option.bind node (\<lambda>n. prev_link n (links T')) else node))"

definition splay_search_closest_greater_node :: "'a splay_tree \<Rightarrow> 'a \<Rightarrow> 'a splay_tree \<times> 'a option" where
  "splay_search_closest_greater_node T d =
     (case splay_search_closest_node T d of (T', node, result) \<Rightarrow>
        (T', if result > 0 then Option.bind node (\<lambda>n. next_link n (links T')) else node))"

text \<open>
  \<^verbatim>\<open>splay_search_closest_node_nosplay\<close>: the plain descent, which leaves the tree as it is.
\<close>

fun search_nosplay :: "('a \<Rightarrow> 'a \<Rightarrow> int) \<Rightarrow> 'a \<Rightarrow> 'a tree \<Rightarrow> 'a option \<times> int" where
  "search_nosplay cmp d Leaf = (None, 0)"
| "search_nosplay cmp d (Node l x r) =
     (let c = cmp d x in
      if c < 0 then (if l \<noteq> Leaf then search_nosplay cmp d l else (Some x, c))
      else if c > 0 then (if r \<noteq> Leaf then search_nosplay cmp d r else (Some x, c))
      else (Some x, c))"

definition splay_search_closest_node_nosplay :: "'a splay_tree \<Rightarrow> 'a \<Rightarrow> 'a option \<times> int" where
  "splay_search_closest_node_nosplay T d = search_nosplay (compare T) d (root T)"

section \<open>Insertion and deletion\<close>

definition splay_alloc_tree :: "('a \<Rightarrow> 'a \<Rightarrow> int) \<Rightarrow> bool \<Rightarrow> 'a splay_tree" where
  "splay_alloc_tree cmp del =
     \<lparr>links = [], root = Leaf, compare = cmp, has_delete = del, count = 0, generation = 0\<rparr>"

fun link_before :: "'a \<Rightarrow> 'a \<Rightarrow> 'a list \<Rightarrow> 'a list" where
  "link_before b n [] = []"
| "link_before b n (x # xs) = (if x = b then n # x # xs else x # link_before b n xs)"

fun link_after :: "'a \<Rightarrow> 'a \<Rightarrow> 'a list \<Rightarrow> 'a list" where
  "link_after a n [] = []"
| "link_after a n (x # xs) = (if x = a then x # n # xs else x # link_after a n xs)"

definition splay_insert_top :: "'a splay_tree \<Rightarrow> 'a \<Rightarrow> 'a splay_tree" where
  "splay_insert_top T n =
     T\<lparr>links := [n], root := Node Leaf n Leaf,
       count := count T + 1, generation := generation T + 1\<rparr>"

text \<open>The body of \<^verbatim>\<open>splay_insert_before\<close> for a node that is there.\<close>

definition insert_before_node :: "'a splay_tree \<Rightarrow> 'a \<Rightarrow> 'a \<Rightarrow> 'a splay_tree" where
  "insert_before_node T b n =
     (let T1 = splay_bottom_up (T\<lparr>links := link_before b n (links T)\<rparr>) b
      in T1\<lparr>root := (case root T1 of
                        Leaf \<Rightarrow> Node Leaf n Leaf
                      | Node bl b' br \<Rightarrow> Node bl n (Node Leaf b' br)),
            count := count T1 + 1, generation := generation T1 + 1\<rparr>)"

definition insert_after_node :: "'a splay_tree \<Rightarrow> 'a \<Rightarrow> 'a \<Rightarrow> 'a splay_tree" where
  "insert_after_node T a n =
     (let T1 = splay_bottom_up (T\<lparr>links := link_after a n (links T)\<rparr>) a
      in T1\<lparr>root := (case root T1 of
                        Leaf \<Rightarrow> Node Leaf n Leaf
                      | Node al a' ar \<Rightarrow> Node (Node al a' Leaf) n ar),
            count := count T1 + 1, generation := generation T1 + 1\<rparr>)"

definition splay_insert_before :: "'a splay_tree \<Rightarrow> 'a option \<Rightarrow> 'a \<Rightarrow> 'a splay_tree" where
  "splay_insert_before T before n =
     (case before of
        Some b \<Rightarrow> insert_before_node T b n
      | None \<Rightarrow> (if links T \<noteq> [] then insert_after_node T (last (links T)) n
                 else splay_insert_top T n))"

definition splay_insert_after :: "'a splay_tree \<Rightarrow> 'a option \<Rightarrow> 'a \<Rightarrow> 'a splay_tree" where
  "splay_insert_after T after n =
     (case after of
        Some a \<Rightarrow> insert_after_node T a n
      | None \<Rightarrow> (if links T \<noteq> [] then insert_before_node T (hd (links T)) n
                 else splay_insert_top T n))"

text \<open>
  \<^verbatim>\<open>splay_insert\<close> and \<^verbatim>\<open>splay_insert_node\<close> differ only in who allocates the node. The
  result is \<open>None\<close> (NULL) when an equal element is there already.
\<close>

definition splay_insert :: "'a splay_tree \<Rightarrow> 'a \<Rightarrow> 'a splay_tree \<times> 'a option" where
  "splay_insert T d =
     (if root T = Leaf then (splay_insert_top T d, Some d)
      else case splay_search_closest_node T d of (T1, closest, result) \<Rightarrow>
        if result = 0 then (T1, None)
        else if result < 0 then (splay_insert_before T1 closest d, Some d)
        else (splay_insert_after T1 closest d, Some d))"

definition splay_insert_node :: "'a splay_tree \<Rightarrow> 'a \<Rightarrow> 'a splay_tree \<times> 'a option" where
  "splay_insert_node T n =
     (if root T = Leaf then (splay_insert_top T n, Some n)
      else case splay_search_closest_node T n of (T1, closest, result) \<Rightarrow>
        if result = 0 then (T1, None)
        else if result < 0 then (splay_insert_before T1 closest n, Some n)
        else (splay_insert_after T1 closest n, Some n))"

text \<open>\<^verbatim>\<open>p->right = t\<close> for the node \<open>p\<close> of a tree.\<close>

fun set_right :: "'a \<Rightarrow> 'a tree \<Rightarrow> 'a tree \<Rightarrow> 'a tree" where
  "set_right p t Leaf = Leaf"
| "set_right p t (Node l x r) =
     (if x = p then Node l x t else Node (set_right p t l) x (set_right p t r))"

definition splay_unlink_node :: "'a splay_tree \<Rightarrow> 'a \<Rightarrow> 'a splay_tree" where
  "splay_unlink_node T n =
     (let prev = prev_link n (links T);
          next = next_link n (links T);
          T1 = splay_bottom_up (T\<lparr>links := remove1 n (links T)\<rparr>) n
      in T1\<lparr>root := (case root T1 of
                        Leaf \<Rightarrow> Leaf
                      | Node l n' r \<Rightarrow>
                          (case prev of
                             Some p \<Rightarrow> set_right p r l
                           | None \<Rightarrow> (case next of Some _ \<Rightarrow> r | None \<Rightarrow> Leaf))),
            count := count T1 - 1, generation := generation T1 + 1\<rparr>)"

definition splay_unlink :: "'a splay_tree \<Rightarrow> 'a \<Rightarrow> 'a splay_tree \<times> 'a option" where
  "splay_unlink T d =
     (case splay_search_node T d of
        (T1, Some n) \<Rightarrow> (splay_unlink_node T1 n, Some n)
      | (T1, None) \<Rightarrow> (T1, None))"

text \<open>
  The payloads handed to the tree's \<^verbatim>\<open>delete\<close> callback are returned beside the new tree.
\<close>

definition splay_free_node :: "'a splay_tree \<Rightarrow> 'a \<Rightarrow> 'a list" where
  "splay_free_node T n = (if has_delete T then [n] else [])"

definition splay_delete_node :: "'a splay_tree \<Rightarrow> 'a \<Rightarrow> 'a splay_tree \<times> 'a list" where
  "splay_delete_node T n = (splay_unlink_node T n, splay_free_node T n)"

definition splay_delete :: "'a splay_tree \<Rightarrow> 'a \<Rightarrow> 'a splay_tree \<times> 'a list" where
  "splay_delete T d =
     (case splay_search_node T d of
        (T1, Some n) \<Rightarrow> splay_delete_node T1 n
      | (T1, None) \<Rightarrow> (T1, []))"

definition splay_delete_tree :: "'a splay_tree \<Rightarrow> 'a list" where
  "splay_delete_tree T = concat (map (splay_free_node T) (links T))"

definition splay_foreach :: "('a \<Rightarrow> 's \<Rightarrow> 's) \<Rightarrow> 'a splay_tree \<Rightarrow> 's \<Rightarrow> 's" where
  "splay_foreach action T s = fold action (links T) s"

section \<open>Invariant\<close>

definition splay_wf :: "('a \<Rightarrow> bool) \<Rightarrow> 'a splay_tree \<Rightarrow> bool" where
  "splay_wf ok T \<longleftrightarrow>
     inorder (root T) = links T \<and>
     sorted_wrt (\<lambda>x y. compare T x y < 0) (links T) \<and>
     list_all ok (links T) \<and>
     count T = of_nat (length (links T))"

section \<open>Rotations keep the order of the nodes\<close>

lemma inorder_hang_right [simp]: "inorder (hang_right t u) = inorder t @ inorder u"
  by (induction t) auto

lemma inorder_hang_left [simp]: "inorder (hang_left t u) = inorder u @ inorder t"
  by (induction t) auto

lemma set_tree_hang [simp]:
  "set_tree (hang_right t u) = set_tree t \<union> set_tree u"
  "set_tree (hang_left t u) = set_tree t \<union> set_tree u"
  by (auto simp flip: set_inorder)

lemma inorder_splay_merge:
  "t \<noteq> Leaf \<Longrightarrow> inorder (splay_merge L t R) = inorder L @ inorder t @ inorder R"
  by (cases t) (auto simp: splay_merge_def)

declare splay_loop.simps(2) [simp del]

text \<open>
  The rule of the loop: what every rotation keeps holds when the loop stops, and it stops at a
  node whose comparison is the result, with no subtree on the side the key would be.
\<close>

lemma splay_loop_rule [consumes 1, case_names start zigzig_left zigzag_left zig_left
    zigzig_right zigzag_right zig_right]:
  assumes "splay_loop cmp d L t R = (L', t', R', c)"
    and "t \<noteq> Leaf \<and> I L t R"
    and "\<And>L ll y lr x r R. I L (Node (Node ll y lr) x r) R \<Longrightarrow> cmp d x < 0 \<Longrightarrow> cmp d y < 0 \<Longrightarrow>
           I L ll (hang_left R (Node Leaf y (Node lr x r)))"
    and "\<And>L ll y lr x r R. I L (Node (Node ll y lr) x r) R \<Longrightarrow> cmp d x < 0 \<Longrightarrow> 0 < cmp d y \<Longrightarrow>
           I (hang_right L (Node ll y Leaf)) lr (hang_left R (Node Leaf x r))"
    and "\<And>L ll y lr x r R. I L (Node (Node ll y lr) x r) R \<Longrightarrow> cmp d x < 0 \<Longrightarrow>
           I L (Node ll y lr) (hang_left R (Node Leaf x r))"
    and "\<And>L l x rl y rr R. I L (Node l x (Node rl y rr)) R \<Longrightarrow> 0 < cmp d x \<Longrightarrow> 0 < cmp d y \<Longrightarrow>
           I (hang_right L (Node (Node l x rl) y Leaf)) rr R"
    and "\<And>L l x rl y rr R. I L (Node l x (Node rl y rr)) R \<Longrightarrow> 0 < cmp d x \<Longrightarrow> cmp d y < 0 \<Longrightarrow>
           I (hang_right L (Node l x Leaf)) rl (hang_left R (Node Leaf y rr))"
    and "\<And>L l x rl y rr R. I L (Node l x (Node rl y rr)) R \<Longrightarrow> 0 < cmp d x \<Longrightarrow>
           I (hang_right L (Node l x Leaf)) (Node rl y rr) R"
  shows "\<exists>l x r. t' = Node l x r \<and> I L' t' R' \<and> c = cmp d x \<and>
           (c < 0 \<longrightarrow> l = Leaf) \<and> (0 < c \<longrightarrow> r = Leaf)"
  using assms(1,2)
proof (induction t arbitrary: L R rule: measure_induct_rule [where f = size])
  case (less t)
  from less.prems(2) obtain l x r where t: "t = Node l x r" and I: "I L (Node l x r) R"
    by (cases t) auto
  note eq = less.prems(1) [unfolded t splay_loop.simps(2) Let_def]
  consider "cmp d x = 0" | "cmp d x < 0" | "0 < cmp d x" by linarith
  then show ?case
  proof cases
    case 1
    with eq I show ?thesis by auto
  next
    case neg: 2
    show ?thesis
    proof (cases l)
      case Leaf
      with eq I neg show ?thesis by auto
    next
      case l: (Node ll y lr)
      consider "cmp d y < 0 \<and> ll \<noteq> Leaf" | "0 < cmp d y \<and> lr \<noteq> Leaf"
        | "\<not> (cmp d y < 0 \<and> ll \<noteq> Leaf)" "\<not> (0 < cmp d y \<and> lr \<noteq> Leaf)" by blast
      then show ?thesis
      proof cases
        case 1
        with eq I neg l t show ?thesis by (intro less.IH [of ll]) (auto intro: assms(3))
      next
        case 2
        with eq I neg l t show ?thesis by (intro less.IH [of lr]) (auto intro: assms(4))
      next
        case 3
        with eq I neg l show ?thesis by (auto intro: assms(5))
      qed
    qed
  next
    case pos: 3
    show ?thesis
    proof (cases r)
      case Leaf
      with eq I pos show ?thesis by auto
    next
      case r: (Node rl y rr)
      consider "0 < cmp d y \<and> rr \<noteq> Leaf" | "cmp d y < 0 \<and> rl \<noteq> Leaf"
        | "\<not> (0 < cmp d y \<and> rr \<noteq> Leaf)" "\<not> (cmp d y < 0 \<and> rl \<noteq> Leaf)" by blast
      then show ?thesis
      proof cases
        case 1
        with eq I pos r t show ?thesis by (intro less.IH [of rr]) (auto intro: assms(6))
      next
        case 2
        with eq I pos r t show ?thesis by (intro less.IH [of rl]) (auto intro: assms(7))
      next
        case 3
        with eq I pos r show ?thesis by (auto intro: assms(8))
      qed
    qed
  qed
qed

lemma splay_loop_inorder:
  assumes "splay_loop cmp d L t R = (L', t', R', c)" "t \<noteq> Leaf"
  shows "t' \<noteq> Leaf \<and> inorder L' @ inorder t' @ inorder R' = inorder L @ inorder t @ inorder R"
proof -
  have "\<exists>l x r. t' = Node l x r \<and>
          inorder L' @ inorder t' @ inorder R' = inorder L @ inorder t @ inorder R \<and> c = cmp d x \<and>
          (c < 0 \<longrightarrow> l = Leaf) \<and> (0 < c \<longrightarrow> r = Leaf)"
    using assms
    by (intro splay_loop_rule [where I = "\<lambda>A b C. inorder A @ inorder b @ inorder C =
          inorder L @ inorder t @ inorder R"]) auto
  then show ?thesis by auto
qed

text \<open>What stands before and after a node, read off the frames above it.\<close>

fun path_before :: "'a frame list \<Rightarrow> 'a list" where
  "path_before [] = []"
| "path_before (LeftOf p r # path) = path_before path"
| "path_before (RightOf l p # path) = path_before path @ inorder l @ [p]"

fun path_after :: "'a frame list \<Rightarrow> 'a list" where
  "path_after [] = []"
| "path_after (LeftOf p r # path) = p # inorder r @ path_after path"
| "path_after (RightOf l p # path) = path_after path"

lemma inorder_rotate_up:
  "inorder (rotate_up l n r path) =
     path_before path @ inorder l @ n # inorder r @ path_after path"
  by (induction l n r path rule: rotate_up.induct) auto

lemma rotate_up_root: "\<exists>l' r'. rotate_up l n r path = Node l' n r'"
  by (induction l n r path rule: rotate_up.induct) auto

lemma path_to_inorder:
  "path_to n t path = Some (l, r, path') \<Longrightarrow>
     path_before path' @ inorder l @ n # inorder r @ path_after path' =
     path_before path @ inorder t @ path_after path"
  by (induction n t path arbitrary: l r path' rule: path_to.induct)
     (auto split: if_splits option.splits)

lemma path_to_None: "path_to n t path = None \<longleftrightarrow> n \<notin> set (inorder t)"
  by (induction n t path rule: path_to.induct) (auto split: option.splits)

lemma splay_bottom_up_inorder [simp]:
  "inorder (root (splay_bottom_up T n)) = inorder (root T)"
  by (auto simp: splay_bottom_up_def inorder_rotate_up split: option.splits
      dest: path_to_inorder)

lemma splay_bottom_up_root:
  "n \<in> set (inorder (root T)) \<Longrightarrow> \<exists>l r. root (splay_bottom_up T n) = Node l n r"
  using path_to_None [of n "root T" "[]"] rotate_up_root
  by (auto simp: splay_bottom_up_def split: option.splits)

lemma splay_bottom_up_frame [simp]:
  "links (splay_bottom_up T n) = links T"
  "compare (splay_bottom_up T n) = compare T"
  "has_delete (splay_bottom_up T n) = has_delete T"
  "count (splay_bottom_up T n) = count T"
  "generation (splay_bottom_up T n) = generation T"
  by (auto simp: splay_bottom_up_def split: option.splits)

lemma splay_top_down_inorder:
  assumes "splay_top_down T d = (T', node, c)"
  shows "inorder (root T') = inorder (root T)"
proof (cases "root T")
  case Leaf
  with assms show ?thesis by (auto simp: splay_top_down_def)
next
  case (Node l x r)
  obtain L t R c' where loop: "splay_loop (compare T) d Leaf (root T) Leaf = (L, t, R, c')"
    by (metis prod_cases4)
  with Node have "t \<noteq> Leaf" "inorder L @ inorder t @ inorder R = inorder (root T)"
    using splay_loop_inorder [OF loop] by auto
  with assms Node loop show ?thesis
    using inorder_splay_merge [of t L R]
    by (auto simp: splay_top_down_def split: tree.splits)
qed

section \<open>Node-level insertion and removal\<close>

text \<open>
  The tree and the threaded list change in step: these lemmas need only that both hold the same
  distinct nodes, no order.
\<close>

lemma link_before_at: "b \<notin> set xs \<Longrightarrow> link_before b n (xs @ b # ys) = xs @ n # b # ys"
  by (induction xs) auto

lemma link_after_at: "a \<notin> set xs \<Longrightarrow> link_after a n (xs @ a # ys) = xs @ a # n # ys"
  by (induction xs) auto

lemma prev_link_at: "n \<notin> set xs \<Longrightarrow> xs \<noteq> [] \<Longrightarrow> prev_link n (xs @ n # ys) = Some (last xs)"
  by (induction xs rule: induct_list012) auto

lemma prev_link_absent: "n \<notin> set (tl ys) \<Longrightarrow> prev_link n ys = None"
  by (induction ys rule: induct_list012) auto

lemma next_link_at: "n \<notin> set xs \<Longrightarrow> next_link n (xs @ n # y # ys) = Some y"
  by (induction xs rule: induct_list012) auto

lemma next_link_last: "n \<notin> set xs \<Longrightarrow> next_link n (xs @ [n]) = None"
  by (induction xs rule: induct_list012) auto

lemma bottom_up_at:
  assumes "inorder (root T) = xs @ n # ys" "n \<notin> set xs" "n \<notin> set ys"
  obtains l r where "root (splay_bottom_up T n) = Node l n r" "inorder l = xs" "inorder r = ys"
proof -
  from assms(1) obtain l r where root: "root (splay_bottom_up T n) = Node l n r"
    using splay_bottom_up_root [of n T] by auto
  then have eq: "inorder l @ n # inorder r = xs @ n # ys"
    using splay_bottom_up_inorder [of T n] assms(1) by simp
  have "n \<notin> set (inorder l) \<and> n \<notin> set (inorder r)"
  proof -
    have "count_list (inorder l @ n # inorder r) n = 1"
      using assms by (simp add: eq count_list_0_iff)
    then show ?thesis by (simp add: count_list_0_iff)
  qed
  with eq assms root that show ?thesis by (auto simp: append_Cons_eq_iff)
qed

lemma insert_before_node_inorder:
  assumes "inorder (root T) = xs @ b # ys" "b \<notin> set xs" "b \<notin> set ys"
  shows "inorder (root (insert_before_node T b n)) = xs @ n # b # ys"
proof -
  let ?T = "T\<lparr>links := link_before b n (links T)\<rparr>"
  obtain l r where "root (splay_bottom_up ?T b) = Node l b r" "inorder l = xs" "inorder r = ys"
    using bottom_up_at [of ?T xs b ys] assms by auto
  then show ?thesis by (simp add: insert_before_node_def)
qed

lemma insert_after_node_inorder:
  assumes "inorder (root T) = xs @ a # ys" "a \<notin> set xs" "a \<notin> set ys"
  shows "inorder (root (insert_after_node T a n)) = xs @ a # n # ys"
proof -
  let ?T = "T\<lparr>links := link_after a n (links T)\<rparr>"
  obtain l r where "root (splay_bottom_up ?T a) = Node l a r" "inorder l = xs" "inorder r = ys"
    using bottom_up_at [of ?T xs a ys] assms by auto
  then show ?thesis by (simp add: insert_after_node_def)
qed

lemma insert_node_frame [simp]:
  "links (insert_before_node T b n) = link_before b n (links T)"
  "links (insert_after_node T b n) = link_after b n (links T)"
  "compare (insert_before_node T b n) = compare T"
  "compare (insert_after_node T b n) = compare T"
  "has_delete (insert_before_node T b n) = has_delete T"
  "has_delete (insert_after_node T b n) = has_delete T"
  "count (insert_before_node T b n) = count T + 1"
  "count (insert_after_node T b n) = count T + 1"
  by (simp_all add: insert_before_node_def insert_after_node_def Let_def)

lemma set_right_absent: "p \<notin> set (inorder t) \<Longrightarrow> set_right p u t = t"
  by (induction t) auto

text \<open>
  \<^verbatim>\<open>node->prev->right = node->right\<close> loses nothing: the predecessor is the last node of the
  left subtree, so its right pointer was NULL.
\<close>

lemma set_right_last:
  "distinct (inorder t) \<Longrightarrow> t \<noteq> Leaf \<Longrightarrow> p = last (inorder t) \<Longrightarrow>
     inorder (set_right p u t) = inorder t @ inorder u"
proof (induction t)
  case (Node l x r)
  show ?case
  proof (cases "r = Leaf")
    case True
    with Node.prems show ?thesis by simp
  next
    case False
    then have last: "last (inorder (Node l x r)) = last (inorder r)" by (cases r) auto
    from False have "last (inorder r) \<in> set (inorder r)" by (intro last_in_set) (cases r, auto)
    with Node.prems last have "p \<noteq> x" "p \<notin> set (inorder l)" by auto
    with Node False last show ?thesis by (simp add: set_right_absent)
  qed
qed simp

lemma splay_unlink_node_inorder:
  assumes "inorder (root T) = xs @ n # ys" "links T = xs @ n # ys" "distinct (xs @ n # ys)"
  shows "inorder (root (splay_unlink_node T n)) = xs @ ys"
proof -
  let ?T = "T\<lparr>links := remove1 n (links T)\<rparr>"
  obtain l r where root: "root (splay_bottom_up ?T n) = Node l n r"
    and lr: "inorder l = xs" "inorder r = ys"
    using bottom_up_at [of ?T xs n ys] assms by auto
  show ?thesis
  proof (cases "xs = []")
    case True
    with assms lr root show ?thesis
      by (cases ys) (auto simp: splay_unlink_node_def prev_link_absent)
  next
    case False
    with assms lr have "inorder (set_right (last xs) r l) = xs @ ys"
      using set_right_last [of l "last xs" r] by (cases l) auto
    with False assms root show ?thesis
      by (auto simp: splay_unlink_node_def prev_link_at)
  qed
qed

lemma splay_unlink_node_frame [simp]:
  "links (splay_unlink_node T n) = remove1 n (links T)"
  "compare (splay_unlink_node T n) = compare T"
  "has_delete (splay_unlink_node T n) = has_delete T"
  "count (splay_unlink_node T n) = count T - 1"
  by (simp_all add: splay_unlink_node_def Let_def)

section \<open>The search ends next to the key\<close>

context c_compare
begin

lemma below_left:
  assumes "ok d" "ok x" "0 \<le> cmp d x" "ok z" "cmp z x < 0"
  shows "0 < cmp d z"
proof -
  have "cmp x d \<le> 0" using cmp_swap [of d x] cmp_zero_sym [of d x] assms by linarith
  with assms have "cmp z d < 0" by (intro cmp_less_trans [of z x d]) simp_all
  with assms show ?thesis by (simp add: cmp_swap)
qed

lemma above_right:
  "ok d \<Longrightarrow> ok x \<Longrightarrow> cmp d x \<le> 0 \<Longrightarrow> ok z \<Longrightarrow> cmp x z < 0 \<Longrightarrow> cmp d z < 0"
  by (rule cmp_le_less_trans [of d x z])

text \<open>In a sorted list it is enough to compare with the neighbours.\<close>

lemma all_below:
  assumes "sorted_wrt (\<lambda>x y. cmp x y < 0) xs" "list_all ok xs" "ok d"
    and "xs \<noteq> [] \<longrightarrow> 0 < cmp d (last xs)"
  shows "\<forall>y \<in> set xs. 0 < cmp d y"
proof (cases xs rule: rev_cases)
  case (snoc ys z)
  with assms have "ok z" "0 \<le> cmp d z" "0 < cmp d z" by auto
  with assms snoc below_left [of d z] show ?thesis
    by (auto simp: sorted_wrt_append list_all_iff)
qed simp

lemma all_above:
  assumes "sorted_wrt (\<lambda>x y. cmp x y < 0) xs" "list_all ok xs" "ok d"
    and "xs \<noteq> [] \<longrightarrow> cmp d (hd xs) < 0"
  shows "\<forall>y \<in> set xs. cmp d y < 0"
proof (cases xs)
  case (Cons z ys)
  with assms have "ok z" "cmp d z \<le> 0" "cmp d z < 0" by auto
  with assms Cons above_right [of d z] show ?thesis
    by (auto simp: list_all_iff)
qed simp

lemma splay_loop_order:
  assumes "splay_loop cmp d Leaf t Leaf = (L', t', R', c)" "t \<noteq> Leaf" "ok d"
    and "list_all ok (inorder t)" "sorted_wrt (\<lambda>x y. cmp x y < 0) (inorder t)"
  shows "\<exists>l x r. t' = Node l x r \<and> c = cmp d x \<and> ok x \<and>
           (\<forall>y \<in> set (inorder L') \<union> set (inorder l). 0 < cmp d y) \<and>
           (\<forall>y \<in> set (inorder R') \<union> set (inorder r). cmp d y < 0)"
proof -
  let ?I = "\<lambda>A b C. (inorder A \<noteq> [] \<longrightarrow> 0 < cmp d (last (inorder A))) \<and>
     (inorder C \<noteq> [] \<longrightarrow> cmp d (hd (inorder C)) < 0)"
  have "\<exists>l x r. t' = Node l x r \<and> ?I L' t' R' \<and> c = cmp d x \<and>
          (c < 0 \<longrightarrow> l = Leaf) \<and> (0 < c \<longrightarrow> r = Leaf)"
    using assms(2) by (intro splay_loop_rule [where I = ?I, OF assms(1)]) simp_all
  then obtain l x r where t': "t' = Node l x r" and I: "?I L' t' R'"
    and c: "c = cmp d x" "c < 0 \<longrightarrow> l = Leaf" "0 < c \<longrightarrow> r = Leaf" by blast
  have eq: "inorder t = inorder L' @ inorder l @ x # inorder r @ inorder R'"
    using splay_loop_inorder [OF assms(1,2)] t' by simp
  have ok: "list_all ok (inorder L')" "list_all ok (inorder l)" "ok x"
      "list_all ok (inorder r)" "list_all ok (inorder R')"
    using assms(4) by (simp_all add: eq)
  have L: "\<forall>y \<in> set (inorder L'). 0 < cmp d y"
    using assms(3,5) ok I by (intro all_below) (simp_all add: eq sorted_wrt_append)
  have R: "\<forall>y \<in> set (inorder R'). cmp d y < 0"
    using assms(3,5) ok I by (intro all_above) (simp_all add: eq sorted_wrt_append)
  have near: "\<forall>y \<in> set (inorder l). ok y \<and> cmp y x < 0" "\<forall>y \<in> set (inorder r). ok y \<and> cmp x y < 0"
    using assms(5) ok by (simp_all add: eq sorted_wrt_append list_all_iff)
  have l: "\<forall>y \<in> set (inorder l). 0 < cmp d y"
    using near(1) c(1,2) below_left [OF assms(3) ok(3)] by (cases "0 \<le> c") simp_all
  have r: "\<forall>y \<in> set (inorder r). cmp d y < 0"
    using near(2) c(1,3) above_right [OF assms(3) ok(3)] by (cases "c \<le> 0") simp_all
  from t' c(1) ok(3) L R l r show ?thesis by (simp add: ball_Un)
qed

end

section \<open>The container as a sorted list\<close>

text \<open>
  The abstract container is the list of its elements in key order. Lookup, insertion and removal
  are by the comparison alone.
\<close>

definition ordered_lookup :: "('a \<Rightarrow> 'a \<Rightarrow> int) \<Rightarrow> 'a \<Rightarrow> 'a list \<Rightarrow> 'a option" where
  "ordered_lookup cmp d xs = List.find (\<lambda>x. cmp d x = 0) xs"

definition ordered_insert :: "('a \<Rightarrow> 'a \<Rightarrow> int) \<Rightarrow> 'a \<Rightarrow> 'a list \<Rightarrow> 'a list" where
  "ordered_insert cmp d xs =
     (if ordered_lookup cmp d xs \<noteq> None then xs
      else takeWhile (\<lambda>x. 0 < cmp d x) xs @ d # dropWhile (\<lambda>x. 0 < cmp d x) xs)"

definition ordered_delete :: "('a \<Rightarrow> 'a \<Rightarrow> int) \<Rightarrow> 'a \<Rightarrow> 'a list \<Rightarrow> 'a list" where
  "ordered_delete cmp d xs = filter (\<lambda>x. cmp d x \<noteq> 0) xs"

lemma set_ordered_insert:
  "set (ordered_insert cmp d xs) = (if \<exists>x \<in> set xs. cmp d x = 0 then set xs else insert d (set xs))"
proof -
  have "set (takeWhile P xs @ d # dropWhile P xs) = insert d (set (takeWhile P xs @ dropWhile P xs))" for P
    by (simp only: set_append list.set Un_insert_right)
  then have "set (takeWhile P xs @ d # dropWhile P xs) = insert d (set xs)" for P by simp
  moreover have "ordered_lookup cmp d xs = None \<longleftrightarrow> \<not> (\<exists>x \<in> set xs. cmp d x = 0)"
    by (auto simp: ordered_lookup_def find_None_iff)
  ultimately show ?thesis by (simp add: ordered_insert_def)
qed

lemma set_ordered_delete: "set (ordered_delete cmp d xs) = {x \<in> set xs. cmp d x \<noteq> 0}"
  by (auto simp: ordered_delete_def)

lemma sorted_wrt_cases: "sorted_wrt P xs \<Longrightarrow> x \<in> set xs \<Longrightarrow> y \<in> set xs \<Longrightarrow> x \<noteq> y \<Longrightarrow> P x y \<or> P y x"
  by (induction xs) auto

lemma filter_nonzero: "\<forall>y \<in> set xs. f y \<noteq> (0::int) \<Longrightarrow> filter (\<lambda>y. f y \<noteq> 0) xs = xs"
  by (simp add: filter_id_conv)

lemma ordered_split:
  assumes "\<forall>y \<in> set xs. 0 < cmp d y" "\<forall>y \<in> set ys. cmp d y < 0"
  shows "takeWhile (\<lambda>x. 0 < cmp d x) (xs @ ys) = xs" "dropWhile (\<lambda>x. 0 < cmp d x) (xs @ ys) = ys"
    "ordered_lookup cmp d (xs @ ys) = None" "ordered_delete cmp d (xs @ ys) = xs @ ys"
proof -
  show "takeWhile (\<lambda>x. 0 < cmp d x) (xs @ ys) = xs" "dropWhile (\<lambda>x. 0 < cmp d x) (xs @ ys) = ys"
    using assms by (cases ys; simp)+
  show "ordered_lookup cmp d (xs @ ys) = None"
    using assms by (auto simp: ordered_lookup_def find_None_iff)
  have "filter (\<lambda>x. cmp d x \<noteq> 0) (xs @ ys) = xs @ ys"
    using assms by (intro filter_nonzero) auto
  then show "ordered_delete cmp d (xs @ ys) = xs @ ys" by (simp only: ordered_delete_def)
qed

lemma ordered_hit:
  assumes "\<forall>y \<in> set xs. 0 < cmp d y" "\<forall>y \<in> set ys. cmp d y < 0" "cmp d x = 0"
  shows "ordered_lookup cmp d (xs @ x # ys) = Some x" "ordered_delete cmp d (xs @ x # ys) = xs @ ys"
proof -
  show "ordered_lookup cmp d (xs @ x # ys) = Some x"
    using assms(1,3) unfolding ordered_lookup_def by (induction xs) auto
  show "ordered_delete cmp d (xs @ x # ys) = xs @ ys"
    using ordered_split(4) [of xs cmp d ys] assms by (simp add: ordered_delete_def)
qed

context c_compare
begin

lemma sorted_distinct:
  "sorted_wrt (\<lambda>x y. cmp x y < 0) xs \<Longrightarrow> list_all ok xs \<Longrightarrow> distinct xs"
  by (induction xs) (auto simp: list_all_iff, metis cmp_refl less_irrefl)

lemma splay_wf_distinct: "compare T = cmp \<Longrightarrow> splay_wf ok T \<Longrightarrow> distinct (links T)"
  using sorted_distinct by (simp add: splay_wf_def)

text \<open>
  What a search leaves: the same elements, with the closest one at the root between those below
  and those above the key.
\<close>

lemma splay_top_down_spec:
  assumes T: "compare T = cmp" "splay_wf ok T" and d: "ok d" and ne: "links T \<noteq> []"
  obtains T' l x r where "splay_top_down T d = (T', Some x, cmp d x)" "root T' = Node l x r"
    "links T' = links T" "compare T' = cmp" "count T' = count T" "has_delete T' = has_delete T"
    "links T = inorder l @ x # inorder r" "ok x"
    "\<forall>y \<in> set (inorder l). 0 < cmp d y" "\<forall>y \<in> set (inorder r). cmp d y < 0"
proof -
  from T ne have io: "inorder (root T) = links T" and root: "root T \<noteq> Leaf"
    by (auto simp: splay_wf_def)
  obtain L t R c where loop: "splay_loop cmp d Leaf (root T) Leaf = (L, t, R, c)"
    by (metis prod_cases4)
  with T d root io obtain l x r where t: "t = Node l x r" "c = cmp d x" "ok x"
    and below: "\<forall>y \<in> set (inorder L) \<union> set (inorder l). 0 < cmp d y"
    and above: "\<forall>y \<in> set (inorder R) \<union> set (inorder r). cmp d y < 0"
    using splay_loop_order [of d "root T" L t R c] by (auto simp: splay_wf_def)
  let ?l = "if L \<noteq> Leaf then hang_right L l else l" and ?r = "if R \<noteq> Leaf then hang_left R r else r"
  have "inorder ?l @ x # inorder ?r = links T"
    using splay_loop_inorder [OF loop root] io t by auto
  moreover have "splay_top_down T d = (T\<lparr>root := Node ?l x ?r\<rparr>, Some x, cmp d x)"
    using root loop t T(1) by (auto simp: splay_top_down_def splay_merge_def split: tree.splits)
  moreover have "\<forall>y \<in> set (inorder ?l). 0 < cmp d y" "\<forall>y \<in> set (inorder ?r). cmp d y < 0"
    using below above by auto
  ultimately show thesis
    using t T(1) by (intro that [of "T\<lparr>root := Node ?l x ?r\<rparr>" x ?l ?r]) auto
qed

lemma splay_top_down_empty: "splay_wf ok T \<Longrightarrow> links T = [] \<Longrightarrow> splay_top_down T d = (T, None, 0)"
  by (auto simp: splay_wf_def splay_top_down_def split: tree.splits)

lemma splay_search_node_spec:
  assumes T: "compare T = cmp" "splay_wf ok T" and d: "ok d"
  obtains T' where "splay_search_node T d = (T', ordered_lookup cmp d (links T))"
    "splay_wf ok T'" "links T' = links T" "compare T' = cmp" "has_delete T' = has_delete T"
proof (cases "links T = []")
  case True
  with T show thesis
    by (intro that [of T])
       (auto simp: splay_search_node_def splay_search_closest_node_def splay_top_down_empty
         ordered_lookup_def)
next
  case False
  then obtain T' l x r where s: "splay_top_down T d = (T', Some x, cmp d x)" "root T' = Node l x r"
    "links T' = links T" "compare T' = cmp" "count T' = count T" "has_delete T' = has_delete T"
    "links T = inorder l @ x # inorder r" "ok x"
    "\<forall>y \<in> set (inorder l). 0 < cmp d y" "\<forall>y \<in> set (inorder r). cmp d y < 0"
    using splay_top_down_spec [OF T d] by metis
  have "ordered_lookup cmp d (links T) = (if cmp d x \<noteq> 0 then None else Some x)"
    using s ordered_hit(1) [of "inorder l" cmp d "inorder r" x] ordered_split(3) [of "inorder l" cmp d "x # inorder r"]
      ordered_split(3) [of "inorder l @ [x]" cmp d "inorder r"]
    by (cases "cmp d x" "0::int" rule: linorder_cases) auto
  with s T show thesis
    by (intro that [of T'])
       (auto simp: splay_search_node_def splay_search_closest_node_def splay_wf_def)
qed

lemma sorted_insert:
  assumes "sorted_wrt (\<lambda>x y. cmp x y < 0) (xs @ ys)" "list_all ok (xs @ ys)" "ok d"
    and "\<forall>y \<in> set xs. 0 < cmp d y" "\<forall>y \<in> set ys. cmp d y < 0"
  shows "sorted_wrt (\<lambda>x y. cmp x y < 0) (xs @ d # ys)"
  using assms by (auto simp: sorted_wrt_append list_all_iff cmp_swap)

lemma splay_wf_insert_node:
  assumes T: "compare T = cmp" "splay_wf ok T" "links T = xs @ ys" and d: "ok d"
    and o: "\<forall>y \<in> set xs. 0 < cmp d y" "\<forall>y \<in> set ys. cmp d y < 0"
    and T': "compare T' = cmp" "links T' = xs @ d # ys" "inorder (root T') = xs @ d # ys"
      "count T' = count T + 1"
  shows "splay_wf ok T'" "links T' = ordered_insert cmp d (links T)"
    "ordered_lookup cmp d (links T) = None"
proof -
  show "ordered_lookup cmp d (links T) = None" "links T' = ordered_insert cmp d (links T)"
    using T T' ordered_split [of xs cmp d ys] o by (auto simp: ordered_insert_def)
  show "splay_wf ok T'"
    using T T' sorted_insert [of xs ys d] d o by (auto simp: splay_wf_def)
qed

lemma splay_insert_spec:
  assumes T: "compare T = cmp" "splay_wf ok T" and d: "ok d"
  obtains T' where
    "splay_insert T d = (T', if ordered_lookup cmp d (links T) = None then Some d else None)"
    "splay_wf ok T'" "links T' = ordered_insert cmp d (links T)" "compare T' = cmp"
    "has_delete T' = has_delete T"
proof (cases "links T = []")
  case True
  with T have "root T = Leaf" by (auto simp: splay_wf_def)
  with True T d show thesis
    by (intro that [of "splay_insert_top T d"])
       (auto simp: splay_insert_def splay_insert_top_def splay_wf_def ordered_insert_def
         ordered_lookup_def)
next
  case False
  then obtain T1 l x r where s: "splay_top_down T d = (T1, Some x, cmp d x)" "root T1 = Node l x r"
    "links T1 = links T" "compare T1 = cmp" "count T1 = count T" "has_delete T1 = has_delete T"
    "links T = inorder l @ x # inorder r" "ok x"
    and o: "\<forall>y \<in> set (inorder l). 0 < cmp d y" "\<forall>y \<in> set (inorder r). cmp d y < 0"
    using splay_top_down_spec [OF T d] by metis
  from s T have wf1: "splay_wf ok T1" by (simp add: splay_wf_def)
  from False T have root: "root T \<noteq> Leaf" by (auto simp: splay_wf_def)
  have x: "x \<notin> set (inorder l)" "x \<notin> set (inorder r)"
    using splay_wf_distinct [OF T] s(7) by auto
  note unfold = splay_insert_def splay_search_closest_node_def splay_insert_before_def
    splay_insert_after_def
  consider "cmp d x = 0" | "cmp d x < 0" | "0 < cmp d x" by linarith
  then show thesis
  proof cases
    case 1
    with s o root wf1 ordered_hit(1) [of "inorder l" cmp d "inorder r" x] show thesis
      by (intro that [of T1]) (auto simp: unfold ordered_insert_def)
  next
    case 2
    let ?T = "insert_before_node T1 x d"
    have "splay_wf ok ?T" "links ?T = ordered_insert cmp d (links T1)"
      "ordered_lookup cmp d (links T1) = None"
      using splay_wf_insert_node [of T1 "inorder l" "x # inorder r" d ?T] s o wf1 d 2 x
      by (simp_all add: insert_before_node_inorder link_before_at)
    with 2 s root show thesis by (intro that [of ?T]) (auto simp: unfold)
  next
    case 3
    let ?T = "insert_after_node T1 x d"
    have "splay_wf ok ?T" "links ?T = ordered_insert cmp d (links T1)"
      "ordered_lookup cmp d (links T1) = None"
      using splay_wf_insert_node [of T1 "inorder l @ [x]" "inorder r" d ?T] s o wf1 d 3 x
      by (simp_all add: insert_after_node_inorder link_after_at)
    with 3 s root show thesis by (intro that [of ?T]) (auto simp: unfold)
  qed
qed

lemma splay_insert_node_eq: "splay_insert_node T n = splay_insert T n"
  by (simp add: splay_insert_node_def splay_insert_def)

lemma splay_unlink_node_spec:
  assumes T: "compare T = cmp" "splay_wf ok T" and n: "n \<in> set (links T)"
  shows "splay_wf ok (splay_unlink_node T n)" "links (splay_unlink_node T n) = ordered_delete cmp n (links T)"
proof -
  from n obtain xs ys where split: "links T = xs @ n # ys" by (auto simp: in_set_conv_decomp)
  with splay_wf_distinct [OF T] have d: "distinct (xs @ n # ys)" by simp
  from T split have sorted: "sorted_wrt (\<lambda>x y. cmp x y < 0) (xs @ n # ys)"
    and ok: "list_all ok (xs @ n # ys)" by (auto simp: splay_wf_def)
  then have o: "\<forall>y \<in> set xs. 0 < cmp n y" "\<forall>y \<in> set ys. cmp n y < 0" "cmp n n = 0"
    by (auto simp: sorted_wrt_append list_all_iff cmp_refl simp flip: cmp_swap)
  have io: "inorder (root (splay_unlink_node T n)) = xs @ ys"
    using T split d by (intro splay_unlink_node_inorder) (auto simp: splay_wf_def)
  from d split have rm: "remove1 n (links T) = xs @ ys" by (simp add: remove1_append)
  show "links (splay_unlink_node T n) = ordered_delete cmp n (links T)"
    using rm split ordered_hit(2) [of xs cmp n ys n] o by simp
  show "splay_wf ok (splay_unlink_node T n)"
    using T split sorted ok io rm by (auto simp: splay_wf_def sorted_wrt_append)
qed

lemma ordered_lookup_in: "ordered_lookup cmp d xs = Some x \<Longrightarrow> x \<in> set xs \<and> cmp d x = 0"
  by (auto simp: ordered_lookup_def find_Some_iff)

lemma cmp_equal_subst:
  assumes "ok d" "ok x" "ok y" "cmp d x = 0"
  shows "cmp d y = 0 \<longleftrightarrow> cmp x y = 0"
  by (metis assms cmp_trans cmp_zero_sym cmp_swap linorder_neqE_linordered_idom order.irrefl
      order_refl cmp_less_trans cmp_le_less_trans)

lemma splay_delete_spec:
  assumes T: "compare T = cmp" "splay_wf ok T" and d: "ok d"
  obtains T' where
    "splay_delete T d = (T', case ordered_lookup cmp d (links T) of
       Some x \<Rightarrow> (if has_delete T then [x] else []) | None \<Rightarrow> [])"
    "splay_wf ok T'" "links T' = ordered_delete cmp d (links T)" "compare T' = cmp"
    "has_delete T' = has_delete T"
proof -
  obtain T1 where s: "splay_search_node T d = (T1, ordered_lookup cmp d (links T))"
    "splay_wf ok T1" "links T1 = links T" "compare T1 = cmp" "has_delete T1 = has_delete T"
    using splay_search_node_spec [OF T d] by metis
  show thesis
  proof (cases "ordered_lookup cmp d (links T)")
    case None
    then have "ordered_delete cmp d (links T) = links T"
      unfolding ordered_lookup_def ordered_delete_def
      by (intro filter_nonzero) (auto simp: find_None_iff)
    with None s show thesis by (intro that [of T1]) (auto simp: splay_delete_def)
  next
    case (Some x)
    then have x: "x \<in> set (links T)" "cmp d x = 0" by (auto dest: ordered_lookup_in)
    from T x have okx: "ok x" and all: "\<forall>y \<in> set (links T). ok y"
      by (auto simp: splay_wf_def list_all_iff)
    have "ordered_delete cmp x (links T) = ordered_delete cmp d (links T)"
      unfolding ordered_delete_def using cmp_equal_subst [OF d okx _ x(2)] all
      by (intro filter_cong) auto
    with Some s x show thesis
      using splay_unlink_node_spec [of T1 x]
      by (intro that [of "splay_unlink_node T1 x"])
         (auto simp: splay_delete_def splay_delete_node_def splay_free_node_def)
  qed
qed

text \<open>The map laws of the abstract container.\<close>

lemma ordered_lookup_insert:
  assumes "ok d" "ok e" "list_all ok xs"
  shows "ordered_lookup cmp e (ordered_insert cmp d xs) =
    (if cmp e d = 0 then (if ordered_lookup cmp d xs = None then Some d else ordered_lookup cmp d xs)
     else ordered_lookup cmp e xs)"
proof (cases "ordered_lookup cmp d xs")
  case None
  let ?P = "\<lambda>x. cmp e x = 0"
  have find: "List.find ?P (ys @ d # zs) = (if ?P d then Some d else List.find ?P (ys @ zs))"
    if "?P d \<longrightarrow> (\<forall>y \<in> set ys. \<not> ?P y)" for ys zs
    using that by (induction ys) auto
  have miss: "\<forall>y \<in> set xs. cmp e y \<noteq> 0" if "cmp e d = 0"
    using None that cmp_equal_subst [of e d] assms
    by (auto simp: ordered_lookup_def find_None_iff list_all_iff)
  have "List.find ?P (takeWhile (\<lambda>x. 0 < cmp d x) xs @ d # dropWhile (\<lambda>x. 0 < cmp d x) xs) =
      (if ?P d then Some d else List.find ?P xs)"
    using miss by (subst find) (auto dest: set_takeWhileD)
  with None show ?thesis by (simp add: ordered_insert_def ordered_lookup_def)
next
  case (Some x)
  have "ordered_lookup cmp e xs = ordered_lookup cmp d xs" if "cmp e d = 0"
    unfolding ordered_lookup_def using that cmp_equal_subst [of e d] assms
    by (intro find_cong) (auto simp: list_all_iff)
  with Some show ?thesis by (auto simp: ordered_insert_def)
qed

lemma ordered_lookup_delete:
  assumes "ok d" "ok e" "list_all ok xs"
  shows "ordered_lookup cmp e (ordered_delete cmp d xs) =
    (if cmp e d = 0 then None else ordered_lookup cmp e xs)"
proof -
  have same: "cmp e x = 0 \<Longrightarrow> cmp d x = 0 \<longleftrightarrow> cmp e d = 0" if "x \<in> set xs" for x
    using that assms cmp_equal_subst [of e x d] cmp_zero_sym [of x d] by (auto simp: list_all_iff)
  have "List.find (\<lambda>x. cmp e x = 0) (filter (\<lambda>x. cmp d x \<noteq> 0) xs) =
      (if cmp e d = 0 then None else List.find (\<lambda>x. cmp e x = 0) xs)"
    using same by (induction xs) auto
  then show ?thesis by (simp add: ordered_lookup_def ordered_delete_def)
qed

lemma ordered_delete_ok: "list_all ok xs \<Longrightarrow> list_all ok (ordered_delete cmp d xs)"
  by (auto simp: ordered_delete_def list_all_iff)

lemma ordered_insert_set:
  "ordered_lookup cmp d xs = None \<Longrightarrow> set (ordered_insert cmp d xs) = insert d (set xs)"
proof -
  assume "ordered_lookup cmp d xs = None"
  moreover have "set xs = set (takeWhile (\<lambda>x. 0 < cmp d x) xs) \<union> set (dropWhile (\<lambda>x. 0 < cmp d x) xs)"
    by (metis set_append takeWhile_dropWhile_id)
  ultimately show ?thesis by (auto simp: ordered_insert_def)
qed

end

section \<open>The interface the tables rely on\<close>

text \<open>
  What a client of the container may assume: a representation invariant that every operation
  keeps, and the elements after each operation in terms of the abstract list. \<open>search\<close> may
  rearrange the representation, never the elements.
\<close>

locale ordered_table = c_compare cmp ok
  for cmp :: "'a \<Rightarrow> 'a \<Rightarrow> int" and ok :: "'a \<Rightarrow> bool" +
  fixes ins :: "'t \<Rightarrow> 'a \<Rightarrow> 't \<times> 'a option"
    and del :: "'t \<Rightarrow> 'a \<Rightarrow> 't \<times> 'a list"
    and search :: "'t \<Rightarrow> 'a \<Rightarrow> 't \<times> 'a option"
    and elems :: "'t \<Rightarrow> 'a list"
    and inv :: "'t \<Rightarrow> bool"
  assumes inv_elems: "inv t \<Longrightarrow> list_all ok (elems t) \<and> sorted_wrt (\<lambda>x y. cmp x y < 0) (elems t)"
    and ins_law: "inv t \<Longrightarrow> ok d \<Longrightarrow> inv (fst (ins t d)) \<and>
       elems (fst (ins t d)) = ordered_insert cmp d (elems t) \<and>
       snd (ins t d) = (if ordered_lookup cmp d (elems t) = None then Some d else None)"
    and del_law: "inv t \<Longrightarrow> ok d \<Longrightarrow> inv (fst (del t d)) \<and>
       elems (fst (del t d)) = ordered_delete cmp d (elems t)"
    and search_law: "inv t \<Longrightarrow> ok d \<Longrightarrow> inv (fst (search t d)) \<and>
       elems (fst (search t d)) = elems t \<and> snd (search t d) = ordered_lookup cmp d (elems t)"
begin

lemma search_after_ins:
  assumes "inv t" "ok d" "ok e" "ordered_lookup cmp d (elems t) = None"
  shows "snd (search (fst (ins t d)) e) =
    (if cmp e d = 0 then Some d else snd (search t e))"
  using assms ins_law [of t d] search_law [of "fst (ins t d)" e] search_law [of t e] inv_elems [of t]
  by (simp add: ordered_lookup_insert)

lemma search_after_del:
  assumes "inv t" "ok d" "ok e"
  shows "snd (search (fst (del t d)) e) = (if cmp e d = 0 then None else snd (search t e))"
  using assms del_law [of t d] search_law [of "fst (del t d)" e] search_law [of t e] inv_elems [of t]
  by (simp add: ordered_lookup_delete)

lemma ins_duplicate:
  assumes "inv t" "ok d" "snd (search t d) = Some x"
  shows "snd (ins t d) = None" "elems (fst (ins t d)) = elems t"
  using assms ins_law [of t d] search_law [of t d] by (auto simp: ordered_insert_def)

end

definition splay_inv :: "('a \<Rightarrow> 'a \<Rightarrow> int) \<Rightarrow> ('a \<Rightarrow> bool) \<Rightarrow> 'a splay_tree \<Rightarrow> bool" where
  "splay_inv cmp ok T \<longleftrightarrow> compare T = cmp \<and> splay_wf ok T"

lemma splay_inv_alloc: "splay_inv cmp ok (splay_alloc_tree cmp del)"
  by (simp add: splay_inv_def splay_alloc_tree_def splay_wf_def)

text \<open>Every comparison that keeps its contract turns the splay tree into such a table.\<close>

sublocale c_compare \<subseteq> splay: ordered_table cmp ok splay_insert splay_delete splay_search links
  "splay_inv cmp ok"
proof
  fix T and d
  show "splay_inv cmp ok T \<Longrightarrow> list_all ok (links T) \<and> sorted_wrt (\<lambda>x y. cmp x y < 0) (links T)"
    by (auto simp: splay_inv_def splay_wf_def)
  assume "splay_inv cmp ok T" and d: "ok d"
  then have T: "compare T = cmp" "splay_wf ok T" by (auto simp: splay_inv_def)
  show "splay_inv cmp ok (fst (splay_insert T d)) \<and>
      links (fst (splay_insert T d)) = ordered_insert cmp d (links T) \<and>
      snd (splay_insert T d) = (if ordered_lookup cmp d (links T) = None then Some d else None)"
    by (rule splay_insert_spec [OF T d]) (simp add: splay_inv_def)
  show "splay_inv cmp ok (fst (splay_delete T d)) \<and>
      links (fst (splay_delete T d)) = ordered_delete cmp d (links T)"
    by (rule splay_delete_spec [OF T d]) (simp add: splay_inv_def)
  show "splay_inv cmp ok (fst (splay_search T d)) \<and>
      links (fst (splay_search T d)) = links T \<and>
      snd (splay_search T d) = ordered_lookup cmp d (links T)"
    by (rule splay_search_node_spec [OF T d]) (simp add: splay_inv_def splay_search_def)
qed

section \<open>Neighbour searches\<close>

context c_compare
begin

lemma closest_smaller_spec:
  assumes T: "compare T = cmp" "splay_wf ok T" and d: "ok d"
  shows "snd (splay_search_closest_smaller_node T d) =
    (let below = filter (\<lambda>x. 0 \<le> cmp d x) (links T) in if below = [] then None else Some (last below))"
proof (cases "links T = []")
  case True
  with T show ?thesis
    by (simp add: splay_search_closest_smaller_node_def splay_search_closest_node_def
        splay_top_down_empty)
next
  case False
  then obtain T1 l x r where s: "splay_top_down T d = (T1, Some x, cmp d x)" "links T1 = links T"
    "links T = inorder l @ x # inorder r"
    and o: "\<forall>y \<in> set (inorder l). 0 < cmp d y" "\<forall>y \<in> set (inorder r). cmp d y < 0"
    using splay_top_down_spec [OF T d] by metis
  have x: "x \<notin> set (inorder l)" "x \<notin> set (inorder r)"
    using splay_wf_distinct [OF T] s(3) by auto
  have "filter (\<lambda>x. 0 \<le> cmp d x) (inorder l) = inorder l" "filter (\<lambda>x. 0 \<le> cmp d x) (inorder r) = []"
    using o by (auto simp: filter_id_conv filter_empty_conv)
  with s x show ?thesis
    by (cases "inorder l = []")
       (auto simp: splay_search_closest_smaller_node_def splay_search_closest_node_def
         prev_link_at prev_link_absent)
qed

lemma closest_greater_spec:
  assumes T: "compare T = cmp" "splay_wf ok T" and d: "ok d"
  shows "snd (splay_search_closest_greater_node T d) =
    (let above = filter (\<lambda>x. cmp d x \<le> 0) (links T) in if above = [] then None else Some (hd above))"
proof (cases "links T = []")
  case True
  with T show ?thesis
    by (simp add: splay_search_closest_greater_node_def splay_search_closest_node_def
        splay_top_down_empty)
next
  case False
  then obtain T1 l x r where s: "splay_top_down T d = (T1, Some x, cmp d x)" "links T1 = links T"
    "links T = inorder l @ x # inorder r"
    and o: "\<forall>y \<in> set (inorder l). 0 < cmp d y" "\<forall>y \<in> set (inorder r). cmp d y < 0"
    using splay_top_down_spec [OF T d] by metis
  have x: "x \<notin> set (inorder l)" "x \<notin> set (inorder r)"
    using splay_wf_distinct [OF T] s(3) by auto
  have "filter (\<lambda>x. cmp d x \<le> 0) (inorder l) = []" "filter (\<lambda>x. cmp d x \<le> 0) (inorder r) = inorder r"
    using o by (auto simp: filter_id_conv filter_empty_conv)
  with s x show ?thesis
    by (cases "inorder r")
       (auto simp: splay_search_closest_greater_node_def splay_search_closest_node_def
         next_link_at next_link_last)
qed

lemma search_nosplay_spec:
  assumes "sorted_wrt (\<lambda>x y. cmp x y < 0) (inorder t)" "list_all ok (inorder t)" "ok d" "t \<noteq> Leaf"
  shows "\<exists>xs x ys. search_nosplay cmp d t = (Some x, cmp d x) \<and> inorder t = xs @ x # ys \<and>
    (\<forall>y \<in> set xs. 0 < cmp d y) \<and> (\<forall>y \<in> set ys. cmp d y < 0)"
  using assms
proof (induction t)
  case (Node l x r)
  from Node.prems have okx: "ok x" and
    near: "\<forall>y \<in> set (inorder l). ok y \<and> cmp y x < 0" "\<forall>y \<in> set (inorder r). ok y \<and> cmp x y < 0"
    by (auto simp: sorted_wrt_append list_all_iff)
  have below: "\<forall>y \<in> set (inorder l). 0 < cmp d y" if "0 \<le> cmp d x"
    using that near(1) below_left [OF \<open>ok d\<close> okx] by simp
  have above: "\<forall>y \<in> set (inorder r). cmp d y < 0" if "cmp d x \<le> 0"
    using that near(2) above_right [OF \<open>ok d\<close> okx] by simp
  consider "cmp d x < 0" "l \<noteq> Leaf" | "0 < cmp d x" "r \<noteq> Leaf"
    | "cmp d x < 0" "l = Leaf" | "0 < cmp d x" "r = Leaf" | "cmp d x = 0" by linarith
  then show ?case
  proof cases
    case 1
    with Node obtain xs z ys where IH: "search_nosplay cmp d l = (Some z, cmp d z)"
      "inorder l = xs @ z # ys" "\<forall>y \<in> set xs. 0 < cmp d y" "\<forall>y \<in> set ys. cmp d y < 0"
      by (auto simp: sorted_wrt_append)
    with 1 above show ?thesis
      by (intro exI [of _ xs] exI [of _ z] exI [of _ "ys @ x # inorder r"]) auto
  next
    case 2
    with Node obtain xs z ys where IH: "search_nosplay cmp d r = (Some z, cmp d z)"
      "inorder r = xs @ z # ys" "\<forall>y \<in> set xs. 0 < cmp d y" "\<forall>y \<in> set ys. cmp d y < 0"
      by (auto simp: sorted_wrt_append)
    with 2 below show ?thesis
      by (intro exI [of _ "inorder l @ x # xs"] exI [of _ z] exI [of _ ys]) auto
  qed (rule exI [of _ "inorder l"], rule exI [of _ x], rule exI [of _ "inorder r"],
    insert above below, simp)+
qed simp

end

section \<open>Sequences of operations\<close>

datatype 'a table_op = Ins 'a | Del 'a | Find 'a

fun op_key :: "'a table_op \<Rightarrow> 'a" where
  "op_key (Ins d) = d"
| "op_key (Del d) = d"
| "op_key (Find d) = d"

fun splay_step :: "'a splay_tree \<Rightarrow> 'a table_op \<Rightarrow> 'a splay_tree" where
  "splay_step T (Ins d) = fst (splay_insert T d)"
| "splay_step T (Del d) = fst (splay_delete T d)"
| "splay_step T (Find d) = fst (splay_search T d)"

fun ordered_step :: "('a \<Rightarrow> 'a \<Rightarrow> int) \<Rightarrow> 'a list \<Rightarrow> 'a table_op \<Rightarrow> 'a list" where
  "ordered_step cmp xs (Ins d) = ordered_insert cmp d xs"
| "ordered_step cmp xs (Del d) = ordered_delete cmp d xs"
| "ordered_step cmp xs (Find d) = xs"

context c_compare
begin

lemma splay_search_result:
  "splay_inv cmp ok T \<Longrightarrow> ok d \<Longrightarrow> snd (splay_search T d) = ordered_lookup cmp d (links T)"
  using splay.search_law by simp

lemma splay_step_refines:
  "splay_inv cmp ok T \<Longrightarrow> ok (op_key p) \<Longrightarrow>
     splay_inv cmp ok (splay_step T p) \<and> links (splay_step T p) = ordered_step cmp (links T) p"
  using splay.ins_law splay.del_law splay.search_law by (cases p) auto

lemma splay_run_refines:
  "splay_inv cmp ok T \<Longrightarrow> list_all (\<lambda>p. ok (op_key p)) ps \<Longrightarrow>
     splay_inv cmp ok (foldl splay_step T ps) \<and>
     links (foldl splay_step T ps) = foldl (ordered_step cmp) (links T) ps"
  by (induction ps arbitrary: T) (auto simp: splay_step_refines)

end

section \<open>Properties\<close>

text \<open>
  Property C1. Whatever sequence of \<^verbatim>\<open>splay_insert\<close>, \<^verbatim>\<open>splay_delete\<close> and
  \<^verbatim>\<open>splay_search\<close> calls is made on a fresh tree whose comparison keeps its contract, the
  tree pointers and the threaded list agree, the elements stand in strict key order, the counter
  is their number, and the elements are those of the abstract sorted list after the same
  operations.
\<close>

theorem splay_operations_refine:
  assumes "c_compare cmp ok" and "list_all (\<lambda>p. ok (op_key p)) ps"
  shows "splay_inv cmp ok (foldl splay_step (splay_alloc_tree cmp del) ps) \<and>
    links (foldl splay_step (splay_alloc_tree cmp del) ps) = foldl (ordered_step cmp) [] ps"
  using c_compare.splay_run_refines [OF assms(1) splay_inv_alloc assms(2), of del]
  by (simp add: splay_alloc_tree_def)

theorem splay_operations_refine_witness:
  "splay_inv strcmp c_string (foldl splay_step (splay_alloc_tree strcmp False)
      [Ins ''bob'', Ins ''alice'', Ins ''carol'', Find ''alice'', Del ''bob'']) \<and>
   links (foldl splay_step (splay_alloc_tree strcmp False)
      [Ins ''bob'', Ins ''alice'', Ins ''carol'', Find ''alice'', Del ''bob'']) = [''alice'', ''carol'']"
  using splay_operations_refine [OF strcmp_order.c_compare_axioms,
      of "[Ins ''bob'', Ins ''alice'', Ins ''carol'', Find ''alice'', Del ''bob'']" False]
  by (simp add: c_string_def ordered_insert_def ordered_lookup_def ordered_delete_def)

text \<open>
  \<^verbatim>\<open>splay_search_closest_smaller\<close> returns the greatest element not above the
  key and \<^verbatim>\<open>splay_search_closest_greater\<close> the least element not below it, NULL when there
  is none.
\<close>

theorem splay_closest_neighbours:
  assumes "c_compare cmp ok" and "splay_inv cmp ok T" and "ok d"
  shows "snd (splay_search_closest_smaller_node T d) =
      (let below = filter (\<lambda>x. 0 \<le> cmp d x) (links T)
       in if below = [] then None else Some (last below)) \<and>
    snd (splay_search_closest_greater_node T d) =
      (let above = filter (\<lambda>x. cmp d x \<le> 0) (links T)
       in if above = [] then None else Some (hd above))"
  using assms c_compare.closest_smaller_spec [OF assms(1)] c_compare.closest_greater_spec [OF assms(1)]
  by (simp add: splay_inv_def)

theorem splay_closest_neighbours_witness:
  "snd (splay_search_closest_smaller_node
      (foldl splay_step (splay_alloc_tree strcmp False) [Ins ''a'', Ins ''d'', Ins ''c'']) ''b'') = Some ''a'' \<and>
   snd (splay_search_closest_greater_node
      (foldl splay_step (splay_alloc_tree strcmp False) [Ins ''a'', Ins ''d'', Ins ''c'']) ''b'') = Some ''c''"
proof -
  let ?ps = "[Ins ''a'', Ins ''d'', Ins ''c'']"
  have ok: "list_all (\<lambda>p. c_string (op_key p)) ?ps" by (simp add: c_string_def)
  note T = strcmp_order.splay_run_refines [OF splay_inv_alloc ok, of False]
  have links: "links (foldl splay_step (splay_alloc_tree strcmp False) ?ps) = [''a'', ''c'', ''d'']"
    using T by (simp add: splay_alloc_tree_def ordered_insert_def ordered_lookup_def)
  show ?thesis
    using splay_closest_neighbours [OF strcmp_order.c_compare_axioms T [THEN conjunct1], of "''b''"] links
    by (simp add: c_string_def)
qed

text \<open>
  The read-only descent \<^verbatim>\<open>splay_search_closest_node_nosplay\<close> and the splaying
  search report the same thing: both return result 0 exactly when an equal element is stored,
  and then the same element.
\<close>

theorem splay_nosplay_agrees:
  assumes "c_compare cmp ok" and "splay_inv cmp ok T" and "ok d"
  shows "(case splay_search_closest_node_nosplay T d of (node, c) \<Rightarrow> if c \<noteq> 0 then None else node) =
    snd (splay_search T d)"
proof (cases "links T = []")
  case True
  with assms(2) have "root T = Leaf" by (auto simp: splay_inv_def splay_wf_def)
  then show ?thesis
    by (simp add: splay_search_closest_node_nosplay_def splay_search_def splay_search_node_def
        splay_search_closest_node_def splay_top_down_def)
next
  case False
  with assms(2) have T: "sorted_wrt (\<lambda>x y. cmp x y < 0) (inorder (root T))" "root T \<noteq> Leaf"
    "list_all ok (inorder (root T))" "inorder (root T) = links T" "compare T = cmp"
    by (auto simp: splay_inv_def splay_wf_def)
  from c_compare.search_nosplay_spec [OF assms(1) T(1,3) assms(3) T(2)]
  obtain xs x ys where s: "search_nosplay cmp d (root T) = (Some x, cmp d x)"
    "links T = xs @ x # ys" "\<forall>y \<in> set xs. 0 < cmp d y" "\<forall>y \<in> set ys. cmp d y < 0"
    using T(4) by auto
  have "ordered_lookup cmp d (links T) = (if cmp d x \<noteq> 0 then None else Some x)"
    using s ordered_hit(1) [of xs cmp d ys x] ordered_split(3) [of xs cmp d "x # ys"]
      ordered_split(3) [of "xs @ [x]" cmp d ys]
    by (cases "cmp d x" "0::int" rule: linorder_cases) auto
  with s T(5) c_compare.splay_search_result [OF assms]
  show ?thesis by (simp add: splay_search_closest_node_nosplay_def)
qed

theorem splay_nosplay_agrees_witness:
  "(case splay_search_closest_node_nosplay (splay_insert_top (splay_alloc_tree strcmp False) ''a'') ''a''
      of (node, c) \<Rightarrow> if c \<noteq> 0 then None else node) =
   snd (splay_search (splay_insert_top (splay_alloc_tree strcmp False) ''a'') ''a'')"
  by (rule splay_nosplay_agrees [OF strcmp_order.c_compare_axioms])
     (simp_all add: splay_inv_def splay_wf_def splay_insert_top_def splay_alloc_tree_def c_string_def)

end
