(* ===== verification/Http3_Frames.thy ===== *)
theory Http3_Frames
  imports Prelude "HOL-Library.Monad_Syntax"
begin

text \<open>
  HTTP/3 masquerading (\<^verbatim>\<open>src/http3_frames.c\<close>): QUIC variable-length integers, frame
  headers, DATA frames and the plain-text HEADERS frames that imitate a browser. An output buffer
  of which the caller states the size is that size; the bytes written are the result, and
  \<open>None\<close> is the C result 0 (or \<^verbatim>\<open>false\<close>). An input buffer is the list of its bytes.
\<close>

section \<open>Variable-length integers\<close>

definition http3_encode_varint :: "u64 \<Rightarrow> nat \<Rightarrow> bytes option" where
  "http3_encode_varint v sz =
     (if sz = 0 then None
      else if v < 64 then Some [ucast v]
      else if v < 16384 then
        (if sz < 2 then None else Some [0x40 OR ucast (drop_bit 8 v), ucast v])
      else if v < 1073741824 then
        (if sz < 4 then None
         else Some [0x80 OR ucast (drop_bit 24 v), ucast (drop_bit 16 v), ucast (drop_bit 8 v), ucast v])
      else
        (if sz < 8 then None
         else Some [0xC0 OR ucast (drop_bit 56 v), ucast (drop_bit 48 v), ucast (drop_bit 40 v),
                    ucast (drop_bit 32 v), ucast (drop_bit 24 v), ucast (drop_bit 16 v),
                    ucast (drop_bit 8 v), ucast v]))"

definition be64 :: "byte \<Rightarrow> nat \<Rightarrow> u64" where
  "be64 b n = push_bit n (ucast b)"

text \<open>The value and the number of bytes consumed.\<close>

fun http3_decode_varint :: "bytes \<Rightarrow> (u64 \<times> nat) option" where
  "http3_decode_varint [] = None"
| "http3_decode_varint (b0 # bs) =
     (let p = drop_bit 6 b0; lo = b0 AND 0x3F in
      if p = 0 then Some (ucast lo, 1)
      else if p = 1 then
        (case bs of b1 # _ \<Rightarrow> Some (be64 lo 8 OR ucast b1, 2) | _ \<Rightarrow> None)
      else if p = 2 then
        (case bs of b1 # b2 # b3 # _ \<Rightarrow>
           Some (be64 lo 24 OR be64 b1 16 OR be64 b2 8 OR ucast b3, 4) | _ \<Rightarrow> None)
      else
        (case bs of b1 # b2 # b3 # b4 # b5 # b6 # b7 # _ \<Rightarrow>
           Some (be64 lo 56 OR be64 b1 48 OR be64 b2 40 OR be64 b3 32 OR be64 b4 24 OR
                 be64 b5 16 OR be64 b6 8 OR ucast b7, 8) | _ \<Rightarrow> None))"

section \<open>Frame headers\<close>

abbreviation (input) HTTP3_FRAME_DATA :: byte where "HTTP3_FRAME_DATA \<equiv> 0"
abbreviation (input) HTTP3_FRAME_HEADERS :: byte where "HTTP3_FRAME_HEADERS \<equiv> 1"
abbreviation (input) HTTP3_MAX_HEADER_SIZE :: nat where "HTTP3_MAX_HEADER_SIZE \<equiv> 2048"

record http3_frame_header =
  frame_type :: byte
  frame_length :: u64

definition http3_encode_frame_header :: "byte \<Rightarrow> u64 \<Rightarrow> nat \<Rightarrow> bytes option" where
  "http3_encode_frame_header type len sz =
     (if sz < 2 then None
      else do {
        t \<leftarrow> http3_encode_varint (ucast type) sz;
        l \<leftarrow> http3_encode_varint len (sz - length t);
        Some (t @ l) })"

text \<open>The header and its length; the type is cut to 8 bits, as the code casts it.\<close>

definition http3_decode_frame_header :: "bytes \<Rightarrow> (http3_frame_header \<times> nat) option" where
  "http3_decode_frame_header buf =
     (if length buf < 2 then None
      else do {
        (t, tn) \<leftarrow> http3_decode_varint buf;
        (l, ln) \<leftarrow> http3_decode_varint (drop tn buf);
        Some (\<lparr>frame_type = ucast t, frame_length = l\<rparr>, tn + ln) })"

section \<open>DATA frames\<close>

definition http3_create_data_frame :: "bytes \<Rightarrow> nat \<Rightarrow> bytes option" where
  "http3_create_data_frame data frame_size =
     (if data = [] \<or> frame_size < length data + 16 then None
      else do {
        h \<leftarrow> http3_encode_frame_header HTTP3_FRAME_DATA (of_nat (length data)) frame_size;
        Some (h @ data) })"

text \<open>
  The position and the length of the payload inside the frame. The sum
  \<^verbatim>\<open>header_len + header.length\<close> is a 64-bit sum.
\<close>

definition http3_parse_data_frame :: "bytes \<Rightarrow> (nat \<times> nat) option" where
  "http3_parse_data_frame frame =
     (if length frame < 2 then None
      else case http3_decode_frame_header frame of
        None \<Rightarrow> None
      | Some (h, hl) \<Rightarrow>
          if frame_type h \<noteq> HTTP3_FRAME_DATA then None
          else if of_nat hl + frame_length h > (of_nat (length frame) :: u64) then None
          else Some (hl, unat (frame_length h)))"

definition http3_parse_headers_frame :: "bytes \<Rightarrow> nat option" where
  "http3_parse_headers_frame frame =
     (if length frame < 2 then None
      else case http3_decode_frame_header frame of
        None \<Rightarrow> None
      | Some (h, hl) \<Rightarrow>
          if frame_type h \<noteq> HTTP3_FRAME_HEADERS then None
          else let total = of_nat hl + frame_length h in
            if total > (of_nat (length frame) :: u64) then None
            else Some (unat total))"

section \<open>HEADERS frames and the imitated browser\<close>

datatype user_agent_type = UA_CHROME | UA_FIREFOX | UA_SAFARI | UA_EDGE | UA_RANDOM

datatype http_method = HTTP_GET | HTTP_POST

record http3_config =
  enabled :: bool
  user_agent :: user_agent_type
  custom_user_agent :: "string option"
  url_paths :: "string list option"

fun user_agent_string :: "user_agent_type \<Rightarrow> string" where
  "user_agent_string UA_CHROME = ''Mozilla/5.0 (Windows NT 10.0; Win64; x64) AppleWebKit/537.36 (KHTML, like Gecko) Chrome/120.0.0.0 Safari/537.36''"
| "user_agent_string UA_FIREFOX = ''Mozilla/5.0 (Windows NT 10.0; Win64; x64; rv:121.0) Gecko/20100101 Firefox/121.0''"
| "user_agent_string UA_SAFARI = ''Mozilla/5.0 (Macintosh; Intel Mac OS X 14_1) AppleWebKit/605.1.15 (KHTML, like Gecko) Version/17.1 Safari/605.1.15''"
| "user_agent_string UA_EDGE = ''Mozilla/5.0 (Windows NT 10.0; Win64; x64) AppleWebKit/537.36 (KHTML, like Gecko) Chrome/120.0.0.0 Safari/537.36 Edg/120.0.0.0''"
| "user_agent_string UA_RANDOM = []"

text \<open>
  \<^verbatim>\<open>rnd\<close> is the value \<^verbatim>\<open>rand()\<close> returns; \<open>UA_RANDOM\<close> never reaches the table, the
  remainder picks one of the four browsers.
\<close>

definition http3_get_user_agent :: "http3_config \<Rightarrow> nat \<Rightarrow> user_agent_type \<Rightarrow> string" where
  "http3_get_user_agent cfg rnd type =
     (case custom_user_agent cfg of
        Some ua \<Rightarrow> ua
      | None \<Rightarrow> user_agent_string
          (if type = UA_RANDOM then [UA_CHROME, UA_FIREFOX, UA_SAFARI, UA_EDGE] ! (rnd mod 4) else type))"

definition default_url_paths :: "string list" where
  "default_url_paths =
     [''/api/v1/data'', ''/static/js/main.js'', ''/static/css/style.css'', ''/images/logo.png'',
      ''/fonts/roboto.woff2'', ''/api/user/profile'', ''/api/messages'', ''/api/notifications'',
      ''/assets/bundle.js'', ''/metrics'']"

definition http3_get_random_path :: "http3_config \<Rightarrow> nat \<Rightarrow> string" where
  "http3_get_random_path cfg rnd =
     (case url_paths cfg of
        Some ps \<Rightarrow> (if length ps > 0 then ps ! (rnd mod length ps)
                    else default_url_paths ! (rnd mod length default_url_paths))
      | None \<Rightarrow> default_url_paths ! (rnd mod length default_url_paths))"

definition http3_init_url_paths :: "http3_config \<Rightarrow> http3_config" where
  "http3_init_url_paths cfg =
     (if url_paths cfg = None then cfg\<lparr>url_paths := Some default_url_paths\<rparr> else cfg)"

definition http3_cleanup_url_paths :: "http3_config \<Rightarrow> http3_config" where
  "http3_cleanup_url_paths cfg = cfg\<lparr>url_paths := None, custom_user_agent := None\<rparr>"

definition crlf :: string where
  "crlf = [CHR 0x0D, CHR 0x0A]"

text \<open>
  \<^verbatim>\<open>snprintf\<close> into what is left of the header buffer: the text is taken only when it fits
  with its terminating NUL, otherwise the function gives up.
\<close>

definition append_fits :: "string \<Rightarrow> string \<Rightarrow> string option" where
  "append_fits headers s =
     (if length s < HTTP3_MAX_HEADER_SIZE - length headers then Some (headers @ s) else None)"

definition http3_create_headers_frame ::
  "http3_config \<Rightarrow> nat \<Rightarrow> http_method \<Rightarrow> string \<Rightarrow> string \<Rightarrow> nat \<Rightarrow> bytes option" where
  "http3_create_headers_frame cfg rnd method path authority frame_size =
     (if frame_size < HTTP3_MAX_HEADER_SIZE then None
      else do {
        h1 \<leftarrow> append_fits []
          ('':method: '' @ (if method = HTTP_GET then ''GET'' else ''POST'') @ crlf @
           '':scheme: https'' @ crlf @ '':authority: '' @ authority @ crlf @
           '':path: '' @ path @ crlf);
        h2 \<leftarrow> append_fits h1
          (''user-agent: '' @ http3_get_user_agent cfg rnd (user_agent cfg) @ crlf @
           ''accept: text/html,application/json,*/*'' @ crlf @
           ''accept-language: en-US,en;q=0.9'' @ crlf @
           ''accept-encoding: gzip, deflate, br'' @ crlf @
           ''cache-control: no-cache'' @ crlf @
           ''sec-fetch-dest: empty'' @ crlf @
           ''sec-fetch-mode: cors'' @ crlf @
           ''sec-fetch-site: same-origin'' @ crlf);
        h3 \<leftarrow> (if method = HTTP_POST
               then append_fits h2 (''content-type: application/octet-stream'' @ crlf) else Some h2);
        h4 \<leftarrow> append_fits h3 crlf;
        h \<leftarrow> http3_encode_frame_header HTTP3_FRAME_HEADERS (of_nat (length h4)) frame_size;
        Some (h @ map of_char h4) })"

text \<open>
  The headers timer; \<open>rnd\<close> is the value of \<^verbatim>\<open>rand()\<close> and the division truncates as in C.
\<close>

definition http3_should_send_headers :: "int \<Rightarrow> int \<Rightarrow> nat \<Rightarrow> int \<Rightarrow> bool" where
  "http3_should_send_headers quic_http3_headers_interval now rnd last_headers_time =
     (let jitter = trunc_div (quic_http3_headers_interval * 20) 100;
          min_interval = quic_http3_headers_interval - jitter;
          max_interval = quic_http3_headers_interval + jitter;
          interval = min_interval + trunc_mod (int rnd) (max_interval - min_interval + 1)
      in last_headers_time = 0 \<or> now - last_headers_time \<ge> interval)"

definition http3_update_headers_timer :: "int \<Rightarrow> int" where
  "http3_update_headers_timer now = now"

section \<open>Correctness of the integer encoding\<close>

lemma byte_bit: "bit (x :: byte) n \<Longrightarrow> n < 8"
  using bit_imp_le_length [of x n] by simp

lemma low6: "b AND 0x3F = take_bit 6 (b :: byte)"
  by (simp add: take_bit_eq_mask mask_eq_exp_minus_1)

lemma tag_prefix:
  fixes x :: byte
  shows "drop_bit 6 x = 0 \<Longrightarrow> drop_bit 6 (0x40 OR x) = 1"
    "drop_bit 6 x = 0 \<Longrightarrow> drop_bit 6 (0x80 OR x) = 2"
    "3 OR drop_bit 6 x = 3"
proof -
  have three: "(3::byte) = mask 2" by (simp add: mask_eq_exp_minus_1)
  have "drop_bit 6 x OR mask 2 = mask 2"
    by (rule bit_eqI) (auto simp: bit_simps dest: byte_bit)
  then show "3 OR drop_bit 6 x = 3" by (simp only: three or.commute)
qed simp_all

text \<open>A byte of the big-endian image put back in place, and two adjacent fields joined.\<close>

lemma be64_field: "be64 (ucast (drop_bit k v)) k = push_bit k (take_bit 8 (drop_bit k v))"
  unfolding be64_def by (rule bit_eqI) (auto simp: bit_simps)

lemma be64_low_field:
  "be64 (take_bit 6 (ucast (drop_bit k v))) k = push_bit k (take_bit 6 (drop_bit k v))"
  unfolding be64_def by (rule bit_eqI) (auto simp: bit_simps)

lemma ucast_field: "ucast (ucast (v :: u64) :: byte) = take_bit 8 v"
  by (rule bit_eqI) (auto simp: bit_simps)

lemma join_fields:
  "push_bit k (take_bit m (drop_bit k v)) OR take_bit k v = take_bit (k + m) (v :: u64)"
  by (rule bit_eqI) (auto simp: bit_simps)

lemmas be64_simps = be64_field be64_low_field ucast_field join_fields

lemma take_bit_less: "k < 64 \<Longrightarrow> (v :: u64) < 2 ^ k \<Longrightarrow> take_bit k v = v"
  using less_mask_eq [of v k] by (simp add: take_bit_eq_mask)

lemma no_prefix:
  assumes "take_bit (k + 6) v = (v :: u64)"
  shows "drop_bit 6 (ucast (drop_bit k v) :: byte) = 0"
proof -
  have "bit v n \<Longrightarrow> n < k + 6" for n using assms by (metis bit_take_bit_iff)
  then show ?thesis by (intro bit_eqI) (fastforce simp: bit_simps)
qed

lemma decode1:
  assumes "v < 64"
  shows "http3_decode_varint (ucast v # rest) = Some (v, 1)"
proof -
  have v: "take_bit 6 v = v" using assms by (intro take_bit_less) simp_all
  have "drop_bit 6 (ucast v :: byte) = 0" using no_prefix [of 0 v] v by simp
  moreover have "ucast (take_bit 6 (ucast v :: byte)) = v"
    using be64_low_field [of 0 v] v by (simp add: be64_def)
  ultimately show ?thesis by (simp add: low6)
qed

lemma decode2:
  assumes "v < 16384"
  shows "http3_decode_varint ((0x40 OR ucast (drop_bit 8 v)) # ucast v # rest) = Some (v, 2)"
proof -
  have v: "take_bit 14 v = v" using assms by (intro take_bit_less) simp_all
  have "drop_bit 6 (ucast (drop_bit 8 v) :: byte) = 0" using no_prefix [of 8 v] v by simp
  with v show ?thesis by (simp add: low6 tag_prefix be64_simps)
qed

lemma decode4:
  assumes "v < 1073741824"
  shows "http3_decode_varint ((0x80 OR ucast (drop_bit 24 v)) # ucast (drop_bit 16 v) #
    ucast (drop_bit 8 v) # ucast v # rest) = Some (v, 4)"
proof -
  have v: "take_bit 30 v = v" using assms by (intro take_bit_less) simp_all
  have "drop_bit 6 (ucast (drop_bit 24 v) :: byte) = 0" using no_prefix [of 24 v] v by simp
  with v show ?thesis by (simp add: low6 tag_prefix be64_simps)
qed

lemma decode8:
  "http3_decode_varint ((0xC0 OR ucast (drop_bit 56 v)) # ucast (drop_bit 48 v) #
     ucast (drop_bit 40 v) # ucast (drop_bit 32 v) # ucast (drop_bit 24 v) #
     ucast (drop_bit 16 v) # ucast (drop_bit 8 v) # ucast v # rest) = Some (take_bit 62 v, 8)"
  by (simp add: low6 tag_prefix be64_simps)

declare http3_decode_varint.simps(2) [simp del]

lemma take_bit_small:
  assumes "(v :: u64) < 2 ^ k" "k \<le> 62"
  shows "take_bit 62 v = v"
proof -
  have v: "take_bit k v = v" using assms by (intro take_bit_less) simp_all
  have "take_bit 62 (take_bit k v) = take_bit k v" using assms(2) by (simp add: min_absorb2)
  with v show ?thesis by simp
qed

lemma decode_encode_varint:
  assumes "http3_encode_varint v sz = Some bs"
  shows "http3_decode_varint (bs @ rest) = Some (take_bit 62 v, length bs)"
proof -
  consider "v < 64" | "\<not> v < 64" "v < 16384" | "\<not> v < 64" "\<not> v < 16384" "v < 1073741824"
    | "\<not> v < 64" "\<not> v < 16384" "\<not> v < 1073741824" by blast
  then show ?thesis
  proof cases
    case 1
    with assms take_bit_small [of v 6] show ?thesis
      by (auto simp: http3_encode_varint_def decode1 split: if_splits)
  next
    case 2
    with assms take_bit_small [of v 14] show ?thesis
      by (auto simp: http3_encode_varint_def decode2 split: if_splits)
  next
    case 3
    with assms take_bit_small [of v 30] show ?thesis
      by (auto simp: http3_encode_varint_def decode4 split: if_splits)
  next
    case 4
    with assms show ?thesis by (auto simp: http3_encode_varint_def decode8 split: if_splits)
  qed
qed

lemma encode_varint_length:
  "http3_encode_varint v sz = Some bs \<Longrightarrow> 1 \<le> length bs \<and> length bs \<le> 8 \<and> length bs \<le> sz"
  by (auto simp: http3_encode_varint_def split: if_splits)

lemma encode_varint_succeeds: "8 \<le> sz \<Longrightarrow> \<exists>bs. http3_encode_varint v sz = Some bs"
  by (auto simp: http3_encode_varint_def)

lemma take_bit_bound: "take_bit 62 (v :: u64) = v \<Longrightarrow> v < 2 ^ 62"
proof -
  assume "take_bit 62 v = v"
  then have "unat v = take_bit 62 (unat v)" by (metis unsigned_take_bit_eq)
  then have "unat v < 2 ^ 62" by (metis take_bit_nat_less_exp)
  then show ?thesis by (simp add: word_less_nat_alt)
qed

lemma take_be64: "k + 8 \<le> 62 \<Longrightarrow> take_bit 62 (be64 b k) = be64 b k"
  unfolding be64_def by (rule bit_eqI) (auto simp: bit_simps dest: byte_bit)

lemma take_be64_low: "k + 6 \<le> 62 \<Longrightarrow> take_bit 62 (be64 (take_bit 6 b) k) = be64 (take_bit 6 b) k"
  unfolding be64_def by (rule bit_eqI) (auto simp: bit_simps)

lemma take_ucast_byte: "take_bit 62 (ucast (b :: byte) :: u64) = ucast b"
  using take_be64 [of 0 b] by (simp add: be64_def)

lemma decode_varint_bounds:
  "http3_decode_varint bs = Some (v, n) \<Longrightarrow> v < 2 ^ 62 \<and> 1 \<le> n \<and> n \<le> 8 \<and> n \<le> length bs"
proof (cases bs)
  case (Cons b0 bs')
  assume dec: "http3_decode_varint bs = Some (v, n)"
  have "take_bit 62 v = v"
    using dec Cons take_be64_low [of 0]
    by (auto simp: http3_decode_varint.simps(2) low6 Let_def take_be64 take_be64_low take_ucast_byte
        split: if_splits list.splits)
  then have "v < 2 ^ 62" by (rule take_bit_bound)
  moreover have "1 \<le> n \<and> n \<le> 8 \<and> n \<le> length bs"
    using dec Cons
    by (auto simp: http3_decode_varint.simps(2) Let_def split: if_splits list.splits)
  ultimately show ?thesis by simp
qed simp

section \<open>Frames\<close>

lemma encode_frame_header_Some:
  assumes "http3_encode_frame_header type len sz = Some h"
  obtains t l where "http3_encode_varint (ucast type) sz = Some t"
    "http3_encode_varint len (sz - length t) = Some l" "h = t @ l"
  using assms by (auto simp: http3_encode_frame_header_def bind_eq_Some_conv split: if_splits)

lemma frame_header_length:
  assumes "http3_encode_frame_header type len sz = Some h"
  shows "2 \<le> length h \<and> length h \<le> 16 \<and> length h \<le> sz"
  using assms by (rule encode_frame_header_Some) (auto dest!: encode_varint_length)

lemma encode_frame_header_succeeds: "16 \<le> sz \<Longrightarrow> \<exists>h. http3_encode_frame_header type len sz = Some h"
proof -
  assume sz: "16 \<le> sz"
  then obtain t where t: "http3_encode_varint (ucast type) sz = Some t"
    using encode_varint_succeeds [of sz "ucast type"] by auto
  have "8 \<le> sz - length t" using encode_varint_length [OF t] sz by linarith
  then obtain l where "http3_encode_varint len (sz - length t) = Some l"
    using encode_varint_succeeds [of "sz - length t" len] by auto
  with sz t show ?thesis by (simp add: http3_encode_frame_header_def)
qed

lemma decode_frame_header_encoded:
  assumes "http3_encode_frame_header type len sz = Some h" "len < 2 ^ 62"
  shows "http3_decode_frame_header (h @ rest) =
    Some (\<lparr>frame_type = type, frame_length = len\<rparr>, length h)"
proof -
  from assms(1) obtain t l where t: "http3_encode_varint (ucast type) sz = Some t"
    and l: "http3_encode_varint len (sz - length t) = Some l" and h: "h = t @ l"
    by (rule encode_frame_header_Some)
  have "ucast (ucast type :: u64) = type"
    by (rule bit_eqI) (auto simp: bit_simps dest: byte_bit)
  then have "ucast (take_bit 62 (ucast type :: u64)) = type" by (simp add: take_ucast_byte)
  moreover have "take_bit 62 len = len" using assms(2) take_bit_small [of len 62] by simp
  ultimately show ?thesis
    using decode_encode_varint [OF t, of "l @ rest"] decode_encode_varint [OF l, of rest] h
      frame_header_length [OF assms(1)]
    by (simp add: http3_decode_frame_header_def)
qed

lemma decode_frame_header_bounds:
  "http3_decode_frame_header buf = Some (h, n) \<Longrightarrow>
     frame_length h < 2 ^ 62 \<and> 2 \<le> n \<and> n \<le> 16 \<and> n \<le> length buf"
  by (force simp: http3_decode_frame_header_def bind_eq_Some_conv split: if_splits
      dest!: decode_varint_bounds)

text \<open>The 64-bit sum of a header length and a frame length never wraps.\<close>

lemma frame_sum_exact:
  assumes "http3_decode_frame_header buf = Some (h, n)" "length buf < 2 ^ 64"
  shows "unat (of_nat n + frame_length h) = n + unat (frame_length h)"
    and "of_nat n + frame_length h > (of_nat (length buf) :: u64) \<longleftrightarrow>
      n + unat (frame_length h) > length buf"
proof -
  have n: "n \<le> 16" and len: "unat (frame_length h) < 2 ^ 62"
    using decode_frame_header_bounds [OF assms(1)] by (auto simp: word_less_nat_alt)
  then show sum: "unat (of_nat n + frame_length h) = n + unat (frame_length h)"
    by (simp add: unat_word_ariths unat_of_nat)
  have "unat (of_nat (length buf) :: u64) = length buf" using assms(2) by (simp add: unat_of_nat)
  with sum show "of_nat n + frame_length h > (of_nat (length buf) :: u64) \<longleftrightarrow>
      n + unat (frame_length h) > length buf"
    by (simp add: word_less_nat_alt)
qed

lemma create_data_frame_Some:
  assumes "http3_create_data_frame data frame_size = Some f"
  obtains h where "http3_encode_frame_header HTTP3_FRAME_DATA (of_nat (length data)) frame_size = Some h"
    "f = h @ data" "data \<noteq> []" "length data + 16 \<le> frame_size"
  using assms by (auto simp: http3_create_data_frame_def bind_eq_Some_conv split: if_splits)

lemma parse_framed:
  assumes h: "http3_encode_frame_header HTTP3_FRAME_DATA (of_nat (length body)) sz = Some h"
    and rest: "length (h @ body @ rest) < 2 ^ 62"
  shows "http3_parse_data_frame (h @ body @ rest) = Some (length h, length body) \<and> 2 \<le> length h"
proof -
  have len: "unat (of_nat (length body) :: u64) = length body" "(of_nat (length body) :: u64) < 2 ^ 62"
    using rest by (simp_all add: word_less_nat_alt unat_of_nat)
  note dec = decode_frame_header_encoded [OF h len(2), of "body @ rest"]
  have "\<not> of_nat (length h) + of_nat (length body) > (of_nat (length (h @ body @ rest)) :: u64)"
    using frame_sum_exact(2) [OF dec] rest len by simp
  with dec len frame_header_length [OF h] show ?thesis
    by (simp add: http3_parse_data_frame_def)
qed

lemma parse_created_data_frame:
  assumes f: "http3_create_data_frame payload frame_size = Some f" and rest: "length (f @ rest) < 2 ^ 62"
  shows "\<exists>hl. http3_parse_data_frame (f @ rest) = Some (hl, length payload) \<and> 2 \<le> hl \<and>
    hl + length payload = length f \<and> take (length payload) (drop hl (f @ rest)) = payload"
proof -
  from f obtain h where h: "http3_encode_frame_header HTTP3_FRAME_DATA (of_nat (length payload)) frame_size = Some h"
    and fe: "f = h @ payload" by (rule create_data_frame_Some)
  with parse_framed [OF h, of rest] rest show ?thesis by auto
qed

lemma parse_data_frame_in_bounds:
  assumes "http3_parse_data_frame f = Some (off, n)" "length f < 2 ^ 64"
  shows "2 \<le> off \<and> off + n \<le> length f"
  using assms frame_sum_exact(2) decode_frame_header_bounds
  by (fastforce simp: http3_parse_data_frame_def split: if_splits option.splits prod.splits)

lemma parse_headers_frame_in_bounds:
  assumes "http3_parse_headers_frame f = Some n" "length f < 2 ^ 64"
  shows "2 \<le> n \<and> n \<le> length f"
  using assms frame_sum_exact decode_frame_header_bounds
  by (fastforce simp: http3_parse_headers_frame_def Let_def split: if_splits option.splits prod.splits)

section \<open>Header text\<close>

lemma append_fits_length: "append_fits h s = Some h' \<Longrightarrow> length h' < HTTP3_MAX_HEADER_SIZE"
  by (auto simp: append_fits_def split: if_splits)

lemma create_headers_frame_Some:
  assumes "http3_create_headers_frame cfg rnd method path authority frame_size = Some f"
  obtains hd h where "length hd < HTTP3_MAX_HEADER_SIZE" "HTTP3_MAX_HEADER_SIZE \<le> frame_size"
    "http3_encode_frame_header HTTP3_FRAME_HEADERS (of_nat (length hd)) frame_size = Some h"
    "f = h @ map of_char hd"
  using assms
  by (auto simp: http3_create_headers_frame_def bind_eq_Some_conv split: if_splits
      dest: append_fits_length)

lemma headers_frame_header_length:
  assumes "http3_encode_frame_header HTTP3_FRAME_HEADERS (of_nat n) sz = Some h" "n < HTTP3_MAX_HEADER_SIZE"
  shows "length h = (if n < 64 then 2 else 3)"
proof -
  have n: "unat (of_nat n :: u64) = n" using assms(2) by (simp add: unat_of_nat)
  then have "(of_nat n :: u64) < 64 \<longleftrightarrow> n < 64" "(of_nat n :: u64) < 16384"
    using assms(2) by (simp_all add: word_less_nat_alt)
  with assms(1) show ?thesis
    by (auto elim!: encode_frame_header_Some simp: http3_encode_varint_def split: if_splits)
qed

text \<open>A HEADERS frame at the front of received data is recognised and skipped as a whole.\<close>

lemma parse_created_headers_frame:
  assumes f: "http3_create_headers_frame cfg rnd method path authority frame_size = Some f"
    and rest: "length (f @ rest) < 2 ^ 62"
  shows "http3_parse_data_frame (f @ rest) = None \<and> http3_parse_headers_frame (f @ rest) = Some (length f) \<and>
    2 \<le> length f"
proof -
  from f obtain hs h where hs: "length hs < HTTP3_MAX_HEADER_SIZE"
    and h: "http3_encode_frame_header HTTP3_FRAME_HEADERS (of_nat (length hs)) frame_size = Some h"
    and fe: "f = h @ map of_char hs" by (rule create_headers_frame_Some)
  have len: "unat (of_nat (length hs) :: u64) = length hs" "(of_nat (length hs) :: u64) < 2 ^ 62"
    using hs by (simp_all add: word_less_nat_alt unat_of_nat)
  note dec = decode_frame_header_encoded [OF h len(2), of "map of_char hs @ rest"]
  have sum: "\<not> of_nat (length h) + of_nat (length hs) > (of_nat (length (f @ rest)) :: u64)"
    using frame_sum_exact(2) [OF dec] rest fe len by simp
  have total: "unat (of_nat (length h) + of_nat (length hs) :: u64) = length f"
    using frame_sum_exact(1) [OF dec] rest fe len by simp
  from dec fe sum total frame_header_length [OF h] show ?thesis
    by (simp add: http3_parse_data_frame_def http3_parse_headers_frame_def)
qed

text \<open>A parsed frame is never empty, whatever the data.\<close>

lemma parse_frame_progress:
  "http3_parse_data_frame f = Some (off, n) \<Longrightarrow> 2 \<le> off"
  "http3_parse_headers_frame f = Some m \<Longrightarrow> 2 \<le> m"
proof -
  show "http3_parse_data_frame f = Some (off, n) \<Longrightarrow> 2 \<le> off"
    using decode_frame_header_bounds
    by (fastforce simp: http3_parse_data_frame_def split: if_splits option.splits prod.splits)
  assume "http3_parse_headers_frame f = Some m"
  then obtain h hl where d: "http3_decode_frame_header f = Some (h, hl)" and m: "m = unat (of_nat hl + frame_length h)"
    by (auto simp: http3_parse_headers_frame_def Let_def split: if_splits option.splits prod.splits)
  from decode_frame_header_bounds [OF d] have "2 \<le> hl" "hl \<le> 16" "unat (frame_length h) < 2 ^ 62"
    by (auto simp: word_less_nat_alt)
  with m show "2 \<le> m" by (simp add: unat_word_ariths unat_of_nat)
qed

section \<open>Properties\<close>

text \<open>
  Property C19. Decoding what \<^verbatim>\<open>http3_encode_varint\<close> wrote, whatever follows it, gives back
  the low 62 bits of the value and consumes exactly the bytes written; a buffer of 8 bytes is
  always enough. So the round trip is exact for every value a QUIC integer can carry (below
  $2^{62}$), and a larger value is silently reduced instead of refused.
\<close>

theorem varint_roundtrip:
  "(8 \<le> sz \<longrightarrow> http3_encode_varint v sz \<noteq> None) \<and>
   (\<forall>bs. http3_encode_varint v sz = Some bs \<longrightarrow>
      length bs \<le> sz \<and> http3_decode_varint (bs @ rest) = Some (take_bit 62 v, length bs) \<and>
      (v < 2 ^ 62 \<longrightarrow> take_bit 62 v = v))"
  using decode_encode_varint encode_varint_length encode_varint_succeeds take_bit_small [of v 62]
  by fastforce

theorem varint_roundtrip_witness:
  "http3_encode_varint 15293 8 = Some [0x7B, 0xBD] \<and>
   http3_decode_varint ([0x7B, 0xBD] @ [7]) = Some (take_bit 62 15293, 2)"
proof -
  have enc: "http3_encode_varint 15293 8 = Some [0x7B, 0xBD]" by (simp add: http3_encode_varint_def)
  with varint_roundtrip [of 8 15293 "[7]"] show ?thesis by simp
qed

text \<open>
  Property C20. A DATA frame is built for every non-empty payload when the buffer has 16 bytes to
  spare, it fits the buffer, and parsing it at the front of any received data gives back exactly
  the payload.
\<close>

theorem data_frame_roundtrip:
  assumes "data \<noteq> []" "length data + 16 \<le> frame_size" "length data + length rest + 16 < 2 ^ 62"
  shows "\<exists>f hl. http3_create_data_frame data frame_size = Some f \<and> length f \<le> frame_size \<and>
    http3_parse_data_frame (f @ rest) = Some (hl, length data) \<and> hl + length data = length f \<and>
    take (length data) (drop hl (f @ rest)) = data"
proof -
  obtain h where h: "http3_encode_frame_header HTTP3_FRAME_DATA (of_nat (length data)) frame_size = Some h"
    using encode_frame_header_succeeds assms(2) by fastforce
  with assms have f: "http3_create_data_frame data frame_size = Some (h @ data)"
    by (simp add: http3_create_data_frame_def)
  from frame_header_length [OF h] assms parse_created_data_frame [OF f, of rest] f
  show ?thesis by fastforce
qed

theorem data_frame_roundtrip_witness:
  "\<exists>f hl. http3_create_data_frame [1, 2, 3] 19 = Some f \<and> length f \<le> 19 \<and>
    http3_parse_data_frame (f @ [9]) = Some (hl, 3) \<and> hl + 3 = length f \<and>
    take 3 (drop hl (f @ [9])) = [1, 2, 3]"
  using data_frame_roundtrip [of "[1, 2, 3]" 19 "[9]"] by (simp add: numeral_3_eq_3)

text \<open>
  Whatever bytes arrive, the payload \<^verbatim>\<open>http3_parse_data_frame\<close> reports and the
  frame \<^verbatim>\<open>http3_parse_headers_frame\<close> skips lie inside the received data, and a frame is
  never empty, so a receiver that advances by whole frames makes progress.
\<close>

theorem parsed_frames_in_bounds:
  assumes "length f < 2 ^ 64"
  shows "(\<forall>off n. http3_parse_data_frame f = Some (off, n) \<longrightarrow> 2 \<le> off \<and> off + n \<le> length f) \<and>
    (\<forall>n. http3_parse_headers_frame f = Some n \<longrightarrow> 2 \<le> n \<and> n \<le> length f)"
  using parse_data_frame_in_bounds parse_headers_frame_in_bounds assms by blast

theorem parsed_frames_in_bounds_witness:
  "http3_parse_data_frame [0, 2, 7, 8] = Some (2, 2) \<and> (2::nat) \<le> 2 \<and> 2 + 2 \<le> length [0, 2, 7, 8 :: byte]"
proof -
  have "http3_parse_data_frame [0, 2, 7, 8] = Some (2, 2)"
    by (simp add: http3_parse_data_frame_def http3_decode_frame_header_def
        http3_decode_varint.simps(2))
  with parsed_frames_in_bounds [of "[0, 2, 7, 8]"] show ?thesis by simp
qed

text \<open>
  \<^verbatim>\<open>http3_create_headers_frame\<close> checks its output buffer against the size of
  the header text only, not against the frame header it puts in front: what it writes is at most
  two bytes longer than the smallest buffer it accepts, and there is a request for which it
  writes 2050 bytes into the 2048 bytes both callers give it.
\<close>

theorem headers_frame_overrun:
  "(\<forall>cfg rnd method path authority frame_size f.
      http3_create_headers_frame cfg rnd method path authority frame_size = Some f \<longrightarrow>
        length f \<le> frame_size + 2) \<and>
   (\<exists>cfg rnd method path authority f.
      http3_create_headers_frame cfg rnd method path authority HTTP3_MAX_HEADER_SIZE = Some f \<and>
        length f = HTTP3_MAX_HEADER_SIZE + 2)"
proof
  show "\<forall>cfg rnd method path authority frame_size f.
      http3_create_headers_frame cfg rnd method path authority frame_size = Some f \<longrightarrow>
        length f \<le> frame_size + 2"
    by (auto elim!: create_headers_frame_Some dest: headers_frame_header_length split: if_splits)
next
  let ?cfg = "\<lparr>enabled = True, user_agent = UA_CHROME, custom_user_agent = Some ''curl'', url_paths = None\<rparr>"
  let ?path = "replicate 1755 (CHR ''a'')"
  obtain f where f: "http3_create_headers_frame ?cfg 0 HTTP_GET ?path ''example.com'' HTTP3_MAX_HEADER_SIZE = Some f"
    "length f = 2050"
    by (simp add: http3_create_headers_frame_def append_fits_def crlf_def
        http3_encode_frame_header_def http3_encode_varint_def http3_get_user_agent_def)
  then show "\<exists>cfg rnd method path authority f.
      http3_create_headers_frame cfg rnd method path authority HTTP3_MAX_HEADER_SIZE = Some f \<and>
        length f = HTTP3_MAX_HEADER_SIZE + 2" by (auto intro!: exI)
qed

theorem headers_frame_overrun_witness:
  "\<exists>cfg rnd method path authority f.
     http3_create_headers_frame cfg rnd method path authority HTTP3_MAX_HEADER_SIZE = Some f \<and>
     length f = 2050 \<and> length f \<le> HTTP3_MAX_HEADER_SIZE + 2"
  using headers_frame_overrun by fastforce

end
