(* ===== verification/Packet_Padding.thy ===== *)
theory Packet_Padding
  imports Prelude
begin

text \<open>
  Packet padding (\<^verbatim>\<open>padding.c\<close>) and the reading of its configuration
  (\<^verbatim>\<open>net_setup.c\<close>, the \<^verbatim>\<open>QUICPadding...\<close> variables). A padded packet is a magic byte, the
  length of the payload in two bytes, the payload, and random bytes. The values of
  \<^verbatim>\<open>rand()\<close> are arguments. C compares and adds \<^verbatim>\<open>size_t\<close> and \<^verbatim>\<open>int\<close> after converting the
  \<^verbatim>\<open>int\<close> to 64 bits; \<open>size_t_of_int\<close> is that conversion.
\<close>

section \<open>Configuration\<close>

abbreviation (input) PADDING_MAGIC :: byte where "PADDING_MAGIC \<equiv> 0xFD"
abbreviation (input) MAX_PADDING_SIZE :: nat where "MAX_PADDING_SIZE \<equiv> 512"

datatype padding_mode = PADDING_OFF | PADDING_RANDOM | PADDING_BUCKETS

record padding_config =
  mode :: padding_mode
  min_size :: int
  max_size :: int
  buckets :: "int list option"
  small_packets_only :: bool
  threshold :: int

definition padding_config_default :: padding_config where
  "padding_config_default =
     \<lparr>mode = PADDING_OFF, min_size = 0, max_size = 128, buckets = None,
      small_packets_only = False, threshold = 512\<rparr>"

definition padding_init :: "padding_config \<Rightarrow> padding_config" where
  "padding_init cfg =
     (if buckets cfg = None \<and> mode cfg = PADDING_BUCKETS
      then cfg\<lparr>buckets := Some [512, 1024, 1500]\<rparr> else cfg)"

definition padding_cleanup :: "padding_config \<Rightarrow> padding_config" where
  "padding_cleanup cfg = cfg\<lparr>buckets := None\<rparr>"

text \<open>
  The block of \<^verbatim>\<open>setup_myself\<close> that reads the padding variables: each argument is the value of
  the variable when the configuration has it. The mode is compared without regard to case; an
  unknown one switches padding off.
\<close>

definition setup_padding ::
  "string option \<Rightarrow> int option \<Rightarrow> int option \<Rightarrow> bool option \<Rightarrow> int option \<Rightarrow>
     padding_config \<Rightarrow> padding_config" where
  "setup_padding mode_str pmin pmax small thr cfg0 =
     (let cfg1 = (case mode_str of None \<Rightarrow> cfg0 | Some s \<Rightarrow>
            if strcaseeq s ''off'' then cfg0\<lparr>mode := PADDING_OFF\<rparr>
            else if strcaseeq s ''random'' then cfg0\<lparr>mode := PADDING_RANDOM\<rparr>
            else if strcaseeq s ''buckets'' then cfg0\<lparr>mode := PADDING_BUCKETS\<rparr>
            else cfg0\<lparr>mode := PADDING_OFF\<rparr>);
          cfg2 = (case pmin of None \<Rightarrow> cfg1 | Some n \<Rightarrow> cfg1\<lparr>min_size := (if n < 0 then 0 else n)\<rparr>);
          cfg3 = (case pmax of None \<Rightarrow> cfg2 | Some n \<Rightarrow>
            let m = (if n > int MAX_PADDING_SIZE then int MAX_PADDING_SIZE else n) in
            if m < min_size cfg2 then cfg2\<lparr>max_size := min_size cfg2, min_size := m\<rparr>
            else cfg2\<lparr>max_size := m\<rparr>);
          cfg4 = (case small of None \<Rightarrow> cfg3 | Some b \<Rightarrow> cfg3\<lparr>small_packets_only := b\<rparr>);
          cfg5 = (case thr of None \<Rightarrow> cfg4 | Some n \<Rightarrow> cfg4\<lparr>threshold := (if n < 0 then 512 else n)\<rparr>)
      in padding_init cfg5)"

section \<open>Padding and its removal\<close>

text \<open>The first bucket that is at least as large as the packet with its header.\<close>

fun first_bucket :: "int list \<Rightarrow> nat \<Rightarrow> nat" where
  "first_bucket [] total_size = 0"
| "first_bucket (b # bs) total_size =
     (if size_t_of_int b \<ge> total_size then size_t_of_int b - total_size else first_bucket bs total_size)"

definition padding_calculate_size :: "padding_config \<Rightarrow> nat \<Rightarrow> nat \<Rightarrow> nat" where
  "padding_calculate_size cfg rnd data_len =
     (if mode cfg = PADDING_OFF then 0
      else if small_packets_only cfg \<and> data_len \<ge> size_t_of_int (threshold cfg) then 0
      else if data_len > 1150 then 0
      else case mode cfg of
        PADDING_RANDOM \<Rightarrow>
          min MAX_PADDING_SIZE
            (if max_size cfg > min_size cfg
             then size_t_of_int (c_int (min_size cfg +
                    trunc_mod (int rnd) (c_int (max_size cfg - min_size cfg + 1))))
             else size_t_of_int (min_size cfg))
      | PADDING_BUCKETS \<Rightarrow>
          (case buckets cfg of
             None \<Rightarrow> 0
           | Some bs \<Rightarrow>
               if bs = [] then 0
               else min MAX_PADDING_SIZE
                 (let p = first_bucket bs (data_len + 3) in if p = 0 then rnd mod 64 else p))
      | PADDING_OFF \<Rightarrow> 0)"

text \<open>
  \<open>rnd\<close> is the value of \<^verbatim>\<open>rand()\<close> that sizes the padding, \<open>fill i\<close> the one that gives its
  \<open>i\<close>th byte. \<open>None\<close> stands for the result 0, on which the caller sends the packet as it is.
\<close>

definition padding_add :: "padding_config \<Rightarrow> nat \<Rightarrow> (nat \<Rightarrow> nat) \<Rightarrow> bytes \<Rightarrow> nat \<Rightarrow> bytes option" where
  "padding_add cfg rnd fill data output_size =
     (if data = [] then None
      else let padding_size = padding_calculate_size cfg rnd (length data) in
        if padding_size = 0 then None
        else if output_size < 1 + 2 + length data + padding_size then None
        else Some ([PADDING_MAGIC] @ be16_bytes (length data) @ data @
                   map (\<lambda>i. of_nat (fill i)) [0..<padding_size]))"

text \<open>The offset and the length of the payload in the received packet, or \<open>None\<close> for a bad packet.\<close>

fun padding_remove :: "bytes \<Rightarrow> (nat \<times> nat) option" where
  "padding_remove [] = None"
| "padding_remove (m # hi # lo # rest) =
     (if m \<noteq> PADDING_MAGIC then Some (0, length rest + 3)
      else let original_len = be16_nat hi lo in
        if original_len = 0 \<or> original_len + 3 > length rest + 3 then None
        else Some (3, original_len))"
| "padding_remove data = Some (0, length data)"

text \<open>The payload a receiver takes out of a packet.\<close>

definition unpad :: "bytes \<Rightarrow> bytes option" where
  "unpad data = map_option (\<lambda>(off, n). take n (drop off data)) (padding_remove data)"

section \<open>Lemmas\<close>

lemma padding_remove_bounds:
  "padding_remove data = Some (off, n) \<Longrightarrow> off + n \<le> length data \<and> 0 < n"
  by (induction data rule: padding_remove.induct) (auto simp: Let_def split: if_splits)

lemma unpad_padded [simp]:
  assumes "data \<noteq> []" "length data < 65536"
  shows "unpad (PADDING_MAGIC # of_nat (length data div 256) # of_nat (length data) # data @ pad) = Some data"
  using assms by (simp add: unpad_def byte_simps)

lemma unpad_plain:
  assumes "data \<noteq> []" "hd data \<noteq> PADDING_MAGIC \<or> length data < 3"
  shows "unpad data = Some data"
  using assms by (induction data rule: padding_remove.induct) (auto simp: unpad_def)

lemma unpad_magic:
  assumes "hd xs = PADDING_MAGIC" "3 \<le> length xs"
  shows "unpad xs \<noteq> Some xs"
  using assms
  by (cases xs rule: padding_remove.cases)
     (auto simp: unpad_def Let_def split: if_splits dest!: arg_cong [of _ _ length])

lemma padding_size_bounds:
  "padding_calculate_size cfg rnd n \<le> MAX_PADDING_SIZE"
  "n > 1150 \<Longrightarrow> padding_calculate_size cfg rnd n = 0"
  by (auto simp: padding_calculate_size_def Let_def split: padding_mode.split option.split)

lemma padding_add_Some:
  assumes "padding_add cfg rnd fill data sz = Some out"
  shows "data \<noteq> [] \<and> length data \<le> 1150 \<and> length out \<le> sz \<and> unpad out = Some data \<and>
    length out = length data + 3 + padding_calculate_size cfg rnd (length data)"
proof -
  from assms have ne: "data \<noteq> []" and pos: "padding_calculate_size cfg rnd (length data) \<noteq> 0"
    by (auto simp: padding_add_def Let_def split: if_splits)
  from pos have "length data \<le> 1150"
    using padding_size_bounds(2) [of "length data" cfg rnd] by (meson not_le)
  with ne assms show ?thesis
    by (auto simp: padding_add_def Let_def be16_bytes_def split: if_splits)
qed

lemma mod_range_bounds:
  "a \<le> b \<Longrightarrow> int rnd mod (b - a + 1) \<le> b - a \<and> 0 \<le> int rnd mod (b - a + 1)"
  using pos_mod_bound [of "b - a + 1" "int rnd"] by auto

lemma random_size:
  assumes "0 \<le> a" "a < b" "b \<le> 512"
  shows "size_t_of_int (c_int (a + trunc_mod (int rnd) (c_int (b - a + 1)))) =
    nat (a + int rnd mod (b - a + 1))"
proof -
  have w: "c_int (b - a + 1) = b - a + 1" using assms by (intro c_int_id) (simp add: c_int_ok_def)
  let ?s = "a + int rnd mod (b - a + 1)"
  have s: "0 \<le> ?s" "?s \<le> 512" using assms mod_range_bounds [of a b rnd] by auto
  then have "c_int ?s = ?s" by (intro c_int_id) (simp add: c_int_ok_def)
  moreover have "size_t_of_int ?s = nat ?s" using s by (intro size_t_of_int_nonneg) auto
  ultimately show ?thesis using assms by (simp add: w trunc_mod_nonneg)
qed

lemma random_mode: "\<not> strcaseeq ''random'' ''off''" "strcaseeq ''random'' ''random''"
  by code_simp+

lemma setup_random:
  assumes "0 \<le> lo"
  shows "(let cfg = setup_padding (Some ''random'') (Some lo) (Some hi) None None padding_config_default in
    mode cfg = PADDING_RANDOM \<and> \<not> small_packets_only cfg \<and>
    min_size cfg = min lo (min 512 hi) \<and> max_size cfg = max lo (min 512 hi))"
  using assms
  by (simp add: setup_padding_def padding_init_def padding_config_default_def random_mode Let_def
      min_def max_def)

lemma random_size_range:
  assumes "mode cfg = PADDING_RANDOM" "\<not> small_packets_only cfg" "n \<le> 1150"
    "0 \<le> min_size cfg" "min_size cfg \<le> max_size cfg" "max_size cfg \<le> 512"
  shows "nat (min_size cfg) \<le> padding_calculate_size cfg rnd n \<and>
    padding_calculate_size cfg rnd n \<le> nat (max_size cfg)"
proof (cases "min_size cfg < max_size cfg")
  case True
  let ?s = "min_size cfg + int rnd mod (max_size cfg - min_size cfg + 1)"
  from True have "min_size cfg \<le> ?s" "?s \<le> max_size cfg"
    using mod_range_bounds [of "min_size cfg" "max_size cfg" rnd] by linarith+
  moreover have "padding_calculate_size cfg rnd n = min 512 (nat ?s)"
    using True assms by (simp add: padding_calculate_size_def random_size)
  ultimately show ?thesis using assms by linarith
next
  case False
  with assms show ?thesis by (simp add: padding_calculate_size_def size_t_of_int_nonneg)
qed

section \<open>Properties\<close>

text \<open>
  Property C22. Whatever the configuration and the random values, removing the padding that
  \<^verbatim>\<open>padding_add\<close> added gives back the packet, and the padded packet fits the output buffer
  and is at most 515 bytes longer than the original.
\<close>

theorem padding_roundtrip:
  assumes "padding_add cfg rnd fill data output_size = Some out"
  shows "unpad out = Some data \<and> length out \<le> output_size \<and>
    length data + 3 < length out \<and> length out \<le> length data + 3 + MAX_PADDING_SIZE"
proof -
  have "padding_calculate_size cfg rnd (length data) \<noteq> 0"
    using assms by (auto simp: padding_add_def Let_def split: if_splits)
  with padding_add_Some [OF assms] padding_size_bounds(1) show ?thesis by fastforce
qed

theorem padding_roundtrip_witness:
  "unpad [0xFD, 0, 2, 7, 8, 9, 9] = Some [7, 8] \<and> length [0xFD, 0, 2, 7, 8, 9, 9 :: byte] \<le> 10"
proof -
  have "padding_add (padding_config_default\<lparr>mode := PADDING_RANDOM, max_size := 2\<rparr>) 2 (\<lambda>_. 9) [7, 8] 10
      = Some [0xFD, 0, 2, 7, 8, 9, 9]"
    by code_simp
  from padding_roundtrip [OF this] show ?thesis by simp
qed

text \<open>
  \<^verbatim>\<open>padding_remove\<close> reports a non-empty range inside the received data, whatever
  arrives. A packet that was not padded comes through unchanged exactly when it does not start
  with the magic byte (or is shorter than the padding header): a three-byte or longer packet that
  happens to start with it is refused or cut, never delivered whole.
\<close>

theorem padding_remove_ambiguity:
  "(\<forall>off n. padding_remove data = Some (off, n) \<longrightarrow> off + n \<le> length data \<and> 0 < n) \<and>
   (data \<noteq> [] \<longrightarrow> (unpad data = Some data \<longleftrightarrow> hd data \<noteq> PADDING_MAGIC \<or> length data < 3))"
proof (intro conjI impI)
  assume "data \<noteq> []"
  then show "unpad data = Some data \<longleftrightarrow> hd data \<noteq> PADDING_MAGIC \<or> length data < 3"
    using unpad_plain [of data] unpad_magic [of data] by force
qed (auto dest: padding_remove_bounds)

theorem padding_remove_ambiguity_witness:
  "unpad [0xFD, 1, 2] \<noteq> Some [0xFD, 1, 2] \<and> unpad [1, 0xFD, 2] = Some [1, 0xFD, 2]"
  using padding_remove_ambiguity [of "[0xFD, 1, 2]"] padding_remove_ambiguity [of "[1, 0xFD, 2]"] by simp

text \<open>
  In the random mode a packet of at most 1150 bytes that the size threshold does not
  exempt gets between \<open>min_size\<close> and \<open>max_size\<close> bytes when these are ordered and in range, which
  reading the two variables from non-negative values guarantees. It does not for a negative
  \<^verbatim>\<open>QUICPaddingMax\<close>: the values are swapped, the minimum becomes negative and the padding
  the full 512 bytes.
\<close>

theorem random_padding_range:
  assumes "0 \<le> lo" "0 \<le> hi" "n \<le> 1150"
  shows "(let cfg = setup_padding (Some ''random'') (Some lo) (Some hi) None None padding_config_default in
      min_size cfg = min lo (min 512 hi) \<and>
      (lo \<le> 512 \<longrightarrow> nat (min_size cfg) \<le> padding_calculate_size cfg rnd n \<and>
        padding_calculate_size cfg rnd n \<le> nat (max_size cfg))) \<and>
    padding_calculate_size
      (setup_padding (Some ''random'') None (Some (-5)) None None padding_config_default) 0 n = 512"
proof
  let ?cfg = "setup_padding (Some ''random'') (Some lo) (Some hi) None None padding_config_default"
  note cfg = setup_random [OF assms(1), of hi]
  have range: "0 \<le> min_size ?cfg" "min_size ?cfg \<le> max_size ?cfg" "lo \<le> 512 \<Longrightarrow> max_size ?cfg \<le> 512"
    using assms cfg by (simp_all add: Let_def)
  then have "lo \<le> 512 \<Longrightarrow> nat (min_size ?cfg) \<le> padding_calculate_size ?cfg rnd n \<and>
      padding_calculate_size ?cfg rnd n \<le> nat (max_size ?cfg)"
    using random_size_range [of ?cfg n rnd] cfg assms(3) by (simp add: Let_def)
  with cfg show "let cfg = ?cfg in min_size cfg = min lo (min 512 hi) \<and>
      (lo \<le> 512 \<longrightarrow> nat (min_size cfg) \<le> padding_calculate_size cfg rnd n \<and>
        padding_calculate_size cfg rnd n \<le> nat (max_size cfg))" by (simp add: Let_def)
  show "padding_calculate_size
      (setup_padding (Some ''random'') None (Some (-5)) None None padding_config_default) 0 n = 512"
    using assms(3)
    by (simp add: setup_padding_def padding_init_def padding_config_default_def random_mode
        padding_calculate_size_def c_int_id c_int_ok_def trunc_mod_def trunc_div_def size_t_of_int_def)
qed

theorem random_padding_range_witness:
  "let cfg = setup_padding (Some ''random'') (Some 5) (Some 700) None None padding_config_default in
     min_size cfg = 5 \<and> 5 \<le> padding_calculate_size cfg 40 100 \<and> padding_calculate_size cfg 40 100 \<le> nat (max_size cfg)"
  using random_padding_range [of 5 700 100 40] by (auto simp: Let_def)

end
