(* ===== verification/Meta_Buffer.thy ===== *)
theory Meta_Buffer
  imports Prelude
begin

text \<open>
  The growing byte buffer of a connection (\<^verbatim>\<open>buffer.c\<close>) and the loop that takes complete
  request lines out of it (\<^verbatim>\<open>receive_meta\<close> in \<^verbatim>\<open>meta.c\<close>). The three counters are 32-bit
  words, so the sums of the code wrap as they do there; a write outside the allocation is the
  result \<open>None\<close> of \<open>buffer_add\<close>. What the allocator returns in fresh memory is the argument
  \<open>junk\<close>.
\<close>

section \<open>The buffer\<close>

record buffer =
  data :: "bytes option"
  maxlen :: u32
  len :: u32
  offset :: u32

definition buffer_empty :: buffer where
  "buffer_empty = \<lparr>data = None, maxlen = 0, len = 0, offset = 0\<rparr>"

text \<open>\<^verbatim>\<open>memmove\<close> of the unread bytes to the front of the allocation.\<close>

definition buffer_shift :: "buffer \<Rightarrow> buffer" where
  "buffer_shift b =
     b\<lparr>data := map_option (\<lambda>d. let n = unat (len b - offset b) in
                 take n (drop (unat (offset b)) d) @ drop n d) (data b),
       len := len b - offset b, offset := 0\<rparr>"

definition buffer_compact :: "buffer \<Rightarrow> u32 \<Rightarrow> buffer" where
  "buffer_compact b maxsize =
     (if len b \<ge> maxsize \<or> offset b div 7 > len b div 8 then buffer_shift b else b)"

text \<open>
  The position at which the caller may write, and the buffer with the space reserved.
\<close>

definition buffer_prepare :: "(nat \<Rightarrow> byte) \<Rightarrow> buffer \<Rightarrow> u32 \<Rightarrow> u32 \<times> buffer" where
  "buffer_prepare junk b sz =
     (let b2 = (case data b of
          None \<Rightarrow> b\<lparr>maxlen := sz, data := Some (map junk [0..<unat sz])\<rparr>
        | Some _ \<Rightarrow>
            (let b1 = (if offset b \<noteq> 0 \<and> len b + sz > maxlen b then buffer_shift b else b) in
             if len b1 + sz > maxlen b1
             then (let m = len b1 + sz in
               b1\<lparr>maxlen := m,
                  data := map_option (\<lambda>d. take (unat m) d @ map junk [length d..<unat m]) (data b1)\<rparr>)
             else b1))
      in (len b2, b2\<lparr>len := len b2 + sz\<rparr>))"

definition buffer_add :: "(nat \<Rightarrow> byte) \<Rightarrow> buffer \<Rightarrow> bytes \<Rightarrow> buffer option" where
  "buffer_add junk b xs =
     (case buffer_prepare junk b (of_nat (length xs)) of (start, b') \<Rightarrow>
        case data b' of
          None \<Rightarrow> None
        | Some d \<Rightarrow>
            if unat start + length xs \<le> length d
            then Some (b'\<lparr>data := Some (take (unat start) d @ xs @ drop (unat start + length xs) d)\<rparr>)
            else None)"

definition buffer_consume :: "buffer \<Rightarrow> u32 \<Rightarrow> u32 \<times> buffer" where
  "buffer_consume b sz =
     (offset b,
      (let o' = offset b + sz in
       if o' \<ge> len b then b\<lparr>offset := 0, len := 0\<rparr> else b\<lparr>offset := o'\<rparr>))"

text \<open>The bytes that were added and not yet taken.\<close>

definition contents :: "buffer \<Rightarrow> bytes" where
  "contents b = (case data b of None \<Rightarrow> []
     | Some d \<Rightarrow> take (unat (len b - offset b)) (drop (unat (offset b)) d))"

definition buffer_readline :: "buffer \<Rightarrow> (bytes \<times> buffer) option" where
  "buffer_readline b =
     (if 10 \<notin> set (contents b) then None
      else let n = length (takeWhile (\<lambda>c. c \<noteq> 10) (contents b)) in
        (case buffer_consume
            (b\<lparr>data := map_option (\<lambda>d. d[unat (offset b) + n := 0]) (data b)\<rparr>) (of_nat (n + 1))
         of (start, b') \<Rightarrow>
           Some (take n (drop (unat start) (case data b' of None \<Rightarrow> [] | Some d \<Rightarrow> d)), b')))"

definition buffer_read :: "buffer \<Rightarrow> u32 \<Rightarrow> (bytes \<times> buffer) option" where
  "buffer_read b sz =
     (if len b - offset b < sz then None
      else (case buffer_consume b sz of (start, b') \<Rightarrow>
        Some (take (unat sz) (drop (unat start) (case data b' of None \<Rightarrow> [] | Some d \<Rightarrow> d)), b')))"

definition buffer_clear :: "buffer \<Rightarrow> buffer" where
  "buffer_clear b = \<lparr>data = None, maxlen = 0, len = 0, offset = 0\<rparr>"

section \<open>Taking request lines\<close>

text \<open>
  The loop of \<^verbatim>\<open>receive_meta\<close> over any line buffer: \<open>handle\<close> is \<^verbatim>\<open>receive_request\<close> on the
  state of the daemon, and its result \<open>False\<close> stops the loop. Each round takes at least one byte,
  so the number of buffered bytes is enough fuel.
\<close>

fun drain_lines ::
  "('b \<Rightarrow> (bytes \<times> 'b) option) \<Rightarrow> ('b \<Rightarrow> bool) \<Rightarrow> ('s \<Rightarrow> bytes \<Rightarrow> 's \<times> bool) \<Rightarrow> nat \<Rightarrow> 's \<Rightarrow> 'b \<Rightarrow>
     's \<times> 'b \<times> bool" where
  "drain_lines readline nonempty handle 0 s b = (s, b, True)"
| "drain_lines readline nonempty handle (Suc fuel) s b =
     (if nonempty b then
        (case readline b of
           None \<Rightarrow> (s, b, True)
         | Some (request, b') \<Rightarrow>
             (case handle s request of (s', result) \<Rightarrow>
                if result then drain_lines readline nonempty handle fuel s' b' else (s', b', False)))
      else (s, b, True))"

definition receive_meta :: "('s \<Rightarrow> bytes \<Rightarrow> 's \<times> bool) \<Rightarrow> 's \<Rightarrow> buffer \<Rightarrow> 's \<times> buffer \<times> bool" where
  "receive_meta handle s inbuf =
     drain_lines buffer_readline (\<lambda>b. len b \<noteq> 0) handle (Suc (unat (len inbuf))) s inbuf"

text \<open>What the connection delivers: the complete lines of a byte sequence and what is left.\<close>

function lines_of :: "bytes \<Rightarrow> bytes list \<times> bytes" where
  "lines_of xs =
     (case dropWhile (\<lambda>c. c \<noteq> 10) xs of
        [] \<Rightarrow> ([], xs)
      | _ # rest \<Rightarrow> (case lines_of rest of (ls, r) \<Rightarrow> (takeWhile (\<lambda>c. c \<noteq> 10) xs # ls, r)))"
  by pat_completeness auto
termination
proof (relation "measure length")
  fix xs rest :: bytes and c
  assume "dropWhile (\<lambda>c. c \<noteq> 10) xs = c # rest"
  then show "(rest, xs) \<in> measure length"
    using length_dropWhile_le [of "\<lambda>c. c \<noteq> 10" xs] by simp
qed simp

declare lines_of.simps [simp del]

text \<open>Handling a list of requests up to the first refusal.\<close>

fun handle_all :: "('s \<Rightarrow> bytes \<Rightarrow> 's \<times> bool) \<Rightarrow> 's \<Rightarrow> bytes list \<Rightarrow> 's \<times> bytes list \<times> bool" where
  "handle_all handle s [] = (s, [], True)"
| "handle_all handle s (l # ls) =
     (case handle s l of (s', result) \<Rightarrow>
        if result then handle_all handle s' ls else (s', ls, False))"

section \<open>Line splitting\<close>

lemma lines_of_partial: "10 \<notin> set xs \<Longrightarrow> lines_of xs = ([], xs)"
proof -
  assume "10 \<notin> set xs"
  then have "dropWhile (\<lambda>c. c \<noteq> 10) xs = []" by auto
  then show ?thesis by (subst lines_of.simps) (simp only: list.case)
qed

lemma lines_of_line:
  assumes "10 \<notin> set l"
  shows "lines_of (l @ 10 # r) = (l # fst (lines_of r), snd (lines_of r))"
proof -
  have "dropWhile (\<lambda>c. c \<noteq> 10) (l @ 10 # r) = 10 # r" "takeWhile (\<lambda>c. c \<noteq> 10) (l @ 10 # r) = l"
    using assms by (induction l) auto
  then show ?thesis by (subst lines_of.simps) (simp split: prod.split)
qed

text \<open>Every byte sequence is a partial line, or a first line and the rest.\<close>

lemma line_cases [case_names partial line]:
  obtains "10 \<notin> set xs" | l r where "10 \<notin> set l" "xs = l @ 10 # r"
  using split_list_first [of 10 xs] by blast

lemma line_induct [case_names partial line]:
  assumes "\<And>xs. 10 \<notin> set xs \<Longrightarrow> P xs" "\<And>l r. 10 \<notin> set l \<Longrightarrow> P r \<Longrightarrow> P (l @ 10 # r)"
  shows "P xs"
proof (induction xs rule: length_induct)
  case (1 xs)
  show ?case by (cases xs rule: line_cases) (use 1 assms in auto)
qed

lemma lines_of_concat: "concat (map (\<lambda>l. l @ [10]) (fst (lines_of xs))) @ snd (lines_of xs) = xs"
  by (induction xs rule: line_induct) (simp_all add: lines_of_partial lines_of_line)

lemma lines_of_append:
  "lines_of (xs @ ys) = (case lines_of (snd (lines_of xs) @ ys) of (ls, r) \<Rightarrow> (fst (lines_of xs) @ ls, r))"
  by (induction xs rule: line_induct)
     (auto simp: lines_of_partial lines_of_line split: prod.splits)

lemma lines_of_rest: "10 \<notin> set (snd (lines_of xs))"
  by (induction xs rule: line_induct) (simp_all add: lines_of_partial lines_of_line)

lemma lines_of_whole: "\<forall>l \<in> set (fst (lines_of xs)). 10 \<notin> set l"
  by (induction xs rule: line_induct) (simp_all add: lines_of_partial lines_of_line)

lemma lines_of_lines:
  "\<forall>l \<in> set hs. 10 \<notin> set l \<Longrightarrow> lines_of (concat (map (\<lambda>l. l @ [10]) hs) @ r) = (hs @ fst (lines_of r), snd (lines_of r))"
  by (induction hs) (simp_all add: lines_of_line)

lemma handle_all_append:
  "handle_all handle s (ls @ ms) = (case handle_all handle s ls of (s', rest, ok) \<Rightarrow>
     if ok then handle_all handle s' ms else (s', rest @ ms, False))"
  by (induction ls arbitrary: s) (auto split: prod.splits)

lemma handle_all_ok: "handle_all handle s ls = (s', rest, True) \<Longrightarrow> rest = []"
  by (induction ls arbitrary: s) (auto split: prod.splits if_splits)

section \<open>The contract of a line buffer\<close>

locale line_buffer =
  fixes cont :: "'b \<Rightarrow> bytes" and inv :: "'b \<Rightarrow> bool" and nonempty :: "'b \<Rightarrow> bool"
    and readline :: "'b \<Rightarrow> (bytes \<times> 'b) option"
  assumes nonempty: "inv b \<Longrightarrow> nonempty b \<longleftrightarrow> cont b \<noteq> []"
    and readline_None: "inv b \<Longrightarrow> readline b = None \<longleftrightarrow> 10 \<notin> set (cont b)"
    and readline_Some: "inv b \<Longrightarrow> readline b = Some (l, b') \<Longrightarrow>
      inv b' \<and> 10 \<notin> set l \<and> cont b = l @ 10 # cont b'"
begin

lemma drain_delivers:
  assumes "inv b" "length (cont b) < fuel"
  shows "case drain_lines readline nonempty handle fuel s b of (s', b', ok) \<Rightarrow>
    inv b' \<and> (\<exists>rest. handle_all handle s (fst (lines_of (cont b))) = (s', rest, ok) \<and>
      cont b' = concat (map (\<lambda>l. l @ [10]) rest) @ snd (lines_of (cont b)))"
  using assms
proof (induction fuel arbitrary: s b)
  case (Suc fuel)
  show ?case
  proof (cases "readline b")
    case None
    with Suc.prems readline_None [OF Suc.prems(1)] show ?thesis by (simp add: lines_of_partial)
  next
    case (Some p)
    obtain l b' where p: "p = (l, b')" by (cases p)
    note rl = readline_Some [OF Suc.prems(1) Some [unfolded p]]
    have ne: "nonempty b" using rl nonempty [OF Suc.prems(1)] by simp
    have "length (cont b') < fuel" using rl Suc.prems(2) by simp
    note IH = Suc.IH [OF conjunct1 [OF rl] this]
    show ?thesis
    proof (cases "snd (handle s l)")
      case True
      with IH [of "fst (handle s l)"] Some p ne rl show ?thesis
        by (auto simp: lines_of_line split: prod.splits)
    next
      case False
      with Some p ne rl lines_of_concat [of "cont b'"] show ?thesis
        by (auto simp: lines_of_line split: prod.splits)
    qed
  qed
qed simp

end

section \<open>The buffer implements the contract\<close>

definition buffer_inv :: "buffer \<Rightarrow> bool" where
  "buffer_inv b \<longleftrightarrow> (offset b < len b \<or> offset b = 0 \<and> len b = 0) \<and> len b \<le> maxlen b \<and>
     (case data b of None \<Rightarrow> maxlen b = 0 | Some d \<Rightarrow> length d = unat (maxlen b))"

lemma buffer_inv_empty [simp]: "buffer_inv buffer_empty" "buffer_inv (buffer_clear b)"
  "contents buffer_empty = []" "contents (buffer_clear b) = []"
  by (simp_all add: buffer_inv_def buffer_empty_def buffer_clear_def contents_def)

lemma len_buffer_empty: "len buffer_empty = 0"
  by (simp add: buffer_empty_def)

lemma buffer_inv_nat:
  assumes "buffer_inv b"
  shows "unat (offset b) \<le> unat (len b)" "unat (len b - offset b) = unat (len b) - unat (offset b)"
    "unat (len b) \<le> unat (maxlen b)" "length (contents b) = unat (len b) - unat (offset b)"
    "data b = Some d \<Longrightarrow> length d = unat (maxlen b)"
proof -
  have le: "offset b \<le> len b" using assms by (auto simp: buffer_inv_def)
  then show 1: "unat (offset b) \<le> unat (len b)" by (simp add: word_le_nat_alt)
  from le show 2: "unat (len b - offset b) = unat (len b) - unat (offset b)" by (rule unat_sub)
  show 3: "unat (len b) \<le> unat (maxlen b)" using assms by (simp add: buffer_inv_def word_le_nat_alt)
  show "length (contents b) = unat (len b) - unat (offset b)"
    using 1 3 assms by (auto simp: contents_def 2 buffer_inv_def split: option.splits)
  show "data b = Some d \<Longrightarrow> length d = unat (maxlen b)" using assms by (simp add: buffer_inv_def)
qed

lemma buffer_nonempty: "buffer_inv b \<Longrightarrow> len b \<noteq> 0 \<longleftrightarrow> contents b \<noteq> []"
  using buffer_inv_nat(4) [of b]
  by (auto simp: buffer_inv_def word_less_nat_alt simp flip: length_greater_0_conv)

lemma buffer_shift_keeps:
  assumes "buffer_inv b"
  shows "buffer_inv (buffer_shift b)" "contents (buffer_shift b) = contents b"
    "offset (buffer_shift b) = 0" "maxlen (buffer_shift b) = maxlen b"
    "data (buffer_shift b) = None \<longleftrightarrow> data b = None"
    "unat (len (buffer_shift b)) = length (contents b)"
  using assms buffer_inv_nat [OF assms]
  by (auto simp: buffer_shift_def contents_def buffer_inv_def word_less_nat_alt word_le_nat_alt Let_def
      split: option.splits)

lemma buffer_compact_keeps:
  "buffer_inv b \<Longrightarrow> buffer_inv (buffer_compact b m) \<and> contents (buffer_compact b m) = contents b"
  by (simp add: buffer_compact_def buffer_shift_keeps)

lemma unat_add_exact: "unat (a :: u32) + unat b < 2 ^ 32 \<Longrightarrow> unat (a + b) = unat a + unat b"
  by (simp add: unat_word_ariths)

text \<open>Reserving space keeps the contents and leaves room for the new bytes behind them.\<close>

lemma buffer_prepare_keeps:
  assumes inv: "buffer_inv b" and fits: "unat (len b) + unat sz < 2 ^ 32"
    and p: "buffer_prepare junk b sz = (start, b')"
  obtains d where "data b' = Some d" "length d = unat (maxlen b')"
    "unat (len b') = unat start + unat sz" "unat start + unat sz \<le> length d"
    "unat (offset b') \<le> unat start" "offset b' = 0 \<or> offset b' < start" "unat start \<le> unat (len b)"
    "take (unat start - unat (offset b')) (drop (unat (offset b')) d) = contents b"
proof (cases "data b")
  case None
  with inv have "len b = 0" "offset b = 0" "contents b = []"
    by (auto simp: buffer_inv_def contents_def)
  with None p that [of "map junk [0..<unat sz]"] show thesis
    by (auto simp: buffer_prepare_def Let_def)
next
  case (Some d0)
  define b1 where "b1 = (if offset b \<noteq> 0 \<and> len b + sz > maxlen b then buffer_shift b else b)"
  have b1: "buffer_inv b1" "contents b1 = contents b" "data b1 \<noteq> None" "unat (len b1) \<le> unat (len b)"
    using inv Some buffer_shift_keeps [OF inv] buffer_inv_nat(4) [OF inv] by (auto simp: b1_def)
  then obtain d1 where d1: "data b1 = Some d1" by auto
  have sum: "unat (len b1 + sz) = unat (len b1) + unat sz"
    using b1(4) fits by (intro unat_add_exact) linarith
  note n = buffer_inv_nat [OF b1(1)]
  have start: "start = len b1" and b': "b' = (if len b1 + sz > maxlen b1
      then b1\<lparr>maxlen := len b1 + sz, data := Some (take (unat (len b1 + sz)) d1 @ map junk [length d1..<unat (len b1 + sz)]),
             len := len b1 + sz\<rparr>
      else b1\<lparr>len := len b1 + sz\<rparr>)"
    using p Some d1 by (auto simp: buffer_prepare_def Let_def b1_def [symmetric])
  have c: "take (unat (len b1) - unat (offset b1)) (drop (unat (offset b1)) d1) = contents b"
    using b1(2) d1 n(2) by (simp add: contents_def)
  have off: "offset b1 = 0 \<or> offset b1 < len b1" using b1(1) by (auto simp: buffer_inv_def)
  show thesis
  proof (cases "len b1 + sz > maxlen b1")
    case True
    then have "length d1 < unat (len b1) + unat sz" using n(5) [OF d1] by (simp add: word_less_nat_alt sum)
    with True that [of "d1 @ map junk [length d1..<unat (len b1 + sz)]"] b' start n c d1 off b1(4) show thesis
      by (simp add: sum)
  next
    case False
    then show thesis using that [of d1] b' start n c d1 off b1(4)
      by (simp add: sum word_less_nat_alt)
  qed
qed

lemma buffer_add_spec:
  assumes "buffer_inv b" "unat (len b) + length xs < 2 ^ 32"
  obtains b' where "buffer_add junk b xs = Some b'" "buffer_inv b'" "contents b' = contents b @ xs"
    "unat (len b') \<le> unat (len b) + length xs"
proof -
  have sz: "unat (of_nat (length xs) :: u32) = length xs" using assms(2) by (simp add: unat_of_nat)
  obtain start b1 where p: "buffer_prepare junk b (of_nat (length xs)) = (start, b1)"
    by (cases "buffer_prepare junk b (of_nat (length xs))")
  with assms sz obtain d where d: "data b1 = Some d" "length d = unat (maxlen b1)"
    "unat (len b1) = unat start + length xs" "unat start + length xs \<le> length d"
    "unat (offset b1) \<le> unat start" "offset b1 = 0 \<or> offset b1 < start" "unat start \<le> unat (len b)"
    "take (unat start - unat (offset b1)) (drop (unat (offset b1)) d) = contents b"
    using buffer_prepare_keeps [OF assms(1) _ p] by metis
  let ?d = "take (unat start) d @ xs @ drop (unat start + length xs) d"
  let ?b = "b1\<lparr>data := Some ?d\<rparr>"
  have add: "buffer_add junk b xs = Some ?b" using p d by (simp add: buffer_add_def)
  have o: "offset b1 \<le> len b1" using d by (simp add: word_le_nat_alt)
  have inv: "buffer_inv ?b"
    using d by (auto simp: buffer_inv_def word_less_nat_alt word_le_nat_alt unat_eq_zero)
  have "length (contents b) = unat start - unat (offset b1)"
    using d(4,5) by (simp flip: d(8))
  moreover have "contents ?b = take (unat (len b1) - unat (offset b1)) (contents b @ xs @ drop (unat start + length xs) d)"
    using d(4,5,8) by (simp add: contents_def unat_sub [OF o] drop_take)
  ultimately have "contents ?b = contents b @ xs" using d(3,5) by simp
  with add inv d(3,7) that [of ?b] show thesis by simp
qed

lemma buffer_consume_spec:
  assumes "buffer_inv b" "unat sz \<le> length (contents b)"
  shows "buffer_inv (snd (buffer_consume b sz))"
    "contents (snd (buffer_consume b sz)) = drop (unat sz) (contents b)"
    "fst (buffer_consume b sz) = offset b" "data (snd (buffer_consume b sz)) = data b"
proof -
  note n = buffer_inv_nat [OF assms(1)]
  have sum: "unat (offset b + sz) = unat sz + unat (offset b)"
    using n assms(2) unsigned_less [of "len b", where 'a = nat] unat_add_exact [of "offset b" sz] by simp
  show "buffer_inv (snd (buffer_consume b sz))"
    using assms(1) by (auto simp: buffer_consume_def buffer_inv_def Let_def split: option.splits)
  show "contents (snd (buffer_consume b sz)) = drop (unat sz) (contents b)"
  proof (cases "offset b + sz \<ge> len b")
    case True
    then have "length (contents b) \<le> unat sz" using n by (simp add: word_le_nat_alt sum)
    with True show ?thesis by (simp add: buffer_consume_def contents_def split: option.split)
  next
    case False
    then have le: "offset b + sz \<le> len b" by simp
    show ?thesis using False n by (simp add: buffer_consume_def contents_def unat_sub [OF le] sum
          drop_take add.commute [of "unat sz"] split: option.split)
  qed
  show "fst (buffer_consume b sz) = offset b" "data (snd (buffer_consume b sz)) = data b"
    by (simp_all add: buffer_consume_def Let_def)
qed

lemma buffer_readline_Some:
  assumes inv: "buffer_inv b" and rl: "buffer_readline b = Some (l, b')"
  shows "buffer_inv b' \<and> 10 \<notin> set l \<and> contents b = l @ 10 # contents b'"
proof -
  have "10 \<in> set (contents b)" using rl by (simp add: buffer_readline_def split: if_splits)
  then obtain line rest where c: "contents b = line @ 10 # rest" and line: "10 \<notin> set line"
    using split_list_first by metis
  then obtain d where d: "data b = Some d" by (auto simp: contents_def split: option.splits)
  let ?o = "unat (offset b)" and ?n = "length line"
  let ?b = "b\<lparr>data := Some (d[?o + ?n := 0])\<rparr>"
  note n = buffer_inv_nat [OF inv]
  have n1: "unat (of_nat (?n + 1) :: u32) = ?n + 1"
    using n(4) c unsigned_less [of "len b", where 'a = nat] by (simp add: unat_of_nat del: of_nat_add of_nat_Suc)
  have tw: "takeWhile (\<lambda>c. c \<noteq> 10) (contents b) = line" using line unfolding c by (induction line) auto
  have cd: "take (unat (len b - offset b)) (drop ?o d) = line @ 10 # rest" using c d by (simp add: contents_def)
  have inv1: "buffer_inv ?b" using inv d by (simp add: buffer_inv_def)
  have c1: "contents ?b = line @ 0 # rest"
    using cd by (simp add: contents_def drop_update_swap take_update_swap list_update_append)
  have td: "take ?n (drop ?o (d[?o + ?n := 0])) = line"
  proof -
    have "take ?n (contents ?b) = line" by (simp add: c1)
    moreover have "?n \<le> unat (len b - offset b)" using n(2,4) c by simp
    ultimately show ?thesis by (simp add: contents_def min_absorb1)
  qed
  note con = buffer_consume_spec [OF inv1, of "of_nat (?n + 1)"]
  have le: "unat (of_nat (?n + 1) :: u32) \<le> length (contents ?b)" unfolding n1 by (simp add: c1)
  have "l = line" "b' = snd (buffer_consume ?b (of_nat (?n + 1)))"
    using rl c tw d td con(3,4) [OF le] by (auto simp: buffer_readline_def Let_def split: prod.splits)
  with con(1,2) [OF le] c c1 line n1 show ?thesis by simp
qed

lemma buffer_read_spec:
  assumes "buffer_inv b"
  shows "case buffer_read b sz of
      None \<Rightarrow> length (contents b) < unat sz
    | Some (xs, b') \<Rightarrow> buffer_inv b' \<and> contents b = xs @ contents b' \<and> length xs = unat sz"
proof (cases "len b - offset b < sz")
  case True
  with buffer_inv_nat [OF assms] show ?thesis by (simp add: buffer_read_def word_less_nat_alt)
next
  case False
  then have le: "unat sz \<le> length (contents b)" "unat sz \<le> unat (len b - offset b)"
    using buffer_inv_nat [OF assms] by (simp_all add: word_less_nat_alt)
  have "take (unat sz) (drop (unat (offset b)) (case data b of None \<Rightarrow> [] | Some d \<Rightarrow> d)) =
      take (unat sz) (contents b)"
    using le by (simp add: contents_def min_absorb1 split: option.split)
  with False le buffer_consume_spec [OF assms le(1)] show ?thesis
    by (auto simp: buffer_read_def simp del: length_take split: prod.splits) (simp add: min_absorb2)
qed

interpretation meta_inbuf: line_buffer contents buffer_inv "\<lambda>b. len b \<noteq> 0" buffer_readline
proof
  show "buffer_inv b \<Longrightarrow> len b \<noteq> 0 \<longleftrightarrow> contents b \<noteq> []" for b by (rule buffer_nonempty)
  show "buffer_readline b = None \<longleftrightarrow> 10 \<notin> set (contents b)" for b
    by (simp add: buffer_readline_def Let_def split: prod.split)
qed (rule buffer_readline_Some)

section \<open>Properties\<close>

lemma receive_meta_spec:
  assumes "buffer_inv b" "receive_meta handle s b = (s', b', ok)"
  shows "buffer_inv b' \<and> (\<exists>rest. handle_all handle s (fst (lines_of (contents b))) = (s', rest, ok) \<and>
      contents b' = concat (map (\<lambda>l. l @ [10]) rest) @ snd (lines_of (contents b)))"
proof -
  have "length (contents b) < Suc (unat (len b))" using buffer_inv_nat(4) [OF assms(1)] by simp
  from meta_inbuf.drain_delivers [OF assms(1) this, of handle s] assms(2) show ?thesis
    by (simp add: receive_meta_def)
qed

text \<open>
  Property C18. The byte buffer is a faithful queue: on every well-formed buffer, adding bytes
  (as long as the 32-bit length does not wrap) writes inside the allocation and appends exactly
  these bytes, compacting changes nothing a reader sees, reading a line takes the first complete
  line and its newline off the front, and reading a block takes exactly that many bytes, or
  nothing when they are not there yet.
\<close>

theorem buffer_is_byte_queue:
  assumes "buffer_inv b" "unat (len b) + length xs < 2 ^ 32"
  shows "(\<exists>b'. buffer_add junk b xs = Some b' \<and> buffer_inv b' \<and> contents b' = contents b @ xs) \<and>
    buffer_inv (buffer_compact b m) \<and> contents (buffer_compact b m) = contents b \<and>
    (case buffer_readline b of
       None \<Rightarrow> 10 \<notin> set (contents b)
     | Some (l, b') \<Rightarrow> buffer_inv b' \<and> 10 \<notin> set l \<and> contents b = l @ 10 # contents b') \<and>
    (case buffer_read b sz of
       None \<Rightarrow> length (contents b) < unat sz
     | Some (ys, b') \<Rightarrow> buffer_inv b' \<and> contents b = ys @ contents b' \<and> length ys = unat sz)"
proof (intro conjI)
  show "\<exists>b'. buffer_add junk b xs = Some b' \<and> buffer_inv b' \<and> contents b' = contents b @ xs"
    using buffer_add_spec [OF assms] by metis
  show "case buffer_readline b of None \<Rightarrow> 10 \<notin> set (contents b)
     | Some (l, b') \<Rightarrow> buffer_inv b' \<and> 10 \<notin> set l \<and> contents b = l @ 10 # contents b'"
    using meta_inbuf.readline_None [OF assms(1)] meta_inbuf.readline_Some [OF assms(1)]
    by (auto split: option.split prod.split)
qed (use assms(1) in \<open>simp_all add: buffer_compact_keeps buffer_read_spec\<close>)

theorem buffer_is_byte_queue_witness:
  "\<exists>b. buffer_add (\<lambda>_. 7) buffer_empty [1, 10, 2] = Some b \<and> contents b = [1, 10, 2]"
  using buffer_is_byte_queue [of buffer_empty "[1, 10, 2]" "\<lambda>_. 7" 0 0]
  by (auto simp: len_buffer_empty)


text \<open>Reading lines never lengthens the buffer.\<close>

lemma buffer_readline_len: "buffer_readline b = Some (l, b') \<Longrightarrow> len b' \<le> len b"
  by (auto simp: buffer_readline_def buffer_consume_def Let_def split: if_splits)

lemma drain_len: "drain_lines buffer_readline ne handle fuel s b = (s', b', ok) \<Longrightarrow> len b' \<le> len b"
  by (induction fuel arbitrary: s b)
     (auto split: if_splits option.splits prod.splits dest!: buffer_readline_len intro: order_trans)

lemma receive_meta_len: "receive_meta handle s b = (s', b', ok) \<Longrightarrow> unat (len b') \<le> unat (len b)"
  unfolding receive_meta_def by (rule drain_len [unfolded word_le_nat_alt])

text \<open>The state after a list of requests, each of them handled whatever its result.\<close>

definition after :: "('s \<Rightarrow> bytes \<Rightarrow> 's \<times> bool) \<Rightarrow> 's \<Rightarrow> bytes list \<Rightarrow> 's" where
  "after handle s ls = foldl (\<lambda>s l. fst (handle s l)) s ls"

lemma after_simps [simp]: "after handle s [] = s" "after handle s (ls @ ms) = after handle (after handle s ls) ms"
  by (simp_all add: after_def)

lemma handle_all_after:
  "handle_all handle s ls = (s', rest, ok) \<Longrightarrow> \<exists>hs. ls = hs @ rest \<and> s' = after handle s hs \<and>
     (if ok then rest = [] else hs \<noteq> [] \<and> \<not> snd (handle (after handle s (butlast hs)) (last hs)))"
proof (induction ls arbitrary: s)
  case (Cons l ls)
  show ?case
  proof (cases "snd (handle s l)")
    case True
    with Cons.prems have "handle_all handle (fst (handle s l)) ls = (s', rest, ok)" by (simp add: case_prod_beta)
    from Cons.IH [OF this] obtain hs where "ls = hs @ rest" "s' = after handle (fst (handle s l)) hs"
      "if ok then rest = [] else hs \<noteq> [] \<and> \<not> snd (handle (after handle (fst (handle s l)) (butlast hs)) (last hs))" by blast
    then show ?thesis by (intro exI [of _ "l # hs"]) (auto simp: after_def split: if_splits)
  next
    case False
    with Cons.prems show ?thesis by (intro exI [of _ "[l]"]) (auto simp: after_def split: prod.splits)
  qed
qed simp

text \<open>What the loop leaves: the lines it handled, and the rest of the text in the buffer.\<close>

lemma receive_meta_lines:
  assumes "buffer_inv b" "receive_meta handle s b = (s', b', ok)"
  obtains hs where "s' = after handle s hs" "contents b = concat (map (\<lambda>l. l @ [10]) hs) @ contents b'" "\<forall>l \<in> set hs. 10 \<notin> set l"
    "10 \<in> set (contents b') \<Longrightarrow> hs \<noteq> [] \<and> \<not> snd (handle (after handle s (butlast hs)) (last hs))" "buffer_inv b'"
proof -
  let ?ls = "fst (lines_of (contents b))"
  from receive_meta_spec [OF assms] obtain rest where r: "buffer_inv b'" "handle_all handle s ?ls = (s', rest, ok)"
    "contents b' = concat (map (\<lambda>l. l @ [10]) rest) @ snd (lines_of (contents b))" by blast
  from handle_all_after [OF r(2)] obtain hs where hs: "?ls = hs @ rest" "s' = after handle s hs"
    "if ok then rest = [] else hs \<noteq> [] \<and> \<not> snd (handle (after handle s (butlast hs)) (last hs))" by blast
  have "\<forall>l \<in> set ?ls. 10 \<notin> set l" by (rule lines_of_whole)
  then show thesis
    using that [of hs] hs r lines_of_concat [of "contents b"] lines_of_rest [of "contents b"] by (cases ok) auto
qed

end
