(* ===== verification/Quic_Framing.thy ===== *)
theory Quic_Framing
  imports Http3_Frames Packet_Padding Meta_Buffer
begin

text \<open>
  What \<^verbatim>\<open>quic.c\<close> puts into and takes out of the datagrams and the control stream of a QUIC
  connection: \<^verbatim>\<open>quic_send_packet\<close> builds a VPN packet directly in a pooled send buffer with
  its own copies of the HTTP/3 and padding headers, the \<^verbatim>\<open>DATAGRAM_RECEIVED\<close> event undoes it
  with the functions of \<^verbatim>\<open>http3_frames.c\<close> and \<^verbatim>\<open>padding.c\<close>; \<^verbatim>\<open>quic_send_meta\<close> frames
  metadata and the stream's \<^verbatim>\<open>RECEIVE\<close> event collects it in the connection's input buffer.
  The transport itself (MsQuic) is not modelled.
\<close>

section \<open>Datagrams\<close>

abbreviation (input) MAXSIZE :: nat where "MAXSIZE \<equiv> 1577"
abbreviation (input) SEND_SPACE :: nat where "SEND_SPACE \<equiv> 2200"

text \<open>The padding \<^verbatim>\<open>quic_send_packet\<close> adds: it does not use \<^verbatim>\<open>padding_calculate_size\<close>.\<close>

definition tx_padding_len :: "padding_mode \<Rightarrow> nat \<Rightarrow> nat" where
  "tx_padding_len m n =
     (if m = PADDING_OFF then 0
      else let target_size = (case m of
            PADDING_RANDOM \<Rightarrow> (if n + 64 > MAX_PADDING_SIZE + n then MAX_PADDING_SIZE + n else n + 64)
          | PADDING_BUCKETS \<Rightarrow> (n + 127) div 128 * 128
          | PADDING_OFF \<Rightarrow> n)
        in if target_size > n then target_size - n else 0)"

definition tx_http3_header_len :: "nat \<Rightarrow> nat" where
  "tx_http3_header_len n =
     (if n < 64 then 2 else if n < 16384 then 3 else if n < 1073741824 then 5 else 9)"

definition tx_http3_header :: "u64 \<Rightarrow> bytes option" where
  "tx_http3_header n =
     (if n < 64 then Some [0, ucast n]
      else if n < 16384 then Some [0, ucast (drop_bit 8 n) OR 0x40, ucast n]
      else if n < 1073741824 then
        Some [0, ucast (drop_bit 24 n) OR 0x80, ucast (drop_bit 16 n), ucast (drop_bit 8 n), ucast n]
      else None)"

text \<open>
  The bytes handed to \<^verbatim>\<open>DatagramSend\<close>: the first \<^verbatim>\<open>total_alloc_size\<close> bytes of the send
  buffer, which still holds the bytes \<open>stale\<close> of its previous use where the code did not write.
\<close>

definition tx_written :: "bool \<Rightarrow> nat \<Rightarrow> bytes \<Rightarrow> bytes option" where
  "tx_written masq padding_len payload =
     (let phl = (if padding_len > 0 then 3 else 0) in
      do { h \<leftarrow> (if masq then tx_http3_header (of_nat (phl + length payload + padding_len)) else Some []);
           Some (h @ (if padding_len > 0 then [0xFD] @ be16_bytes (length payload) else []) @
                 payload @ replicate padding_len 0) })"

definition quic_frame_packet :: "bool \<Rightarrow> padding_mode \<Rightarrow> bytes \<Rightarrow> bytes \<Rightarrow> bytes option" where
  "quic_frame_packet masq m stale payload =
     (let padding_len = tx_padding_len m (length payload);
          http3_header_len = (if masq then tx_http3_header_len (length payload + padding_len) else 0);
          padding_header_len = (if padding_len > 0 then 3 else 0);
          total_alloc_size = http3_header_len + padding_header_len + length payload + padding_len
      in if total_alloc_size > SEND_SPACE then None
         else map_option (\<lambda>w. take total_alloc_size (w @ drop (length w) stale))
                (tx_written masq padding_len payload))"

datatype datagram_result = Rx_Dropped | Rx_Probe | Rx_Packet bytes

definition quic_datagram_received :: "bool \<Rightarrow> bool \<Rightarrow> bytes \<Rightarrow> datagram_result" where
  "quic_datagram_received masq node_established d =
     (if \<not> (0 < length d \<and> length d \<le> MAXSIZE) then Rx_Dropped
      else if \<not> node_established then Rx_Dropped
      else let payload = (if masq then
                 (case http3_parse_data_frame d of Some (hl, n) \<Rightarrow> take n (drop hl d) | None \<Rightarrow> d)
               else d)
        in (case unpad payload of
              None \<Rightarrow> Rx_Dropped
            | Some p \<Rightarrow>
                if length p > MAXSIZE then Rx_Dropped
                else if length p \<ge> 14 \<and> p ! 12 = 0 \<and> p ! 13 = 0 then Rx_Probe
                else Rx_Packet p))"

section \<open>The control stream\<close>

definition quic_meta_frame :: "bool \<Rightarrow> bool \<Rightarrow> bytes \<Rightarrow> bytes option" where
  "quic_meta_frame masq invitation m =
     (if masq \<and> \<not> invitation then http3_create_data_frame m (length m + 32) else Some m)"

text \<open>The loop over the frames of one receive buffer; it stops at the first it cannot parse.\<close>

function stream_frames :: "(nat \<Rightarrow> byte) \<Rightarrow> bytes \<Rightarrow> nat \<Rightarrow> buffer \<Rightarrow> buffer option" where
  "stream_frames junk xs off inbuf =
     (if off < length xs then
        (case http3_parse_data_frame (drop off xs) of
           Some (hl, n) \<Rightarrow>
             (case buffer_add junk inbuf (take n (drop hl (drop off xs))) of
                None \<Rightarrow> None
              | Some b \<Rightarrow> stream_frames junk xs (off + (hl + n)) b)
         | None \<Rightarrow>
             (case http3_parse_headers_frame (drop off xs) of
                Some n \<Rightarrow> stream_frames junk xs (off + n) inbuf
              | None \<Rightarrow> if off = 0 then buffer_add junk inbuf xs else Some inbuf))
      else Some inbuf)"
  by pat_completeness auto
termination
  by (relation "measure (\<lambda>(junk, xs, off, inbuf). length xs - off)")
     (auto dest: parse_frame_progress)

declare stream_frames.simps [simp del]

fun quic_stream_receive :: "(nat \<Rightarrow> byte) \<Rightarrow> bool \<Rightarrow> bool \<Rightarrow> bytes list \<Rightarrow> buffer \<Rightarrow> buffer option" where
  "quic_stream_receive junk masq invitation [] inbuf = Some inbuf"
| "quic_stream_receive junk masq invitation (xs # xss) inbuf =
     (case (if masq \<and> xs \<noteq> [] \<and> \<not> invitation then stream_frames junk xs 0 inbuf
            else buffer_add junk inbuf xs) of
        None \<Rightarrow> None
      | Some b \<Rightarrow> quic_stream_receive junk masq invitation xss b)"

text \<open>
  One \<^verbatim>\<open>RECEIVE\<close> event of the control stream: the data of its buffers, then \<^verbatim>\<open>receive_meta\<close>, whose result is only logged;
  and a sequence of events. The result \<open>None\<close> is a write outside the input buffer.
\<close>

definition quic_stream_event ::
  "(nat \<Rightarrow> byte) \<Rightarrow> bool \<Rightarrow> bool \<Rightarrow> ('s \<Rightarrow> bytes \<Rightarrow> 's \<times> bool) \<Rightarrow> bytes list \<Rightarrow> 's \<times> buffer \<Rightarrow> ('s \<times> buffer) option" where
  "quic_stream_event junk masq invitation handle buffers =
     (\<lambda>(s, inbuf). case quic_stream_receive junk masq invitation buffers inbuf of
        None \<Rightarrow> None
      | Some b \<Rightarrow> (case receive_meta handle s b of (s', b', ok) \<Rightarrow> Some (s', b')))"

fun quic_stream_events ::
  "(nat \<Rightarrow> byte) \<Rightarrow> bool \<Rightarrow> bool \<Rightarrow> ('s \<Rightarrow> bytes \<Rightarrow> 's \<times> bool) \<Rightarrow> bytes list list \<Rightarrow> 's \<times> buffer \<Rightarrow> ('s \<times> buffer) option" where
  "quic_stream_events junk masq invitation handle [] sb = Some sb"
| "quic_stream_events junk masq invitation handle (buffers # events) sb =
     (case quic_stream_event junk masq invitation handle buffers sb of
        None \<Rightarrow> None
      | Some sb' \<Rightarrow> quic_stream_events junk masq invitation handle events sb')"

section \<open>The datagram round trip\<close>

lemma round_up_128:
  fixes n :: nat
  shows "n \<le> (n + 127) div 128 * 128" "(n + 127) div 128 * 128 < n + 128"
  using div_mult_mod_eq [of "n + 127" 128] mod_less_divisor [of 128 "n + 127"] by linarith+

lemma tx_padding_len_simps:
  "tx_padding_len PADDING_OFF n = 0" "tx_padding_len PADDING_RANDOM n = 64"
  "n + tx_padding_len PADDING_BUCKETS n = (n + 127) div 128 * 128"
  using round_up_128 [of n] by (simp_all add: tx_padding_len_def Let_def)

text \<open>
  The header length is computed before the three bytes of the padding header are counted; the
  padded sizes in use never make that matter.
\<close>

lemma tx_padded_size:
  assumes "0 < tx_padding_len m n"
  shows "64 \<le> n + tx_padding_len m n"
proof (cases m)
  case PADDING_BUCKETS
  then have "0 < (n + 127) div 128"
    using assms tx_padding_len_simps(3) [of n] by (metis add_is_0 mult_is_0 neq0_conv)
  then show ?thesis using PADDING_BUCKETS tx_padding_len_simps(3) [of n] by simp
qed (use assms in \<open>simp_all add: tx_padding_len_simps\<close>)

lemma tx_http3_header_encodes:
  assumes "n < 1073741824"
  shows "tx_http3_header (of_nat n) = http3_encode_frame_header HTTP3_FRAME_DATA (of_nat n) 9"
    "\<exists>h. tx_http3_header (of_nat n) = Some h \<and> length h = tx_http3_header_len n"
proof -
  have u: "unat (of_nat n :: u64) = n" using assms by (simp add: unat_of_nat)
  then have lt: "(of_nat n :: u64) < 64 \<longleftrightarrow> n < 64" "(of_nat n :: u64) < 16384 \<longleftrightarrow> n < 16384"
    "(of_nat n :: u64) < 1073741824 \<longleftrightarrow> n < 1073741824"
    by (simp_all add: word_less_nat_alt)
  show "tx_http3_header (of_nat n) = http3_encode_frame_header HTTP3_FRAME_DATA (of_nat n) 9"
    using assms lt
    by (simp add: tx_http3_header_def http3_encode_frame_header_def http3_encode_varint_def or.commute)
  show "\<exists>h. tx_http3_header (of_nat n) = Some h \<and> length h = tx_http3_header_len n"
    using assms by (simp add: tx_http3_header_def tx_http3_header_len_def lt)
qed

text \<open>The body of a datagram, behind the HTTP/3 header.\<close>

definition tx_body :: "nat \<Rightarrow> bytes \<Rightarrow> bytes" where
  "tx_body padding_len payload =
     (if padding_len > 0 then 0xFD # be16_bytes (length payload) else []) @ payload @ replicate padding_len 0"

lemma length_tx_body:
  "length (tx_body p payload) = (if p > 0 then 3 else 0) + length payload + p"
  by (simp add: tx_body_def)

lemma unpad_tx_body:
  assumes "payload \<noteq> []" "length payload < 65536" "hd payload \<noteq> PADDING_MAGIC \<or> 0 < p"
  shows "unpad (tx_body p payload) = Some payload"
  using assms by (cases "p = 0") (simp_all add: tx_body_def be16_bytes_def unpad_plain)

text \<open>What is sent is exactly what was written: no stale byte of the pooled buffer leaks.\<close>

lemma quic_frame_packet_Some:
  assumes "quic_frame_packet masq m stale payload = Some d"
  defines "body \<equiv> tx_body (tx_padding_len m (length payload)) payload"
  shows "length d \<le> SEND_SPACE"
    "\<exists>h. d = h @ body \<and> (if masq then http3_encode_frame_header HTTP3_FRAME_DATA (of_nat (length body)) 9 = Some h
          else h = [])"
proof -
  let ?p = "tx_padding_len m (length payload)"
  let ?hl = "if masq then tx_http3_header_len (length payload + ?p) else 0"
  have small: "?hl + length body \<le> SEND_SPACE"
    using assms(1) by (simp add: quic_frame_packet_def body_def length_tx_body Let_def split: if_splits)
  have "length body < 1073741824" using small by simp
  note enc = tx_http3_header_encodes [OF this]
  have hl: "tx_http3_header_len (length payload + ?p) = tx_http3_header_len (length body)"
    using small tx_padded_size [of m "length payload"]
    by (auto simp: tx_http3_header_len_def body_def length_tx_body)
  obtain h where h: "if masq then tx_http3_header (of_nat (length body)) = Some h else h = []" "length h = ?hl"
    using enc(2) hl by (cases masq) auto
  then have w: "tx_written masq ?p payload = Some (h @ body)"
    by (cases masq; cases "?p > 0") (auto simp: tx_written_def body_def tx_body_def Let_def ac_simps)
  with assms(1) have d: "d = h @ body"
    by (auto simp: quic_frame_packet_def Let_def h(2) [symmetric] body_def length_tx_body split: if_splits)
  with small h enc(1) show "length d \<le> SEND_SPACE"
    "\<exists>h. d = h @ body \<and> (if masq then http3_encode_frame_header HTTP3_FRAME_DATA (of_nat (length body)) 9 = Some h
          else h = [])" by auto
qed

lemma tx_written_Some:
  assumes "3 + length payload + p < 1073741824"
  shows "\<exists>w. tx_written masq p payload = Some w"
proof -
  have "\<exists>h. tx_http3_header (of_nat ((if 0 < p then 3 else 0) + length payload + p)) = Some h"
    using assms tx_http3_header_encodes(2) [of "(if 0 < p then 3 else 0) + length payload + p"] by auto
  then show ?thesis unfolding tx_written_def Let_def by (auto simp del: of_nat_add)
qed

lemma datagram_payload:
  assumes "quic_frame_packet masq m stale payload = Some d"
  shows "(if masq then (case http3_parse_data_frame d of Some (hl, n) \<Rightarrow> take n (drop hl d) | None \<Rightarrow> d) else d) =
    tx_body (tx_padding_len m (length payload)) payload"
proof -
  let ?body = "tx_body (tx_padding_len m (length payload)) payload"
  from quic_frame_packet_Some [OF assms] obtain h where d: "d = h @ ?body" "length d \<le> SEND_SPACE"
    "if masq then http3_encode_frame_header HTTP3_FRAME_DATA (of_nat (length ?body)) 9 = Some h else h = []"
    by blast
  show ?thesis
  proof (cases masq)
    case True
    with d parse_framed [of ?body 9 h "[]"] show ?thesis by simp
  qed (use d in simp)
qed

section \<open>Properties of datagrams\<close>

text \<open>
  Property C16. In every combination of masquerading and padding mode, a VPN packet framed by
  \<^verbatim>\<open>quic_send_packet\<close> and received by a peer with the same masquerading setting comes out as it
  went in, whatever the send buffer held before, unless it is a probe (a zero type field), which
  the receiver ignores. The packet must fit the receiver's size limit after framing, and an
  unpadded one must not start with the padding magic.
\<close>

theorem datagram_roundtrip:
  assumes "quic_frame_packet masq m stale payload = Some d" "payload \<noteq> []" "length d \<le> MAXSIZE"
    and "hd payload \<noteq> PADDING_MAGIC \<or> 0 < tx_padding_len m (length payload)"
  shows "quic_datagram_received masq True d =
    (if 14 \<le> length payload \<and> payload ! 12 = 0 \<and> payload ! 13 = 0 then Rx_Probe else Rx_Packet payload)"
proof -
  let ?body = "tx_body (tx_padding_len m (length payload)) payload"
  obtain h where d: "d = h @ ?body" using quic_frame_packet_Some(2) [OF assms(1)] by blast
  then have len: "length payload \<le> MAXSIZE" "0 < length d"
    using assms(2,3) by (simp_all add: length_tx_body)
  have "unpad ?body = Some payload" using assms(2,4) len by (intro unpad_tx_body) simp_all
  with datagram_payload [OF assms(1)] assms(3) len show ?thesis
    by (simp add: quic_datagram_received_def)
qed

theorem datagram_roundtrip_witness:
  "quic_datagram_received True True ([0, 0x40, 70, 0xFD, 0, 3, 1, 2, 3] @ replicate 64 0) = Rx_Packet [1, 2, 3]"
proof -
  have "quic_frame_packet True PADDING_RANDOM [5, 5] [1, 2, 3] =
      Some ([0, 0x40, 70, 0xFD, 0, 3, 1, 2, 3] @ replicate 64 0)"
    by code_simp
  from datagram_roundtrip [OF this] show ?thesis by (simp add: tx_padding_len_simps)
qed

text \<open>
  Property C39. The limits of that round trip. A packet of 1511 to 2000 bytes (a full-size frame is
  up to 1518 bytes) is sent in the random padding mode and then dropped by the receiver, because
  the padding pushes it over the receiver's limit; and an unpadded packet of three bytes or more
  that starts with the padding magic, the first byte of its destination address, is never
  delivered as it was sent.
\<close>

theorem datagram_losses:
  "(1511 \<le> length payload \<and> length payload \<le> 2000 \<longrightarrow>
      (\<exists>d. quic_frame_packet masq PADDING_RANDOM stale payload = Some d \<and>
         quic_datagram_received masq established d = Rx_Dropped)) \<and>
   (3 \<le> length payload \<and> hd payload = PADDING_MAGIC \<and>
      quic_frame_packet masq PADDING_OFF stale payload = Some d' \<longrightarrow>
      quic_datagram_received masq established d' \<noteq> Rx_Packet payload)"
proof (intro conjI impI)
  assume n: "1511 \<le> length payload \<and> length payload \<le> 2000"
  then have "tx_http3_header_len (length payload + 64) = 3" by (simp add: tx_http3_header_len_def)
  moreover obtain w where "tx_written masq 64 payload = Some w"
    using n tx_written_Some [of payload 64 masq] by auto
  ultimately obtain d where d: "quic_frame_packet masq PADDING_RANDOM stale payload = Some d"
    using n by (cases masq) (auto simp: quic_frame_packet_def tx_padding_len_simps Let_def)
  then have "length d > MAXSIZE"
    using n quic_frame_packet_Some(2) [OF d] by (auto simp: length_tx_body tx_padding_len_simps)
  with d show "\<exists>d. quic_frame_packet masq PADDING_RANDOM stale payload = Some d \<and>
      quic_datagram_received masq established d = Rx_Dropped"
    by (simp add: quic_datagram_received_def)
next
  assume a: "3 \<le> length payload \<and> hd payload = PADDING_MAGIC \<and>
      quic_frame_packet masq PADDING_OFF stale payload = Some d'"
  then have "unpad (tx_body (tx_padding_len PADDING_OFF (length payload)) payload) \<noteq> Some payload"
    by (simp add: tx_padding_len_simps tx_body_def unpad_magic)
  with a datagram_payload [of masq PADDING_OFF stale payload d']
  show "quic_datagram_received masq established d' \<noteq> Rx_Packet payload"
    by (auto simp: quic_datagram_received_def Let_def split: option.split)
qed

theorem datagram_losses_witness:
  "\<exists>d. quic_frame_packet True PADDING_RANDOM [] (replicate 1518 1) = Some d \<and>
     quic_datagram_received True True d = Rx_Dropped"
  using datagram_losses [of "replicate 1518 1" True "[]" True] by simp

section \<open>The control stream\<close>

text \<open>What a peer puts on the control stream: framed metadata, and HEADERS frames between.\<close>

datatype stream_item = Meta bytes | Headers bytes

fun item_frame :: "stream_item \<Rightarrow> bytes \<Rightarrow> bool" where
  "item_frame (Meta m) f \<longleftrightarrow> quic_meta_frame True False m = Some f"
| "item_frame (Headers hs) f \<longleftrightarrow> f = hs \<and>
     (\<exists>cfg rnd method path authority sz. http3_create_headers_frame cfg rnd method path authority sz = Some hs)"

fun item_meta :: "stream_item \<Rightarrow> bytes" where
  "item_meta (Meta m) = m"
| "item_meta (Headers hs) = []"

text \<open>One round of the receive loop, on a frame in the middle of the data.\<close>

lemma stream_frames_data:
  assumes "http3_parse_data_frame (f @ rest) = Some (hl, n)" "hl + n = length f" "f \<noteq> []"
    "buffer_add junk b (take n (drop hl (f @ rest))) = Some b1"
  shows "stream_frames junk (pre @ f @ rest) (length pre) b = stream_frames junk (pre @ f @ rest) (length (pre @ f)) b1"
proof -
  have "drop (length pre) (pre @ f @ rest) = f @ rest" "length pre < length (pre @ f @ rest)"
    using assms(3) by simp_all
  then show ?thesis
    using assms
    by (subst stream_frames.simps) (simp only: option.case prod.case if_True length_append)
qed

lemma stream_frames_headers:
  assumes "http3_parse_data_frame (f @ rest) = None" "http3_parse_headers_frame (f @ rest) = Some (length f)"
    "f \<noteq> []"
  shows "stream_frames junk (pre @ f @ rest) (length pre) b = stream_frames junk (pre @ f @ rest) (length (pre @ f)) b"
proof -
  have "drop (length pre) (pre @ f @ rest) = f @ rest" "length pre < length (pre @ f @ rest)"
    using assms(3) by simp_all
  then show ?thesis
    using assms
    by (subst stream_frames.simps) (simp only: option.case if_True length_append)
qed

lemma stream_frames_items:
  assumes "list_all2 item_frame items fs" "buffer_inv b"
    "unat (len b) + length (concat (map item_meta items)) < 2 ^ 32" "length (pre @ concat fs) < 2 ^ 62"
  shows "\<exists>b'. stream_frames junk (pre @ concat fs) (length pre) b = Some b' \<and> buffer_inv b' \<and>
    contents b' = contents b @ concat (map item_meta items) \<and>
    unat (len b') \<le> unat (len b) + length (concat (map item_meta items))"
  using assms
proof (induction items fs arbitrary: pre b rule: list_all2_induct)
  case Nil
  then show ?case by (subst stream_frames.simps) simp
next
  case (Cons i items f fs)
  show ?case
  proof (cases i)
    case (Meta m)
    with Cons.hyps have f: "http3_create_data_frame m (length m + 32) = Some f"
      by (simp add: quic_meta_frame_def)
    from parse_created_data_frame [OF f, of "concat fs"] Cons.prems obtain hl where
      p: "http3_parse_data_frame (f @ concat fs) = Some (hl, length m)" "2 \<le> hl" "hl + length m = length f"
      "take (length m) (drop hl (f @ concat fs)) = m" by auto
    from Cons.prems Meta obtain b1 where b1: "buffer_add junk b m = Some b1" "buffer_inv b1"
      "contents b1 = contents b @ m" "unat (len b1) \<le> unat (len b) + length m"
      by (auto intro: buffer_add_spec [of b m junk])
    have ne: "f \<noteq> []" using p(2,3) by auto
    have "stream_frames junk (pre @ f @ concat fs) (length pre) b =
        stream_frames junk ((pre @ f) @ concat fs) (length (pre @ f)) b1"
      using stream_frames_data [OF p(1,3) ne, of junk b b1 pre] b1(1) p(4) by simp
    moreover have "unat (len b1) + length (concat (map item_meta items)) < 2 ^ 32"
      using Cons.prems b1(4) Meta by simp
    ultimately show ?thesis
      using Cons.IH [OF b1(2), of "pre @ f"] Cons.prems b1(3,4) Meta by fastforce
  next
    case (Headers hs)
    with Cons.hyps obtain cfg rnd mth path authority sz where
      f: "http3_create_headers_frame cfg rnd mth path authority sz = Some f" by auto
    have p: "http3_parse_data_frame (f @ concat fs) = None"
      "http3_parse_headers_frame (f @ concat fs) = Some (length f)" "2 \<le> length f"
      using parse_created_headers_frame [OF f, of "concat fs"] Cons.prems by simp_all
    have ne: "f \<noteq> []" using p(3) by auto
    have "stream_frames junk (pre @ f @ concat fs) (length pre) b =
        stream_frames junk ((pre @ f) @ concat fs) (length (pre @ f)) b"
      using stream_frames_headers [OF p(1,2) ne, of junk pre b] by simp
    with Cons.IH [of b "pre @ f"] Cons.prems Headers show ?thesis by simp
  qed
qed

lemma item_frame_nonempty: "item_frame i f \<Longrightarrow> f \<noteq> []"
  by (cases i)
     (auto simp: quic_meta_frame_def elim!: create_data_frame_Some create_headers_frame_Some
       dest!: frame_header_length)

text \<open>One receive buffer of whole frames; an empty one is added as it is.\<close>

lemma stream_group:
  assumes fs: "list_all2 item_frame items fs" "xs = concat fs" and b: "buffer_inv b" and l: "length xs < 2 ^ 32"
    and n: "unat (len b) + length (concat (map item_meta items)) < 2 ^ 32"
  obtains b' where "(if xs \<noteq> [] then stream_frames junk xs 0 b else buffer_add junk b xs) = Some b'"
    "buffer_inv b'" "contents b' = contents b @ concat (map item_meta items)"
    "unat (len b') \<le> unat (len b) + length (concat (map item_meta items))"
proof (cases "xs = []")
  case True
  have items: "items = []"
  proof (cases items)
    case (Cons i items')
    with fs(1) obtain f fs' where "fs = f # fs'" "item_frame i f" by (auto simp: list_all2_Cons1)
    with True fs(2) item_frame_nonempty show ?thesis by auto
  qed
  have "unat (len b) + length xs < 2 ^ 32" using n True items by simp
  from buffer_add_spec [OF b this, of junk] obtain b' where "buffer_add junk b xs = Some b'" "buffer_inv b'"
    "contents b' = contents b @ xs" "unat (len b') \<le> unat (len b) + length xs" by blast
  with True items that [of b'] show thesis by simp
next
  case False
  from stream_frames_items [OF fs(1) b n, of "[]" junk] l fs(2) obtain b' where
    "stream_frames junk xs 0 b = Some b'" "buffer_inv b'" "contents b' = contents b @ concat (map item_meta items)"
    "unat (len b') \<le> unat (len b) + length (concat (map item_meta items))" by auto
  with False that [of b'] show thesis by simp
qed

text \<open>The receive buffers of one event, when each holds whole frames.\<close>

lemma stream_groups:
  assumes "list_all2 (\<lambda>items xs. \<exists>fs. list_all2 item_frame items fs \<and> xs = concat fs) groups buffers"
    and "\<forall>xs \<in> set buffers. length xs < 2 ^ 32" "buffer_inv b"
    and "unat (len b) + length (concat (map item_meta (concat groups))) < 2 ^ 32"
  shows "\<exists>b'. quic_stream_receive junk True False buffers b = Some b' \<and> buffer_inv b' \<and>
    contents b' = contents b @ concat (map item_meta (concat groups)) \<and>
    unat (len b') \<le> unat (len b) + length (concat (map item_meta (concat groups)))"
  using assms
proof (induction groups buffers arbitrary: b rule: list_all2_induct)
  case (Cons items groups xs buffers)
  from Cons.hyps obtain fs where fs: "list_all2 item_frame items fs" "xs = concat fs" by blast
  have l: "length xs < 2 ^ 32" and n: "unat (len b) + length (concat (map item_meta items)) < 2 ^ 32"
    using Cons.prems by simp_all
  from stream_group [OF fs Cons.prems(2) l n, of junk] obtain b1 where
    b1: "(if xs \<noteq> [] then stream_frames junk xs 0 b else buffer_add junk b xs) = Some b1"
    "buffer_inv b1" "contents b1 = contents b @ concat (map item_meta items)"
    "unat (len b1) \<le> unat (len b) + length (concat (map item_meta items))" by blast
  have "unat (len b1) + length (concat (map item_meta (concat groups))) < 2 ^ 32"
    using b1(4) Cons.prems(3) by simp
  with Cons.IH [OF _ b1(2)] Cons.prems(1) obtain b2 where "quic_stream_receive junk True False buffers b1 = Some b2" "buffer_inv b2"
    "contents b2 = contents b1 @ concat (map item_meta (concat groups))"
    "unat (len b2) \<le> unat (len b1) + length (concat (map item_meta (concat groups)))" by auto
  with b1 show ?case by auto
qed simp

text \<open>
  Property C21. When every receive buffer holds whole frames, in any grouping, the metadata the
  peer sent on a masqueraded control stream arrives complete and in order, and the HEADERS frames
  it mixed in leave no trace.
\<close>

theorem stream_whole_frames:
  assumes "list_all2 (\<lambda>items xs. \<exists>fs. list_all2 item_frame items fs \<and> xs = concat fs) groups buffers"
    and "\<forall>xs \<in> set buffers. length xs < 2 ^ 32" "buffer_inv b"
    and "unat (len b) + length (concat (map item_meta (concat groups))) < 2 ^ 32"
  shows "\<exists>b'. quic_stream_receive junk True False buffers b = Some b' \<and> buffer_inv b' \<and>
    contents b' = contents b @ concat (map item_meta (concat groups))"
  using stream_groups [OF assms, of junk] by blast

theorem stream_whole_frames_witness:
  "\<exists>b'. quic_stream_receive (\<lambda>_. 0) True False [[0, 2, 7, 10, 0, 1, 8]] buffer_empty = Some b' \<and>
     contents b' = [7, 10, 8]"
proof -
  have "quic_meta_frame True False [7, 10] = Some [0, 2, 7, 10]" "quic_meta_frame True False [8] = Some [0, 1, 8]"
    by code_simp+
  then have "list_all2 item_frame [Meta [7, 10], Meta [8]] [[0, 2, 7, 10], [0, 1, 8]]" by simp
  then have "list_all2 (\<lambda>items xs. \<exists>fs. list_all2 item_frame items fs \<and> xs = concat fs)
      [[Meta [7, 10], Meta [8]]] [[0, 2, 7, 10, 0, 1, 8]]"
    by (auto intro!: exI [of _ "[[0, 2, 7, 10], [0, 1, 8]]"])
  from stream_whole_frames [OF this, of buffer_empty "\<lambda>_. 0"] show ?thesis
    by (auto simp: len_buffer_empty)
qed

text \<open>
  The transport is free to cut a stream anywhere, and the receive loop does not
  reassemble: cutting the frame of a request line in two delivers the frame header as part of the
  request, and cutting the second of two frames loses it.
\<close>

theorem stream_split_frames:
  "quic_meta_frame True False [97, 98, 10] = Some [0, 3, 97, 98, 10] \<and>
   (\<exists>b. quic_stream_receive (\<lambda>_. 0) True False [[0, 3, 97], [98, 10]] buffer_empty = Some b \<and>
      contents b = [0, 3, 97, 98, 10]) \<and>
   (\<exists>b. quic_stream_receive (\<lambda>_. 0) True False [[0, 1, 99, 0, 3, 97], [98, 10]] buffer_empty = Some b \<and>
      contents b = [99, 98, 10])"
proof (intro conjI)
  show "quic_meta_frame True False [97, 98, 10] = Some [0, 3, 97, 98, 10]" by code_simp
  have "map_option contents (quic_stream_receive (\<lambda>_. 0) True False [[0, 3, 97], [98, 10]] buffer_empty) =
      Some [0, 3, 97, 98, 10]" by code_simp
  then show "\<exists>b. quic_stream_receive (\<lambda>_. 0) True False [[0, 3, 97], [98, 10]] buffer_empty = Some b \<and>
      contents b = [0, 3, 97, 98, 10]" by auto
  have "map_option contents (quic_stream_receive (\<lambda>_. 0) True False [[0, 1, 99, 0, 3, 97], [98, 10]] buffer_empty) =
      Some [99, 98, 10]" by code_simp
  then show "\<exists>b. quic_stream_receive (\<lambda>_. 0) True False [[0, 1, 99, 0, 3, 97], [98, 10]] buffer_empty = Some b \<and>
      contents b = [99, 98, 10]" by auto
qed

section \<open>From the stream to the requests\<close>

text \<open>
  The metadata \<open>m\<close> that the buffers of one event carry: without masquerading, and on a connection for an invitation, any bytes;
  with masquerading, the metadata of the frames, of which each buffer holds whole ones.
\<close>

definition carries :: "bool \<Rightarrow> bool \<Rightarrow> bytes \<Rightarrow> bytes list \<Rightarrow> bool" where
  "carries masq invitation m buffers \<longleftrightarrow>
     (if masq \<and> \<not> invitation
      then (\<forall>xs \<in> set buffers. length xs < 2 ^ 32) \<and>
        (\<exists>groups. list_all2 (\<lambda>items xs. \<exists>fs. list_all2 item_frame items fs \<and> xs = concat fs) groups buffers \<and>
           m = concat (map item_meta (concat groups)))
      else m = concat buffers)"

lemma stream_raw:
  assumes "\<not> (masq \<and> \<not> invitation)" "buffer_inv b" "unat (len b) + length (concat buffers) < 2 ^ 32"
  shows "\<exists>b'. quic_stream_receive junk masq invitation buffers b = Some b' \<and> buffer_inv b' \<and>
    contents b' = contents b @ concat buffers \<and> unat (len b') \<le> unat (len b) + length (concat buffers)"
  using assms(2,3)
proof (induction buffers arbitrary: b)
  case (Cons xs xss)
  from Cons.prems obtain b1 where b1: "buffer_add junk b xs = Some b1" "buffer_inv b1"
    "contents b1 = contents b @ xs" "unat (len b1) \<le> unat (len b) + length xs"
    by (auto intro: buffer_add_spec [of b xs junk])
  with Cons.prems have "unat (len b1) + length (concat xss) < 2 ^ 32" by simp
  from Cons.IH [OF b1(2) this] assms(1) b1 show ?case by auto
qed simp

lemma stream_carries:
  assumes "carries masq invitation m buffers" "buffer_inv b" "unat (len b) + length m < 2 ^ 32"
  obtains b' where "quic_stream_receive junk masq invitation buffers b = Some b'" "buffer_inv b'"
    "contents b' = contents b @ m" "unat (len b') \<le> unat (len b) + length m"
proof (cases "masq \<and> \<not> invitation")
  case True
  with assms stream_groups [of _ buffers b junk] that show thesis by (auto simp: carries_def)
next
  case False
  then have "m = concat buffers" using assms(1) unfolding carries_def if_not_P [OF False] by simp
  with stream_raw [OF False assms(2), of buffers junk] assms(3) that show thesis by auto
qed

lemma stream_events_lines:
  assumes "list_all2 (carries masq invitation) ms events" "buffer_inv b" "unat (len b) + length (concat ms) < 2 ^ 32"
  shows "\<exists>hs b'. quic_stream_events junk masq invitation handle events (s, b) = Some (after handle s hs, b') \<and>
    concat (map (\<lambda>l. l @ [10]) hs) @ contents b' = contents b @ concat ms \<and> (\<forall>l \<in> set hs. 10 \<notin> set l) \<and>
    (10 \<in> set (contents b') \<longrightarrow> hs = [] \<and> events = [] \<or> hs \<noteq> [] \<and> \<not> snd (handle (after handle s (butlast hs)) (last hs)))"
  using assms
proof (induction ms events arbitrary: s b rule: list_all2_induct)
  case Nil
  show ?case by (intro exI [of _ "[]"] exI [of _ b]) simp
next
  case (Cons m ms buffers events)
  have n: "unat (len b) + length m < 2 ^ 32" using Cons.prems(2) by simp
  obtain b1 where b1: "quic_stream_receive junk masq invitation buffers b = Some b1" "buffer_inv b1"
    "contents b1 = contents b @ m" "unat (len b1) \<le> unat (len b) + length m"
    by (rule stream_carries [OF Cons.hyps(1) Cons.prems(1) n])
  obtain s2 b2 r where rm: "receive_meta handle s b1 = (s2, b2, r)" by (cases "receive_meta handle s b1")
  obtain hs1 where 1: "s2 = after handle s hs1" "contents b1 = concat (map (\<lambda>l. l @ [10]) hs1) @ contents b2" "\<forall>l \<in> set hs1. 10 \<notin> set l"
    "10 \<in> set (contents b2) \<Longrightarrow> hs1 \<noteq> [] \<and> \<not> snd (handle (after handle s (butlast hs1)) (last hs1))" "buffer_inv b2"
    by (rule receive_meta_lines [OF b1(2) rm]) (rule that)
  have "unat (len b2) + length (concat ms) < 2 ^ 32" using receive_meta_len [OF rm] b1(4) Cons.prems(2) by simp
  from Cons.IH [OF 1(5) this, of s2] obtain hs2 b3 where
    2: "quic_stream_events junk masq invitation handle events (s2, b2) = Some (after handle s2 hs2, b3)"
    "concat (map (\<lambda>l. l @ [10]) hs2) @ contents b3 = contents b2 @ concat ms" "\<forall>l \<in> set hs2. 10 \<notin> set l"
    "10 \<in> set (contents b3) \<Longrightarrow> hs2 = [] \<and> events = [] \<or> hs2 \<noteq> [] \<and> \<not> snd (handle (after handle s2 (butlast hs2)) (last hs2))"
    by blast
  have run: "quic_stream_events junk masq invitation handle (buffers # events) (s, b) = Some (after handle s (hs1 @ hs2), b3)"
    using b1(1) rm 1(1) 2(1) by (simp add: quic_stream_event_def)
  have cut: "concat (map (\<lambda>l. l @ [10]) (hs1 @ hs2)) @ contents b3 = contents b @ concat (m # ms)"
    using 1(2) 2(2) b1(3) by simp
  have stop: "hs1 @ hs2 \<noteq> [] \<and> \<not> snd (handle (after handle s (butlast (hs1 @ hs2))) (last (hs1 @ hs2)))" if left: "10 \<in> set (contents b3)"
  proof (cases "hs2 = []")
    case True
    with 2 left have "b3 = b2" by simp
    with True 1(4) left show ?thesis by simp
  next
    case False
    with 2(4) [OF left] 1(1) show ?thesis by (simp add: butlast_append)
  qed
  show ?case by (intro exI [of _ "hs1 @ hs2"] exI [of _ b3]) (use run cut stop 1(3) 2(3) in auto)
qed

text \<open>
  Property C17. However the transport cuts the metadata of a connection into receive events and their buffers, and whatever
  the daemon does with a request, the requests handled are the first complete lines of the whole stream, each once and in order, and what
  was not handled waits in the input buffer. All complete lines have been handled unless the last request handled was refused, which stops the loop until
  more data arrives. With masquerading this needs receive buffers of whole frames;
  the stream must be below 4 GiB, the range of the length field.
\<close>

theorem meta_stream_chunking:
  assumes "list_all2 (carries masq invitation) ms events" "length (concat ms) < 2 ^ 32"
  shows "\<exists>hs b. quic_stream_events junk masq invitation handle events (s, buffer_empty) = Some (after handle s hs, b) \<and>
    hs = take (length hs) (fst (lines_of (concat ms))) \<and> concat (map (\<lambda>l. l @ [10]) hs) @ contents b = concat ms \<and>
    (hs = fst (lines_of (concat ms)) \<and> contents b = snd (lines_of (concat ms)) \<or>
     hs \<noteq> [] \<and> \<not> snd (handle (after handle s (butlast hs)) (last hs)))"
proof -
  have "unat (len buffer_empty) + length (concat ms) < 2 ^ 32" using assms(2) by (simp add: len_buffer_empty)
  from stream_events_lines [OF assms(1) buffer_inv_empty(1) this, of junk handle s] obtain hs b where
    r: "quic_stream_events junk masq invitation handle events (s, buffer_empty) = Some (after handle s hs, b)"
    "concat (map (\<lambda>l. l @ [10]) hs) @ contents b = concat ms" "\<forall>l \<in> set hs. 10 \<notin> set l"
    "10 \<in> set (contents b) \<Longrightarrow> hs = [] \<and> events = [] \<or> hs \<noteq> [] \<and> \<not> snd (handle (after handle s (butlast hs)) (last hs))" by auto
  have ls: "lines_of (concat ms) = (hs @ fst (lines_of (contents b)), snd (lines_of (contents b)))"
    using lines_of_lines [OF r(3), of "contents b"] unfolding r(2) .
  have "events \<noteq> []" if "10 \<in> set (contents b)" using that r(1) by (cases events) auto
  then have "hs = fst (lines_of (concat ms)) \<and> contents b = snd (lines_of (concat ms)) \<or>
      hs \<noteq> [] \<and> \<not> snd (handle (after handle s (butlast hs)) (last hs))"
    using r(4) ls by (cases "10 \<in> set (contents b)") (auto simp: lines_of_partial)
  with r(1,2) ls show ?thesis by (intro exI [of _ hs] exI [of _ b]) simp
qed

text \<open>A refused request leaves the next line waiting until more arrives.\<close>

theorem meta_stream_chunking_witness:
  "list_all2 (carries True False) [[1, 10, 2], [10, 3, 10]] [[[0, 3, 1, 10, 2]], [[0, 1, 10], [0, 2, 3, 10]]] \<and>
   (\<exists>hs b. quic_stream_events (\<lambda>_. 0) True False (\<lambda>s l. (s @ [l], l \<noteq> [2])) [[[0, 3, 1, 10, 2]], [[0, 1, 10], [0, 2, 3, 10]]] ([], buffer_empty) =
      Some (after (\<lambda>s l. (s @ [l], l \<noteq> [2])) [] hs, b) \<and> concat (map (\<lambda>l. l @ [10]) hs) @ contents b = [1, 10, 2, 10, 3, 10])"
proof -
  have f: "quic_meta_frame True False [1, 10, 2] = Some [0, 3, 1, 10, 2]" "quic_meta_frame True False [10] = Some [0, 1, 10]"
    "quic_meta_frame True False [3, 10] = Some [0, 2, 3, 10]" by code_simp+
  have whole: "\<exists>fs. list_all2 item_frame [Meta m] fs \<and> f = concat fs" if "quic_meta_frame True False m = Some f" for m f
    using that by (intro exI [of _ "[f]"]) simp
  have c1: "carries True False [1, 10, 2] [[0, 3, 1, 10, 2]]"
    unfolding carries_def using whole [OF f(1)] by (auto intro!: exI [of _ "[[Meta [1, 10, 2]]]"])
  have c2: "carries True False [10, 3, 10] [[0, 1, 10], [0, 2, 3, 10]]"
    unfolding carries_def using whole [OF f(2)] whole [OF f(3)] by (auto intro!: exI [of _ "[[Meta [10]], [Meta [3, 10]]]"])
  have all: "list_all2 (carries True False) [[1, 10, 2], [10, 3, 10]] [[[0, 3, 1, 10, 2]], [[0, 1, 10], [0, 2, 3, 10]]]" using c1 c2 by simp
  have "concat [[1, 10, 2], [10, 3, 10]] = [1, 10, 2, 10, 3, 10 :: byte]" by simp
  with all meta_stream_chunking [OF all, of "\<lambda>_. 0" "\<lambda>s l. (s @ [l], l \<noteq> [2])" "[]"] show ?thesis by auto
qed

end
