(* ===== verification/Subnet.thy ===== *)
theory Subnet
  imports Splay_Tree
begin

text \<open>
  Subnets: the network masks and the ordering of \<^verbatim>\<open>subnet_parse.c\<close>. Addresses are byte lists in
  network order (6, 4 and 16 bytes); a subnet is its owner's name, a weight and a network. The
  reference for the mask operations is the bit string of an address, most significant bit first.
\<close>

section \<open>Network masks\<close>

text \<open>The bit string of an address.\<close>

definition byte_bits :: "byte \<Rightarrow> bool list" where
  "byte_bits b = map (bit b) (rev [0..<8])"

definition addr_bits :: "bytes \<Rightarrow> bool list" where
  "addr_bits a = concat (map byte_bits a)"

text \<open>\<^verbatim>\<open>0x100 - (1 << (8 - m))\<close>, the \<open>m\<close> high bits of a byte.\<close>

definition high_mask :: "nat \<Rightarrow> byte" where
  "high_mask m = - push_bit (8 - m) 1"

text \<open>
  Characters are signed, so the difference of whole bytes is that of their signed values; the
  masked last byte is not negative.
\<close>

fun maskcmp :: "bytes \<Rightarrow> bytes \<Rightarrow> nat \<Rightarrow> int" where
  "maskcmp (x # xs) (y # ys) m =
     (if m \<ge> 8 then (let result = sint x - sint y in if result \<noteq> 0 then result else maskcmp xs ys (m - 8))
      else if m \<noteq> 0 then uint (x AND high_mask m) - uint (y AND high_mask m)
      else 0)"
| "maskcmp _ _ m = 0"

definition mask_addr :: "bytes \<Rightarrow> nat \<Rightarrow> bytes" where
  "mask_addr a masklen =
     (let i = masklen div 8; r = masklen mod 8;
          a' = (if r \<noteq> 0 then a[i := a ! i AND high_mask r] else a);
          j = (if r \<noteq> 0 then i + 1 else i)
      in take j a' @ replicate (length a - j) 0)"

text \<open>\<open>n\<close> is the length of the destination; the source has at least as many bytes.\<close>

fun maskcpy :: "bytes \<Rightarrow> nat \<Rightarrow> nat \<Rightarrow> bytes" where
  "maskcpy (y # ys) m n =
     (if m \<ge> 8 then y # maskcpy ys (m - 8) (n - 1)
      else if m \<noteq> 0 then (y AND high_mask m) # replicate (n - 1) 0
      else replicate n 0)"
| "maskcpy [] m n = replicate n 0"

definition maskcheck :: "bytes \<Rightarrow> nat \<Rightarrow> bool" where
  "maskcheck a masklen =
     (let i = masklen div 8; r = masklen mod 8 in
      if r \<noteq> 0 \<and> a ! i AND drop_bit r 0xff \<noteq> 0 then False
      else (\<forall>b \<in> set (drop (if r \<noteq> 0 then i + 1 else i) a). b = 0))"

lemma length_byte_bits [simp]: "length (byte_bits b) = 8"
  by (simp add: byte_bits_def)

lemma addr_bits_simps [simp]:
  "addr_bits [] = []" "addr_bits (b # bs) = byte_bits b @ addr_bits bs"
  "addr_bits (xs @ ys) = addr_bits xs @ addr_bits ys"
  by (simp_all add: addr_bits_def)

lemma length_addr_bits [simp]: "length (addr_bits a) = 8 * length a"
  by (induction a) simp_all

lemma byte_bits_inject [simp]: "byte_bits x = byte_bits y \<longleftrightarrow> x = y"
proof
  assume "byte_bits x = byte_bits y"
  then have "\<And>n. n < 8 \<Longrightarrow> bit x n = bit y n" by (auto simp: byte_bits_def)
  then show "x = y" by (auto intro: bit_word_eqI)
qed simp

lemma addr_bits_inject: "length xs = length ys \<Longrightarrow> addr_bits xs = addr_bits ys \<longleftrightarrow> xs = ys"
  by (induction xs ys rule: list_induct2) auto

lemma take_byte_bits: "take m (byte_bits b) = map (bit b) (rev [8 - m..<8])"
  by (simp add: byte_bits_def take_map take_rev)

lemma bit_high_mask: "bit (high_mask m) n \<longleftrightarrow> 8 - m \<le> n \<and> n < 8"
proof -
  have "high_mask m = NOT (mask (8 - m))"
    by (simp add: high_mask_def push_bit_of_1 minus_exp_eq_not_mask)
  then show ?thesis by (auto simp: bit_simps)
qed

lemma bit_byte_less: "bit (b :: byte) n \<Longrightarrow> n < 8"
  using bit_imp_le_length [of b n] by simp

lemma and_high_mask_eq:
  "x AND high_mask m = y AND high_mask m \<longleftrightarrow> take m (byte_bits x) = take m (byte_bits y)"
proof -
  have "x AND high_mask m = y AND high_mask m \<longleftrightarrow> (\<forall>n. 8 - m \<le> n \<and> n < 8 \<longrightarrow> bit x n = bit y n)"
    by (auto simp: bit_eq_iff bit_simps bit_high_mask dest: bit_byte_less)
  then show ?thesis by (auto simp: take_byte_bits)
qed

lemma byte_bits_and_high_mask:
  "m \<le> 8 \<Longrightarrow> byte_bits (x AND high_mask m) = take m (byte_bits x) @ replicate (8 - m) False"
  by (rule nth_equalityI)
     (auto simp: byte_bits_def rev_nth nth_append bit_simps bit_high_mask)

lemma byte_bits_zero [simp]: "byte_bits 0 = replicate 8 False"
  by (rule nth_equalityI) (simp_all add: byte_bits_def)

lemma addr_bits_zero [simp]: "addr_bits (replicate n 0) = replicate (8 * n) False"
  by (induction n) (simp_all add: replicate_add [symmetric])

lemma addr_bits_take: "addr_bits (take j a) = take (8 * j) (addr_bits a)"
proof (induction a arbitrary: j)
  case (Cons b bs)
  then show ?case by (cases j) simp_all
qed simp

lemma addr_bits_drop: "addr_bits (drop j a) = drop (8 * j) (addr_bits a)"
proof (induction a arbitrary: j)
  case (Cons b bs)
  then show ?case by (cases j) simp_all
qed simp

lemma maskcmp_zero:
  "length a = length b \<Longrightarrow> m \<le> 8 * length a \<Longrightarrow>
     maskcmp a b m = 0 \<longleftrightarrow> take m (addr_bits a) = take m (addr_bits b)"
proof (induction a b arbitrary: m rule: list_induct2)
  case (Cons x xs y ys)
  have eq8: "take (m - 8) (addr_bits xs) = take (m - 8) (addr_bits ys) \<longleftrightarrow> maskcmp xs ys (m - 8) = 0"
    using Cons.IH [of "m - 8"] Cons.prems by simp
  have eq: "uint (x AND high_mask m) = uint (y AND high_mask m) \<longleftrightarrow> take m (byte_bits x) = take m (byte_bits y)"
    by (simp only: and_high_mask_eq flip: word_uint_eq_iff)
  show ?case
    using eq8 eq by (auto simp: Let_def min_def simp flip: word_eq_iff_signed)
qed simp

lemma addr_bits_mask:
  assumes "m \<le> 8 * length a"
  shows "addr_bits (mask_addr a m) = take m (addr_bits a) @ replicate (8 * length a - m) False"
proof -
  let ?i = "m div 8" and ?r = "m mod 8"
  have m: "m = 8 * ?i + ?r" by simp
  show ?thesis
  proof (cases "?r = 0")
    case True
    then obtain k where k: "m = 8 * k" by auto
    with assms have "8 * (length a - k) = 8 * length a - m" by simp
    with k show ?thesis by (simp add: mask_addr_def addr_bits_take)
  next
    case False
    then have i: "?i < length a" using assms m by linarith
    then have "a = take ?i a @ a ! ?i # drop (Suc ?i) a" by (rule id_take_nth_drop)
    then have bits: "addr_bits a = take (8 * ?i) (addr_bits a) @ byte_bits (a ! ?i) @ addr_bits (drop (Suc ?i) a)"
      by (metis addr_bits_simps(2,3) addr_bits_take)
    have "addr_bits (mask_addr a m) = take (8 * ?i) (addr_bits a) @ byte_bits (a ! ?i AND high_mask ?r) @
        replicate (8 * (length a - Suc ?i)) False"
      using False i by (simp add: mask_addr_def Let_def take_Suc_conv_app_nth addr_bits_take)
    also have "\<dots> = take (8 * ?i) (addr_bits a) @ take ?r (byte_bits (a ! ?i)) @
        replicate (8 - ?r + 8 * (length a - Suc ?i)) False"
      using replicate_add [of "8 - ?r" "8 * (length a - Suc ?i)" False]
      by (simp add: byte_bits_and_high_mask)
    also have "8 - ?r + 8 * (length a - Suc ?i) = 8 * length a - m" using i m False by linarith
    finally have mask: "addr_bits (mask_addr a m) = take (8 * ?i) (addr_bits a) @ take ?r (byte_bits (a ! ?i)) @
        replicate (8 * length a - m) False" .
    have "take (8 * ?i) (addr_bits a) @ take ?r (byte_bits (a ! ?i)) = take m (addr_bits a)"
    proof -
      have "take m (addr_bits a) = take m (take (8 * ?i) (addr_bits a) @ byte_bits (a ! ?i) @ addr_bits (drop (Suc ?i) a))"
        using bits by simp
      also have "\<dots> = take (8 * ?i) (addr_bits a) @ take ?r (byte_bits (a ! ?i))"
        using i by (simp add: take_append min_absorb1 min_absorb2 flip: minus_mult_div_eq_mod)
      finally show ?thesis by simp
    qed
    with mask show ?thesis by (metis append_assoc)
  qed
qed

lemma length_mask_addr: "m \<le> 8 * length a \<Longrightarrow> length (mask_addr a m) = length a"
proof -
  assume m: "m \<le> 8 * length a"
  then have "8 * length (mask_addr a m) = 8 * length a"
    using arg_cong [OF addr_bits_mask [OF m], of length] by simp
  then show ?thesis by simp
qed

lemma addr_bits_maskcpy:
  "m \<le> 8 * length b \<Longrightarrow> n = length b \<Longrightarrow>
     addr_bits (maskcpy b m n) = take m (addr_bits b) @ replicate (8 * n - m) False"
proof (induction b m n rule: maskcpy.induct)
  case (1 y ys m n)
  show ?case
  proof (cases "m \<ge> 8")
    case True
    with 1 show ?thesis by simp
  next
    case False
    have "8 - m + 8 * length ys = 8 * n - m" using False 1 by simp
    with False 1(3) show ?thesis by (auto simp: byte_bits_and_high_mask replicate_add [symmetric])
  qed
qed simp

lemma maskcpy_is_mask: "m \<le> 8 * length b \<Longrightarrow> maskcpy b m (length b) = mask_addr b m"
proof -
  assume m: "m \<le> 8 * length b"
  then have "addr_bits (maskcpy b m (length b)) = addr_bits (mask_addr b m)"
    by (simp add: addr_bits_maskcpy addr_bits_mask)
  moreover from this have "8 * length (maskcpy b m (length b)) = 8 * length (mask_addr b m)"
    by (metis length_addr_bits)
  ultimately show ?thesis using addr_bits_inject by auto
qed

text \<open>The low bits of a byte, as \<^verbatim>\<open>maskcheck\<close> tests them.\<close>

lemma byte_low_bits: "r \<le> 8 \<Longrightarrow> x AND drop_bit r 0xff = 0 \<longleftrightarrow> x AND high_mask r = (x :: byte)"
proof -
  assume r: "r \<le> 8"
  have ff: "(0xff :: byte) = mask 8" by (simp add: mask_eq_exp_minus_1)
  show ?thesis unfolding ff using r
    by (auto simp: bit_eq_iff bit_simps bit_high_mask dest: bit_byte_less)
qed

lemma zeros_iff: "(\<forall>b \<in> set xs. b = 0) \<longleftrightarrow> xs = replicate (length xs) 0"
  by (induction xs) auto

lemma maskcheck_iff_mask:
  assumes "m \<le> 8 * length a"
  shows "maskcheck a m \<longleftrightarrow> mask_addr a m = a"
proof -
  let ?i = "m div 8" and ?r = "m mod 8"
  show ?thesis
  proof (cases "?r = 0")
    case True
    have "mask_addr a m = a \<longleftrightarrow> take ?i a @ replicate (length a - ?i) 0 = take ?i a @ drop ?i a"
      using True by (simp add: mask_addr_def Let_def)
    also have "\<dots> \<longleftrightarrow> drop ?i a = replicate (length (drop ?i a)) 0"
      by (simp only: same_append_eq length_drop eq_commute [of "replicate _ _"])
    finally show ?thesis using True by (simp only: maskcheck_def Let_def zeros_iff) simp
  next
    case False
    then have i: "?i < length a" using assms by (simp add: div_less_iff_less_mult) presburger
    let ?x = "a ! ?i" and ?d = "drop (Suc ?i) a"
    have a: "a = take ?i a @ ?x # ?d" using i by (rule id_take_nth_drop)
    have "mask_addr a m = take ?i a @ (?x AND high_mask ?r) # replicate (length ?d) 0"
      using False i by (simp add: mask_addr_def Let_def take_Suc_conv_app_nth)
    then have "mask_addr a m = a \<longleftrightarrow>
        take ?i a @ (?x AND high_mask ?r) # replicate (length ?d) 0 = take ?i a @ ?x # ?d"
      using a by metis
    also have "\<dots> \<longleftrightarrow> ?x AND high_mask ?r = ?x \<and> ?d = replicate (length ?d) 0"
      by (metis append_Cons list.inject same_append_eq)
    finally show ?thesis using False byte_low_bits [of ?r ?x]
      by (simp add: maskcheck_def Let_def zeros_iff)
  qed
qed

section \<open>Subnets and their order\<close>

datatype net = SUBNET_MAC bytes | SUBNET_IPV4 bytes nat | SUBNET_IPV6 bytes nat

record subnet =
  owner :: "string option"
  expires :: int
  weight :: int
  net :: net

fun subnet_type :: "net \<Rightarrow> int" where
  "subnet_type (SUBNET_MAC _) = 0"
| "subnet_type (SUBNET_IPV4 _ _) = 1"
| "subnet_type (SUBNET_IPV6 _ _) = 2"

definition subnetcheck :: "subnet \<Rightarrow> bool" where
  "subnetcheck s = (case net s of
      SUBNET_IPV4 a p \<Rightarrow> maskcheck a p | SUBNET_IPV6 a p \<Rightarrow> maskcheck a p | SUBNET_MAC _ \<Rightarrow> True)"

text \<open>The common tail of the three comparisons: weight, then owner, when both have one.\<close>

definition compare_weight_owner :: "subnet \<Rightarrow> subnet \<Rightarrow> int" where
  "compare_weight_owner a b =
     (let result = c_int_diff (weight a) (weight b) in
      if result \<noteq> 0 \<or> owner a = None \<or> owner b = None then result
      else strcmp (the (owner a)) (the (owner b)))"

definition subnet_compare_mac :: "subnet \<Rightarrow> subnet \<Rightarrow> bytes \<Rightarrow> bytes \<Rightarrow> int" where
  "subnet_compare_mac a b addr_a addr_b =
     (let result = memcmp addr_a addr_b in
      if result \<noteq> 0 then result else compare_weight_owner a b)"

definition subnet_compare_ip :: "subnet \<Rightarrow> subnet \<Rightarrow> bytes \<Rightarrow> nat \<Rightarrow> bytes \<Rightarrow> nat \<Rightarrow> int" where
  "subnet_compare_ip a b addr_a plen_a addr_b plen_b =
     (let result = c_int_diff (int plen_b) (int plen_a) in
      if result \<noteq> 0 then result
      else let result = memcmp addr_a addr_b in
        if result \<noteq> 0 then result else compare_weight_owner a b)"

definition subnet_compare :: "subnet \<Rightarrow> subnet \<Rightarrow> int" where
  "subnet_compare a b =
     (let result = subnet_type (net a) - subnet_type (net b) in
      if result \<noteq> 0 then result
      else case (net a, net b) of
        (SUBNET_MAC x, SUBNET_MAC y) \<Rightarrow> subnet_compare_mac a b x y
      | (SUBNET_IPV4 x p, SUBNET_IPV4 y q) \<Rightarrow> subnet_compare_ip a b x p y q
      | (SUBNET_IPV6 x p, SUBNET_IPV6 y q) \<Rightarrow> subnet_compare_ip a b x p y q
      | _ \<Rightarrow> 0)"

text \<open>
  The subnets the order is meant for. Addresses have the size of their type, prefix lengths their
  range, owners are C strings. The weights of a mesh have to stay within 30 bits, because the
  difference of two weights is stored in an \<^verbatim>\<open>int\<close>. A subnet without owner (a broadcast subnet)
  compares equal to every subnet with the same network and weight, so these pairs \<open>B\<close> must not be
  used by a node.
\<close>

fun net_ok :: "net \<Rightarrow> bool" where
  "net_ok (SUBNET_MAC a) \<longleftrightarrow> length a = 6"
| "net_ok (SUBNET_IPV4 a p) \<longleftrightarrow> length a = 4 \<and> p \<le> 32"
| "net_ok (SUBNET_IPV6 a p) \<longleftrightarrow> length a = 16 \<and> p \<le> 128"

definition subnet_ok :: "(net \<times> int) set \<Rightarrow> subnet \<Rightarrow> bool" where
  "subnet_ok B s \<longleftrightarrow> net_ok (net s) \<and> \<bar>weight s\<bar> < 2 ^ 30 \<and> (\<forall>n. owner s = Some n \<longrightarrow> c_string n) \<and>
     (owner s = None \<longleftrightarrow> (net s, weight s) \<in> B)"

text \<open>Comparisons composed the way \<^verbatim>\<open>if(result) return result\<close> composes them.\<close>

definition cmp_then :: "int \<Rightarrow> int \<Rightarrow> int" where
  "cmp_then r s = (if r \<noteq> 0 then r else s)"

definition net_compare :: "net \<Rightarrow> net \<Rightarrow> int" where
  "net_compare x y = (case (x, y) of
      (SUBNET_MAC a, SUBNET_MAC b) \<Rightarrow> memcmp a b
    | (SUBNET_IPV4 a p, SUBNET_IPV4 b q) \<Rightarrow> cmp_then (int q - int p) (memcmp a b)
    | (SUBNET_IPV6 a p, SUBNET_IPV6 b q) \<Rightarrow> cmp_then (int q - int p) (memcmp a b)
    | _ \<Rightarrow> subnet_type x - subnet_type y)"

lemma net_compare_zero: "net_ok x \<Longrightarrow> net_ok y \<Longrightarrow> net_compare x y = 0 \<longleftrightarrow> x = y"
  by (cases x; cases y) (auto simp: net_compare_def cmp_then_def memcmp_zero)

lemma net_compare_swap: "net_ok x \<Longrightarrow> net_ok y \<Longrightarrow> net_compare x y < 0 \<longleftrightarrow> 0 < net_compare y x"
  by (cases x; cases y) (auto simp: net_compare_def cmp_then_def memcmp_swap)

lemma net_compare_trans:
  assumes "net_ok x" "net_ok y" "net_ok z" "net_compare x y \<le> 0" "net_compare y z \<le> 0"
  shows "net_compare x z \<le> 0"
  using assms
  by (cases x; cases y; cases z)
     (auto simp: net_compare_def cmp_then_def split: if_splits intro: memcmp_trans)

lemma subnet_compare_unfold:
  assumes "subnet_ok B a" "subnet_ok B b"
  shows "subnet_compare a b = cmp_then (net_compare (net a) (net b)) (cmp_then (weight a - weight b)
    (case (owner a, owner b) of (Some m, Some n) \<Rightarrow> strcmp m n | _ \<Rightarrow> 0))"
proof -
  have w: "c_int_diff (weight a) (weight b) = weight a - weight b"
    using assms by (intro c_int_diff_exact) (auto simp: subnet_ok_def)
  have p: "c_int_diff (int q) (int p) = int q - int p" if "p \<le> 128" "q \<le> 128" for p q
    using that by (intro c_int_diff_exact) auto
  show ?thesis
    using assms
    by (cases "net a"; cases "net b"; cases "owner a"; cases "owner b")
       (auto simp: subnet_ok_def subnet_compare_def subnet_compare_mac_def subnet_compare_ip_def
         compare_weight_owner_def net_compare_def cmp_then_def w p Let_def)
qed

interpretation net_order: c_compare net_compare net_ok
proof
  show "net_ok x \<Longrightarrow> net_compare x x = 0" for x by (simp add: net_compare_zero)
qed (auto simp: net_compare_swap intro: net_compare_trans)

interpretation subnet_order: c_compare subnet_compare "subnet_ok B" for B
proof
  fix x assume "subnet_ok B x"
  then show "subnet_compare x x = 0"
    by (auto simp: subnet_compare_unfold cmp_then_def net_compare_zero subnet_ok_def split: option.split)
next
  fix x y assume ok: "subnet_ok B x" "subnet_ok B y"
  then have "net_compare (net x) (net y) = 0 \<longleftrightarrow> net_compare (net y) (net x) = 0"
    "net_compare (net x) (net y) < 0 \<longleftrightarrow> 0 < net_compare (net y) (net x)"
    by (auto simp: subnet_ok_def net_compare_zero net_compare_swap)
  moreover have "strcmp m n < 0 \<longleftrightarrow> 0 < strcmp n m" for m n using strcmp_swap_neg [of m n] by simp
  ultimately show "subnet_compare x y < 0 \<longleftrightarrow> 0 < subnet_compare y x"
    using ok by (simp add: subnet_compare_unfold [of B] cmp_then_def split: option.split)
next
  fix x y z
  assume ok: "subnet_ok B x" "subnet_ok B y" "subnet_ok B z"
    and le: "subnet_compare x y \<le> 0" "subnet_compare y z \<le> 0"
  have n: "net_ok (net x)" "net_ok (net y)" "net_ok (net z)" using ok by (auto simp: subnet_ok_def)
  have le_net: "net_compare (net x) (net y) \<le> 0" "net_compare (net y) (net z) \<le> 0"
    using ok le by (auto simp: subnet_compare_unfold [of B] cmp_then_def split: if_splits)
  show "subnet_compare x z \<le> 0"
  proof (cases "net x = net y \<and> net y = net z")
    case False
    then have "net_compare (net x) (net z) < 0"
      using le_net n net_compare_zero net_order.cmp_less_trans [OF n] net_order.cmp_le_less_trans [OF n]
      by (metis order.order_iff_strict)
    with ok show ?thesis by (simp add: subnet_compare_unfold [of B] cmp_then_def)
  next
    case True
    then have zero: "net_compare (net x) (net y) = 0" "net_compare (net y) (net z) = 0" "net_compare (net x) (net z) = 0"
      using n by (simp_all add: net_compare_zero)
    have w: "weight x \<le> weight y" "weight y \<le> weight z"
      using ok le zero by (auto simp: subnet_compare_unfold [of B] cmp_then_def split: if_splits)
    show ?thesis
    proof (cases "weight x = weight z")
      case False
      with w zero ok show ?thesis by (simp add: subnet_compare_unfold [of B] cmp_then_def)
    next
      case same: True
      with w have eq: "weight y = weight x" "weight z = weight x" by auto
      let ?o = "\<lambda>s t. case (owner s, owner t) of (Some m, Some n) \<Rightarrow> strcmp m n | _ \<Rightarrow> 0"
      have o: "subnet_compare x y = ?o x y" "subnet_compare y z = ?o y z" "subnet_compare x z = ?o x z"
        using ok zero eq by (simp_all add: subnet_compare_unfold [of B] cmp_then_def)
      from True eq ok have "owner x = None \<longleftrightarrow> owner y = None" "owner y = None \<longleftrightarrow> owner z = None"
        by (simp_all add: subnet_ok_def)
      moreover have "owner x = Some n \<Longrightarrow> c_string n" "owner y = Some n \<Longrightarrow> c_string n"
        "owner z = Some n \<Longrightarrow> c_string n" for n
        using ok by (simp_all add: subnet_ok_def)
      ultimately show ?thesis
        using le strcmp_trans [of "the (owner x)" "the (owner y)" "the (owner z)"] unfolding o
        by (cases "owner x"; cases "owner y"; cases "owner z") simp_all
    qed
  qed
qed

text \<open>Distinct subnets of a table are told apart.\<close>

lemma subnet_compare_zero:
  assumes "subnet_ok B a" "subnet_ok B b"
  shows "subnet_compare a b = 0 \<longleftrightarrow> net a = net b \<and> weight a = weight b \<and> owner a = owner b"
proof -
  have n: "net_ok (net a)" "net_ok (net b)" using assms by (auto simp: subnet_ok_def)
  show ?thesis
  proof (cases "net a = net b \<and> weight a = weight b")
    case True
    then have "owner a = None \<longleftrightarrow> owner b = None" using assms by (simp add: subnet_ok_def)
    with True assms n show ?thesis
      by (auto simp: subnet_compare_unfold [of B] cmp_then_def net_compare_zero subnet_ok_def strcmp_zero
          split: option.splits)
  next
    case False
    with assms n show ?thesis
      by (auto simp: subnet_compare_unfold [of B] cmp_then_def net_compare_zero)
  qed
qed

section \<open>Properties\<close>

text \<open>
  Property C15. The mask operations agree with the bit strings of the addresses, for every prefix
  length the address has: comparing under a mask compares the first bits, masking keeps the first
  bits and clears the others, the copying variant gives the same result, and \<^verbatim>\<open>maskcheck\<close>
  accepts exactly the addresses that masking does not change.
\<close>

theorem mask_operations:
  assumes "length a = length b" "m \<le> 8 * length a"
  shows "(maskcmp a b m = 0 \<longleftrightarrow> take m (addr_bits a) = take m (addr_bits b)) \<and>
    addr_bits (mask_addr a m) = take m (addr_bits a) @ replicate (8 * length a - m) False \<and>
    maskcpy a m (length a) = mask_addr a m \<and>
    (maskcheck a m \<longleftrightarrow> mask_addr a m = a) \<and>
    (maskcmp a b m = 0 \<longleftrightarrow> mask_addr a m = mask_addr b m)"
proof -
  have "mask_addr a m = mask_addr b m \<longleftrightarrow> addr_bits (mask_addr a m) = addr_bits (mask_addr b m)"
    using assms by (simp add: addr_bits_inject length_mask_addr)
  moreover have "maskcpy a m (length a) = mask_addr a m" using assms(2) by (rule maskcpy_is_mask)
  ultimately show ?thesis
    using assms by (simp add: maskcmp_zero addr_bits_mask maskcheck_iff_mask)
qed

theorem mask_operations_witness:
  "maskcmp [10, 1, 200, 3] [10, 1, 129, 7] 17 = 0 \<and>
   mask_addr [10, 1, 200, 3] 17 = mask_addr [10, 1, 129, 7] 17"
  using mask_operations [of "[10, 1, 200, 3]" "[10, 1, 129, 7]" 17]
  by (simp add: high_mask_def)

text \<open>
  Property C14. On well-formed subnets \<^verbatim>\<open>subnet_compare\<close> is a total order that tells any two
  apart: exchanging the arguments exchanges the sign, it is transitive, and it returns zero only
  for subnets with the same network, weight and owner.
\<close>

theorem subnet_compare_total_order:
  assumes "subnet_ok B a" "subnet_ok B b" "subnet_ok B c"
  shows "(subnet_compare a b = 0 \<longleftrightarrow> net a = net b \<and> weight a = weight b \<and> owner a = owner b) \<and>
    (subnet_compare a b < 0 \<longleftrightarrow> 0 < subnet_compare b a) \<and>
    (subnet_compare a b \<le> 0 \<and> subnet_compare b c \<le> 0 \<longrightarrow> subnet_compare a c \<le> 0)"
  using assms subnet_compare_zero subnet_order.cmp_swap subnet_order.cmp_trans by blast

theorem subnet_compare_total_order_witness:
  "let mk = (\<lambda>n p. \<lparr>owner = Some n, expires = 0, weight = 10, net = SUBNET_IPV4 [10, 0, 0, 0] p\<rparr>) in
     subnet_compare (mk ''a'' 24) (mk ''a'' 8) < 0 \<and> 0 < subnet_compare (mk ''a'' 8) (mk ''a'' 24)"
proof -
  let ?mk = "\<lambda>n p. \<lparr>owner = Some n, expires = 0, weight = 10, net = SUBNET_IPV4 [10, 0, 0, 0] p\<rparr>"
  have ok: "subnet_ok {} (?mk ''a'' p)" if "p \<le> 32" for p using that by (simp add: subnet_ok_def c_string_def)
  have "subnet_compare (?mk ''a'' 24) (?mk ''a'' 8) < 0"
    using ok [of 24] ok [of 8] by (simp add: subnet_compare_unfold [of "{}"] cmp_then_def net_compare_def)
  with subnet_compare_total_order [OF ok ok ok, of 24 8 8] show ?thesis by (simp add: Let_def)
qed

text \<open>
  Outside these conditions the comparison is not an order. Weights far apart make the
  difference wrap, so that the larger weight sorts first; and a broadcast subnet (without owner) is
  equal to the subnets of two nodes that differ from each other.
\<close>

theorem subnet_compare_not_order:
  "\<exists>a b c o1 o2. net_ok (net a) \<and> net a = net b \<and> owner a = owner b \<and>
     weight a < weight b \<and> c_int_ok (weight a) \<and> c_int_ok (weight b) \<and> subnet_compare b a < 0 \<and>
     owner c = None \<and> subnet_compare (c\<lparr>owner := Some o1\<rparr>) c = 0 \<and>
     subnet_compare c (c\<lparr>owner := Some o2\<rparr>) = 0 \<and>
     subnet_compare (c\<lparr>owner := Some o1\<rparr>) (c\<lparr>owner := Some o2\<rparr>) \<noteq> 0"
proof -
  let ?mk = "\<lambda>w. \<lparr>owner = None, expires = 0, weight = w, net = SUBNET_IPV4 [10, 0, 0, 0] 8\<rparr>"
  have "subnet_compare (?mk 2147483647) (?mk (-2)) < 0"
    by (simp add: subnet_compare_def subnet_compare_ip_def compare_weight_owner_def c_int_diff_def Let_def)
  moreover have "subnet_compare (?mk 0\<lparr>owner := Some ''a''\<rparr>) (?mk 0) = 0"
    "subnet_compare (?mk 0) (?mk 0\<lparr>owner := Some ''b''\<rparr>) = 0"
    "subnet_compare (?mk 0\<lparr>owner := Some ''a''\<rparr>) (?mk 0\<lparr>owner := Some ''b''\<rparr>) \<noteq> 0"
    by (simp_all add: subnet_compare_def subnet_compare_ip_def compare_weight_owner_def)
  ultimately show ?thesis
    by (intro exI [of _ "?mk (-2)"] exI [of _ "?mk 2147483647"] exI [of _ "?mk 0"]
        exI [of _ "''a''"] exI [of _ "''b''"]) (simp add: c_int_ok_def)
qed

end
