(* ===== verification/Hash_Table.thy ===== *)
theory Hash_Table
  imports Prelude
begin

text \<open>
  The direct-mapped hash table of \<^verbatim>\<open>hash.c\<close>, which the daemon uses as a lookup cache: one slot
  per hash value, a later insertion into the same slot replaces the earlier one. The flat key
  array is a list of keys of \<open>hash_size\<close> bytes, a \<^verbatim>\<open>NULL\<close> value is \<open>None\<close>.
\<close>

section \<open>The table\<close>

record 'v hash =
  hash_n :: nat
  hash_size :: nat
  hash_keys :: "bytes list"
  hash_values :: "'v option list"

text \<open>
  One round of the hash function reads up to three bytes at the end of what is left of the key
  (the counter starts at \<open>min 4 len\<close> and is decremented before it is tested).
\<close>

definition hash_round :: "bytes \<Rightarrow> nat \<Rightarrow> u32 \<Rightarrow> u32" where
  "hash_round q n h =
     fold (\<lambda>i h. h + push_bit (8 * i) (ucast (q ! (n - i)))) (rev [1..<min 4 n]) h * 0x9e370001"

function hash_loop :: "bytes \<Rightarrow> nat \<Rightarrow> u32 \<Rightarrow> u32" where
  "hash_loop q n h = (if n \<le> 4 then hash_round q n h else hash_loop q (n - 4) (hash_round q n h))"
  by pat_completeness auto
termination by (relation "measure (\<lambda>(q, n, h). n)") auto

declare hash_loop.simps [simp del]

definition hash_function :: "bytes \<Rightarrow> nat \<Rightarrow> u32" where
  "hash_function p n = hash_loop p n 0"

definition modulo :: "u32 \<Rightarrow> nat \<Rightarrow> u32" where
  "modulo h n =
     (if n = 0x100 then drop_bit 24 h XOR (drop_bit 16 h AND 0xff) XOR (drop_bit 8 h AND 0xff) XOR (h AND 0xff)
      else if n = 0x10000 then drop_bit 16 h XOR (h AND 0xffff)
      else of_nat (unat h mod n))"

definition hash_alloc :: "nat \<Rightarrow> nat \<Rightarrow> 'v hash" where
  "hash_alloc n sz =
     \<lparr>hash_n = n, hash_size = sz, hash_keys = replicate n (replicate sz 0), hash_values = replicate n None\<rparr>"

definition hash_slot :: "'v hash \<Rightarrow> bytes \<Rightarrow> nat" where
  "hash_slot t key = unat (modulo (hash_function key (hash_size t)) (hash_n t))"

definition hash_insert :: "'v hash \<Rightarrow> bytes \<Rightarrow> 'v option \<Rightarrow> 'v hash" where
  "hash_insert t key v =
     t\<lparr>hash_keys := (hash_keys t)[hash_slot t key := key],
       hash_values := (hash_values t)[hash_slot t key := v]\<rparr>"

definition hash_search :: "'v hash \<Rightarrow> bytes \<Rightarrow> 'v option" where
  "hash_search t key =
     (let i = hash_slot t key in
      if hash_values t ! i \<noteq> None \<and> key = hash_keys t ! i then hash_values t ! i else None)"

definition hash_search_or_insert :: "'v hash \<Rightarrow> bytes \<Rightarrow> 'v option \<Rightarrow> 'v option \<times> 'v hash" where
  "hash_search_or_insert t key v =
     (let i = hash_slot t key in
      if hash_values t ! i \<noteq> None \<and> key = hash_keys t ! i then (hash_values t ! i, t)
      else (None, t\<lparr>hash_keys := (hash_keys t)[i := key], hash_values := (hash_values t)[i := v]\<rparr>))"

definition hash_delete :: "'v hash \<Rightarrow> bytes \<Rightarrow> 'v hash" where
  "hash_delete t key = t\<lparr>hash_values := (hash_values t)[hash_slot t key := None]\<rparr>"

definition hash_clear :: "'v hash \<Rightarrow> 'v hash" where
  "hash_clear t = t\<lparr>hash_values := replicate (hash_n t) None\<rparr>"

text \<open>The arrays change size, the recorded number of slots does not.\<close>

definition hash_resize :: "'v hash \<Rightarrow> nat \<Rightarrow> 'v hash" where
  "hash_resize t n =
     t\<lparr>hash_keys := take n (hash_keys t) @ replicate (n - hash_n t) (replicate (hash_size t) 0),
       hash_values := take n (hash_values t) @ replicate (n - hash_n t) None\<rparr>"

section \<open>The contract of a lookup cache\<close>

text \<open>
  A cache may forget, but it never invents: it answers with the value stored last for the key or
  not at all. A client that only stores correct answers therefore only reads correct answers.
\<close>

locale lookup_cache =
  fixes search :: "'t \<Rightarrow> 'k \<Rightarrow> 'v option" and store :: "'t \<Rightarrow> 'k \<Rightarrow> 'v \<Rightarrow> 't" and clear :: "'t \<Rightarrow> 't"
    and inv :: "'t \<Rightarrow> bool" and key_ok :: "'k \<Rightarrow> bool"
  assumes search_clear: "inv t \<Longrightarrow> key_ok k \<Longrightarrow> search (clear t) k = None"
    and inv_clear: "inv t \<Longrightarrow> inv (clear t)"
    and inv_store: "inv t \<Longrightarrow> key_ok k \<Longrightarrow> inv (store t k v)"
    and search_store: "inv t \<Longrightarrow> key_ok k \<Longrightarrow> search (store t k v) k = Some v"
    and search_other: "inv t \<Longrightarrow> key_ok k \<Longrightarrow> key_ok k' \<Longrightarrow> k' \<noteq> k \<Longrightarrow> search (store t k v) k' = Some w \<Longrightarrow>
      search t k' = Some w"
begin

text \<open>Every cached answer is the one the reference lookup \<open>f\<close> gives now.\<close>

definition coherent :: "('k \<Rightarrow> 'v option) \<Rightarrow> 't \<Rightarrow> bool" where
  "coherent f t \<longleftrightarrow> (\<forall>k v. key_ok k \<longrightarrow> search t k = Some v \<longrightarrow> f k = Some v)"

lemma coherent_clear: "inv t \<Longrightarrow> coherent f (clear t)"
  by (simp add: coherent_def search_clear)

lemma coherent_store: "inv t \<Longrightarrow> key_ok k \<Longrightarrow> coherent f t \<Longrightarrow> f k = Some v \<Longrightarrow> coherent f (store t k v)"
  unfolding coherent_def by (metis option.inject search_other search_store)

lemma coherent_search: "coherent f t \<Longrightarrow> key_ok k \<Longrightarrow> search t k = Some v \<Longrightarrow> f k = Some v"
  by (simp add: coherent_def)

end

section \<open>The table implements the contract\<close>

definition hash_inv :: "'v hash \<Rightarrow> bool" where
  "hash_inv t \<longleftrightarrow> 0 < hash_n t \<and> hash_n t < 2 ^ 32 \<and> length (hash_keys t) = hash_n t \<and>
     length (hash_values t) = hash_n t"

lemma take_bit_unat: "take_bit k w = (w :: u32) \<Longrightarrow> unat w < 2 ^ k"
  by (metis take_bit_nat_less_exp unsigned_take_bit_eq)

lemma modulo_bits:
  "take_bit 8 (modulo h 0x100) = modulo h 0x100" "take_bit 16 (modulo h 0x10000) = modulo h 0x10000"
proof -
  have m: "(0xff :: u32) = mask 8" "(0xffff :: u32) = mask 16" by (simp_all add: mask_eq_exp_minus_1)
  have len: "bit h n \<Longrightarrow> n < 32" for n using bit_imp_le_length [of h n] by simp
  show "take_bit 8 (modulo h 0x100) = modulo h 0x100" "take_bit 16 (modulo h 0x10000) = modulo h 0x10000"
    unfolding modulo_def m
    by (rule bit_eqI; auto simp: bit_simps simp flip: take_bit_eq_mask dest: len)+
qed

lemma modulo_less: "0 < n \<Longrightarrow> n < 2 ^ 32 \<Longrightarrow> unat (modulo h n) < n"
proof -
  assume n: "0 < n" "n < 2 ^ 32"
  consider "n = 0x100" | "n = 0x10000" | "n \<noteq> 0x100" "n \<noteq> 0x10000" by blast
  then show ?thesis
  proof cases
    case 1
    with take_bit_unat [OF modulo_bits(1)] show ?thesis by simp
  next
    case 2
    with take_bit_unat [OF modulo_bits(2)] show ?thesis by simp
  next
    case 3
    have "unat h mod n < n" using n(1) by simp
    then have "unat (of_nat (unat h mod n) :: u32) = unat h mod n" using n(2) by (simp add: unat_of_nat)
    with 3 n(1) show ?thesis by (simp add: modulo_def)
  qed
qed

lemma hash_slot_less: "hash_inv t \<Longrightarrow> hash_slot t k < hash_n t"
  unfolding hash_slot_def hash_inv_def by (blast intro: modulo_less)

lemma hash_slot_frame [simp]:
  "hash_slot (t\<lparr>hash_keys := ks\<rparr>) k = hash_slot t k" "hash_slot (t\<lparr>hash_values := vs\<rparr>) k = hash_slot t k"
  by (simp_all add: hash_slot_def)

lemma hash_inv_keeps:
  assumes "hash_inv t"
  shows "hash_inv (hash_insert t k v)" "hash_inv (hash_delete t k)" "hash_inv (hash_clear t)"
    "hash_inv (snd (hash_search_or_insert t k v))"
  using assms
  by (simp_all add: hash_inv_def hash_insert_def hash_delete_def hash_clear_def
      hash_search_or_insert_def Let_def)

lemma hash_size_keeps [simp]:
  "hash_size (hash_insert t k v) = hash_size t" "hash_size (hash_clear t) = hash_size t"
  by (simp_all add: hash_insert_def hash_clear_def)

lemma hash_inv_alloc: "0 < n \<Longrightarrow> n < 2 ^ 32 \<Longrightarrow> hash_inv (hash_alloc n sz)"
  by (simp add: hash_inv_def hash_alloc_def)

lemma hash_search_insert:
  assumes "hash_inv t"
  shows "hash_search (hash_insert t k v) k' =
    (if k' = k then v
     else if hash_slot t k' = hash_slot t k then None else hash_search t k')"
  using assms hash_slot_less [OF assms, of k] hash_slot_less [OF assms, of k']
  by (auto simp: hash_search_def hash_insert_def hash_inv_def Let_def)

interpretation hash_cache: lookup_cache hash_search "\<lambda>t k v. hash_insert t k (Some v)" hash_clear
  "\<lambda>t. hash_inv t \<and> hash_size t = sz" "\<lambda>k. length k = sz" for sz
proof
  show "hash_search (hash_clear t) k = None" if "hash_inv t \<and> hash_size t = sz" for t :: "'a hash" and k
    using that hash_slot_less [of t k]
    by (simp add: hash_search_def hash_clear_def)
qed (auto simp: hash_inv_keeps hash_search_insert split: if_splits)

section \<open>Properties\<close>

text \<open>
  Property C38. The table is a cache: every slot computed from a key lies inside the arrays, so
  no operation leaves them; a value can be read back under its key right after it was stored;
  another key finds what it found before or nothing, and nothing exactly when it shares the slot
  and had been stored there. Deleting and clearing remove what they should.
\<close>

theorem hash_table_is_cache:
  assumes "hash_inv t"
  shows "hash_slot t k < length (hash_values t) \<and> hash_slot t k < length (hash_keys t) \<and>
    hash_inv (hash_insert t k v) \<and>
    hash_search (hash_insert t k v) k' =
      (if k' = k then v else if hash_slot t k' = hash_slot t k then None else hash_search t k') \<and>
    hash_search (hash_delete t k) k' = (if hash_slot t k' = hash_slot t k then None else hash_search t k') \<and>
    hash_search (hash_clear t) k' = None \<and>
    hash_search_or_insert t k v =
      (if hash_search t k \<noteq> None then (hash_search t k, t) else (None, hash_insert t k v))"
  using assms hash_slot_less [OF assms, of k] hash_slot_less [OF assms, of k']
    hash_search_insert [OF assms] hash_inv_keeps [OF assms]
  by (auto simp: hash_inv_def hash_delete_def hash_search_def hash_clear_def hash_search_or_insert_def
      hash_insert_def Let_def nth_list_update)

theorem hash_table_is_cache_witness:
  "hash_search (hash_insert (hash_alloc 3 4) [10, 0, 0, 1] (Some (7::nat))) [10, 0, 0, 1] = Some 7"
  using hash_table_is_cache [of "hash_alloc 3 4" "[10, 0, 0, 1]" "Some (7::nat)" "[10, 0, 0, 1]"]
  by (simp add: hash_inv_alloc)

text \<open>
  The hash of a four-byte key does not depend on its first byte, so the addresses
  \<open>a.x.y.z\<close> of all networks \<open>a\<close> share one slot of the IPv4 cache; and \<^verbatim>\<open>hash_resize\<close> keeps the
  old number of slots, so that after shrinking a table slots lie outside its arrays.
\<close>

theorem hash_weaknesses:
  "hash_function [a, x, y, z] 4 = hash_function [b, x, y, z] 4 \<and>
   (hash_inv t \<and> n < hash_n t \<longrightarrow> hash_n (hash_resize t n) > length (hash_values (hash_resize t n)))"
proof
  have "rev [1..<min 4 4] = [3, 2, 1 :: nat]" by code_simp
  then show "hash_function [a, x, y, z] 4 = hash_function [b, x, y, z] 4"
    by (simp add: hash_function_def hash_loop.simps hash_round_def)
qed (auto simp: hash_inv_def hash_resize_def)

theorem hash_weaknesses_witness:
  "hash_n (hash_resize (hash_alloc 8 4 :: nat hash) 2) > length (hash_values (hash_resize (hash_alloc 8 4 :: nat hash) 2))"
  using hash_weaknesses [of 0 0 0 0 0 "hash_alloc 8 4 :: nat hash" 2]
  by (simp add: hash_inv_def hash_alloc_def)

end
