(* ===== verification/Subnet_Table.thy ===== *)
theory Subnet_Table
  imports Subnet Hash_Table
begin

text \<open>
  The table of all subnets with its lookup caches (\<^verbatim>\<open>subnet.c\<close>). The table is the global splay
  tree and one tree per node; iteration follows the threaded list of the tree, so it visits the
  subnets in the order of \<^verbatim>\<open>subnet_compare\<close>. Whether a node is reachable is an argument.
\<close>

section \<open>State and operations\<close>

record subnet_state =
  subnet_tree :: "subnet splay_tree"
  node_subnets :: "string \<Rightarrow> subnet splay_tree"
  ipv4_cache :: "subnet hash"
  ipv6_cache :: "subnet hash"
  mac_cache :: "subnet hash"

definition subnet_cache_flush :: "subnet_state \<Rightarrow> subnet_state" where
  "subnet_cache_flush st =
     st\<lparr>ipv4_cache := hash_clear (ipv4_cache st), ipv6_cache := hash_clear (ipv6_cache st),
        mac_cache := hash_clear (mac_cache st)\<rparr>"

definition new_subnet_tree :: "subnet splay_tree" where
  "new_subnet_tree = splay_alloc_tree subnet_compare False"

definition init_subnets :: subnet_state where
  "init_subnets =
     \<lparr>subnet_tree = splay_alloc_tree subnet_compare True, node_subnets = (\<lambda>_. new_subnet_tree),
      ipv4_cache = hash_alloc 0x100 4, ipv6_cache = hash_alloc 0x100 16, mac_cache = hash_alloc 0x100 6\<rparr>"

definition subnet_add :: "string option \<Rightarrow> subnet \<Rightarrow> subnet_state \<Rightarrow> subnet_state" where
  "subnet_add n s st =
     (let s = s\<lparr>owner := n\<rparr>;
          st = st\<lparr>subnet_tree := fst (splay_insert (subnet_tree st) s)\<rparr>;
          st = (case n of None \<Rightarrow> st | Some m \<Rightarrow>
            st\<lparr>node_subnets := (node_subnets st)(m := fst (splay_insert (node_subnets st m) s))\<rparr>)
      in subnet_cache_flush st)"

definition subnet_del :: "string option \<Rightarrow> subnet \<Rightarrow> subnet_state \<Rightarrow> subnet_state" where
  "subnet_del n s st =
     (let st = (case n of None \<Rightarrow> st | Some m \<Rightarrow>
            st\<lparr>node_subnets := (node_subnets st)(m := fst (splay_delete (node_subnets st m) s))\<rparr>);
          st = st\<lparr>subnet_tree := fst (splay_delete (subnet_tree st) s)\<rparr>
      in subnet_cache_flush st)"

definition lookup_subnet :: "string \<Rightarrow> subnet \<Rightarrow> subnet_state \<Rightarrow> subnet option \<times> subnet_state" where
  "lookup_subnet n s st =
     (case splay_search (node_subnets st n) s of (t, r) \<Rightarrow>
        (r, st\<lparr>node_subnets := (node_subnets st)(n := t)\<rparr>))"

fun matches_mac :: "bytes \<Rightarrow> net \<Rightarrow> bool" where
  "matches_mac address (SUBNET_MAC a) \<longleftrightarrow> memcmp address a = 0"
| "matches_mac address _ \<longleftrightarrow> False"

fun matches_ipv4 :: "bytes \<Rightarrow> net \<Rightarrow> bool" where
  "matches_ipv4 address (SUBNET_IPV4 a p) \<longleftrightarrow> maskcmp address a p = 0"
| "matches_ipv4 address _ \<longleftrightarrow> False"

fun matches_ipv6 :: "bytes \<Rightarrow> net \<Rightarrow> bool" where
  "matches_ipv6 address (SUBNET_IPV6 a p) \<longleftrightarrow> maskcmp address a p = 0"
| "matches_ipv6 address _ \<longleftrightarrow> False"

text \<open>\<^verbatim>\<open>!p->owner || p->owner->status.reachable\<close>\<close>

definition usable :: "(string \<Rightarrow> bool) \<Rightarrow> subnet \<Rightarrow> bool" where
  "usable reachable p \<longleftrightarrow> (case owner p of None \<Rightarrow> True | Some n \<Rightarrow> reachable n)"

text \<open>The loop of the three lookups: the last match so far, stopping at one in use.\<close>

fun scan_subnets :: "(net \<Rightarrow> bool) \<Rightarrow> (string \<Rightarrow> bool) \<Rightarrow> subnet list \<Rightarrow> subnet option \<Rightarrow> subnet option" where
  "scan_subnets matches reachable [] r = r"
| "scan_subnets matches reachable (p # ps) r =
     (if matches (net p)
      then (if usable reachable p then Some p else scan_subnets matches reachable ps (Some p))
      else scan_subnets matches reachable ps r)"

definition lookup_subnet_mac ::
  "(string \<Rightarrow> bool) \<Rightarrow> string option \<Rightarrow> bytes \<Rightarrow> subnet_state \<Rightarrow> subnet option \<times> subnet_state" where
  "lookup_subnet_mac reachable n address st =
     (case hash_search (mac_cache st) address of
        Some r \<Rightarrow> (Some r, st)
      | None \<Rightarrow>
          (let tree = (case n of Some m \<Rightarrow> node_subnets st m | None \<Rightarrow> subnet_tree st);
               r = scan_subnets (matches_mac address) reachable (links tree) None
           in (r, case r of None \<Rightarrow> st
                  | Some p \<Rightarrow> st\<lparr>mac_cache := hash_insert (mac_cache st) address (Some p)\<rparr>)))"

definition lookup_subnet_ipv4 ::
  "(string \<Rightarrow> bool) \<Rightarrow> bytes \<Rightarrow> subnet_state \<Rightarrow> subnet option \<times> subnet_state" where
  "lookup_subnet_ipv4 reachable address st =
     (case hash_search (ipv4_cache st) address of
        Some r \<Rightarrow> (Some r, st)
      | None \<Rightarrow>
          (let r = scan_subnets (matches_ipv4 address) reachable (links (subnet_tree st)) None
           in (r, case r of None \<Rightarrow> st
                  | Some p \<Rightarrow> st\<lparr>ipv4_cache := hash_insert (ipv4_cache st) address (Some p)\<rparr>)))"

definition lookup_subnet_ipv6 ::
  "(string \<Rightarrow> bool) \<Rightarrow> bytes \<Rightarrow> subnet_state \<Rightarrow> subnet option \<times> subnet_state" where
  "lookup_subnet_ipv6 reachable address st =
     (case hash_search (ipv6_cache st) address of
        Some r \<Rightarrow> (Some r, st)
      | None \<Rightarrow>
          (let r = scan_subnets (matches_ipv6 address) reachable (links (subnet_tree st)) None
           in (r, case r of None \<Rightarrow> st
                  | Some p \<Rightarrow> st\<lparr>ipv6_cache := hash_insert (ipv6_cache st) address (Some p)\<rparr>)))"

text \<open>What happens to the table while the daemon runs.\<close>

datatype subnet_op = Op_Add "string option" subnet | Op_Del "string option" subnet
  | Op_Lookup_Ipv4 bytes | Op_Lookup_Ipv6 bytes | Op_Lookup string subnet
  | Op_Reachability "string \<Rightarrow> bool"

fun subnet_step :: "(string \<Rightarrow> bool) \<times> subnet_state \<Rightarrow> subnet_op \<Rightarrow> (string \<Rightarrow> bool) \<times> subnet_state" where
  "subnet_step (reachable, st) (Op_Add n s) = (reachable, subnet_add n s st)"
| "subnet_step (reachable, st) (Op_Del n s) = (reachable, subnet_del n s st)"
| "subnet_step (reachable, st) (Op_Lookup_Ipv4 a) = (reachable, snd (lookup_subnet_ipv4 reachable a st))"
| "subnet_step (reachable, st) (Op_Lookup_Ipv6 a) = (reachable, snd (lookup_subnet_ipv6 reachable a st))"
| "subnet_step (reachable, st) (Op_Lookup n s) = (reachable, snd (lookup_subnet n s st))"
| "subnet_step (reachable, st) (Op_Reachability r) = (r, subnet_cache_flush st)"

section \<open>The scan\<close>

lemma scan_result:
  "scan_subnets m reachable ps r = Some p \<Longrightarrow>
     (p \<in> set ps \<and> m (net p) \<or> r = Some p) \<and>
     (usable reachable p \<and> p \<in> set ps \<and> m (net p) \<or> (\<forall>q \<in> set ps. m (net q) \<longrightarrow> \<not> usable reachable q))"
  by (induction ps arbitrary: r) (auto split: if_splits)

lemma scan_None: "scan_subnets m reachable ps r = None \<longleftrightarrow> r = None \<and> (\<forall>p \<in> set ps. \<not> m (net p))"
  by (induction ps arbitrary: r) auto

text \<open>In a sorted list the scan stops at the least usable match.\<close>

lemma scan_least:
  assumes "sorted_wrt R ps" "scan_subnets m reachable ps r = Some p"
    "q \<in> set ps" "m (net q)" "usable reachable q"
  shows "usable reachable p \<and> p \<in> set ps \<and> m (net p) \<and> (p = q \<or> R p q)"
  using assms by (induction ps arbitrary: r) (auto split: if_splits)

section \<open>The table invariant\<close>

text \<open>What the two IP lookups compute without a cache.\<close>

definition ref_ipv4 :: "(string \<Rightarrow> bool) \<Rightarrow> subnet_state \<Rightarrow> bytes \<Rightarrow> subnet option" where
  "ref_ipv4 reachable st a = scan_subnets (matches_ipv4 a) reachable (links (subnet_tree st)) None"

definition ref_ipv6 :: "(string \<Rightarrow> bool) \<Rightarrow> subnet_state \<Rightarrow> bytes \<Rightarrow> subnet option" where
  "ref_ipv6 reachable st a = scan_subnets (matches_ipv6 a) reachable (links (subnet_tree st)) None"

definition trees_inv :: "(net \<times> int) set \<Rightarrow> subnet_state \<Rightarrow> bool" where
  "trees_inv B st \<longleftrightarrow> splay_inv subnet_compare (subnet_ok B) (subnet_tree st) \<and>
     (\<forall>n. splay_inv subnet_compare (subnet_ok B) (node_subnets st n) \<and>
        set (links (node_subnets st n)) = {s \<in> set (links (subnet_tree st)). owner s = Some n})"

definition caches_inv :: "(string \<Rightarrow> bool) \<Rightarrow> subnet_state \<Rightarrow> bool" where
  "caches_inv reachable st \<longleftrightarrow>
     hash_inv (ipv4_cache st) \<and> hash_size (ipv4_cache st) = 4 \<and>
     hash_inv (ipv6_cache st) \<and> hash_size (ipv6_cache st) = 16 \<and> hash_inv (mac_cache st) \<and>
     hash_cache.coherent 4 (ref_ipv4 reachable st) (ipv4_cache st) \<and>
     hash_cache.coherent 16 (ref_ipv6 reachable st) (ipv6_cache st)"

lemma flush_caches_inv:
  "hash_inv (ipv4_cache st) \<Longrightarrow> hash_size (ipv4_cache st) = 4 \<Longrightarrow> hash_inv (ipv6_cache st) \<Longrightarrow>
   hash_size (ipv6_cache st) = 16 \<Longrightarrow> hash_inv (mac_cache st) \<Longrightarrow> caches_inv reachable (subnet_cache_flush st)"
  by (simp add: caches_inv_def subnet_cache_flush_def hash_cache.coherent_clear hash_inv_keeps)

lemma flush_trees [simp]:
  "subnet_tree (subnet_cache_flush st) = subnet_tree st"
  "node_subnets (subnet_cache_flush st) = node_subnets st"
  by (simp_all add: subnet_cache_flush_def)

lemma trees_inv_flush [simp]: "trees_inv B (subnet_cache_flush st) = trees_inv B st"
  by (simp add: trees_inv_def subnet_cache_flush_def)

lemma trees_inv_init: "trees_inv B init_subnets"
  by (simp add: trees_inv_def init_subnets_def new_subnet_tree_def splay_inv_alloc) (simp add: splay_alloc_tree_def)

text \<open>The subnets of a table are well-formed, and equal ones have the same owner.\<close>

lemma trees_inv_same_owner:
  assumes "trees_inv B st" "subnet_ok B s" "x \<in> set (links (subnet_tree st))" "subnet_compare s x = 0"
  shows "owner x = owner s"
proof -
  have "subnet_ok B x"
    using assms subnet_order.splay.inv_elems [of B "subnet_tree st"]
    by (auto simp: trees_inv_def list_all_iff)
  with assms show ?thesis by (simp add: subnet_compare_zero)
qed

lemma trees_inv_add:
  assumes inv: "trees_inv B st" and ok: "subnet_ok B (s\<lparr>owner := n\<rparr>)"
  shows "trees_inv B (subnet_add n s st)"
proof -
  let ?s = "s\<lparr>owner := n\<rparr>"
  note same = trees_inv_same_owner [OF inv ok]
  have T: "splay_inv subnet_compare (subnet_ok B) (subnet_tree st)"
    and N: "splay_inv subnet_compare (subnet_ok B) (node_subnets st m)"
    "set (links (node_subnets st m)) = {s \<in> set (links (subnet_tree st)). owner s = Some m}" for m
    using inv by (simp_all add: trees_inv_def)
  have ins: "splay_inv subnet_compare (subnet_ok B) (fst (splay_insert t ?s))"
    "set (links (fst (splay_insert t ?s))) =
      (if \<exists>x \<in> set (links t). subnet_compare ?s x = 0 then set (links t) else insert ?s (set (links t)))"
    if "splay_inv subnet_compare (subnet_ok B) t" for t
    using subnet_order.splay.ins_law [OF that ok] by (simp_all add: set_ordered_insert)
  show ?thesis
  proof (cases n)
    case None
    with T N ins same show ?thesis by (auto simp: trees_inv_def subnet_add_def Let_def)
  next
    case (Some m)
    have "(\<exists>x \<in> set (links (node_subnets st m)). subnet_compare ?s x = 0) \<longleftrightarrow>
        (\<exists>x \<in> set (links (subnet_tree st)). subnet_compare ?s x = 0)"
      using N(2) [of m] same Some by auto
    with Some T N ins [OF T] ins [OF N(1) [of m]] show ?thesis
      by (auto simp: trees_inv_def subnet_add_def Let_def)
  qed
qed

lemma trees_inv_del:
  assumes inv: "trees_inv B st" and ok: "subnet_ok B s" and o: "owner s = n"
  shows "trees_inv B (subnet_del n s st)"
proof -
  note same = trees_inv_same_owner [OF inv ok]
  have T: "splay_inv subnet_compare (subnet_ok B) (subnet_tree st)"
    and N: "splay_inv subnet_compare (subnet_ok B) (node_subnets st m)"
    "set (links (node_subnets st m)) = {s \<in> set (links (subnet_tree st)). owner s = Some m}" for m
    using inv by (simp_all add: trees_inv_def)
  have del: "splay_inv subnet_compare (subnet_ok B) (fst (splay_delete t s))"
    "set (links (fst (splay_delete t s))) = {x \<in> set (links t). subnet_compare s x \<noteq> 0}"
    if "splay_inv subnet_compare (subnet_ok B) t" for t
    using subnet_order.splay.del_law [OF that ok] by (simp_all add: set_ordered_delete)
  show ?thesis
  proof (cases n)
    case None
    with T N del [OF T] same o show ?thesis by (auto simp: trees_inv_def subnet_del_def Let_def)
  next
    case (Some m)
    with T N del [OF T] del [OF N(1) [of m]] same o show ?thesis
      by (auto simp: trees_inv_def subnet_del_def Let_def)
  qed
qed

lemma trees_inv_lookup:
  assumes "trees_inv B st" "subnet_ok B s"
  shows "trees_inv B (snd (lookup_subnet n s st))"
  using assms subnet_order.splay.search_law [of B "node_subnets st n" s]
  by (auto simp: trees_inv_def lookup_subnet_def split: prod.split)

section \<open>The caches agree with the table\<close>

lemma lookup_ipv4_coherent:
  assumes "caches_inv reachable st" "length a = 4"
  shows "fst (lookup_subnet_ipv4 reachable a st) = ref_ipv4 reachable st a \<and>
    caches_inv reachable (snd (lookup_subnet_ipv4 reachable a st)) \<and>
    links (subnet_tree (snd (lookup_subnet_ipv4 reachable a st))) = links (subnet_tree st)"
proof (cases "hash_search (ipv4_cache st) a")
  case (Some r)
  with assms hash_cache.coherent_search [of 4 "ref_ipv4 reachable st" "ipv4_cache st" a r] show ?thesis
    by (simp add: lookup_subnet_ipv4_def caches_inv_def)
next
  case None
  have ref: "ref_ipv4 reachable (st\<lparr>ipv4_cache := c\<rparr>) = ref_ipv4 reachable st"
    "ref_ipv6 reachable (st\<lparr>ipv4_cache := c\<rparr>) = ref_ipv6 reachable st" for c
    by (auto simp: ref_ipv4_def ref_ipv6_def)
  show ?thesis
  proof (cases "ref_ipv4 reachable st a")
    case (Some p)
    with None assms hash_cache.coherent_store [of "ipv4_cache st" 4 a "ref_ipv4 reachable st" p] show ?thesis
      by (auto simp: lookup_subnet_ipv4_def caches_inv_def ref hash_inv_keeps ref_ipv4_def Let_def)
  qed (use None assms in \<open>auto simp: lookup_subnet_ipv4_def ref_ipv4_def Let_def\<close>)
qed

lemma lookup_ipv6_coherent:
  assumes "caches_inv reachable st" "length a = 16"
  shows "fst (lookup_subnet_ipv6 reachable a st) = ref_ipv6 reachable st a \<and>
    caches_inv reachable (snd (lookup_subnet_ipv6 reachable a st)) \<and>
    links (subnet_tree (snd (lookup_subnet_ipv6 reachable a st))) = links (subnet_tree st)"
proof (cases "hash_search (ipv6_cache st) a")
  case (Some r)
  with assms hash_cache.coherent_search [of 16 "ref_ipv6 reachable st" "ipv6_cache st" a r] show ?thesis
    by (simp add: lookup_subnet_ipv6_def caches_inv_def)
next
  case None
  have ref: "ref_ipv4 reachable (st\<lparr>ipv6_cache := c\<rparr>) = ref_ipv4 reachable st"
    "ref_ipv6 reachable (st\<lparr>ipv6_cache := c\<rparr>) = ref_ipv6 reachable st" for c
    by (auto simp: ref_ipv4_def ref_ipv6_def)
  show ?thesis
  proof (cases "ref_ipv6 reachable st a")
    case (Some p)
    with None assms hash_cache.coherent_store [of "ipv6_cache st" 16 a "ref_ipv6 reachable st" p] show ?thesis
      by (auto simp: lookup_subnet_ipv6_def caches_inv_def ref hash_inv_keeps ref_ipv6_def Let_def)
  qed (use None assms in \<open>auto simp: lookup_subnet_ipv6_def ref_ipv6_def Let_def\<close>)
qed

text \<open>The operations the invariant is kept by: well-formed subnets, deleted by their owner.\<close>

fun op_ok :: "(net \<times> int) set \<Rightarrow> subnet_op \<Rightarrow> bool" where
  "op_ok B (Op_Add n s) \<longleftrightarrow> subnet_ok B (s\<lparr>owner := n\<rparr>)"
| "op_ok B (Op_Del n s) \<longleftrightarrow> subnet_ok B s \<and> owner s = n"
| "op_ok B (Op_Lookup_Ipv4 a) \<longleftrightarrow> length a = 4"
| "op_ok B (Op_Lookup_Ipv6 a) \<longleftrightarrow> length a = 16"
| "op_ok B (Op_Lookup n s) \<longleftrightarrow> subnet_ok B s"
| "op_ok B (Op_Reachability r) \<longleftrightarrow> True"

lemma lookup_frame:
  "subnet_tree (snd (lookup_subnet_ipv4 reachable a st)) = subnet_tree st"
  "node_subnets (snd (lookup_subnet_ipv4 reachable a st)) = node_subnets st"
  "subnet_tree (snd (lookup_subnet_ipv6 reachable a st)) = subnet_tree st"
  "node_subnets (snd (lookup_subnet_ipv6 reachable a st)) = node_subnets st"
  by (simp_all add: lookup_subnet_ipv4_def lookup_subnet_ipv6_def Let_def split: option.split)

lemma subnet_step_inv:
  assumes "trees_inv B st" "caches_inv reachable st" "op_ok B op" "subnet_step (reachable, st) op = (r', st')"
  shows "trees_inv B st' \<and> caches_inv r' st'"
proof (cases op)
  case (Op_Add n s)
  have "caches_inv reachable (subnet_add n s st)"
    using assms(2) unfolding subnet_add_def Let_def
    by (intro flush_caches_inv) (auto simp: caches_inv_def split: option.split)
  with Op_Add assms trees_inv_add [where n = n and s = s] show ?thesis by auto
next
  case (Op_Del n s)
  have "caches_inv reachable (subnet_del n s st)"
    using assms(2) unfolding subnet_del_def Let_def
    by (intro flush_caches_inv) (auto simp: caches_inv_def split: option.split)
  with Op_Del assms trees_inv_del [where n = n and s = s] show ?thesis by auto
next
  case (Op_Lookup n s)
  have "caches_inv reachable (snd (lookup_subnet n s st))"
    using assms(2) by (simp add: caches_inv_def lookup_subnet_def ref_ipv4_def [abs_def] ref_ipv6_def [abs_def] split: prod.split)
  with Op_Lookup assms trees_inv_lookup [where n = n and s = s] show ?thesis by auto
next
  case (Op_Reachability r)
  with assms flush_caches_inv [of st r] show ?thesis by (auto simp: caches_inv_def)
next
  case (Op_Lookup_Ipv4 a)
  with assms lookup_ipv4_coherent [of reachable st a] show ?thesis by (auto simp: trees_inv_def lookup_frame)
next
  case (Op_Lookup_Ipv6 a)
  with assms lookup_ipv6_coherent [of reachable st a] show ?thesis by (auto simp: trees_inv_def lookup_frame)
qed

lemma subnet_run_inv:
  assumes "list_all (op_ok B) ops" "trees_inv B st" "caches_inv reachable st"
    "foldl subnet_step (reachable, st) ops = (r', st')"
  shows "trees_inv B st' \<and> caches_inv r' st'"
  using assms
proof (induction ops arbitrary: reachable st)
  case (Cons op ops)
  obtain r1 st1 where step: "subnet_step (reachable, st) op = (r1, st1)"
    by (cases "subnet_step (reachable, st) op")
  with Cons.prems subnet_step_inv [of B st reachable op r1 st1] Cons.IH [of st1 r1] show ?case by simp
qed simp

lemma init_caches_inv: "caches_inv reachable init_subnets"
proof -
  have "caches_inv reachable (subnet_cache_flush init_subnets)"
    by (rule flush_caches_inv) (simp_all add: init_subnets_def hash_inv_alloc, simp_all add: hash_alloc_def)
  moreover have "subnet_cache_flush init_subnets = init_subnets"
    by (simp add: subnet_cache_flush_def init_subnets_def hash_clear_def hash_alloc_def)
  ultimately show ?thesis by simp
qed

section \<open>Properties\<close>

text \<open>The prefix length of a subnet, the number of address bits it fixes.\<close>

fun prefixlength :: "net \<Rightarrow> nat" where
  "prefixlength (SUBNET_MAC a) = 48"
| "prefixlength (SUBNET_IPV4 a p) = p"
| "prefixlength (SUBNET_IPV6 a p) = p"

lemma less_prefix:
  assumes "subnet_ok B p" "subnet_ok B q" "subnet_compare p q < 0" "subnet_type (net p) = subnet_type (net q)"
  shows "prefixlength (net q) \<le> prefixlength (net p)"
  using assms(3,4) unfolding subnet_compare_unfold [OF assms(1,2)]
  by (cases "net p"; cases "net q") (auto simp: cmp_then_def net_compare_def split: if_splits)

lemma less_weight:
  assumes "subnet_ok B p" "subnet_ok B q" "subnet_compare p q < 0" "net p = net q"
  shows "weight p \<le> weight q"
  using assms(1,3,4) unfolding subnet_compare_unfold [OF assms(1,2)]
  by (auto simp: cmp_then_def net_compare_zero subnet_ok_def split: if_splits)

lemma matches_type:
  "matches_ipv4 a n \<Longrightarrow> subnet_type n = 1" "matches_ipv6 a n \<Longrightarrow> subnet_type n = 2"
  by (cases n; simp)+

lemma longest_prefix:
  assumes inv: "trees_inv B st" and r: "scan_subnets m reachable (links (subnet_tree st)) None = Some p"
    and ty: "\<And>n. m n \<Longrightarrow> subnet_type n = k"
    and q: "q \<in> set (links (subnet_tree st))" "m (net q)" "usable reachable q"
  shows "usable reachable p \<and> prefixlength (net q) \<le> prefixlength (net p) \<and>
    (net q = net p \<longrightarrow> weight p \<le> weight q)"
proof -
  have el: "list_all (subnet_ok B) (links (subnet_tree st))"
    "sorted_wrt (\<lambda>x y. subnet_compare x y < 0) (links (subnet_tree st))"
    using subnet_order.splay.inv_elems [of B "subnet_tree st"] inv by (simp_all add: trees_inv_def)
  from scan_least [OF el(2) r q] have p: "usable reachable p" "p \<in> set (links (subnet_tree st))" "m (net p)"
    "p = q \<or> subnet_compare p q < 0" by auto
  have "subnet_type (net p) = subnet_type (net q)" using ty p(3) q(2) by simp
  moreover have "subnet_ok B p" "subnet_ok B q" using el(1) p(2) q(1) by (auto simp: list_all_iff)
  ultimately show ?thesis using p less_prefix [of B p q] less_weight [of B p q] by auto
qed

text \<open>
  Property C2. After any history of adding and deleting subnets, lookups and changes of
  reachability, from the empty table on, an IPv4 lookup, cached or not, is a longest-prefix match
  over the subnets in the table now: it finds a subnet containing the address whenever there is
  one, and when some such subnet is in use it returns one in use that no other in use beats in
  prefix length, nor in weight for the same network.
\<close>

theorem lookup_ipv4_longest_prefix:
  assumes "list_all (op_ok B) ops" "foldl subnet_step (reachable0, init_subnets) ops = (reachable, st)"
    and "length address = 4"
  shows "case fst (lookup_subnet_ipv4 reachable address st) of
      None \<Rightarrow> \<forall>q \<in> set (links (subnet_tree st)). \<not> matches_ipv4 address (net q)
    | Some p \<Rightarrow> p \<in> set (links (subnet_tree st)) \<and> matches_ipv4 address (net p) \<and>
        (\<forall>q \<in> set (links (subnet_tree st)). matches_ipv4 address (net q) \<and> usable reachable q \<longrightarrow>
           usable reachable p \<and> prefixlength (net q) \<le> prefixlength (net p) \<and>
           (net q = net p \<longrightarrow> weight p \<le> weight q))"
proof -
  from subnet_run_inv [OF assms(1) trees_inv_init init_caches_inv assms(2)]
  have inv: "trees_inv B st" "caches_inv reachable st" by auto
  have "fst (lookup_subnet_ipv4 reachable address st) = ref_ipv4 reachable st address"
    using lookup_ipv4_coherent [OF inv(2) assms(3)] by simp
  then show ?thesis
    using longest_prefix [OF inv(1), of "matches_ipv4 address" reachable _ 1] matches_type(1) [of address]
    by (auto simp: ref_ipv4_def scan_None split: option.split dest: scan_result)
qed

text \<open>Three subnets of two nodes, the more specific one of the second.\<close>

definition example_ops :: "subnet_op list" where
  "example_ops =
     (let mk = (\<lambda>a p. \<lparr>owner = None, expires = 0, weight = 10, net = SUBNET_IPV4 a p\<rparr>) in
      [Op_Add (Some ''a'') (mk [10, 0, 0, 0] 8), Op_Add (Some ''b'') (mk [10, 1, 0, 0] 16),
       Op_Lookup_Ipv4 [10, 1, 2, 3], Op_Add (Some ''a'') (mk [10, 1, 0, 0] 16)])"

lemma example_ops_ok: "list_all (op_ok {}) example_ops"
  by (simp add: example_ops_def subnet_ok_def c_string_def)

theorem lookup_ipv4_longest_prefix_witness:
  "let (reachable, st) = foldl subnet_step (\<lambda>n. n = ''b'', init_subnets) example_ops in
     case fst (lookup_subnet_ipv4 reachable [10, 1, 2, 3] st) of
       None \<Rightarrow> False | Some p \<Rightarrow> owner p = Some ''b'' \<and> prefixlength (net p) = 16"
proof -
  obtain reachable st where run: "foldl subnet_step (\<lambda>n. n = ''b'', init_subnets) example_ops = (reachable, st)"
    by (cases "foldl subnet_step (\<lambda>n. n = ''b'', init_subnets) example_ops")
  have r: "reachable = (\<lambda>n. n = ''b'')" using run by (simp add: example_ops_def Let_def)
  have "map (\<lambda>s. (owner s, net s)) (links (subnet_tree (snd (foldl subnet_step (\<lambda>n. n = ''b'', init_subnets) example_ops)))) =
      [(Some ''a'', SUBNET_IPV4 [10, 1, 0, 0] 16), (Some ''b'', SUBNET_IPV4 [10, 1, 0, 0] 16),
       (Some ''a'', SUBNET_IPV4 [10, 0, 0, 0] 8)]"
    by code_simp
  then have l: "map (\<lambda>s. (owner s, net s)) (links (subnet_tree st)) =
      [(Some ''a'', SUBNET_IPV4 [10, 1, 0, 0] 16), (Some ''b'', SUBNET_IPV4 [10, 1, 0, 0] 16),
       (Some ''a'', SUBNET_IPV4 [10, 0, 0, 0] 8)]" by (simp add: run)
  have m: "maskcmp [10, 1, 2, 3] [10, 1, 0, 0] 16 = 0" by code_simp
  from lookup_ipv4_longest_prefix [OF example_ops_ok run, of "[10, 1, 2, 3]"] l m show ?thesis
    by (auto simp: run r usable_def split: option.splits)
qed

text \<open>
  The same holds of IPv6 lookups.
\<close>

theorem lookup_ipv6_longest_prefix:
  assumes "list_all (op_ok B) ops" "foldl subnet_step (reachable0, init_subnets) ops = (reachable, st)"
    and "length address = 16"
  shows "case fst (lookup_subnet_ipv6 reachable address st) of
      None \<Rightarrow> \<forall>q \<in> set (links (subnet_tree st)). \<not> matches_ipv6 address (net q)
    | Some p \<Rightarrow> p \<in> set (links (subnet_tree st)) \<and> matches_ipv6 address (net p) \<and>
        (\<forall>q \<in> set (links (subnet_tree st)). matches_ipv6 address (net q) \<and> usable reachable q \<longrightarrow>
           usable reachable p \<and> prefixlength (net q) \<le> prefixlength (net p) \<and>
           (net q = net p \<longrightarrow> weight p \<le> weight q))"
proof -
  from subnet_run_inv [OF assms(1) trees_inv_init init_caches_inv assms(2)]
  have inv: "trees_inv B st" "caches_inv reachable st" by auto
  have "fst (lookup_subnet_ipv6 reachable address st) = ref_ipv6 reachable st address"
    using lookup_ipv6_coherent [OF inv(2) assms(3)] by simp
  then show ?thesis
    using longest_prefix [OF inv(1), of "matches_ipv6 address" reachable _ 2] matches_type(2) [of address]
    by (auto simp: ref_ipv6_def scan_None split: option.split dest: scan_result)
qed

theorem lookup_ipv6_longest_prefix_witness:
  "let s = \<lparr>owner = None, expires = 0, weight = 10, net = SUBNET_IPV6 (replicate 16 0) 0\<rparr>;
       (reachable, st) = foldl subnet_step (\<lambda>_. True, init_subnets) [Op_Add (Some ''a'') s]
   in fst (lookup_subnet_ipv6 reachable (replicate 16 7) st) \<noteq> None"
proof -
  let ?s = "\<lparr>owner = None, expires = 0, weight = 10, net = SUBNET_IPV6 (replicate 16 0) 0\<rparr>"
  obtain reachable st where run: "foldl subnet_step (\<lambda>_. True, init_subnets) [Op_Add (Some ''a'') ?s] = (reachable, st)"
    by (cases "foldl subnet_step (\<lambda>_. True, init_subnets) [Op_Add (Some ''a'') ?s]")
  have ok: "list_all (op_ok {}) [Op_Add (Some ''a'') ?s]" by (simp add: subnet_ok_def c_string_def)
  have "map net (links (subnet_tree (snd (foldl subnet_step (\<lambda>_. True, init_subnets) [Op_Add (Some ''a'') ?s])))) =
      [SUBNET_IPV6 (replicate 16 0) 0]" by code_simp
  then have l: "map net (links (subnet_tree st)) = [SUBNET_IPV6 (replicate 16 0) 0]" by (simp only: run snd_conv)
  have m: "maskcmp (replicate 16 7) (replicate 16 0) 0 = 0" by code_simp
  from lookup_ipv6_longest_prefix [OF ok run, of "replicate 16 7"] l m show ?thesis
    by (auto simp: run Let_def simp del: foldl_Cons split: option.splits)
qed

text \<open>
  Property C3. The two views of the table agree after any such history: the tree of a node holds
  exactly the subnets of the global tree that the node owns, and looking a subnet up in its
  owner's tree finds it exactly when the global tree holds a subnet with the same network, weight
  and owner.
\<close>

theorem subnet_trees_agree:
  assumes "list_all (op_ok B) ops" "foldl subnet_step (reachable0, init_subnets) ops = (reachable, st)"
    and "subnet_ok B s" "owner s = Some n"
  shows "set (links (node_subnets st n)) = {x \<in> set (links (subnet_tree st)). owner x = Some n} \<and>
    (fst (lookup_subnet n s st) \<noteq> None \<longleftrightarrow>
       (\<exists>x \<in> set (links (subnet_tree st)). net x = net s \<and> weight x = weight s \<and> owner x = owner s))"
proof -
  from subnet_run_inv [OF assms(1) trees_inv_init init_caches_inv assms(2)]
  have inv: "trees_inv B st" by simp
  then have set: "set (links (node_subnets st n)) = {x \<in> set (links (subnet_tree st)). owner x = Some n}"
    and T: "splay_inv subnet_compare (subnet_ok B) (subnet_tree st)"
    and N: "splay_inv subnet_compare (subnet_ok B) (node_subnets st n)" by (simp_all add: trees_inv_def)
  have "fst (lookup_subnet n s st) = ordered_lookup subnet_compare s (links (node_subnets st n))"
    using subnet_order.splay.search_law [OF N assms(3)] by (auto simp: lookup_subnet_def split: prod.split)
  moreover have "subnet_compare s x = 0 \<longleftrightarrow> net x = net s \<and> weight x = weight s \<and> owner x = owner s"
    if "x \<in> set (links (subnet_tree st))" for x
    using that subnet_order.splay.inv_elems [OF T] subnet_compare_zero [OF assms(3), of x]
    by (auto simp: list_all_iff)
  ultimately show ?thesis using set assms(4)
    by (auto simp: ordered_lookup_def find_None_iff)
qed

theorem subnet_trees_agree_witness:
  "let st = snd (foldl subnet_step (\<lambda>_. True, init_subnets) example_ops) in
     set (links (node_subnets st ''a'')) = {x \<in> set (links (subnet_tree st)). owner x = Some ''a''}"
proof -
  obtain reachable st where run: "foldl subnet_step (\<lambda>_. True, init_subnets) example_ops = (reachable, st)"
    by (cases "foldl subnet_step (\<lambda>_. True, init_subnets) example_ops")
  let ?s = "\<lparr>owner = Some ''a'', expires = 0, weight = 10, net = SUBNET_IPV4 [10, 0, 0, 0] 8\<rparr>"
  have "subnet_ok {} ?s" by (simp add: subnet_ok_def c_string_def)
  from subnet_trees_agree [OF example_ops_ok run this, of "''a''"] show ?thesis by (simp add: run)
qed

text \<open>
  A lookup of a MAC address among the subnets of one node may return a subnet of
  another node: the cache it consults first is shared with lookups over all nodes and is keyed by
  the address alone.
\<close>

theorem lookup_mac_ignores_owner:
  "\<exists>st p. st = snd (lookup_subnet_mac (\<lambda>_. True) None [2, 0, 0, 0, 0, 1]
        (subnet_add (Some ''other'') \<lparr>owner = None, expires = 0, weight = 10, net = SUBNET_MAC [2, 0, 0, 0, 0, 1]\<rparr> init_subnets)) \<and>
     links (node_subnets st ''myself'') = [] \<and>
     fst (lookup_subnet_mac (\<lambda>_. True) (Some ''myself'') [2, 0, 0, 0, 0, 1] st) = Some p \<and>
     owner p = Some ''other''"
proof -
  let ?st = "snd (lookup_subnet_mac (\<lambda>_. True) None [2, 0, 0, 0, 0, 1]
      (subnet_add (Some ''other'') \<lparr>owner = None, expires = 0, weight = 10, net = SUBNET_MAC [2, 0, 0, 0, 0, 1]\<rparr> init_subnets))"
  have "links (node_subnets ?st ''myself'') = []" by code_simp
  moreover have "map_option owner (fst (lookup_subnet_mac (\<lambda>_. True) (Some ''myself'') [2, 0, 0, 0, 0, 1] ?st)) =
      Some (Some ''other'')" by code_simp
  ultimately show ?thesis by auto
qed

end
