(* ===== verification/Edge.thy ===== *)
theory Edge
  imports Splay_Tree
begin

text \<open>
  The edges of the mesh (\<^verbatim>\<open>edge.c\<close>): every node has a tree of its outgoing edges, ordered by
  the name at the other end, and one tree holds all edges in the order of their weights. An edge is
  known by the names at its two ends; the \<^verbatim>\<open>reverse\<close> pointers of the edges are a map from such
  pairs to such pairs. The theory shows that the two kinds of trees always hold the same edges and
  that \<^verbatim>\<open>reverse\<close> is set exactly when there is an edge in the opposite direction.
\<close>

section \<open>Data\<close>

datatype sockaddr = AF_UNSPEC | AF_UNKNOWN string string | AF_INET bytes u16 | AF_INET6 bytes u16

record edge =
  edge_from :: string
  edge_to :: string
  edge_address :: sockaddr
  edge_local_address :: sockaddr
  edge_options :: u32
  edge_weight :: int
  edge_connection :: "nat option"

record edge_state =
  node_edges :: "string \<Rightarrow> edge splay_tree"
  edge_weight_tree :: "edge splay_tree"
  reverse :: "string \<times> string \<Rightarrow> (string \<times> string) option"

abbreviation edge_key :: "edge \<Rightarrow> string \<times> string" where
  "edge_key e \<equiv> (edge_from e, edge_to e)"

section \<open>Operations\<close>

definition edge_compare :: "edge \<Rightarrow> edge \<Rightarrow> int" where
  "edge_compare a b = strcmp (edge_to a) (edge_to b)"

definition edge_weight_compare :: "edge \<Rightarrow> edge \<Rightarrow> int" where
  "edge_weight_compare a b =
     (let result = c_int_diff (edge_weight a) (edge_weight b) in
      if result \<noteq> 0 then result
      else let result = strcmp (edge_from a) (edge_from b) in
        if result \<noteq> 0 then result
        else strcmp (edge_to a) (edge_to b))"

definition new_edge_tree :: "edge splay_tree" where
  "new_edge_tree = splay_alloc_tree edge_compare True"

definition init_edges :: edge_state where
  "init_edges = \<lparr>node_edges = (\<lambda>_. new_edge_tree),
     edge_weight_tree = splay_alloc_tree edge_weight_compare False, reverse = (\<lambda>_. None)\<rparr>"

text \<open>The edge made by \<^verbatim>\<open>new_edge\<close>, between two nodes.\<close>

definition new_edge :: "string \<Rightarrow> string \<Rightarrow> edge" where
  "new_edge from to = \<lparr>edge_from = from, edge_to = to, edge_address = AF_UNSPEC,
     edge_local_address = AF_UNSPEC, edge_options = 0, edge_weight = 0, edge_connection = None\<rparr>"

definition lookup_edge :: "string \<Rightarrow> string \<Rightarrow> edge_state \<Rightarrow> edge option \<times> edge_state" where
  "lookup_edge from to st =
     (case splay_search (node_edges st from) (new_edge from to) of (t, r) \<Rightarrow>
        (r, st\<lparr>node_edges := (node_edges st)(from := t)\<rparr>))"

definition edge_add :: "edge \<Rightarrow> edge_state \<Rightarrow> edge_state" where
  "edge_add e st =
     (case splay_insert (node_edges st (edge_from e)) e of (t, node) \<Rightarrow>
        let st = st\<lparr>node_edges := (node_edges st)(edge_from e := t)\<rparr> in
        if node = None then st
        else case lookup_edge (edge_to e) (edge_from e) st of (back, st) \<Rightarrow>
          let st = st\<lparr>reverse := (reverse st)(edge_key e := map_option edge_key back)\<rparr>;
              st = (case back of None \<Rightarrow> st
                    | Some r \<Rightarrow> st\<lparr>reverse := (reverse st)(edge_key r \<mapsto> edge_key e)\<rparr>)
          in st\<lparr>edge_weight_tree := fst (splay_insert (edge_weight_tree st) e)\<rparr>)"

text \<open>Deleting the edge from the tree of its node frees it, and its \<^verbatim>\<open>reverse\<close> pointer with it.\<close>

definition edge_del :: "edge \<Rightarrow> edge_state \<Rightarrow> edge_state" where
  "edge_del e st =
     (let st = (case reverse st (edge_key e) of None \<Rightarrow> st
                | Some r \<Rightarrow> st\<lparr>reverse := (reverse st)(r := None)\<rparr>);
          st = st\<lparr>edge_weight_tree := fst (splay_delete (edge_weight_tree st) e)\<rparr>
      in st\<lparr>node_edges := (node_edges st)(edge_from e := fst (splay_delete (node_edges st (edge_from e)) e)),
            reverse := (reverse st)(edge_key e := None)\<rparr>)"

section \<open>The orders\<close>

text \<open>Node names are C strings; the daemon measures weights in milliseconds, so they are not negative.\<close>

definition edge_ok :: "edge \<Rightarrow> bool" where
  "edge_ok e \<longleftrightarrow> c_string (edge_from e) \<and> c_string (edge_to e) \<and> 0 \<le> edge_weight e \<and> c_int_ok (edge_weight e)"

definition edge_of :: "string \<Rightarrow> edge \<Rightarrow> bool" where
  "edge_of n e \<longleftrightarrow> edge_ok e \<and> edge_from e = n"

interpretation edge_order: c_compare edge_compare edge_ok
  unfolding edge_compare_def
  by (rule c_compare_field [OF strcmp_order.c_compare_axioms]) (simp add: edge_ok_def)

interpretation node_edge_order: c_compare edge_compare "edge_of n" for n
  by (rule c_compare_field [OF edge_order.c_compare_axioms, where h = "\<lambda>x. x"]) (simp add: edge_of_def)

lemma edge_weight_compare_alt:
  "edge_weight_compare = (\<lambda>a b. if c_int_diff (edge_weight a) (edge_weight b) \<noteq> 0
     then c_int_diff (edge_weight a) (edge_weight b)
     else if strcmp (edge_from a) (edge_from b) \<noteq> 0 then strcmp (edge_from a) (edge_from b)
     else strcmp (edge_to a) (edge_to b))"
  by (intro ext) (simp add: edge_weight_compare_def)

interpretation edge_weight_order: c_compare edge_weight_compare edge_ok
  unfolding edge_weight_compare_alt
  by (intro c_compare_then c_compare_field [OF c_int_order.c_compare_axioms, where h = edge_weight]
      c_compare_field [OF strcmp_order.c_compare_axioms, where h = edge_from]
      c_compare_field [OF strcmp_order.c_compare_axioms, where h = edge_to]) (simp_all add: edge_ok_def)

section \<open>Invariant\<close>

definition edges :: "edge_state \<Rightarrow> edge set" where
  "edges st = set (links (edge_weight_tree st))"

definition mutual :: "edge_state \<Rightarrow> string \<Rightarrow> string \<Rightarrow> bool" where
  "mutual st a b \<longleftrightarrow> (a, b) \<in> edge_key ` edges st \<and> (b, a) \<in> edge_key ` edges st"

definition edges_inv :: "edge_state \<Rightarrow> bool" where
  "edges_inv st \<longleftrightarrow> splay_inv edge_weight_compare edge_ok (edge_weight_tree st) \<and>
     (\<forall>n. splay_inv edge_compare (edge_of n) (node_edges st n) \<and>
        set (links (node_edges st n)) = {e \<in> edges st. edge_from e = n}) \<and>
     (\<forall>a b. reverse st (a, b) = (if mutual st a b then Some (b, a) else None))"

lemma edges_invD:
  assumes "edges_inv st"
  shows "splay_inv edge_weight_compare edge_ok (edge_weight_tree st)"
    "splay_inv edge_compare (edge_of n) (node_edges st n)"
    "set (links (node_edges st n)) = {e \<in> edges st. edge_from e = n}"
    "reverse st (a, b) = (if mutual st a b then Some (b, a) else None)"
  using assms by (simp_all add: edges_inv_def)

lemma edges_inv_init: "edges_inv init_edges"
  by (simp add: edges_inv_def init_edges_def new_edge_tree_def splay_inv_alloc edges_def mutual_def)
     (simp add: splay_alloc_tree_def)

lemma edges_ok: "edges_inv st \<Longrightarrow> e \<in> edges st \<Longrightarrow> edge_ok e"
  using edge_weight_order.splay.inv_elems [OF edges_invD(1)] by (auto simp: edges_def list_all_iff)

lemma edge_compare_zero: "edge_ok a \<Longrightarrow> edge_ok b \<Longrightarrow> edge_compare a b = 0 \<longleftrightarrow> edge_to a = edge_to b"
  by (simp add: edge_compare_def edge_ok_def strcmp_zero)

lemma edge_weight_compare_zero:
  "edge_ok a \<Longrightarrow> edge_ok b \<Longrightarrow> edge_weight_compare a b = 0 \<longleftrightarrow> edge_weight a = edge_weight b \<and> edge_key a = edge_key b"
  by (auto simp: edge_weight_compare_def edge_ok_def strcmp_zero c_int_diff_exact c_int_ok_def Let_def)

text \<open>The tree of one node, whatever the rest of the state: no two edges lead to the same node.\<close>

lemma node_tree_unique:
  assumes tree: "splay_inv edge_compare (edge_of n) t" and e: "e \<in> set (links t)" "e' \<in> set (links t)" "edge_to e = edge_to e'"
  shows "e = e'"
proof (rule ccontr)
  assume "e \<noteq> e'"
  have "sorted_wrt (\<lambda>x y. edge_compare x y < 0) (links t)"
    using node_edge_order.splay.inv_elems [OF tree] by simp
  from sorted_wrt_cases [OF this e(1,2) \<open>e \<noteq> e'\<close>] e(3) show False by (simp add: edge_compare_def)
qed

lemma node_tree_lookup:
  assumes tree: "splay_inv edge_compare (edge_of n) t" and d: "edge_of n d"
  shows "ordered_lookup edge_compare d (links t) = Some x \<longleftrightarrow> x \<in> set (links t) \<and> edge_to x = edge_to d"
    and "ordered_lookup edge_compare d (links t) = None \<longleftrightarrow> (\<forall>x \<in> set (links t). edge_to x \<noteq> edge_to d)"
proof -
  have zero: "edge_compare d x = 0 \<longleftrightarrow> edge_to x = edge_to d" if "x \<in> set (links t)" for x
    using node_edge_order.splay.inv_elems [OF tree] that d
    by (auto simp: edge_compare_zero edge_of_def list_all_iff)
  show none: "ordered_lookup edge_compare d (links t) = None \<longleftrightarrow> (\<forall>x \<in> set (links t). edge_to x \<noteq> edge_to d)"
    unfolding ordered_lookup_def find_None_iff using zero by auto
  have sound: "x \<in> set (links t) \<and> edge_to x = edge_to d"
    if "ordered_lookup edge_compare d (links t) = Some x" for x
    using edge_order.ordered_lookup_in [OF that] zero [of x] by simp
  show "ordered_lookup edge_compare d (links t) = Some x \<longleftrightarrow> x \<in> set (links t) \<and> edge_to x = edge_to d"
  proof
    assume x: "x \<in> set (links t) \<and> edge_to x = edge_to d"
    with none obtain y where y: "ordered_lookup edge_compare d (links t) = Some y" by (metis not_Some_eq)
    with sound [OF y] x node_tree_unique [OF tree, of y x] show "ordered_lookup edge_compare d (links t) = Some x" by simp
  qed (rule sound)
qed

lemma lookup_edge_tree:
  assumes tree: "splay_inv edge_compare (edge_of a) (node_edges st a)" and c: "c_string a" "c_string b"
  obtains t where "splay_inv edge_compare (edge_of a) t" "links t = links (node_edges st a)"
    "lookup_edge a b st =
      (ordered_lookup edge_compare (new_edge a b) (links (node_edges st a)), st\<lparr>node_edges := (node_edges st)(a := t)\<rparr>)"
    "edge_of a (new_edge a b)" "edge_to (new_edge a b) = b"
proof -
  have ok: "edge_of a (new_edge a b)" using c by (simp add: edge_of_def edge_ok_def new_edge_def c_int_ok_def)
  from node_edge_order.splay.search_law [OF tree ok] show ?thesis
    by (intro that [of "fst (splay_search (node_edges st a) (new_edge a b))"] ok)
       (auto simp: lookup_edge_def new_edge_def split: prod.split)
qed

text \<open>No two edges have the same ends.\<close>

lemma edges_unique:
  assumes "edges_inv st" "e \<in> edges st" "e' \<in> edges st" "edge_key e = edge_key e'"
  shows "e = e'"
  using node_tree_unique [OF edges_invD(2) [OF assms(1)], of e "edge_from e" e'] edges_invD(3) [OF assms(1)] assms
  by simp

lemma lookup_edge_result:
  assumes inv: "edges_inv st" and c: "c_string a" "c_string b"
  shows "fst (lookup_edge a b st) = Some e \<longleftrightarrow> e \<in> edges st \<and> edge_key e = (a, b)"
    and "fst (lookup_edge a b st) = None \<longleftrightarrow> (a, b) \<notin> edge_key ` edges st"
    and "edges_inv (snd (lookup_edge a b st))" and "edges (snd (lookup_edge a b st)) = edges st"
proof -
  note D = edges_invD [OF inv]
  obtain t where t: "splay_inv edge_compare (edge_of a) t" "links t = links (node_edges st a)"
    and look: "lookup_edge a b st =
      (ordered_lookup edge_compare (new_edge a b) (links (node_edges st a)), st\<lparr>node_edges := (node_edges st)(a := t)\<rparr>)"
    and ok: "edge_of a (new_edge a b)" and to: "edge_to (new_edge a b) = b"
    by (rule lookup_edge_tree [OF D(2) c])
  note node = node_tree_lookup [OF D(2) ok, unfolded to D(3)]
  show "fst (lookup_edge a b st) = Some e \<longleftrightarrow> e \<in> edges st \<and> edge_key e = (a, b)"
    unfolding look using node(1) by auto
  show "fst (lookup_edge a b st) = None \<longleftrightarrow> (a, b) \<notin> edge_key ` edges st"
    unfolding look using node(2) by auto
  show "edges (snd (lookup_edge a b st)) = edges st" unfolding look by (simp add: edges_def)
  then show "edges_inv (snd (lookup_edge a b st))"
    using inv t unfolding look by (simp add: edges_inv_def edges_def mutual_def)
qed

text \<open>The \<^verbatim>\<open>reverse\<close> map after an edge was added to or taken from a set of keys.\<close>

definition reverse_of :: "(string \<times> string) set \<Rightarrow> string \<times> string \<Rightarrow> (string \<times> string) option" where
  "reverse_of K k = (if k \<in> K \<and> prod.swap k \<in> K then Some (prod.swap k) else None)"

lemma reverse_of_insert:
  assumes "k \<notin> K"
  shows "reverse_of (insert k K) =
    (if prod.swap k \<in> insert k K then (reverse_of K)(k \<mapsto> prod.swap k, prod.swap k \<mapsto> k)
     else (reverse_of K)(k := None))"
  using assms by (intro ext) (auto simp: reverse_of_def)

lemma reverse_of_delete:
  "reverse_of (K - {k}) =
    (case reverse_of K k of None \<Rightarrow> (reverse_of K)(k := None)
     | Some r \<Rightarrow> (reverse_of K)(r := None, k := None))"
  by (intro ext) (auto simp: reverse_of_def)

lemma not_in_image: "(\<And>x. x \<in> A \<Longrightarrow> f x \<noteq> k) \<Longrightarrow> k \<notin> f ` A"
  by blast

lemma edges_inv_alt:
  "edges_inv st \<longleftrightarrow> splay_inv edge_weight_compare edge_ok (edge_weight_tree st) \<and>
     (\<forall>n. splay_inv edge_compare (edge_of n) (node_edges st n) \<and>
        set (links (node_edges st n)) = {e \<in> edges st. edge_from e = n}) \<and>
     reverse st = reverse_of (edge_key ` edges st)"
  by (auto simp: edges_inv_def mutual_def reverse_of_def fun_eq_iff)

lemma edge_add_duplicate:
  assumes inv: "edges_inv st" and e: "edge_ok e" "edge_key e \<in> edge_key ` edges st"
  shows "edges_inv (edge_add e st)" "edges (edge_add e st) = edges st"
proof -
  note D = edges_invD [OF inv]
  have e': "edge_of (edge_from e) e" using e by (simp add: edge_of_def)
  have "ordered_lookup edge_compare e (links (node_edges st (edge_from e))) \<noteq> None"
    unfolding node_tree_lookup(2) [OF D(2) e'] D(3) using e(2) by force
  then obtain t where "splay_insert (node_edges st (edge_from e)) e = (t, None)"
    "splay_inv edge_compare (edge_of (edge_from e)) t" "links t = links (node_edges st (edge_from e))"
    using node_edge_order.splay.ins_law [OF D(2) e']
    by (cases "splay_insert (node_edges st (edge_from e)) e") (auto simp: ordered_insert_def)
  then show "edges_inv (edge_add e st)" "edges (edge_add e st) = edges st"
    using inv by (simp_all add: edge_add_def edges_inv_def edges_def mutual_def)
qed

lemma edge_add_new:
  assumes inv: "edges_inv st" and e: "edge_ok e" "edge_key e \<notin> edge_key ` edges st"
  shows "edges_inv (edge_add e st)" "edges (edge_add e st) = insert e (edges st)"
proof -
  note D = edges_invD [OF inv]
  let ?from = "edge_from e" and ?to = "edge_to e"
  have e': "edge_of ?from e" using e by (simp add: edge_of_def)
  have new: "ordered_lookup edge_compare e (links (node_edges st ?from)) = None"
    unfolding node_tree_lookup(2) [OF D(2) e'] D(3)
    using e(2) by (auto simp: image_iff)
  obtain t where ins: "splay_insert (node_edges st ?from) e = (t, Some e)"
    and t: "splay_inv edge_compare (edge_of ?from) t" "set (links t) = insert e (set (links (node_edges st ?from)))"
    using node_edge_order.splay.ins_law [OF D(2) e'] new
    by (cases "splay_insert (node_edges st ?from) e") (auto simp: edge_order.ordered_insert_set)
  define st1 where "st1 = st\<lparr>node_edges := (node_edges st)(?from := t)\<rparr>"
  have trees1: "splay_inv edge_compare (edge_of n) (node_edges st1 n)"
    "set (links (node_edges st1 n)) = {x \<in> insert e (edges st). edge_from x = n}" for n
    using D(2,3) t by (auto simp: st1_def)
  obtain u where u: "splay_inv edge_compare (edge_of ?to) u" "links u = links (node_edges st1 ?to)"
    and look: "lookup_edge ?to ?from st1 =
      (ordered_lookup edge_compare (new_edge ?to ?from) (links (node_edges st1 ?to)), st1\<lparr>node_edges := (node_edges st1)(?to := u)\<rparr>)"
    and ok: "edge_of ?to (new_edge ?to ?from)" and to: "edge_to (new_edge ?to ?from) = ?from"
    using lookup_edge_tree [OF trees1(1)] e(1) by (auto simp: edge_ok_def)
  define rv where "rv = ordered_lookup edge_compare (new_edge ?to ?from) (links (node_edges st1 ?to))"
  note node = node_tree_lookup [OF trees1(1) ok, unfolded to trees1(2), folded rv_def]
  have weight: "splay_inv edge_weight_compare edge_ok (fst (splay_insert (edge_weight_tree st) e))"
    "set (links (fst (splay_insert (edge_weight_tree st) e))) = insert e (edges st)"
  proof -
    have "\<not> (\<exists>x \<in> set (links (edge_weight_tree st)). edge_weight_compare e x = 0)"
      using e edges_ok [OF inv] by (auto simp: edge_weight_compare_zero edges_def)
    then show "splay_inv edge_weight_compare edge_ok (fst (splay_insert (edge_weight_tree st) e))"
      "set (links (fst (splay_insert (edge_weight_tree st) e))) = insert e (edges st)"
      using edge_weight_order.splay.ins_law [OF D(1) e(1)] by (simp_all add: set_ordered_insert edges_def)
  qed
  have fields: "node_edges (edge_add e st) = (node_edges st1)(?to := u)"
    "edge_weight_tree (edge_add e st) = fst (splay_insert (edge_weight_tree st) e)"
    "reverse (edge_add e st) = (let R = (reverse st)(edge_key e := map_option edge_key rv) in
       case rv of None \<Rightarrow> R | Some r \<Rightarrow> R(edge_key r \<mapsto> edge_key e))"
    unfolding edge_add_def ins prod.case Let_def st1_def [symmetric] look rv_def [symmetric]
    by (simp_all add: st1_def split: option.split)
  show edges: "edges (edge_add e st) = insert e (edges st)"
    using weight(2) by (simp add: edges_def fields)
  have st: "reverse st = reverse_of (edge_key ` edges st)" using inv by (simp add: edges_inv_alt)
  have rev: "reverse (edge_add e st) = reverse_of (edge_key ` insert e (edges st))"
  proof (cases rv)
    case None
    have "edge_key x \<noteq> prod.swap (edge_key e)" if "x \<in> insert e (edges st)" for x
      using iffD1 [OF node(2) None] that by (cases "edge_from x = edge_to e") simp_all
    note missing = not_in_image [of "insert e (edges st)" edge_key, OF this, unfolded image_insert]
    then have "prod.swap (edge_key e) \<notin> insert (edge_key e) (edge_key ` edges st)" by this
    with None show ?thesis unfolding fields st image_insert reverse_of_insert [OF e(2)] by simp
  next
    case (Some r)
    with node(1) [of r] have r: "edge_key r = prod.swap (edge_key e)" "r \<in> insert e (edges st)" by auto
    have "prod.swap (edge_key e) \<in> insert (edge_key e) (edge_key ` edges st)"
      using imageI [OF r(2), of edge_key] unfolding r(1) image_insert by this
    with Some r(1) show ?thesis unfolding fields st image_insert reverse_of_insert [OF e(2)] by (simp only: Let_def) simp
  qed
  have "node_edges (edge_add e st) = (node_edges st1)(?to := u)"
    "edge_weight_tree (edge_add e st) = fst (splay_insert (edge_weight_tree st) e)" by (fact fields)+
  then show "edges_inv (edge_add e st)"
    using rev edges weight(1) u trees1 by (simp add: edges_inv_alt)
qed

lemma edge_del_inv:
  assumes inv: "edges_inv st" and e: "e \<in> edges st"
  shows "edges_inv (edge_del e st)" "edges (edge_del e st) = edges st - {e}"
proof -
  note D = edges_invD [OF inv]
  have ok: "edge_ok e" "edge_of (edge_from e) e" using edges_ok [OF inv e] by (simp_all add: edge_of_def)
  note same = edges_unique [OF inv _ e]
  have weight: "splay_inv edge_weight_compare edge_ok (fst (splay_delete (edge_weight_tree st) e))"
    "set (links (fst (splay_delete (edge_weight_tree st) e))) = edges st - {e}"
  proof -
    have "edge_weight_compare e x \<noteq> 0 \<longleftrightarrow> x \<noteq> e" if "x \<in> edges st" for x
      using edges_ok [OF inv that] ok same [OF that] by (auto simp: edge_weight_compare_zero)
    with edge_weight_order.splay.del_law [OF D(1) ok(1)]
    show "splay_inv edge_weight_compare edge_ok (fst (splay_delete (edge_weight_tree st) e))"
      "set (links (fst (splay_delete (edge_weight_tree st) e))) = edges st - {e}"
      by (auto simp: set_ordered_delete edges_def)
  qed
  have node: "splay_inv edge_compare (edge_of (edge_from e)) (fst (splay_delete (node_edges st (edge_from e)) e))"
    "set (links (fst (splay_delete (node_edges st (edge_from e)) e))) = {x \<in> edges st - {e}. edge_from x = edge_from e}"
  proof -
    have "edge_compare e x \<noteq> 0 \<longleftrightarrow> x \<noteq> e" if "x \<in> edges st" "edge_from x = edge_from e" for x
      using edges_ok [OF inv that(1)] ok same [OF that(1)] that(2) by (auto simp: edge_compare_zero)
    with node_edge_order.splay.del_law [OF D(2) ok(2)]
    show "splay_inv edge_compare (edge_of (edge_from e)) (fst (splay_delete (node_edges st (edge_from e)) e))"
      "set (links (fst (splay_delete (node_edges st (edge_from e)) e))) = {x \<in> edges st - {e}. edge_from x = edge_from e}"
      by (auto simp: set_ordered_delete D(3))
  qed
  have tree: "edge_weight_tree (edge_del e st) = fst (splay_delete (edge_weight_tree st) e)"
    "node_edges (edge_del e st) = (node_edges st)(edge_from e := fst (splay_delete (node_edges st (edge_from e)) e))"
    by (simp_all add: edge_del_def Let_def split: option.split)
  show edges: "edges (edge_del e st) = edges st - {e}" using weight(2) by (simp add: edges_def tree)
  have keys: "edge_key ` (edges st - {e}) = edge_key ` edges st - {edge_key e}" using same by auto
  have "reverse st = reverse_of (edge_key ` edges st)" using inv by (simp add: edges_inv_alt)
  then have "reverse (edge_del e st) = reverse_of (edge_key ` (edges st - {e}))"
    unfolding keys reverse_of_delete by (simp add: edge_del_def Let_def split: option.split)
  with weight(1) node D(2,3) show "edges_inv (edge_del e st)"
    by (auto simp: edges_inv_alt edges tree)
qed

section \<open>Histories\<close>

text \<open>
  What the daemon does with its edges: adding one, deleting the one between two nodes, if there is one
  (as \<^verbatim>\<open>del_edge_h\<close> does after a lookup), and looking one up.
\<close>

datatype edge_op = Edge_Add edge | Edge_Del string string | Edge_Find string string

fun edge_step :: "edge_state \<Rightarrow> edge_op \<Rightarrow> edge_state" where
  "edge_step st (Edge_Add e) = edge_add e st"
| "edge_step st (Edge_Del a b) = (case lookup_edge a b st of (None, st) \<Rightarrow> st | (Some e, st) \<Rightarrow> edge_del e st)"
| "edge_step st (Edge_Find a b) = snd (lookup_edge a b st)"

fun edge_op_ok :: "edge_op \<Rightarrow> bool" where
  "edge_op_ok (Edge_Add e) \<longleftrightarrow> edge_ok e"
| "edge_op_ok (Edge_Del a b) \<longleftrightarrow> c_string a \<and> c_string b"
| "edge_op_ok (Edge_Find a b) \<longleftrightarrow> c_string a \<and> c_string b"

text \<open>The mesh as a map from pairs of nodes to the edge that was added first.\<close>

fun mesh_step :: "(string \<times> string \<rightharpoonup> edge) \<Rightarrow> edge_op \<Rightarrow> (string \<times> string \<rightharpoonup> edge)" where
  "mesh_step m (Edge_Add e) = (if m (edge_key e) = None then m(edge_key e \<mapsto> e) else m)"
| "mesh_step m (Edge_Del a b) = m((a, b) := None)"
| "mesh_step m (Edge_Find a b) = m"

definition mesh_of :: "edge_state \<Rightarrow> (string \<times> string \<rightharpoonup> edge)" where
  "mesh_of st k = List.find (\<lambda>e. edge_key e = k) (links (edge_weight_tree st))"

lemma mesh_of_None: "mesh_of st k = None \<longleftrightarrow> k \<notin> edge_key ` edges st"
  by (auto simp: mesh_of_def edges_def find_None_iff)

lemma mesh_of_Some:
  assumes inv: "edges_inv st"
  shows "mesh_of st k = Some e \<longleftrightarrow> e \<in> edges st \<and> edge_key e = k"
proof
  assume "mesh_of st k = Some e"
  then show "e \<in> edges st \<and> edge_key e = k" by (auto simp: mesh_of_def edges_def find_Some_iff)
next
  assume e: "e \<in> edges st \<and> edge_key e = k"
  then obtain x where x: "mesh_of st k = Some x" using mesh_of_None [of st k] by (cases "mesh_of st k") auto
  then have "x \<in> edges st" "edge_key x = k" by (auto simp: mesh_of_def edges_def find_Some_iff)
  with edges_unique [OF inv, of x e] e x show "mesh_of st k = Some e" by simp
qed

lemma mesh_of_eqI:
  assumes "edges_inv st" "\<And>k e. m k = Some e \<longleftrightarrow> e \<in> edges st \<and> edge_key e = k"
  shows "mesh_of st = m"
  using assms mesh_of_Some [OF assms(1)] by (intro ext) (metis not_Some_eq)

lemma edge_step_refines:
  assumes inv: "edges_inv st" and ok: "edge_op_ok op"
  shows "edges_inv (edge_step st op) \<and> mesh_of (edge_step st op) = mesh_step (mesh_of st) op"
proof (cases op)
  case (Edge_Add e)
  with ok have e: "edge_ok e" by simp
  note M = mesh_of_Some [OF inv]
  show ?thesis
  proof (cases "edge_key e \<in> edge_key ` edges st")
    case True
    note add = edge_add_duplicate [OF inv e True]
    from True have some: "mesh_of st (edge_key e) \<noteq> None" by (simp add: mesh_of_None)
    have "mesh_of (edge_add e st) = mesh_of st" by (intro mesh_of_eqI [OF add(1)]) (simp add: add(2) M)
    with Edge_Add add some show ?thesis by auto
  next
    case False
    note add = edge_add_new [OF inv e False]
    from False have none: "mesh_of st (edge_key e) = None" by (simp add: mesh_of_None)
    have "mesh_of (edge_add e st) = (mesh_of st)(edge_key e \<mapsto> e)"
    proof (rule mesh_of_eqI [OF add(1)])
      fix k x
      have "edge_key x \<noteq> edge_key e" if "x \<in> edges st"
        using imageI [OF that, of edge_key] False by (cases "edge_key x = edge_key e") simp_all
      then show "((mesh_of st)(edge_key e \<mapsto> e)) k = Some x \<longleftrightarrow> x \<in> edges (edge_add e st) \<and> edge_key x = k"
        unfolding add(2) using M [of k x] by (cases "x = e") auto
    qed
    with Edge_Add add(1) none show ?thesis by simp
  qed
next
  case (Edge_Del a b)
  with ok have c: "c_string a" "c_string b" by simp_all
  obtain r st1 where look: "lookup_edge a b st = (r, st1)" by (cases "lookup_edge a b st")
  note L = lookup_edge_result [OF inv c, unfolded look fst_conv snd_conv]
  note M = mesh_of_Some [OF inv]
  show ?thesis
  proof (cases r)
    case None
    have "mesh_of st1 = (mesh_of st)((a, b) := None)"
      using L(2) None by (intro mesh_of_eqI [OF L(3)]) (auto simp: L(4) M)
    with Edge_Del None look L(3) show ?thesis by simp
  next
    case (Some e)
    then have e: "e \<in> edges st" "edge_key e = (a, b)" using L(1) [of e] by simp_all
    then have e1: "e \<in> edges st1" using L(4) by simp
    note del = edge_del_inv [OF L(3) e1]
    have "mesh_of (edge_del e st1) = (mesh_of st)((a, b) := None)"
    proof (rule mesh_of_eqI [OF del(1)])
      fix k x
      show "((mesh_of st)((a, b) := None)) k = Some x \<longleftrightarrow> x \<in> edges (edge_del e st1) \<and> edge_key x = k"
      proof (cases "x = e")
        case False
        with edges_unique [OF inv _ e(1), of x] e(2) have "x \<in> edges st \<Longrightarrow> edge_key x \<noteq> (a, b)" by auto
        with False M [of k x] show ?thesis unfolding del(2) L(4) by auto
      qed (use e M [of k e] in \<open>auto simp: del(2)\<close>)
    qed
    with Edge_Del Some look del(1) show ?thesis by simp
  qed
next
  case (Edge_Find a b)
  with ok have c: "c_string a" "c_string b" by simp_all
  note L = lookup_edge_result [OF inv c]
  have "mesh_of (snd (lookup_edge a b st)) = mesh_of st"
    using mesh_of_Some [OF inv] by (intro mesh_of_eqI [OF L(3)]) (simp add: L(4))
  with L(3) Edge_Find show ?thesis by simp
qed

lemma edge_history_refines:
  assumes "edges_inv st" "list_all edge_op_ok ops"
  shows "edges_inv (foldl edge_step st ops) \<and> mesh_of (foldl edge_step st ops) = foldl mesh_step (mesh_of st) ops"
  using assms by (induction ops arbitrary: st) (simp_all add: edge_step_refines)

lemma mesh_of_init: "mesh_of init_edges = (\<lambda>_. None)"
  by (rule ext) (simp add: mesh_of_def edges_def init_edges_def splay_alloc_tree_def)

lemma edge_weights_sorted:
  assumes inv: "edges_inv st"
  shows "sorted (map edge_weight (links (edge_weight_tree st)))"
proof -
  let ?l = "links (edge_weight_tree st)"
  have "edge_weight x \<le> edge_weight y" if "edge_weight_compare x y < 0" "edge_ok x" "edge_ok y" for x y
    using that by (auto simp: edge_weight_compare_def edge_ok_def c_int_diff_exact c_int_ok_def Let_def split: if_splits)
  moreover have "sorted_wrt (\<lambda>x y. edge_weight_compare x y < 0) ?l" "\<forall>x \<in> set ?l. edge_ok x"
    using edge_weight_order.splay.inv_elems [OF edges_invD(1) [OF inv]] by (auto simp: list_all_iff)
  ultimately have "sorted_wrt (\<lambda>x y. edge_weight x \<le> edge_weight y) ?l"
    using sorted_wrt_mono_rel [of ?l "\<lambda>x y. edge_weight_compare x y < 0"] by simp
  then show ?thesis by (simp add: sorted_wrt_map)
qed

section \<open>Property\<close>

text \<open>
  Property C7. After any sequence of additions of edges with weights of zero or more, deletions and lookups, the tree of a node holds
  exactly the edges from that node, the weight tree holds all edges in the order of their weights,
  both agree with a map from pairs of nodes to the edge that was added first and not deleted since,
  and the \<^verbatim>\<open>reverse\<close> pointer of an edge is set to the edge in the opposite direction exactly when
  there is one.
\<close>

theorem edge_trees_agree:
  assumes "list_all edge_op_ok ops" and st: "st = foldl edge_step init_edges ops"
    and m: "m = foldl mesh_step (\<lambda>_. None) ops"
  shows "set (links (node_edges st n)) = {e. m (edge_key e) = Some e \<and> edge_from e = n} \<and>
    set (links (edge_weight_tree st)) = {e. m (edge_key e) = Some e} \<and>
    sorted (map edge_weight (links (edge_weight_tree st))) \<and> distinct (links (edge_weight_tree st)) \<and>
    reverse st (a, b) = (if m (a, b) \<noteq> None \<and> m (b, a) \<noteq> None then Some (b, a) else None)"
proof (intro conjI)
  have inv: "edges_inv st" and mesh: "mesh_of st = m"
    using edge_history_refines [OF edges_inv_init assms(1)] by (simp_all add: st m mesh_of_init)
  note M = mesh_of_Some [OF inv, unfolded mesh]
  show "set (links (node_edges st n)) = {e. m (edge_key e) = Some e \<and> edge_from e = n}"
    unfolding edges_invD(3) [OF inv] M by auto
  show "set (links (edge_weight_tree st)) = {e. m (edge_key e) = Some e}"
    unfolding M by (simp add: edges_def)
  show "sorted (map edge_weight (links (edge_weight_tree st)))" by (rule edge_weights_sorted [OF inv])
  show "distinct (links (edge_weight_tree st))"
    using edge_weight_order.splay.inv_elems [OF edges_invD(1) [OF inv]]
    by (intro edge_weight_order.sorted_distinct) simp_all
  show "reverse st (a, b) = (if m (a, b) \<noteq> None \<and> m (b, a) \<noteq> None then Some (b, a) else None)"
    unfolding mesh [symmetric] mesh_of_None edges_invD(4) [OF inv] mutual_def by simp
qed

theorem edge_trees_agree_witness:
  "let e = (new_edge ''a'' ''b'')\<lparr>edge_weight := 7\<rparr>;
       st = foldl edge_step init_edges [Edge_Add e, Edge_Add (new_edge ''b'' ''a'')]
   in reverse st (''a'', ''b'') = Some (''b'', ''a'') \<and> e \<in> set (links (node_edges st ''a''))"
proof -
  let ?e = "(new_edge ''a'' ''b'')\<lparr>edge_weight := 7\<rparr>" and ?f = "new_edge ''b'' ''a''"
  let ?ops = "[Edge_Add ?e, Edge_Add ?f]"
  have ok: "list_all edge_op_ok ?ops" by (simp add: edge_ok_def new_edge_def c_string_def c_int_ok_def)
  note agree = edge_trees_agree [OF ok refl refl, of "''a''" "''a''" "''b''"]
  have "?e \<in> set (links (node_edges (foldl edge_step init_edges ?ops) ''a''))"
    unfolding agree [THEN conjunct1] by (simp add: new_edge_def)
  moreover have "reverse (foldl edge_step init_edges ?ops) (''a'', ''b'') = Some (''b'', ''a'')"
    unfolding agree [THEN conjunct2, THEN conjunct2, THEN conjunct2, THEN conjunct2] by (simp add: new_edge_def)
  ultimately show ?thesis by (simp only: Let_def)
qed

end
