(* ===== verification/Graph_Bfs.thy ===== *)
theory Graph_Bfs
  imports Edge
begin

text \<open>
  The breadth-first search of \<^verbatim>\<open>graph.c\<close> (\<^verbatim>\<open>sssp_bfs\<close>), which decides which nodes are
  reachable and how packets are routed to them. Nodes are named; the edges of a node are a list in
  the order of its edge tree, and \<open>has_rev\<close> tells whether an edge has a reverse edge. A node is put on
  the todo list again whenever a better way to it is found, so the loop has fuel, and an outcome
  that tells whether it ended; the C \<^verbatim>\<open>int\<close> distance wraps, and a negative one is the
  \<^verbatim>\<open>abort()\<close> of the code.
\<close>

section \<open>Nodes\<close>

abbreviation (input) OPTION_INDIRECT :: u32 where "OPTION_INDIRECT \<equiv> 1"

abbreviation (input) MTU :: nat where "MTU \<equiv> 1518"

record gnode =
  visited :: bool
  reachable :: bool
  indirect :: bool
  distance :: int
  nexthop :: "string option"
  prevedge :: "edge option"
  via :: "string option"
  node_options :: u32
  node_address :: sockaddr
  udp_confirmed :: bool
  maxrecentlen :: nat
  mtuprobes :: int
  minmtu :: nat
  maxmtu :: nat
  last_state_change :: int
  last_req_key :: int

definition new_node :: gnode where
  "new_node = \<lparr>visited = False, reachable = False, indirect = False, distance = 0, nexthop = None,
     prevedge = None, via = None, node_options = 0, node_address = AF_UNSPEC, udp_confirmed = False,
     maxrecentlen = 0, mtuprobes = 0, minmtu = 0, maxmtu = MTU, last_state_change = 0, last_req_key = 0\<rparr>"

type_synonym gnodes = "string \<Rightarrow> gnode"

section \<open>The search\<close>

definition bfs_clear :: "gnodes \<Rightarrow> gnodes" where
  "bfs_clear st = (\<lambda>n. (st n)\<lparr>visited := False, indirect := True, distance := -1\<rparr>)"

definition bfs_begin :: "string \<Rightarrow> gnodes \<Rightarrow> gnodes" where
  "bfs_begin me st =
     (let st = bfs_clear st in
      st(me := (st me)\<lparr>visited := True, indirect := False, nexthop := Some me, prevedge := None,
                       via := Some me, distance := 0\<rparr>))"

definition prev_weight :: "gnode \<Rightarrow> int" where
  "prev_weight t = (case prevedge t of Some e \<Rightarrow> edge_weight e | None \<Rightarrow> 0)"

text \<open>The test on which an edge is passed over.\<close>

definition edge_no_better :: "gnode \<Rightarrow> edge \<Rightarrow> gnode \<Rightarrow> bool" where
  "edge_no_better n e t \<longleftrightarrow>
     visited t \<and> (\<not> indirect t \<or> (indirect n \<or> edge_options e AND OPTION_INDIRECT \<noteq> 0)) \<and>
     (distance t \<noteq> c_int (distance n + 1) \<or> edge_weight e \<ge> prev_weight t)"

text \<open>
  The fields of the node that a new (or no) UDP address changes. The index of nodes by address,
  the choice of a socket and the text form of the address are not part of this record.
\<close>

definition update_node_udp :: "string \<Rightarrow> string \<Rightarrow> sockaddr option \<Rightarrow> gnode \<Rightarrow> gnode" where
  "update_node_udp me n sa t =
     (if n = me then t
      else (case sa of None \<Rightarrow> t | Some a \<Rightarrow> t\<lparr>node_address := a\<rparr>)
        \<lparr>udp_confirmed := False, maxrecentlen := 0, mtuprobes := 0, minmtu := 0, maxmtu := MTU\<rparr>)"

text \<open>The node at the end of an edge that provides a better way to it.\<close>

definition edge_target :: "string \<Rightarrow> gnode \<Rightarrow> edge \<Rightarrow> gnode \<Rightarrow> gnode" where
  "edge_target me n e t =
     (let ind = indirect n \<or> edge_options e AND OPTION_INDIRECT \<noteq> 0;
          to = edge_to e;
          d = c_int (distance n + 1);
          t1 = (if \<not> visited t \<or> (distance t = d \<and> edge_weight e \<ge> prev_weight t)
                then t\<lparr>nexthop := (if nexthop n = Some me then Some to else nexthop n)\<rparr> else t);
          t2 = t1\<lparr>visited := True, indirect := ind, prevedge := Some e,
                  via := (if ind then via n else Some to), node_options := edge_options e, distance := d\<rparr>
      in if \<not> reachable t2 \<or>
            (node_address t2 = AF_UNSPEC \<and> (case edge_address e of AF_UNKNOWN _ _ \<Rightarrow> False | _ \<Rightarrow> True))
         then update_node_udp me to (Some (edge_address e)) t2 else t2)"

text \<open>One edge of the node under examination: the nodes and what is added to the todo list.\<close>

definition bfs_edge :: "string \<Rightarrow> (edge \<Rightarrow> bool) \<Rightarrow> string \<Rightarrow> edge \<Rightarrow> gnodes \<times> string list \<Rightarrow> gnodes \<times> string list" where
  "bfs_edge me has_rev n e s =
     (case s of (st, added) \<Rightarrow>
        if \<not> has_rev e \<or> edge_to e = me then (st, added)
        else if edge_no_better (st n) e (st (edge_to e)) then (st, added)
        else (st(edge_to e := edge_target me (st n) e (st (edge_to e))), added @ [edge_to e]))"

definition bfs_node :: "string \<Rightarrow> (edge \<Rightarrow> bool) \<Rightarrow> (string \<Rightarrow> edge list) \<Rightarrow> string \<Rightarrow> gnodes \<Rightarrow> gnodes \<times> string list" where
  "bfs_node me has_rev adj n st = fold (bfs_edge me has_rev n) (adj n) (st, [])"

datatype bfs_outcome = Bfs_Done gnodes | Bfs_Abort | Bfs_Running "string list" gnodes

fun bfs_run :: "string \<Rightarrow> (edge \<Rightarrow> bool) \<Rightarrow> (string \<Rightarrow> edge list) \<Rightarrow> nat \<Rightarrow> string list \<Rightarrow> gnodes \<Rightarrow> bfs_outcome" where
  "bfs_run me has_rev adj fuel [] st = Bfs_Done st"
| "bfs_run me has_rev adj 0 (n # todo) st = Bfs_Running (n # todo) st"
| "bfs_run me has_rev adj (Suc fuel) (n # todo) st =
     (if distance (st n) < 0 then Bfs_Abort
      else case bfs_node me has_rev adj n st of (st', added) \<Rightarrow>
        bfs_run me has_rev adj fuel (todo @ added) st')"

definition sssp_bfs :: "string \<Rightarrow> (edge \<Rightarrow> bool) \<Rightarrow> (string \<Rightarrow> edge list) \<Rightarrow> nat \<Rightarrow> gnodes \<Rightarrow> bfs_outcome" where
  "sssp_bfs me has_rev adj fuel st = bfs_run me has_rev adj fuel [me] (bfs_begin me st)"

section \<open>What every round keeps\<close>

lemma edge_target_fields [simp]:
  "visited (edge_target me n e t) = True"
  "indirect (edge_target me n e t) = (indirect n \<or> edge_options e AND OPTION_INDIRECT \<noteq> 0)"
  "distance (edge_target me n e t) = c_int (distance n + 1)"
  "prev_weight (edge_target me n e t) = edge_weight e"
  "prevedge (edge_target me n e t) = Some e"
  by (simp_all add: edge_target_def update_node_udp_def prev_weight_def Let_def split: option.split)

text \<open>The links the search may follow.\<close>

definition hop :: "string \<Rightarrow> (edge \<Rightarrow> bool) \<Rightarrow> (string \<Rightarrow> edge list) \<Rightarrow> string \<Rightarrow> string \<Rightarrow> bool" where
  "hop me has_rev adj n t \<longleftrightarrow> t \<noteq> me \<and> (\<exists>e \<in> set (adj n). has_rev e \<and> edge_to e = t)"

lemma bfs_edge_visited:
  assumes "bfs_edge me has_rev n e (st, added) = (st', added')"
  shows "visited (st x) \<Longrightarrow> visited (st' x)"
    "visited (st' x) \<Longrightarrow> visited (st x) \<or> has_rev e \<and> edge_to e \<noteq> me \<and> x = edge_to e \<and> x \<in> set added'"
    "has_rev e \<Longrightarrow> edge_to e \<noteq> me \<Longrightarrow> visited (st' (edge_to e))"
    "set added' = set added \<or> has_rev e \<and> edge_to e \<noteq> me \<and> set added' = insert (edge_to e) (set added)"
  using assms by (auto simp: bfs_edge_def edge_no_better_def split: if_splits)

text \<open>
  The state of the search, for nodes outside \<open>X\<close>: whatever was visited is reachable, and what was
  visited and is not waiting has been followed up.
\<close>

definition reach_inv :: "string \<Rightarrow> (edge \<Rightarrow> bool) \<Rightarrow> (string \<Rightarrow> edge list) \<Rightarrow> string set \<Rightarrow> string list \<Rightarrow> gnodes \<Rightarrow> bool" where
  "reach_inv me has_rev adj X todo st \<longleftrightarrow> visited (st me) \<and> (\<forall>x \<in> set todo. visited (st x)) \<and>
     (\<forall>x. visited (st x) \<longrightarrow> (hop me has_rev adj)\<^sup>*\<^sup>* me x \<and>
        (x \<notin> set todo \<longrightarrow> x \<notin> X \<longrightarrow> (\<forall>t. hop me has_rev adj x t \<longrightarrow> visited (st t))))"

lemma reach_inv_edge:
  assumes inv: "reach_inv me has_rev adj {n} (todo @ added) st" and n: "visited (st n)" and e: "e \<in> set (adj n)"
    and step: "bfs_edge me has_rev n e (st, added) = (st', added')"
  shows "reach_inv me has_rev adj {n} (todo @ added') st' \<and> visited (st' n)"
proof -
  note v = bfs_edge_visited [OF step]
  have reach: "(hop me has_rev adj)\<^sup>*\<^sup>* me n" using inv n by (simp add: reach_inv_def)
  have "hop me has_rev adj n (edge_to e)" if "has_rev e" "edge_to e \<noteq> me" using that e by (auto simp: hop_def)
  with reach have "(hop me has_rev adj)\<^sup>*\<^sup>* me (edge_to e)" if "has_rev e" "edge_to e \<noteq> me"
    using that by (meson rtranclp.rtrancl_into_rtrancl)
  note to = this
  have sub: "set added \<subseteq> set added'" using v(4) by auto
  have "visited (st' x)" if "x \<in> set (todo @ added')" for x
    using that inv v(1,3,4) by (auto simp: reach_inv_def)
  moreover have "(hop me has_rev adj)\<^sup>*\<^sup>* me x" if "visited (st' x)" for x
    using v(2) [OF that] inv to by (auto simp: reach_inv_def)
  moreover have "visited (st' t)"
    if x: "visited (st' x)" "x \<notin> set (todo @ added')" "x \<noteq> n" and t: "hop me has_rev adj x t" for x t
  proof -
    have "visited (st x)" "x \<notin> set (todo @ added)" using v(2) [OF x(1)] x(2) sub by auto
    with inv x(3) t have "visited (st t)" by (simp add: reach_inv_def)
    then show ?thesis by (rule v(1))
  qed
  ultimately show ?thesis using inv v(1) n by (simp add: reach_inv_def)
qed

lemma reach_inv_fold:
  assumes "reach_inv me has_rev adj {n} (todo @ added) st" "visited (st n)" "set es \<subseteq> set (adj n)"
    "fold (bfs_edge me has_rev n) es (st, added) = (st', added')"
  shows "reach_inv me has_rev adj {n} (todo @ added') st' \<and>
    (\<forall>x. visited (st x) \<longrightarrow> visited (st' x)) \<and>
    (\<forall>e \<in> set es. has_rev e \<longrightarrow> edge_to e \<noteq> me \<longrightarrow> visited (st' (edge_to e)))"
  using assms
proof (induction es arbitrary: st added)
  case (Cons e es)
  obtain st1 added1 where step: "bfs_edge me has_rev n e (st, added) = (st1, added1)"
    by (cases "bfs_edge me has_rev n e (st, added)")
  have e: "e \<in> set (adj n)" using Cons.prems(3) by simp
  from Cons.IH [of added1 st1] reach_inv_edge [OF Cons.prems(1,2) e step] Cons.prems(3,4) step
    bfs_edge_visited [OF step]
  show ?case by auto
qed simp

lemma reach_inv_node:
  assumes "reach_inv me has_rev adj {} (n # todo) st" "bfs_node me has_rev adj n st = (st', added)"
  shows "reach_inv me has_rev adj {} (todo @ added) st'"
proof -
  have "reach_inv me has_rev adj {n} (todo @ []) st" "visited (st n)"
    using assms(1) by (auto simp: reach_inv_def)
  from reach_inv_fold [OF this order.refl assms(2) [unfolded bfs_node_def]]
  show ?thesis unfolding reach_inv_def hop_def by auto
qed

lemma reach_inv_run:
  assumes "reach_inv me has_rev adj {} todo st" "bfs_run me has_rev adj fuel todo st = Bfs_Done st'"
  shows "reach_inv me has_rev adj {} [] st'"
  using assms
  by (induction me has_rev adj fuel todo st rule: bfs_run.induct)
     (auto split: if_splits prod.splits dest: reach_inv_node)

lemma reach_inv_begin: "reach_inv me has_rev adj {} [me] (bfs_begin me st)"
  by (auto simp: reach_inv_def bfs_begin_def bfs_clear_def)

lemma reach_inv_done:
  assumes "reach_inv me has_rev adj {} [] st"
  shows "visited (st x) \<longleftrightarrow> (hop me has_rev adj)\<^sup>*\<^sup>* me x"
proof
  assume "(hop me has_rev adj)\<^sup>*\<^sup>* me x"
  then show "visited (st x)" using assms by induction (auto simp: reach_inv_def)
qed (use assms in \<open>simp add: reach_inv_def\<close>)

section \<open>Meshes without indirect edges\<close>

definition mesh_ok :: "string set \<Rightarrow> string \<Rightarrow> (string \<Rightarrow> edge list) \<Rightarrow> bool" where
  "mesh_ok N me adj \<longleftrightarrow> finite N \<and> me \<in> N \<and> card N < 2 ^ 31 \<and>
     (\<forall>n \<in> N. \<forall>e \<in> set (adj n). edge_to e \<in> N \<and> edge_options e AND OPTION_INDIRECT = 0)"

text \<open>An edge from \<open>x\<close> offers nothing better any more.\<close>

definition edge_done :: "string \<Rightarrow> (edge \<Rightarrow> bool) \<Rightarrow> gnodes \<Rightarrow> string \<Rightarrow> edge \<Rightarrow> bool" where
  "edge_done me has_rev st x e \<longleftrightarrow> (has_rev e \<and> edge_to e \<noteq> me \<longrightarrow>
     visited (st (edge_to e)) \<and> distance (st (edge_to e)) \<le> distance (st x) + 1 \<and>
     (distance (st (edge_to e)) = distance (st x) + 1 \<longrightarrow> prev_weight (st (edge_to e)) \<le> edge_weight e))"

text \<open>What is recorded at a visited node is a way to it.\<close>

definition way_ok :: "string \<Rightarrow> (edge \<Rightarrow> bool) \<Rightarrow> (string \<Rightarrow> edge list) \<Rightarrow> gnodes \<Rightarrow> string \<Rightarrow> bool" where
  "way_ok me has_rev adj st x \<longleftrightarrow>
     \<not> indirect (st x) \<and> via (st x) = Some x \<and> 0 \<le> distance (st x) \<and>
     (if x = me then distance (st x) = 0 \<and> nexthop (st x) = Some me
      else 1 \<le> distance (st x) \<and> (\<exists>y e. visited (st y) \<and> e \<in> set (adj y) \<and> has_rev e \<and> edge_to e = x \<and>
              prevedge (st x) = Some e \<and> distance (st x) = distance (st y) + 1) \<and>
           (\<exists>h. nexthop (st x) = Some h \<and> hop me has_rev adj me h \<and>
              (hop me has_rev adj ^^ nat (distance (st x) - 1)) h x))"

definition direct_inv ::
  "string set \<Rightarrow> string \<Rightarrow> (edge \<Rightarrow> bool) \<Rightarrow> (string \<Rightarrow> edge list) \<Rightarrow> int \<Rightarrow> string set \<Rightarrow> string list \<Rightarrow> gnodes \<Rightarrow> bool" where
  "direct_inv N me has_rev adj m X todo st \<longleftrightarrow> visited (st me) \<and>
     sorted (map (\<lambda>x. distance (st x)) todo) \<and> (\<forall>x \<in> set todo. visited (st x) \<and> m \<le> distance (st x)) \<and>
     (\<forall>x. visited (st x) \<longrightarrow> x \<in> N \<and> distance (st x) \<le> m + 1 \<and> way_ok me has_rev adj st x \<and>
        (x \<notin> set todo \<longrightarrow> x \<notin> X \<longrightarrow> (\<forall>e \<in> set (adj x). edge_done me has_rev st x e)))"

text \<open>A round keeps what was found: distances stay, edges only get lighter.\<close>

definition improves :: "gnodes \<Rightarrow> gnodes \<Rightarrow> bool" where
  "improves st st' \<longleftrightarrow> (\<forall>x. visited (st x) \<longrightarrow> visited (st' x) \<and> distance (st' x) = distance (st x) \<and>
     prev_weight (st' x) \<le> prev_weight (st x))"

lemma edge_done_improves:
  "improves st st' \<Longrightarrow> visited (st x) \<Longrightarrow> edge_done me has_rev st x e \<Longrightarrow> edge_done me has_rev st' x e"
  unfolding improves_def edge_done_def by force

lemma improves_trans: "improves st st' \<Longrightarrow> improves st' st'' \<Longrightarrow> improves st st''"
  unfolding improves_def by fastforce

lemma all_distances_below:
  assumes "direct_inv N me has_rev adj m X todo st" "visited (st x)" "k \<le> nat (distance (st x))"
  shows "\<exists>y. visited (st y) \<and> distance (st y) = int k"
  using assms(2,3)
proof (induction "nat (distance (st x))" arbitrary: x)
  case 0
  with assms(1) show ?case by (intro exI [of _ x]) (auto simp: direct_inv_def way_ok_def)
next
  case (Suc j)
  have way: "way_ok me has_rev adj st x" using assms(1) Suc.prems by (simp add: direct_inv_def)
  show ?case
  proof (cases "k = Suc j")
    case True
    with Suc show ?thesis by (intro exI [of _ x]) auto
  next
    case False
    have "x \<noteq> me" using way Suc.hyps(2) by (auto simp: way_ok_def)
    with way obtain y where y: "visited (st y)" "distance (st x) = distance (st y) + 1"
      by (auto simp: way_ok_def)
    then have "j = nat (distance (st y))" using Suc.hyps(2) by linarith
    with Suc y False show ?thesis by auto
  qed
qed

lemma distance_bound:
  assumes mesh: "mesh_ok N me adj" and inv: "direct_inv N me has_rev adj m X todo st" and x: "visited (st x)"
  shows "distance (st x) < int (card N)"
proof -
  let ?V = "{y. visited (st y)}"
  have V: "?V \<subseteq> N" using inv by (auto simp: direct_inv_def)
  have fin: "finite N" using mesh by (simp add: mesh_ok_def)
  have "{0..nat (distance (st x))} \<subseteq> (\<lambda>y. nat (distance (st y))) ` ?V"
  proof
    fix k assume "k \<in> {0..nat (distance (st x))}"
    with all_distances_below [OF inv x, of k] obtain y where "visited (st y)" "distance (st y) = int k" by auto
    then show "k \<in> (\<lambda>y. nat (distance (st y))) ` ?V" by force
  qed
  then have "card {0..nat (distance (st x))} \<le> card ?V"
    using V fin by (intro surj_card_le) (auto intro: finite_subset)
  then have "Suc (nat (distance (st x))) \<le> card ?V" by simp
  also have "card ?V \<le> card N" using V fin by (simp add: card_mono)
  finally show ?thesis by linarith
qed

text \<open>The fields of the target that routing uses.\<close>

lemma edge_target_route:
  assumes "\<not> indirect n" "edge_options e AND OPTION_INDIRECT = 0"
    "visited t \<Longrightarrow> edge_weight e < prev_weight t"
  shows "via (edge_target me n e t) = Some (edge_to e)"
    "nexthop (edge_target me n e t) =
      (if visited t then nexthop t else if nexthop n = Some me then Some (edge_to e) else nexthop n)"
  using assms by (auto simp: edge_target_def update_node_udp_def Let_def split: option.split)

lemma way_ok_target:
  assumes n: "way_ok me has_rev adj st n" "visited (st n)" and e: "e \<in> set (adj n)" "has_rev e" "edge_to e = t" "t \<noteq> me"
    and direct: "edge_options e AND OPTION_INDIRECT = 0" and small: "distance (st n) + 1 < 2 ^ 31"
    and old: "\<not> visited (st t) \<or> (way_ok me has_rev adj st t \<and> distance (st t) = distance (st n) + 1 \<and> edge_weight e < prev_weight (st t))"
    and st': "st' = st(t := edge_target me (st n) e (st t))" and tn: "t \<noteq> n"
  shows "way_ok me has_rev adj st' t" "distance (st' t) = distance (st n) + 1" "prev_weight (st' t) = edge_weight e"
    "visited (st' t)"
proof -
  let ?hop = "hop me has_rev adj"
  have d0: "0 \<le> distance (st n)" and ind: "\<not> indirect (st n)" using n by (simp_all add: way_ok_def)
  have c: "c_int (distance (st n) + 1) = distance (st n) + 1"
    using d0 small by (intro c_int_id) (simp add: c_int_ok_def)
  show d: "distance (st' t) = distance (st n) + 1" "prev_weight (st' t) = edge_weight e" "visited (st' t)"
    by (simp_all add: st' c)
  have hop: "?hop n t" using e by (auto simp: hop_def)
  note route = edge_target_route [OF ind direct, of "st t" me]
  have "\<exists>h. nexthop (st' t) = Some h \<and> ?hop me h \<and> (?hop ^^ nat (distance (st n))) h t"
  proof (cases "visited (st t)")
    case True
    with old route e(3,4) show ?thesis by (auto simp: st' way_ok_def)
  next
    case False
    show ?thesis
    proof (cases "n = me")
      case True
      with n hop False route e(3) show ?thesis by (auto simp: st' way_ok_def)
    next
      case nm: False
      with n obtain h where h: "nexthop (st n) = Some h" "?hop me h" "(?hop ^^ nat (distance (st n) - 1)) h n"
        and pos: "1 \<le> distance (st n)" by (auto simp: way_ok_def)
      have "nat (distance (st n)) = Suc (nat (distance (st n) - 1))" using pos by simp
      with h(3) hop have "(?hop ^^ nat (distance (st n))) h t" by auto
      moreover have "h \<noteq> me" using h(2) by (simp add: hop_def)
      ultimately show ?thesis using h False route by (auto simp: st')
    qed
  qed
  moreover have "via (st' t) = Some t" "\<not> indirect (st' t)" "prevedge (st' t) = Some e"
    using route(1) old ind direct e(3) by (auto simp: st')
  moreover have "visited (st' n)" "distance (st' n) = distance (st n)" using tn n(2) by (simp_all add: st')
  ultimately show "way_ok me has_rev adj st' t"
    using d d0 e unfolding way_ok_def by force
qed

text \<open>The work that is left: per node, how many weights could still improve its edge.\<close>

definition mesh_weights :: "string set \<Rightarrow> (string \<Rightarrow> edge list) \<Rightarrow> int set" where
  "mesh_weights N adj = (\<Union>n \<in> N. edge_weight ` set (adj n))"

definition node_work :: "int set \<Rightarrow> gnode \<Rightarrow> nat" where
  "node_work W t = (if visited t then card {w \<in> W. w < prev_weight t} else Suc (card W))"

definition bfs_work :: "string set \<Rightarrow> int set \<Rightarrow> gnodes \<Rightarrow> nat" where
  "bfs_work N W st = (\<Sum>x \<in> N. node_work W (st x))"

lemma bfs_work_less:
  assumes "finite N" "t \<in> N" "node_work W t' < node_work W (st t)"
  shows "Suc (bfs_work N W (st(t := t'))) \<le> bfs_work N W st"
proof -
  have "bfs_work N W st = node_work W (st t) + (\<Sum>x \<in> N - {t}. node_work W (st x))" for st
    unfolding bfs_work_def using assms by (simp add: sum.remove)
  moreover have "(\<Sum>x \<in> N - {t}. node_work W ((st(t := t')) x)) = (\<Sum>x \<in> N - {t}. node_work W (st x))"
    by (intro sum.cong) auto
  ultimately show ?thesis using assms(3) by simp
qed

lemma node_work_target:
  assumes "finite W" "edge_weight e \<in> W" "visited t' " "prev_weight t' = edge_weight e"
    "visited t \<Longrightarrow> edge_weight e < prev_weight t"
  shows "node_work W t' < node_work W t"
proof (cases "visited t")
  case True
  then have "{w \<in> W. w < edge_weight e} \<subset> {w \<in> W. w < prev_weight t}" using assms by auto
  with True assms show ?thesis by (simp add: node_work_def psubset_card_mono)
next
  case False
  have "card {w \<in> W. w < edge_weight e} \<le> card W" using assms(1) by (simp add: card_mono)
  with False assms show ?thesis by (simp add: node_work_def)
qed

lemma way_ok_improves:
  "improves st st' \<Longrightarrow> st' x = st x \<Longrightarrow> way_ok me has_rev adj st x \<Longrightarrow> way_ok me has_rev adj st' x"
  unfolding improves_def way_ok_def by (smt (verit))

text \<open>A node found one step further is added at the end of the list.\<close>

lemma direct_inv_update:
  assumes inv: "direct_inv N me has_rev adj m {n} (todo @ added) st" and imp: "improves st st'"
    and same: "\<And>x. x \<noteq> t \<Longrightarrow> st' x = st x" and t: "t \<in> N" "visited (st' t)" "distance (st' t) = m + 1"
    "way_ok me has_rev adj st' t"
  shows "direct_inv N me has_rev adj m {n} (todo @ added @ [t]) st'"
proof -
  let ?q = "todo @ added"
  have q: "visited (st x)" "m \<le> distance (st x)" if "x \<in> set ?q" for x using inv that by (auto simp: direct_inv_def)
  then have dq: "distance (st' x) = distance (st x)" "visited (st' x)" if "x \<in> set ?q" for x
    using that imp by (simp_all add: improves_def)
  have le: "distance (st x) \<le> m + 1" "x \<in> N" "way_ok me has_rev adj st x" if "visited (st x)" for x
    using inv that by (simp_all add: direct_inv_def)
  have "map (\<lambda>x. distance (st' x)) ?q = map (\<lambda>x. distance (st x)) ?q" using dq(1) by (intro map_cong) auto
  moreover have "sorted (map (\<lambda>x. distance (st x)) ?q)" using inv by (simp add: direct_inv_def)
  ultimately have "sorted (map (\<lambda>x. distance (st' x)) ?q)" by (simp only:)
  moreover have "distance (st' x) \<le> distance (st' t)" if "x \<in> set ?q" for x
    using that dq(1) [OF that] le(1) [OF q(1) [OF that]] t(3) by simp
  ultimately have sorted: "sorted (map (\<lambda>x. distance (st' x)) (?q @ [t]))" by (simp add: sorted_append)
  have members: "visited (st' x) \<and> m \<le> distance (st' x)" if "x \<in> set (?q @ [t])" for x
    using that dq q t by (cases "x = t") auto
  have nodes: "x \<in> N \<and> distance (st' x) \<le> m + 1 \<and> way_ok me has_rev adj st' x" if "visited (st' x)" for x
    using that t le [of x] same [of x] way_ok_improves [OF imp, of x] by (cases "x = t") auto
  have edges: "edge_done me has_rev st' x e"
    if "visited (st' x)" "x \<notin> set (?q @ [t])" "x \<noteq> n" "e \<in> set (adj x)" for x e
  proof -
    have "visited (st x)" using that(1,2) same [of x] by auto
    moreover from this have "edge_done me has_rev st x e" using inv that by (simp add: direct_inv_def)
    ultimately show ?thesis by (rule edge_done_improves [OF imp])
  qed
  have "visited (st' me)" using inv imp by (simp add: direct_inv_def improves_def)
  with sorted members nodes edges show ?thesis by (simp add: direct_inv_def)
qed

text \<open>One edge of the node under examination.\<close>

lemma direct_inv_edge:
  assumes mesh: "mesh_ok N me adj" and inv: "direct_inv N me has_rev adj m {n} (todo @ added) st"
    and n: "visited (st n)" "distance (st n) = m" and e: "e \<in> set (adj n)"
    and step: "bfs_edge me has_rev n e (st, added) = (st', added')"
    and W: "W = mesh_weights N adj" "finite W"
  shows "direct_inv N me has_rev adj m {n} (todo @ added') st'" "st' n = st n" "improves st st'"
    "edge_done me has_rev st' n e"
    "bfs_work N W st' + length added' \<le> bfs_work N W st + length added"
proof -
  let ?t = "edge_to e"
  have nN: "n \<in> N" and way_n: "way_ok me has_rev adj st n" using inv n by (simp_all add: direct_inv_def)
  have direct: "edge_options e AND OPTION_INDIRECT = 0" and tN: "?t \<in> N" using mesh nN e by (auto simp: mesh_ok_def)
  have ind: "\<not> indirect (st n)" and m0: "0 \<le> m" using way_n n by (simp_all add: way_ok_def)
  have small: "m + 1 < 2 ^ 31" using distance_bound [OF mesh inv n(1)] mesh n by (simp add: mesh_ok_def)
  then have c: "c_int (m + 1) = m + 1" using m0 by (intro c_int_id) (simp add: c_int_ok_def)
  have le: "distance (st x) \<le> m + 1" if "visited (st x)" for x using inv that by (simp add: direct_inv_def)
  have wayv: "way_ok me has_rev adj st x" if "visited (st x)" for x using inv that by (simp add: direct_inv_def)
  consider (skip) "\<not> has_rev e \<or> ?t = me" | (no_better) "has_rev e" "?t \<noteq> me" "edge_no_better (st n) e (st ?t)"
    | (update) "has_rev e" "?t \<noteq> me" "\<not> edge_no_better (st n) e (st ?t)" by blast
  then have "direct_inv N me has_rev adj m {n} (todo @ added') st' \<and> st' n = st n \<and> improves st st' \<and>
    edge_done me has_rev st' n e \<and> bfs_work N W st' + length added' \<le> bfs_work N W st + length added"
  proof cases
    case skip
    with step inv show ?thesis by (auto simp: bfs_edge_def improves_def edge_done_def)
  next
    case no_better
    with step inv n c le show ?thesis
      by (auto simp: bfs_edge_def improves_def edge_done_def edge_no_better_def)
  next
    case update
    then have st': "st' = st(?t := edge_target me (st n) e (st ?t))" and added': "added' = added @ [?t]"
      using step by (auto simp: bfs_edge_def)
    have old: "\<not> visited (st ?t) \<or> (way_ok me has_rev adj st ?t \<and> distance (st ?t) = distance (st n) + 1 \<and>
        edge_weight e < prev_weight (st ?t))"
      using update(3) wayv [of ?t] ind direct n c by (auto simp: edge_no_better_def way_ok_def)
    have tn: "?t \<noteq> n" using old n by auto
    have small': "distance (st n) + 1 < 2 ^ 31" using small n by simp
    note target = way_ok_target [OF way_n n(1) e update(1) refl update(2) direct small' old st' tn]
    have imp: "improves st st'" using old target by (auto simp: improves_def st')
    have "node_work W (st' ?t) < node_work W (st ?t)"
      using old target W nN e by (intro node_work_target) (auto simp: mesh_weights_def)
    then have work: "bfs_work N W st' + length added' \<le> bfs_work N W st + length added"
      using bfs_work_less [of N ?t W "st' ?t" st] mesh tN by (simp add: mesh_ok_def added' st')
    have "direct_inv N me has_rev adj m {n} (todo @ added @ [?t]) st'"
      using target n by (intro direct_inv_update [OF inv imp _ tN]) (auto simp: st')
    moreover have "edge_done me has_rev st' n e" using target tn by (simp add: edge_done_def st')
    ultimately show ?thesis using imp work tn by (simp add: added' st')
  qed
  then show "direct_inv N me has_rev adj m {n} (todo @ added') st'" "st' n = st n" "improves st st'"
    "edge_done me has_rev st' n e"
    "bfs_work N W st' + length added' \<le> bfs_work N W st + length added" by auto
qed

lemma direct_inv_fold:
  assumes mesh: "mesh_ok N me adj" and W: "W = mesh_weights N adj" "finite W"
    and "direct_inv N me has_rev adj m {n} (todo @ added) st"
    "visited (st n)" "distance (st n) = m" "set es \<subseteq> set (adj n)"
    "fold (bfs_edge me has_rev n) es (st, added) = (st', added')"
  shows "direct_inv N me has_rev adj m {n} (todo @ added') st' \<and> st' n = st n \<and> improves st st' \<and>
    (\<forall>e \<in> set es. edge_done me has_rev st' n e) \<and>
    bfs_work N W st' + length added' \<le> bfs_work N W st + length added"
  using assms(4-)
proof (induction es arbitrary: st added)
  case Nil
  then show ?case by (simp add: improves_def)
next
  case (Cons e es)
  obtain st1 added1 where step: "bfs_edge me has_rev n e (st, added) = (st1, added1)"
    by (cases "bfs_edge me has_rev n e (st, added)")
  have e: "e \<in> set (adj n)" using Cons.prems(4) by simp
  note one = direct_inv_edge [OF mesh Cons.prems(1-3) e step W]
  have n1: "visited (st1 n)" "distance (st1 n) = m" "set es \<subseteq> set (adj n)"
    "fold (bfs_edge me has_rev n) es (st1, added1) = (st', added')"
    using one(2) Cons.prems step by auto
  note rest = Cons.IH [OF one(1) n1]
  then have "edge_done me has_rev st' n e" using edge_done_improves one(4) n1(1) by blast
  with rest one improves_trans [OF one(3)] show ?case by auto
qed

lemma direct_inv_node:
  assumes mesh: "mesh_ok N me adj" and W: "W = mesh_weights N adj" "finite W"
    and inv: "direct_inv N me has_rev adj m {} (n # todo) st" and m: "m = distance (st n)"
    and step: "bfs_node me has_rev adj n st = (st', added)"
  shows "direct_inv N me has_rev adj m {} (todo @ added) st'"
    "bfs_work N W st' + length added \<le> bfs_work N W st"
proof -
  have n: "visited (st n)" and inv0: "direct_inv N me has_rev adj m {n} (todo @ []) st"
    using inv by (auto simp: direct_inv_def)
  from direct_inv_fold [OF mesh W inv0 n m [symmetric] order.refl step [unfolded bfs_node_def]]
  have *: "direct_inv N me has_rev adj m {n} (todo @ added) st'" "\<forall>e \<in> set (adj n). edge_done me has_rev st' n e"
    and work: "bfs_work N W st' + length added \<le> bfs_work N W st" by auto
  from * show "direct_inv N me has_rev adj m {} (todo @ added) st'" unfolding direct_inv_def by fastforce
  show "bfs_work N W st' + length added \<le> bfs_work N W st" by (rule work)
qed

text \<open>The next node to examine is at the least distance on the list.\<close>

lemma direct_inv_next:
  assumes "direct_inv N me has_rev adj m {} (n # todo) st"
  shows "direct_inv N me has_rev adj (distance (st n)) {} (n # todo) st"
  using assms unfolding direct_inv_def by fastforce

lemma direct_run:
  assumes mesh: "mesh_ok N me adj" and W: "W = mesh_weights N adj" "finite W"
    and "direct_inv N me has_rev adj m {} todo st" "length todo + bfs_work N W st \<le> fuel"
  shows "\<exists>st' m'. bfs_run me has_rev adj fuel todo st = Bfs_Done st' \<and> direct_inv N me has_rev adj m' {} [] st'"
  using assms(4,5)
proof (induction fuel arbitrary: todo st m)
  case 0
  then show ?case by auto
next
  case (Suc fuel)
  show ?case
  proof (cases todo)
    case Nil
    with Suc.prems show ?thesis by auto
  next
    case (Cons n rest)
    obtain st1 added where step: "bfs_node me has_rev adj n st = (st1, added)"
      by (cases "bfs_node me has_rev adj n st")
    have inv: "direct_inv N me has_rev adj (distance (st n)) {} (n # rest) st"
      using direct_inv_next Suc.prems(1) Cons by simp
    note node = direct_inv_node [OF mesh W inv refl step]
    have "length (rest @ added) + bfs_work N W st1 \<le> fuel" using node(2) Suc.prems(2) Cons by simp
    moreover have "\<not> distance (st n) < 0" using inv by (auto simp: direct_inv_def way_ok_def)
    ultimately show ?thesis using Suc.IH [OF node(1)] Cons step by simp
  qed
qed

lemma direct_inv_begin: "mesh_ok N me adj \<Longrightarrow> direct_inv N me has_rev adj 0 {} [me] (bfs_begin me st)"
  by (auto simp: direct_inv_def bfs_begin_def bfs_clear_def way_ok_def mesh_ok_def)

lemma bfs_work_begin:
  assumes "finite N" "finite W"
  shows "bfs_work N W st \<le> card N * Suc (card W)"
proof -
  have "node_work W t \<le> Suc (card W)" for t
    using assms(2) card_mono [of W "{w \<in> W. w < prev_weight t}"] by (auto simp: node_work_def intro: le_SucI)
  then have "bfs_work N W st \<le> (\<Sum>x \<in> N. Suc (card W))" unfolding bfs_work_def by (intro sum_mono) simp
  then show ?thesis by simp
qed

text \<open>When nothing is waiting, no way is shorter than the one recorded.\<close>

lemma direct_inv_shortest:
  assumes inv: "direct_inv N me has_rev adj m {} [] st" and walk: "(hop me has_rev adj ^^ k) me x"
  shows "visited (st x) \<and> distance (st x) \<le> int k"
  using walk
proof (induction k arbitrary: x)
  case 0
  with inv show ?case by (auto simp: direct_inv_def way_ok_def)
next
  case (Suc k)
  then obtain y where y: "(hop me has_rev adj ^^ k) me y" "hop me has_rev adj y x" by auto
  then obtain e where e: "e \<in> set (adj y)" "has_rev e" "edge_to e = x" "x \<noteq> me" by (auto simp: hop_def)
  have "visited (st y)" "distance (st y) \<le> int k" using Suc.IH y(1) by auto
  moreover from this have "edge_done me has_rev st y e" using inv e by (simp add: direct_inv_def)
  ultimately show ?case using e by (simp add: edge_done_def)
qed

lemma direct_inv_walk:
  assumes inv: "direct_inv N me has_rev adj m {} [] st" and x: "visited (st x)"
  shows "(hop me has_rev adj ^^ nat (distance (st x))) me x"
proof (cases "x = me")
  case True
  with inv x show ?thesis by (simp add: direct_inv_def way_ok_def)
next
  case False
  have "way_ok me has_rev adj st x" using inv x by (simp add: direct_inv_def)
  with False obtain h where h: "hop me has_rev adj me h" "(hop me has_rev adj ^^ nat (distance (st x) - 1)) h x"
    and pos: "1 \<le> distance (st x)" by (auto simp: way_ok_def)
  have "nat (distance (st x)) = Suc (nat (distance (st x) - 1))" using pos by simp
  with h show ?thesis by (metis relpowp_Suc_I2)
qed

text \<open>
  On every mesh, with indirect edges or not: when the search ends, the visited nodes
  are exactly those reachable over links that have a reverse link.
\<close>

lemma sssp_bfs_reachability:
  assumes "sssp_bfs me has_rev adj fuel st = Bfs_Done st'"
  shows "visited (st' x) \<longleftrightarrow> (hop me has_rev adj)\<^sup>*\<^sup>* me x"
  using reach_inv_done reach_inv_run [OF reach_inv_begin assms [unfolded sssp_bfs_def]] by blast

lemma sssp_bfs_direct_run:
  assumes "mesh_ok N me adj" and "1 + card N * Suc (card (mesh_weights N adj)) \<le> fuel"
  shows "\<exists>st' m. sssp_bfs me has_rev adj fuel st = Bfs_Done st' \<and> direct_inv N me has_rev adj m {} [] st'"
proof -
  have W: "finite (mesh_weights N adj)" using assms(1) by (simp add: mesh_ok_def mesh_weights_def)
  have "length [me] + bfs_work N (mesh_weights N adj) (bfs_begin me st) \<le> fuel"
    using bfs_work_begin [of N "mesh_weights N adj" "bfs_begin me st"] assms W by (simp add: mesh_ok_def)
  from direct_run [OF assms(1) refl W direct_inv_begin [OF assms(1)] this]
  show ?thesis unfolding sssp_bfs_def by blast
qed

lemma sssp_bfs_ends:
  assumes "mesh_ok N me adj" and "1 + card N * Suc (card (mesh_weights N adj)) \<le> fuel"
  shows "\<exists>st'. sssp_bfs me has_rev adj fuel st = Bfs_Done st'"
  using sssp_bfs_direct_run [OF assms] by blast

section \<open>Property\<close>

text \<open>
  Property C5. On every mesh without indirect edges the search ends, within a number of rounds
  given by the numbers of nodes and of edge weights, and finds what it should: exactly the nodes
  that links with a reverse link lead to are visited; the distance of a node is its least number
  of hops; its next hop is a neighbour from which the rest of the way is one hop shorter, so
  packets passed from node to node never go round in circles; packets for it can go to it
  directly; and the edge recorded last on the way is the lightest among those of shortest ways.
\<close>

theorem sssp_bfs_direct_mesh:
  assumes "mesh_ok N me adj" and "1 + card N * Suc (card (mesh_weights N adj)) \<le> fuel"
  shows "\<exists>st'. sssp_bfs me has_rev adj fuel st = Bfs_Done st' \<and>
    (\<forall>x. (visited (st' x) \<longleftrightarrow> (hop me has_rev adj)\<^sup>*\<^sup>* me x) \<and>
       (visited (st' x) \<longrightarrow> via (st' x) = Some x \<and> (hop me has_rev adj ^^ nat (distance (st' x))) me x \<and>
          (\<forall>k. (hop me has_rev adj ^^ k) me x \<longrightarrow> nat (distance (st' x)) \<le> k)) \<and>
       (visited (st' x) \<and> x \<noteq> me \<longrightarrow>
          (\<exists>h. nexthop (st' x) = Some h \<and> hop me has_rev adj me h \<and>
             (hop me has_rev adj ^^ nat (distance (st' x) - 1)) h x) \<and>
          (\<exists>e. prevedge (st' x) = Some e \<and> edge_to e = x \<and> has_rev e \<and>
             (\<forall>y. \<forall>e' \<in> set (adj y). visited (st' y) \<and> has_rev e' \<and> edge_to e' = x \<and>
                distance (st' x) = distance (st' y) + 1 \<longrightarrow> edge_weight e \<le> edge_weight e'))))"
proof -
  from sssp_bfs_direct_run [OF assms] obtain st' m where ended: "sssp_bfs me has_rev adj fuel st = Bfs_Done st'"
    and inv: "direct_inv N me has_rev adj m {} [] st'" by blast
  have reach: "visited (st' x) \<longleftrightarrow> (hop me has_rev adj)\<^sup>*\<^sup>* me x" for x
    using reach_inv_done reach_inv_run [OF reach_inv_begin ended [unfolded sssp_bfs_def]] by blast
  have way: "way_ok me has_rev adj st' x" if "visited (st' x)" for x using inv that by (simp add: direct_inv_def)
  have short: "nat (distance (st' x)) \<le> k" if "(hop me has_rev adj ^^ k) me x" for k x
    using direct_inv_shortest [OF inv that] by linarith
  have light: "edge_weight e \<le> edge_weight e'"
    if "prevedge (st' x) = Some e" "e' \<in> set (adj y)" "visited (st' y)" "has_rev e'" "edge_to e' = x"
      "distance (st' x) = distance (st' y) + 1" "x \<noteq> me" for x e e' y
  proof -
    have "edge_done me has_rev st' y e'" using inv that by (simp add: direct_inv_def)
    with that show ?thesis by (simp add: edge_done_def prev_weight_def)
  qed
  have "\<exists>h. nexthop (st' x) = Some h \<and> hop me has_rev adj me h \<and>
      (hop me has_rev adj ^^ nat (distance (st' x) - 1)) h x"
    "\<exists>e. prevedge (st' x) = Some e \<and> edge_to e = x \<and> has_rev e" if "visited (st' x)" "x \<noteq> me" for x
    using way [OF that(1)] that(2) by (auto simp: way_ok_def)
  with ended reach way short light direct_inv_walk [OF inv] show ?thesis
    by (intro exI [of _ st']) (fastforce simp: way_ok_def)
qed

theorem sssp_bfs_direct_mesh_witness:
  "let e = (\<lambda>a b. \<lparr>edge_from = a, edge_to = b, edge_address = AF_UNSPEC, edge_local_address = AF_UNSPEC, edge_options = 0, edge_weight = 1,
                    edge_connection = None\<rparr>);
       adj = (\<lambda>n. if n = ''a'' then [e ''a'' ''b''] else if n = ''b'' then [e ''b'' ''a''] else [])
   in \<exists>st'. sssp_bfs ''a'' (\<lambda>_. True) adj 10 (\<lambda>_. new_node) = Bfs_Done st' \<and> via (st' ''b'') = Some ''b''"
proof -
  let ?e = "\<lambda>a b. \<lparr>edge_from = a, edge_to = b, edge_address = AF_UNSPEC, edge_local_address = AF_UNSPEC, edge_options = 0, edge_weight = 1,
                    edge_connection = None\<rparr>"
  let ?adj = "\<lambda>n. if n = ''a'' then [?e ''a'' ''b''] else if n = ''b'' then [?e ''b'' ''a''] else []"
  have mesh: "mesh_ok {''a'', ''b''} ''a'' ?adj" by (simp add: mesh_ok_def)
  have W: "mesh_weights {''a'', ''b''} ?adj = {1}" by (simp add: mesh_weights_def)
  have hop: "hop ''a'' (\<lambda>_. True) ?adj ''a'' ''b''" by (simp add: hop_def)
  from sssp_bfs_direct_mesh [OF mesh, of 10 "\<lambda>_. True" "\<lambda>_. new_node"] W show ?thesis
    using r_into_rtranclp [of "hop ''a'' (\<lambda>_. True) ?adj", OF hop] by (auto simp: Let_def)
qed

end
