(* ===== verification/Mst.thy ===== *)
theory Mst
  imports Graph_Bfs
begin

text \<open>
  The spanning tree over which broadcasts are sent (\<^verbatim>\<open>mst_kruskal\<close> in \<^verbatim>\<open>graph.c\<close>). The loop
  walks the edges by weight and starts over whenever it added an edge after having skipped one;
  it is shown to end, to add at every step a lightest edge that leaves the tree, and therefore to
  find a spanning tree of least total weight.
\<close>

section \<open>The algorithm\<close>

text \<open>The connections whose \<^verbatim>\<open>mst\<close> bit is set.\<close>

definition set_mst :: "nat option \<Rightarrow> (nat \<Rightarrow> bool) \<Rightarrow> nat \<Rightarrow> bool" where
  "set_mst c mst = (case c of None \<Rightarrow> mst | Some c \<Rightarrow> mst(c := True))"

definition mst_clear :: "gnodes \<Rightarrow> gnodes" where
  "mst_clear st = (\<lambda>n. (st n)\<lparr>visited := False\<rparr>)"

fun mst_start :: "edge list \<Rightarrow> gnodes \<Rightarrow> gnodes" where
  "mst_start [] st = st"
| "mst_start (e # es) st =
     (if reachable (st (edge_from e)) then st(edge_from e := (st (edge_from e))\<lparr>visited := True\<rparr>)
      else mst_start es st)"

definition mst_visit :: "edge \<Rightarrow> gnodes \<Rightarrow> gnodes" where
  "mst_visit e st =
     (let st = st(edge_from e := (st (edge_from e))\<lparr>visited := True\<rparr>)
      in st(edge_to e := (st (edge_to e))\<lparr>visited := True\<rparr>))"

text \<open>
  The loop over the edges still to be looked at; \<open>rv\<close> is the \<^verbatim>\<open>reverse\<close> pointer. The edges added
  are returned too, in the order in which the code logs them.
\<close>

function mst_loop :: "(edge \<Rightarrow> edge option) \<Rightarrow> edge list \<Rightarrow> edge list \<Rightarrow> bool \<Rightarrow> gnodes \<Rightarrow> (nat \<Rightarrow> bool) \<Rightarrow>
    gnodes \<times> (nat \<Rightarrow> bool) \<times> edge list" where
  "mst_loop rv all [] skipped st mst = (st, mst, [])"
| "mst_loop rv all (e # es) skipped st mst =
     (case rv e of
        None \<Rightarrow> mst_loop rv all es True st mst
      | Some r \<Rightarrow>
          if visited (st (edge_from e)) = visited (st (edge_to e)) then mst_loop rv all es True st mst
          else
            let mst = set_mst (edge_connection r) (set_mst (edge_connection e) mst)
            in (case mst_loop rv all (if skipped then all else es) False (mst_visit e st) mst of
                  (st, mst, tree) \<Rightarrow> (st, mst, e # tree)))"
  by pat_completeness auto

definition unvisited_ends :: "edge list \<Rightarrow> gnodes \<Rightarrow> string set" where
  "unvisited_ends es st = {n. (\<exists>e \<in> set es. n = edge_from e \<or> n = edge_to e) \<and> \<not> visited (st n)}"

lemma finite_unvisited_ends [simp]: "finite (unvisited_ends es st)"
proof -
  have "unvisited_ends es st \<subseteq> edge_from ` set es \<union> edge_to ` set es" by (auto simp: unvisited_ends_def)
  then show ?thesis by (rule finite_subset) simp
qed

lemma visited_mst_visit: "visited (mst_visit e st n) \<longleftrightarrow> visited (st n) \<or> n = edge_from e \<or> n = edge_to e"
  by (simp add: mst_visit_def)

lemma mst_visit_decreases:
  assumes "visited (st (edge_from e)) \<noteq> visited (st (edge_to e))" "set es' \<subseteq> set (all @ e # es)"
  shows "card (unvisited_ends (all @ es') (mst_visit e st)) < card (unvisited_ends (all @ e # es) st)"
  using assms by (intro psubset_card_mono) (auto simp: unvisited_ends_def visited_mst_visit)

termination mst_loop
proof (relation "measures [\<lambda>(rv, all, es, skipped, st, mst). card (unvisited_ends (all @ es) st),
    \<lambda>(rv, all, es, skipped, st, mst). length es]", goal_cases)
  case (2 rv all e es skipped st mst)
  have "card (unvisited_ends (all @ es) st) \<le> card (unvisited_ends (all @ e # es) st)"
    by (rule card_mono) (auto simp: unvisited_ends_def)
  then show ?case by auto
next
  case (3 rv all e es skipped st mst r)
  have "card (unvisited_ends (all @ es) st) \<le> card (unvisited_ends (all @ e # es) st)"
    by (rule card_mono) (auto simp: unvisited_ends_def)
  then show ?case by auto
next
  case (4 rv all e es skipped st mst r mst')
  then have "card (unvisited_ends (all @ (if skipped then all else es)) (mst_visit e st)) < card (unvisited_ends (all @ e # es) st)"
    by (intro mst_visit_decreases) auto
  then show ?case by simp
qed simp

definition mst_kruskal :: "(edge \<Rightarrow> edge option) \<Rightarrow> edge list \<Rightarrow> gnodes \<Rightarrow> gnodes \<times> (nat \<Rightarrow> bool) \<times> edge list" where
  "mst_kruskal rv weight_tree st =
     mst_loop rv weight_tree weight_tree False (mst_start weight_tree (mst_clear st)) (\<lambda>_. False)"

section \<open>Prim's algorithm\<close>

definition crosses :: "string set \<Rightarrow> edge \<Rightarrow> bool" where
  "crosses S e \<longleftrightarrow> (edge_from e \<in> S) \<noteq> (edge_to e \<in> S)"

text \<open>
  A list of edges that Prim's algorithm may choose, starting from the nodes \<open>S\<close>: always a lightest
  edge that leaves the nodes reached so far, until there is none.
\<close>

fun prim :: "edge set \<Rightarrow> string set \<Rightarrow> edge list \<Rightarrow> bool" where
  "prim A S [] \<longleftrightarrow> (\<forall>e \<in> A. \<not> crosses S e)"
| "prim A S (e # es) \<longleftrightarrow> e \<in> A \<and> crosses S e \<and> (\<forall>e' \<in> A. crosses S e' \<longrightarrow> edge_weight e \<le> edge_weight e') \<and>
     prim A (insert (edge_from e) (insert (edge_to e) S)) es"

definition visited_set :: "gnodes \<Rightarrow> string set" where
  "visited_set st = {n. visited (st n)}"

lemma visited_set_visit: "visited_set (mst_visit e st) = insert (edge_from e) (insert (edge_to e) (visited_set st))"
  by (auto simp: visited_set_def visited_mst_visit)

lemma crosses_visited_set: "crosses (visited_set st) e \<longleftrightarrow> visited (st (edge_from e)) \<noteq> visited (st (edge_to e))"
  by (simp add: crosses_def visited_set_def)

definition tree_ends :: "edge list \<Rightarrow> string set" where
  "tree_ends tree = edge_from ` set tree \<union> edge_to ` set tree"

text \<open>
  What holds when the loop stands between the edges \<open>pre\<close> and the rest: none of \<open>pre\<close> leaves the nodes
  reached, and while none was skipped they are all part of the tree.
\<close>

definition mst_before :: "(edge \<Rightarrow> edge option) \<Rightarrow> bool \<Rightarrow> gnodes \<Rightarrow> edge list \<Rightarrow> bool" where
  "mst_before rv skipped st pre \<longleftrightarrow>
     (\<forall>e \<in> set pre. (rv e \<noteq> None \<longrightarrow> \<not> crosses (visited_set st) e) \<and>
        (\<not> skipped \<longrightarrow> edge_from e \<in> visited_set st \<and> edge_to e \<in> visited_set st))"

lemma mst_before_skip:
  "mst_before rv skipped st pre \<Longrightarrow> rv e = None \<or> \<not> crosses (visited_set st) e \<Longrightarrow> mst_before rv True st (pre @ [e])"
  by (auto simp: mst_before_def)

lemma mst_before_add: "mst_before rv False st pre \<Longrightarrow> mst_before rv False (mst_visit e st) (pre @ [e])"
  by (auto simp: mst_before_def visited_set_visit crosses_def)

lemma mst_before_lightest:
  assumes "mst_before rv skipped st pre" "sorted (map edge_weight (pre @ e # es))"
    "e' \<in> set (pre @ e # es)" "rv e' \<noteq> None" "crosses (visited_set st) e'"
  shows "edge_weight e \<le> edge_weight e'"
  using assms by (auto simp: mst_before_def sorted_append)

lemma mst_loop_prim:
  assumes "sorted (map edge_weight all)" "all = pre @ es" "mst_before rv skipped st pre"
    "mst_loop rv all es skipped st mst = (st', mst', tree)"
  shows "prim {e \<in> set all. rv e \<noteq> None} (visited_set st) tree \<and> visited_set st' = visited_set st \<union> tree_ends tree"
  using assms
proof (induction rv all es skipped st mst arbitrary: pre st' mst' tree rule: mst_loop.induct)
  case (1 rv all skipped st mst)
  then show ?case by (auto simp: mst_before_def tree_ends_def)
next
  case (2 rv all e es skipped st mst)
  show ?case
  proof (cases "rv e = None \<or> \<not> crosses (visited_set st) e")
    case True
    note before = mst_before_skip [OF 2(6) True]
    show ?thesis
    proof (cases "rv e")
      case None
      from 2(1) [OF None 2(4) _ before] 2(5,7) None show ?thesis by simp
    next
      case (Some r)
      with True have same: "visited (st (edge_from e)) = visited (st (edge_to e))" by (simp add: crosses_visited_set)
      from 2(2) [OF Some same 2(4) _ before] 2(5,7) Some same show ?thesis by simp
    qed
  next
    case False
    then obtain r where r: "rv e = Some r" and cross: "crosses (visited_set st) e" by auto
    then have diff: "visited (st (edge_from e)) \<noteq> visited (st (edge_to e))" by (simp add: crosses_visited_set)
    let ?mst = "set_mst (edge_connection r) (set_mst (edge_connection e) mst)" and ?es = "if skipped then all else es"
    obtain st1 mst1 tree1 where run: "mst_loop rv all ?es False (mst_visit e st) ?mst = (st1, mst1, tree1)"
      by (cases "mst_loop rv all ?es False (mst_visit e st) ?mst")
    with 2(7) r diff have res: "st' = st1" "tree = e # tree1" by (simp_all add: Let_def)
    let ?pre = "if skipped then [] else pre @ [e]"
    have "mst_before rv False (mst_visit e st) ?pre"
      using mst_before_add 2(6) by (auto simp: mst_before_def)
    moreover have "all = ?pre @ ?es" using 2(5) by simp
    ultimately have IH: "prim {e \<in> set all. rv e \<noteq> None} (visited_set (mst_visit e st)) tree1 \<and>
        visited_set st1 = visited_set (mst_visit e st) \<union> tree_ends tree1"
      using 2(3) [OF r diff refl 2(4)] run by blast
    have "edge_weight e \<le> edge_weight e'" if "e' \<in> set all" "rv e' \<noteq> None" "crosses (visited_set st) e'" for e'
      using mst_before_lightest [OF 2(6), of e es e'] 2(4,5) that by simp
    with IH cross r 2(5) show ?thesis unfolding res visited_set_visit by (auto simp: tree_ends_def)
  qed
qed

text \<open>Prim's edges form a tree: every one reaches exactly one node more.\<close>

lemma prim_card:
  "prim A S tree \<Longrightarrow> finite S \<Longrightarrow> card (S \<union> tree_ends tree) = card S + length tree"
proof (induction tree arbitrary: S)
  case (Cons e tree)
  let ?S = "insert (edge_from e) (insert (edge_to e) S)"
  have "card ?S = Suc (card S)" using Cons.prems by (auto simp: crosses_def insert_absorb)
  moreover have "S \<union> tree_ends (e # tree) = ?S \<union> tree_ends tree" by (auto simp: tree_ends_def)
  ultimately show ?case using Cons.IH [of ?S] Cons.prems by simp
qed (simp add: tree_ends_def)

section \<open>Least total weight\<close>

text \<open>The nodes connected to \<open>S\<close> by edges of \<open>F\<close>, in either direction.\<close>

inductive connected :: "edge set \<Rightarrow> string set \<Rightarrow> string \<Rightarrow> bool" for F S where
  connected_base: "x \<in> S \<Longrightarrow> connected F S x"
| connected_step: "e \<in> F \<Longrightarrow> {edge_from e, edge_to e} = {x, y} \<Longrightarrow> connected F S y \<Longrightarrow> connected F S x"

lemma connected_trans: "connected F S x \<Longrightarrow> (\<And>s. s \<in> S \<Longrightarrow> connected F T s) \<Longrightarrow> connected F T x"
  by (induction rule: connected.induct) (auto intro: connected_step)

text \<open>On the way to \<open>S\<close> some edge crosses, and the way up to it does without that edge.\<close>

lemma connected_crossing:
  assumes "connected F S x" "x \<notin> S"
  shows "\<exists>f p q. f \<in> F \<and> {edge_from f, edge_to f} = {p, q} \<and> p \<notin> S \<and> q \<in> S \<and> connected (F - {f}) {x} p"
  using assms
proof (induction rule: connected.induct)
  case (connected_step g x y)
  show ?case
  proof (cases "y \<in> S")
    case True
    with connected_step show ?thesis by (intro exI [of _ g] exI [of _ x] exI [of _ y]) (auto intro: connected_base)
  next
    case False
    with connected_step.IH obtain f p q where f: "f \<in> F" "{edge_from f, edge_to f} = {p, q}" "p \<notin> S" "q \<in> S"
      and way: "connected (F - {f}) {y} p" by blast
    have "q \<notin> {edge_from g, edge_to g}" using connected_step.hyps(2) connected_step.prems False f(4) by auto
    moreover have "q \<in> {edge_from f, edge_to f}" using f(2) by simp
    ultimately have "g \<noteq> f" by blast
    then have "connected (F - {f}) {x} y"
      using connected_step.hyps(1,2) by (intro connected.connected_step [of g _ y x]) (auto intro: connected_base)
    then have "connected (F - {f}) {x} p" using connected_trans [OF way] by simp
    with f show ?thesis by blast
  qed
qed simp

lemma connected_exchange:
  assumes f: "{edge_from f, edge_to f} = {p, q}" "q \<in> S" "connected (F - {f}) {x} p" and v: "connected F S v"
  shows "connected (F - {f}) (insert x S) v"
  using v
proof (induction rule: connected.induct)
  case (connected_step g v w)
  have p: "connected (F - {f}) (insert x S) p" by (rule connected_trans [OF f(3)]) (simp add: connected_base)
  show ?case
  proof (cases "g = f")
    case True
    then have "v = p \<or> v = q" using f(1) connected_step.hyps(2) by (auto simp: doubleton_eq_iff)
    with p f(2) show ?thesis by (auto intro: connected_base)
  next
    case False
    with connected_step show ?thesis by (intro connected.connected_step [of g _ v w]) auto
  qed
qed (simp add: connected_base)

lemma prim_minimal:
  assumes "prim A S tree" "finite F" "F \<subseteq> A" "\<forall>e \<in> A. 0 \<le> edge_weight e"
    "\<forall>v \<in> tree_ends tree. connected F S v"
  shows "sum_list (map edge_weight tree) \<le> (\<Sum>e \<in> F. edge_weight e)"
  using assms
proof (induction tree arbitrary: S F)
  case Nil
  then show ?case by (auto intro: sum_nonneg)
next
  case (Cons e tree)
  obtain x where x: "x \<notin> S" "x \<in> {edge_from e, edge_to e}" and S': "insert (edge_from e) (insert (edge_to e) S) = insert x S"
    using Cons.prems(1) by (auto simp: crosses_def insert_absorb)
  have "connected F S x" using Cons.prems(5) x(2) by (auto simp: tree_ends_def)
  from connected_crossing [OF this x(1)] obtain f p q where f: "f \<in> F" "{edge_from f, edge_to f} = {p, q}" "p \<notin> S" "q \<in> S"
    and way: "connected (F - {f}) {x} p" by blast
  have "crosses S f" using f(2-4) by (auto simp: crosses_def doubleton_eq_iff)
  with Cons.prems(1,3) f(1) have light: "edge_weight e \<le> edge_weight f" by auto
  have "\<forall>v \<in> tree_ends tree. connected (F - {f}) (insert x S) v"
    using connected_exchange [OF f(2,4) way] Cons.prems(5) by (simp add: tree_ends_def)
  then have "sum_list (map edge_weight tree) \<le> (\<Sum>e \<in> F - {f}. edge_weight e)"
    using Cons.IH [of "insert x S" "F - {f}"] Cons.prems S' by auto
  moreover have "(\<Sum>e \<in> F. edge_weight e) = edge_weight f + (\<Sum>e \<in> F - {f}. edge_weight e)"
    using Cons.prems(2) f(1) by (simp add: sum.remove)
  ultimately show ?case using light by simp
qed

section \<open>The tree found\<close>

lemma connected_mono: "connected F S x \<Longrightarrow> F \<subseteq> G \<Longrightarrow> connected G S x"
  by (induction rule: connected.induct) (auto intro: connected.intros)

lemma prim_subset: "prim A S tree \<Longrightarrow> set tree \<subseteq> A"
  by (induction tree arbitrary: S) auto

lemma prim_connects:
  "prim A S tree \<Longrightarrow> v \<in> S \<union> tree_ends tree \<Longrightarrow> connected (set tree) S v"
proof (induction tree arbitrary: S)
  case (Cons e tree)
  let ?S = "insert (edge_from e) (insert (edge_to e) S)"
  have "v \<in> ?S \<union> tree_ends tree" using Cons.prems(2) by (auto simp: tree_ends_def)
  then have "connected (set tree) ?S v" using Cons.IH [of ?S] Cons.prems(1) by simp
  then have v: "connected (set (e # tree)) ?S v" by (rule connected_mono) auto
  have "crosses S e" using Cons.prems(1) by simp
  then have "connected (set (e # tree)) S (edge_from e)" "connected (set (e # tree)) S (edge_to e)"
    by (auto simp: crosses_def intro: connected.intros
        connected_step [of e _ "edge_from e" "edge_to e"] connected_step [of e _ "edge_to e" "edge_from e"])
  then show ?case by (intro connected_trans [OF v]) (auto intro: connected_base)
qed (simp add: tree_ends_def connected_base)

lemma prim_reaches: "prim A S tree \<Longrightarrow> connected A S v \<Longrightarrow> v \<in> S \<union> tree_ends tree"
proof (induction tree arbitrary: S)
  case Nil
  from Nil(2) have "v \<in> S"
  proof (induction rule: connected.induct)
    case (connected_step e x y)
    then have "(edge_from e \<in> S) = (edge_to e \<in> S)" using Nil(1) by (simp add: crosses_def)
    moreover have "x \<in> {edge_from e, edge_to e}" "y \<in> {edge_from e, edge_to e}" using connected_step(2) by simp_all
    ultimately show ?case using connected_step(4) by auto
  qed simp
  then show ?case by simp
next
  case (Cons e tree)
  let ?S = "insert (edge_from e) (insert (edge_to e) S)"
  have "connected A ?S v" using connected_trans [OF Cons.prems(2), of ?S] by (simp add: connected_base)
  with Cons.IH [of ?S] Cons.prems(1) show ?case by (auto simp: tree_ends_def)
qed

lemma mst_loop_flags:
  "mst_loop rv all es skipped st mst = (st', mst', tree) \<Longrightarrow>
     mst' c \<longleftrightarrow> mst c \<or> (\<exists>e \<in> set tree. edge_connection e = Some c \<or> (\<exists>r. rv e = Some r \<and> edge_connection r = Some c))"
proof (induction rv all es skipped st mst arbitrary: st' mst' tree rule: mst_loop.induct)
  case (2 rv all e es skipped st mst)
  show ?case
  proof (cases "rv e = None \<or> visited (st (edge_from e)) = visited (st (edge_to e))")
    case True
    with 2 show ?thesis by (cases "rv e") auto
  next
    case False
    then obtain r where r: "rv e = Some r" and diff: "visited (st (edge_from e)) \<noteq> visited (st (edge_to e))" by auto
    let ?mst = "set_mst (edge_connection r) (set_mst (edge_connection e) mst)" and ?es = "if skipped then all else es"
    obtain st1 mst1 tree1 where run: "mst_loop rv all ?es False (mst_visit e st) ?mst = (st1, mst1, tree1)"
      by (cases "mst_loop rv all ?es False (mst_visit e st) ?mst")
    with 2(4) r diff have "mst' = mst1" "tree = e # tree1" by (simp_all add: Let_def)
    with 2(3) [OF r diff refl run] r show ?thesis by (auto simp: set_mst_def split: option.splits)
  qed
qed simp

lemma mst_loop_frame:
  "mst_loop rv all es skipped st mst = (st', mst', tree) \<Longrightarrow> (st' n)\<lparr>visited := b\<rparr> = (st n)\<lparr>visited := b\<rparr>"
proof (induction rv all es skipped st mst arbitrary: st' mst' tree rule: mst_loop.induct)
  case (2 rv all e es skipped st mst)
  have "(mst_visit e st n)\<lparr>visited := b\<rparr> = (st n)\<lparr>visited := b\<rparr>" by (simp add: mst_visit_def Let_def)
  with 2 show ?case by (auto simp: Let_def split: option.splits if_splits prod.splits)
qed simp

lemma mst_start_visited:
  "visited_set (mst_start es (mst_clear st)) =
     (case List.find (\<lambda>e. reachable (st (edge_from e))) es of None \<Rightarrow> {} | Some e \<Rightarrow> {edge_from e})"
  by (induction es) (auto simp: mst_clear_def visited_set_def)

lemma mst_start_frame: "(mst_start es st n)\<lparr>visited := b\<rparr> = (st n)\<lparr>visited := b\<rparr>"
  by (induction es) auto

lemma mst_kruskal_frame:
  assumes "mst_kruskal rv es st = (st', mst, tree)"
  shows "(st' n)\<lparr>visited := b\<rparr> = (st n)\<lparr>visited := b\<rparr>"
  using mst_loop_frame [OF assms [unfolded mst_kruskal_def], where n = n and b = b] mst_start_frame [where es = es and st = "mst_clear st" and n = n and b = b]
  by (simp add: mst_clear_def)

lemma connected_sym: "connected F {a} b \<Longrightarrow> connected F {b} a"
proof (induction rule: connected.induct)
  case (connected_step e x y)
  have "connected F {x} y"
    using connected_step(1,2) by (intro connected.connected_step [of e _ y x]) (auto intro: connected_base)
  then show ?case using connected_trans [OF connected_step(4)] by simp
qed (simp add: connected_base)

lemma connected_move: "connected F {a} b \<Longrightarrow> connected F {a} v \<longleftrightarrow> connected F {b} v"
  using connected_trans [of F "{a}" v "{b}"] connected_trans [of F "{b}" v "{a}"] connected_sym [of F a b] by auto

text \<open>
  Given the edges in the order of their weights, none of them negative, the loop of
  \<^verbatim>\<open>mst_kruskal\<close> ends and finds a minimum spanning tree: from the starting point \<open>s\<close>, a reachable
  node, the chosen edges connect exactly the nodes that edges with a reverse edge connect; there is
  one edge less than there are nodes, so they form a tree; no set of such edges that connects
  the same nodes has a smaller total weight; and a connection is marked for broadcasts exactly when
  it carries a chosen edge or its reverse.
\<close>

lemma mst_kruskal_minimal:
  assumes "sorted (map edge_weight es)" "\<forall>e \<in> set es. 0 \<le> edge_weight e"
    "\<exists>e \<in> set es. reachable (st (edge_from e))" and A_def: "A = {e \<in> set es. rv e \<noteq> None}"
  shows "\<exists>s st' mst tree. mst_kruskal rv es st = (st', mst, tree) \<and> s \<in> edge_from ` set es \<and> reachable (st s) \<and> set tree \<subseteq> A \<and>
    visited_set st' = {v. connected A {s} v} \<and> (\<forall>v \<in> visited_set st'. connected (set tree) {s} v) \<and>
    card (visited_set st') = Suc (length tree) \<and>
    (\<forall>F \<subseteq> A. (\<forall>v \<in> visited_set st'. connected F {s} v) \<longrightarrow>
       sum_list (map edge_weight tree) \<le> (\<Sum>e \<in> F. edge_weight e)) \<and>
    (\<forall>c. mst c \<longleftrightarrow> (\<exists>e \<in> set tree. edge_connection e = Some c \<or> (\<exists>r. rv e = Some r \<and> edge_connection r = Some c)))"
proof -
  obtain st' mst tree where run: "mst_kruskal rv es st = (st', mst, tree)" by (cases "mst_kruskal rv es st")
  obtain e where e: "List.find (\<lambda>e. reachable (st (edge_from e))) es = Some e"
    using assms(3) find_None_iff by (metis not_Some_eq)
  let ?s = "edge_from e"
  have start: "visited_set (mst_start es (mst_clear st)) = {?s}" by (simp add: mst_start_visited e)
  have s: "?s \<in> edge_from ` set es" "reachable (st ?s)" using e by (auto simp: find_Some_iff)
  have "mst_before rv False (mst_start es (mst_clear st)) []" by (simp add: mst_before_def)
  from mst_loop_prim [OF assms(1) _ this run [unfolded mst_kruskal_def]]
  have prim: "prim A {?s} tree" and V: "visited_set st' = {?s} \<union> tree_ends tree" by (simp_all add: start A_def)
  have comp: "visited_set st' = {v. connected A {?s} v}"
    using prim_reaches [OF prim] prim_connects [OF prim] connected_mono [OF _ prim_subset [OF prim]] unfolding V by blast
  have "sum_list (map edge_weight tree) \<le> (\<Sum>e \<in> F. edge_weight e)"
    if "F \<subseteq> A" "\<forall>v \<in> visited_set st'. connected F {?s} v" for F
    using prim_minimal [OF prim _ that(1)] that finite_subset [OF that(1)] assms(2) V by (simp add: A_def)
  moreover have "mst c \<longleftrightarrow> (\<exists>e \<in> set tree. edge_connection e = Some c \<or> (\<exists>r. rv e = Some r \<and> edge_connection r = Some c))" for c
    using mst_loop_flags [OF run [unfolded mst_kruskal_def]] by simp
  ultimately show ?thesis
    using run s prim_subset [OF prim] comp prim_connects [OF prim] prim_card [OF prim] V by (intro exI conjI) auto
qed

end
