(* ===== verification/Graph.thy ===== *)
theory Graph
  imports Mst Subnet_Table
begin

text \<open>
  The recomputation of the mesh after every change of it (\<^verbatim>\<open>graph.c\<close>): flush the subnet
  caches, search the mesh, act on every node that became reachable or unreachable, and choose the
  spanning tree. The theory composes the search, the spanning tree, the edges and the subnet
  table. Scripts are the list of nodes they run for; the timers of the nodes are not part of the
  state.
\<close>

section \<open>Reachability\<close>

record reach_report =
  reachable_count :: nat
  became_reachable_count :: nat
  became_unreachable_count :: nat
  host_scripts :: "(string \<times> bool) list"

text \<open>A node whose reachability changed.\<close>

definition flip_node :: "string \<Rightarrow> int \<Rightarrow> string \<Rightarrow> gnode \<Rightarrow> gnode" where
  "flip_node me now n t =
     (let t = t\<lparr>reachable := \<not> reachable t, last_state_change := now\<rparr>;
          t = t\<lparr>last_req_key := 0, udp_confirmed := False, maxmtu := MTU, maxrecentlen := 0, minmtu := 0, mtuprobes := 0\<rparr>
      in if reachable t then t
         else (update_node_udp me n None t)
           \<lparr>visited := False, reachable := False, indirect := False, udp_confirmed := False, node_options := 0\<rparr>)"

definition check_node :: "string \<Rightarrow> int \<Rightarrow> string \<Rightarrow> gnodes \<times> reach_report \<Rightarrow> gnodes \<times> reach_report" where
  "check_node me now n s =
     (case s of (st, rep) \<Rightarrow>
        let (st, rep) =
          (if visited (st n) \<noteq> reachable (st n)
           then (let up = (\<not> reachable (st n));
                     rep = (if n = me then rep
                            else if up then rep\<lparr>became_reachable_count := became_reachable_count rep + 1\<rparr>
                            else rep\<lparr>became_unreachable_count := became_unreachable_count rep + 1\<rparr>)
                 in (st(n := flip_node me now n (st n)), rep\<lparr>host_scripts := host_scripts rep @ [(n, up)]\<rparr>))
           else (st, rep))
        in (st, if reachable (st n) \<and> n \<noteq> me then rep\<lparr>reachable_count := reachable_count rep + 1\<rparr> else rep))"

datatype device_action = Device_Disable | Device_Enable

definition standby_action :: "bool \<Rightarrow> reach_report \<Rightarrow> device_action option" where
  "standby_action device_standby rep =
     (if \<not> device_standby then None
      else if reachable_count rep = 0 \<and> became_unreachable_count rep > 0 then Some Device_Disable
      else if reachable_count rep > 0 \<and> reachable_count rep = became_reachable_count rep then Some Device_Enable
      else None)"

definition check_reachability ::
  "string \<Rightarrow> int \<Rightarrow> bool \<Rightarrow> string list \<Rightarrow> gnodes \<Rightarrow> gnodes \<times> reach_report \<times> device_action option" where
  "check_reachability me now device_standby names st =
     (case fold (check_node me now) names
        (st, \<lparr>reachable_count = 0, became_reachable_count = 0, became_unreachable_count = 0, host_scripts = []\<rparr>)
      of (st, rep) \<Rightarrow> (st, rep, standby_action device_standby rep))"

section \<open>The whole recomputation\<close>

record mesh_state =
  node_names :: "string list"
  mesh_nodes :: gnodes
  mesh_edges :: edge_state
  mesh_subnets :: subnet_state
  mst_connections :: "nat \<Rightarrow> bool"

definition reverse_edge :: "edge_state \<Rightarrow> edge \<Rightarrow> edge option" where
  "reverse_edge es e = Option.bind (reverse es (edge_key e)) (mesh_of es)"

definition edges_from :: "edge_state \<Rightarrow> string \<Rightarrow> edge list" where
  "edges_from es n = links (node_edges es n)"

datatype graph_outcome = Graph_Done mesh_state reach_report "device_action option"
  | Graph_Abort | Graph_Running

definition graph :: "string \<Rightarrow> int \<Rightarrow> bool \<Rightarrow> nat \<Rightarrow> mesh_state \<Rightarrow> graph_outcome" where
  "graph me now device_standby fuel s =
     (let subnets = subnet_cache_flush (mesh_subnets s); es = mesh_edges s in
      case sssp_bfs me (\<lambda>e. reverse_edge es e \<noteq> None) (edges_from es) fuel (mesh_nodes s) of
        Bfs_Abort \<Rightarrow> Graph_Abort
      | Bfs_Running _ _ \<Rightarrow> Graph_Running
      | Bfs_Done st \<Rightarrow>
          (case check_reachability me now device_standby (node_names s) st of (st, rep, action) \<Rightarrow>
             (case mst_kruskal (reverse_edge es) (links (edge_weight_tree es)) st of (st, mst, tree) \<Rightarrow>
                Graph_Done (s\<lparr>mesh_nodes := st, mesh_subnets := subnets, mst_connections := mst\<rparr>) rep action)))"

section \<open>Acting on changes\<close>

lemma flip_node_reachable: "reachable (flip_node me now n t) \<longleftrightarrow> \<not> reachable t"
  by (simp add: flip_node_def Let_def)

lemma check_node_nodes:
  "fst (check_node me now n (st, rep)) =
     (if visited (st n) \<noteq> reachable (st n) then st(n := flip_node me now n (st n)) else st)"
  by (simp add: check_node_def Let_def)

lemma check_node_report:
  "snd (check_node me now n (st, rep)) =
     rep\<lparr>reachable_count := reachable_count rep + (if visited (st n) \<and> n \<noteq> me then 1 else 0),
         became_reachable_count := became_reachable_count rep +
           (if visited (st n) \<and> \<not> reachable (st n) \<and> n \<noteq> me then 1 else 0),
         became_unreachable_count := became_unreachable_count rep +
           (if \<not> visited (st n) \<and> reachable (st n) \<and> n \<noteq> me then 1 else 0),
         host_scripts := host_scripts rep @ (if visited (st n) \<noteq> reachable (st n) then [(n, visited (st n))] else [])\<rparr>"
  by (simp add: check_node_def Let_def flip_node_reachable)

text \<open>The loop over all nodes, every one of them once.\<close>

lemma check_nodes:
  assumes "distinct names" "fold (check_node me now) names (st, rep) = (st', rep')"
  shows "st' x = (if x \<in> set names \<and> visited (st x) \<noteq> reachable (st x) then flip_node me now x (st x) else st x)"
    and "reachable_count rep' = reachable_count rep + length (filter (\<lambda>n. visited (st n) \<and> n \<noteq> me) names)"
    and "became_reachable_count rep' = became_reachable_count rep +
      length (filter (\<lambda>n. visited (st n) \<and> \<not> reachable (st n) \<and> n \<noteq> me) names)"
    and "became_unreachable_count rep' = became_unreachable_count rep +
      length (filter (\<lambda>n. \<not> visited (st n) \<and> reachable (st n) \<and> n \<noteq> me) names)"
    and "host_scripts rep' = host_scripts rep @
      map (\<lambda>n. (n, visited (st n))) (filter (\<lambda>n. visited (st n) \<noteq> reachable (st n)) names)"
proof -
  have "(st' x = (if x \<in> set names \<and> visited (st x) \<noteq> reachable (st x) then flip_node me now x (st x) else st x)) \<and>
    reachable_count rep' = reachable_count rep + length (filter (\<lambda>n. visited (st n) \<and> n \<noteq> me) names) \<and>
    became_reachable_count rep' = became_reachable_count rep +
      length (filter (\<lambda>n. visited (st n) \<and> \<not> reachable (st n) \<and> n \<noteq> me) names) \<and>
    became_unreachable_count rep' = became_unreachable_count rep +
      length (filter (\<lambda>n. \<not> visited (st n) \<and> reachable (st n) \<and> n \<noteq> me) names) \<and>
    host_scripts rep' = host_scripts rep @
      map (\<lambda>n. (n, visited (st n))) (filter (\<lambda>n. visited (st n) \<noteq> reachable (st n)) names)"
    using assms
  proof (induction names arbitrary: st rep)
    case (Cons n names)
    obtain st1 rep1 where step: "check_node me now n (st, rep) = (st1, rep1)" by (cases "check_node me now n (st, rep)")
    have st1: "st1 = (if visited (st n) \<noteq> reachable (st n) then st(n := flip_node me now n (st n)) else st)"
      using check_node_nodes [of me now n st rep] step by simp
    note rep1 = check_node_report [of me now n st rep, unfolded step snd_conv]
    have same: "st1 y = st y" if "y \<in> set names" for y using that Cons.prems(1) st1 by auto
    have filt: "filter (\<lambda>y. P (st1 y) y) names = filter (\<lambda>y. P (st y) y) names" for P
      using same by (intro filter_cong) auto
    have maps: "map (\<lambda>n. (n, visited (st1 n))) (filter Q names) = map (\<lambda>n. (n, visited (st n))) (filter Q names)" for Q
      using same by auto
    have IH: "fold (check_node me now) names (st1, rep1) = (st', rep')" "distinct names"
      using Cons.prems step by simp_all
    note IH = Cons.IH [OF IH(2,1), unfolded maps filt [of "\<lambda>t n. visited t \<and> n \<noteq> me"]
      filt [of "\<lambda>t n. visited t \<and> \<not> reachable t \<and> n \<noteq> me"] filt [of "\<lambda>t n. \<not> visited t \<and> reachable t \<and> n \<noteq> me"]
      filt [of "\<lambda>t n. visited t \<noteq> reachable t"]]
    have "st' x = (if x \<in> set (n # names) \<and> visited (st x) \<noteq> reachable (st x) then flip_node me now x (st x) else st x)"
      using IH st1 Cons.prems(1) by (cases "x = n") auto
    with IH rep1 show ?case by simp
  qed simp
  then show "st' x = (if x \<in> set names \<and> visited (st x) \<noteq> reachable (st x) then flip_node me now x (st x) else st x)"
    "reachable_count rep' = reachable_count rep + length (filter (\<lambda>n. visited (st n) \<and> n \<noteq> me) names)"
    "became_reachable_count rep' = became_reachable_count rep +
      length (filter (\<lambda>n. visited (st n) \<and> \<not> reachable (st n) \<and> n \<noteq> me) names)"
    "became_unreachable_count rep' = became_unreachable_count rep +
      length (filter (\<lambda>n. \<not> visited (st n) \<and> reachable (st n) \<and> n \<noteq> me) names)"
    "host_scripts rep' = host_scripts rep @
      map (\<lambda>n. (n, visited (st n))) (filter (\<lambda>n. visited (st n) \<noteq> reachable (st n)) names)"
    by blast+
qed

section \<open>The search on the edges of the mesh\<close>

lemma reverse_edge_mutual:
  assumes "edges_inv es"
  shows "reverse_edge es e \<noteq> None \<longleftrightarrow> mutual es (edge_from e) (edge_to e)"
  using assms edges_invD(4) [OF assms, of "edge_from e" "edge_to e"] mesh_of_None [of es "(edge_to e, edge_from e)"]
  by (auto simp: reverse_edge_def mutual_def)

lemma edges_from_set: "edges_inv es \<Longrightarrow> set (edges_from es n) = {e \<in> edges es. edge_from e = n}"
  by (simp add: edges_from_def edges_invD(3))

lemma hop_mutual:
  assumes "edges_inv es"
  shows "hop me (\<lambda>e. reverse_edge es e \<noteq> None) (edges_from es) n t \<longleftrightarrow> t \<noteq> me \<and> mutual es n t"
  unfolding hop_def reverse_edge_mutual [OF assms] edges_from_set [OF assms] by (auto simp: mutual_def)

lemma hop_mutual_reach:
  assumes "edges_inv es"
  shows "(hop me (\<lambda>e. reverse_edge es e \<noteq> None) (edges_from es))\<^sup>*\<^sup>* me n \<longleftrightarrow> (mutual es)\<^sup>*\<^sup>* me n"
proof
  assume "(hop me (\<lambda>e. reverse_edge es e \<noteq> None) (edges_from es))\<^sup>*\<^sup>* me n"
  then show "(mutual es)\<^sup>*\<^sup>* me n"
  proof induction
    case (step y z)
    from step(2) have "mutual es y z" unfolding hop_mutual [OF assms] by simp
    with step(3) show ?case by (rule rtranclp.rtrancl_into_rtrancl)
  qed simp
next
  assume "(mutual es)\<^sup>*\<^sup>* me n"
  then show "(hop me (\<lambda>e. reverse_edge es e \<noteq> None) (edges_from es))\<^sup>*\<^sup>* me n"
  proof induction
    case (step y z)
    then show ?case using hop_mutual [OF assms, of me y z] by (cases "z = me") (auto intro: rtranclp.rtrancl_into_rtrancl)
  qed simp
qed

lemma bfs_edge_reachable: "reachable (fst (bfs_edge me has_rev n e (st, added)) x) = reachable (st x)"
  by (simp add: bfs_edge_def edge_target_def update_node_udp_def Let_def split: option.split)

lemma bfs_fold_reachable: "reachable (fst (fold (bfs_edge me has_rev n) es (st, added)) x) = reachable (st x)"
proof (induction es arbitrary: st added)
  case (Cons e es)
  then show ?case using bfs_edge_reachable [of me has_rev n e st added x]
    by (cases "bfs_edge me has_rev n e (st, added)") simp
qed simp

lemma bfs_run_reachable:
  "bfs_run me has_rev adj fuel todo st = Bfs_Done st' \<Longrightarrow> reachable (st' x) = reachable (st x)"
proof (induction me has_rev adj fuel todo st rule: bfs_run.induct)
  case (3 me has_rev adj fuel n todo st)
  then show ?case
    using bfs_fold_reachable [of me has_rev n "adj n" st "[]" x]
    by (cases "bfs_node me has_rev adj n st") (auto simp: bfs_node_def split: if_splits)
qed simp_all

lemma sssp_bfs_reachable: "sssp_bfs me has_rev adj fuel st = Bfs_Done st' \<Longrightarrow> reachable (st' x) = reachable (st x)"
  using bfs_run_reachable [of me has_rev adj fuel "[me]" "bfs_begin me st" st' x]
  by (simp add: sssp_bfs_def bfs_begin_def bfs_clear_def Let_def)

text \<open>The recomputation as a whole, up to the spanning tree.\<close>

lemma graph_done:
  assumes inv: "edges_inv (mesh_edges s)" and names: "distinct (node_names s)"
    and run: "graph me now standby fuel s = Graph_Done s' rep action"
  obtains st tree where
    "mst_kruskal (reverse_edge (mesh_edges s)) (links (edge_weight_tree (mesh_edges s))) st =
      (mesh_nodes s', mst_connections s', tree)"
    "\<And>n. n \<in> set (node_names s) \<Longrightarrow> reachable (st n) \<longleftrightarrow> (mutual (mesh_edges s))\<^sup>*\<^sup>* me n"
    "\<And>n. reachable (mesh_nodes s' n) = reachable (st n)"
    "mesh_subnets s' = subnet_cache_flush (mesh_subnets s)"
    "host_scripts rep = map (\<lambda>n. (n, (mutual (mesh_edges s))\<^sup>*\<^sup>* me n))
       (filter (\<lambda>n. (mutual (mesh_edges s))\<^sup>*\<^sup>* me n \<noteq> reachable (mesh_nodes s n)) (node_names s))"
    "action = standby_action standby rep"
    "reachable_count rep = length (filter (\<lambda>n. (mutual (mesh_edges s))\<^sup>*\<^sup>* me n \<and> n \<noteq> me) (node_names s))"
    "became_unreachable_count rep = length (filter (\<lambda>n. \<not> (mutual (mesh_edges s))\<^sup>*\<^sup>* me n \<and>
       reachable (mesh_nodes s n) \<and> n \<noteq> me) (node_names s))"
    "became_reachable_count rep = length (filter (\<lambda>n. (mutual (mesh_edges s))\<^sup>*\<^sup>* me n \<and>
       \<not> reachable (mesh_nodes s n) \<and> n \<noteq> me) (node_names s))"
proof -
  let ?es = "mesh_edges s" and ?rep = "\<lparr>reachable_count = 0, became_reachable_count = 0, became_unreachable_count = 0, host_scripts = []\<rparr>"
  obtain st1 where bfs: "sssp_bfs me (\<lambda>e. reverse_edge ?es e \<noteq> None) (edges_from ?es) fuel (mesh_nodes s) = Bfs_Done st1"
    using run by (auto simp: graph_def Let_def split: bfs_outcome.splits)
  obtain st rep1 where fold: "fold (check_node me now) (node_names s) (st1, ?rep) = (st, rep1)"
    by (cases "fold (check_node me now) (node_names s) (st1, ?rep)")
  obtain st' mst tree where mst: "mst_kruskal (reverse_edge ?es) (links (edge_weight_tree ?es)) st = (st', mst, tree)"
    by (cases "mst_kruskal (reverse_edge ?es) (links (edge_weight_tree ?es)) st")
  have res: "rep = rep1" "action = standby_action standby rep" "mesh_nodes s' = st'" "mst_connections s' = mst"
    "mesh_subnets s' = subnet_cache_flush (mesh_subnets s)"
    using run bfs fold mst by (auto simp: graph_def check_reachability_def)
  have vis: "visited (st1 x) \<longleftrightarrow> (mutual ?es)\<^sup>*\<^sup>* me x" for x
    using sssp_bfs_reachability [OF bfs] hop_mutual_reach [OF inv] by simp
  note old = sssp_bfs_reachable [OF bfs]
  note checked = check_nodes [OF names fold, unfolded vis old, folded res(1)]
  have new: "reachable (st n) \<longleftrightarrow> (mutual ?es)\<^sup>*\<^sup>* me n" if "n \<in> set (node_names s)" for n
    using checked(1) [of n] that by (auto simp: flip_node_reachable old)
  have same: "reachable (mesh_nodes s' n) = reachable (st n)" for n
    using arg_cong [OF mst_kruskal_frame [OF mst, where n = n and b = True], of reachable] res(3) by simp
  from mst res(3,4) new same res(5,2) checked(2-5) show ?thesis by (intro that [of st tree]) simp_all
qed

section \<open>The spanning tree of the mesh\<close>

definition mutual_edges :: "edge_state \<Rightarrow> edge set" where
  "mutual_edges es = {e \<in> edges es. mutual es (edge_from e) (edge_to e)}"

lemma mutual_edges_usable:
  "edges_inv es \<Longrightarrow> {e \<in> set (links (edge_weight_tree es)). reverse_edge es e \<noteq> None} = mutual_edges es"
  by (auto simp only: reverse_edge_mutual mutual_edges_def edges_def)

lemma connected_mutual: "connected (mutual_edges es) {s} v \<longleftrightarrow> (mutual es)\<^sup>*\<^sup>* s v"
proof
  assume "connected (mutual_edges es) {s} v"
  then show "(mutual es)\<^sup>*\<^sup>* s v"
  proof (induction rule: connected.induct)
    case (connected_step e x y)
    then have "mutual es y x" by (auto simp: mutual_edges_def mutual_def doubleton_eq_iff)
    with connected_step(4) show ?case by (rule rtranclp.rtrancl_into_rtrancl)
  qed simp
next
  assume "(mutual es)\<^sup>*\<^sup>* s v"
  then show "connected (mutual_edges es) {s} v"
  proof induction
    case (step y z)
    from step(2) obtain e where e: "e \<in> edges es" "edge_key e = (y, z)" by (auto simp: mutual_def)
    with step(2) have "e \<in> mutual_edges es" by (simp add: mutual_edges_def)
    with e step(3) show ?case by (intro connected_step [of e _ z y]) auto
  qed (simp add: connected_base)
qed

section \<open>A mesh without indirect edges\<close>

definition direct_mesh :: "string \<Rightarrow> mesh_state \<Rightarrow> bool" where
  "direct_mesh me s \<longleftrightarrow> edges_inv (mesh_edges s) \<and> me \<in> set (node_names s) \<and> length (node_names s) < 2 ^ 31 \<and>
     (\<forall>e \<in> edges (mesh_edges s). edge_to e \<in> set (node_names s) \<and> edge_options e AND OPTION_INDIRECT = 0)"

lemma direct_mesh_ok: "direct_mesh me s \<Longrightarrow> mesh_ok (set (node_names s)) me (edges_from (mesh_edges s))"
  using card_length [of "node_names s"] by (auto simp: direct_mesh_def mesh_ok_def edges_from_set)

lemma mesh_weights_card:
  assumes "edges_inv es" "finite N"
  shows "card (mesh_weights N (edges_from es)) \<le> length (links (edge_weight_tree es))"
proof -
  have "mesh_weights N (edges_from es) \<subseteq> edge_weight ` edges es"
    using assms(1) by (auto simp: mesh_weights_def edges_from_set)
  then have "card (mesh_weights N (edges_from es)) \<le> card (edge_weight ` edges es)"
    by (intro card_mono) (simp_all add: edges_def)
  also have "\<dots> \<le> card (edges es)" by (rule card_image_le) (simp add: edges_def)
  also have "\<dots> \<le> length (links (edge_weight_tree es))" unfolding edges_def by (rule card_length)
  finally show ?thesis .
qed

lemma direct_mesh_ends:
  assumes "direct_mesh me s"
    and "1 + length (node_names s) * Suc (length (links (edge_weight_tree (mesh_edges s)))) \<le> fuel"
  shows "\<exists>s' rep action. graph me now standby fuel s = Graph_Done s' rep action"
proof -
  let ?N = "set (node_names s)" and ?adj = "edges_from (mesh_edges s)"
  have "card (mesh_weights ?N ?adj) \<le> length (links (edge_weight_tree (mesh_edges s)))"
    using assms(1) by (intro mesh_weights_card) (simp_all add: direct_mesh_def)
  then have "card ?N * Suc (card (mesh_weights ?N ?adj)) \<le>
      length (node_names s) * Suc (length (links (edge_weight_tree (mesh_edges s))))"
    by (intro mult_le_mono card_length) simp
  then have "1 + card ?N * Suc (card (mesh_weights ?N ?adj)) \<le> fuel" using assms(2) by linarith
  from sssp_bfs_ends [OF direct_mesh_ok [OF assms(1)] this]
  obtain st where bfs: "sssp_bfs me (\<lambda>e. reverse_edge (mesh_edges s) e \<noteq> None) ?adj fuel (mesh_nodes s) = Bfs_Done st" by blast
  show ?thesis unfolding graph_def Let_def bfs by (auto split: prod.split)
qed

text \<open>A small mesh.\<close>

definition two_nodes :: mesh_state where
  "two_nodes = \<lparr>node_names = [''a'', ''b''], mesh_nodes = (\<lambda>_. new_node),
     mesh_edges = foldl edge_step init_edges [Edge_Add (new_edge ''a'' ''b''), Edge_Add (new_edge ''b'' ''a'')],
     mesh_subnets = init_subnets, mst_connections = (\<lambda>_. False)\<rparr>"

lemma two_nodes_edges:
  "edges_inv (mesh_edges two_nodes)" "edges (mesh_edges two_nodes) = {new_edge ''a'' ''b'', new_edge ''b'' ''a''}"
proof -
  have ok: "edge_ok (new_edge ''a'' ''b'')" "edge_ok (new_edge ''b'' ''a'')"
    by (simp_all add: edge_ok_def new_edge_def c_string_def c_int_ok_def)
  have none: "edges init_edges = {}" by (simp add: edges_def init_edges_def splay_alloc_tree_def)
  note one = edge_add_new [OF edges_inv_init ok(1)]
  have "edges_inv (edge_add (new_edge ''a'' ''b'') init_edges)" "edges (edge_add (new_edge ''a'' ''b'') init_edges) = {new_edge ''a'' ''b''}"
    using one none by simp_all
  from edge_add_new [OF this(1) ok(2)] this(2)
  show "edges_inv (mesh_edges two_nodes)" "edges (mesh_edges two_nodes) = {new_edge ''a'' ''b'', new_edge ''b'' ''a''}"
    by (auto simp: two_nodes_def new_edge_def)
qed

lemma two_nodes_mutual: "mutual (mesh_edges two_nodes) ''a'' ''b''" "mutual (mesh_edges two_nodes) ''b'' ''a''"
  by (simp_all add: mutual_def two_nodes_edges new_edge_def)

lemma two_nodes_direct: "direct_mesh ''a'' two_nodes"
  unfolding direct_mesh_def two_nodes_edges(2) using two_nodes_edges(1) by (simp add: new_edge_def) (simp add: two_nodes_def)

section \<open>Properties\<close>

text \<open>
  Property C4. When the recomputation ends, a node is marked reachable exactly when links that exist
  in both directions lead to it; the scripts have run for exactly the nodes whose reachability
  changed, in the order of the nodes; the subnet caches agree with the new reachability while
  the table itself is unchanged; and with \<^verbatim>\<open>DeviceStandby\<close> the device is disabled when the
  last other node went away and enabled when other nodes are reachable none of which was before.
\<close>

theorem graph_reachability:
  assumes "edges_inv (mesh_edges s)" "distinct (node_names s)" "caches_inv r (mesh_subnets s)"
    and "graph me now standby fuel s = Graph_Done s' rep action"
    and R: "R = {n \<in> set (node_names s). (mutual (mesh_edges s))\<^sup>*\<^sup>* me n \<and> n \<noteq> me}"
    and Q: "Q = {n \<in> set (node_names s). reachable (mesh_nodes s n) \<and> n \<noteq> me}"
  shows "(\<forall>n \<in> set (node_names s). reachable (mesh_nodes s' n) \<longleftrightarrow> (mutual (mesh_edges s))\<^sup>*\<^sup>* me n) \<and>
    host_scripts rep = map (\<lambda>n. (n, reachable (mesh_nodes s' n)))
      (filter (\<lambda>n. reachable (mesh_nodes s' n) \<noteq> reachable (mesh_nodes s n)) (node_names s)) \<and>
    caches_inv (\<lambda>n. reachable (mesh_nodes s' n)) (mesh_subnets s') \<and>
    subnet_tree (mesh_subnets s') = subnet_tree (mesh_subnets s) \<and>
    node_subnets (mesh_subnets s') = node_subnets (mesh_subnets s) \<and>
    action = (if standby \<and> R = {} \<and> Q \<noteq> {} then Some Device_Disable
              else if standby \<and> R \<noteq> {} \<and> R \<inter> Q = {} then Some Device_Enable else None)"
proof -
  obtain st tree where "mst_kruskal (reverse_edge (mesh_edges s)) (links (edge_weight_tree (mesh_edges s))) st =
      (mesh_nodes s', mst_connections s', tree)"
    and new: "\<And>n. n \<in> set (node_names s) \<Longrightarrow> reachable (st n) \<longleftrightarrow> (mutual (mesh_edges s))\<^sup>*\<^sup>* me n"
    and same: "\<And>n. reachable (mesh_nodes s' n) = reachable (st n)"
    and sub: "mesh_subnets s' = subnet_cache_flush (mesh_subnets s)"
    and scripts: "host_scripts rep = map (\<lambda>n. (n, (mutual (mesh_edges s))\<^sup>*\<^sup>* me n))
       (filter (\<lambda>n. (mutual (mesh_edges s))\<^sup>*\<^sup>* me n \<noteq> reachable (mesh_nodes s n)) (node_names s))"
    and act: "action = standby_action standby rep"
    and counts: "reachable_count rep = length (filter (\<lambda>n. (mutual (mesh_edges s))\<^sup>*\<^sup>* me n \<and> n \<noteq> me) (node_names s))"
      "became_unreachable_count rep = length (filter (\<lambda>n. \<not> (mutual (mesh_edges s))\<^sup>*\<^sup>* me n \<and>
         reachable (mesh_nodes s n) \<and> n \<noteq> me) (node_names s))"
      "became_reachable_count rep = length (filter (\<lambda>n. (mutual (mesh_edges s))\<^sup>*\<^sup>* me n \<and>
         \<not> reachable (mesh_nodes s n) \<and> n \<noteq> me) (node_names s))"
    by (rule graph_done [OF assms(1,2,4)]) (rule that)
  have card: "length (filter P (node_names s)) = card {n \<in> set (node_names s). P n}" for P
    using distinct_card [OF distinct_filter [OF assms(2)], of P] by simp
  have "{n \<in> set (node_names s). \<not> (mutual (mesh_edges s))\<^sup>*\<^sup>* me n \<and> reachable (mesh_nodes s n) \<and> n \<noteq> me} = Q - R"
    "{n \<in> set (node_names s). (mutual (mesh_edges s))\<^sup>*\<^sup>* me n \<and> \<not> reachable (mesh_nodes s n) \<and> n \<noteq> me} = R - Q"
    by (auto simp: R Q)
  then have c: "reachable_count rep = card R" "became_unreachable_count rep = card (Q - R)" "became_reachable_count rep = card (R - Q)"
    unfolding counts card R [symmetric] by simp_all
  have fin: "finite R" "finite Q" by (simp_all add: R Q)
  have "card R = card (R - Q) \<longleftrightarrow> R \<inter> Q = {}"
    using fin by (metis Diff_subset Diff_triv Int_Diff card_subset_eq Diff_disjoint)
  then have "action = (if standby \<and> R = {} \<and> Q \<noteq> {} then Some Device_Disable
      else if standby \<and> R \<noteq> {} \<and> R \<inter> Q = {} then Some Device_Enable else None)"
    unfolding act standby_action_def c using fin by (auto simp: card_gt_0_iff)
  moreover have "caches_inv (\<lambda>n. reachable (mesh_nodes s' n)) (mesh_subnets s')"
    unfolding sub using assms(3) by (intro flush_caches_inv) (simp_all add: caches_inv_def)
  moreover have "host_scripts rep = map (\<lambda>n. (n, reachable (mesh_nodes s' n)))
      (filter (\<lambda>n. reachable (mesh_nodes s' n) \<noteq> reachable (mesh_nodes s n)) (node_names s))"
    unfolding scripts same using new by (intro map_cong filter_cong) auto
  ultimately show ?thesis using new same sub by simp
qed

theorem graph_reachability_witness:
  "\<exists>s' rep action. graph ''a'' 0 True 100 two_nodes = Graph_Done s' rep action \<and>
     reachable (mesh_nodes s' ''b'') \<and> action = Some Device_Enable"
proof -
  have "length (links (edge_weight_tree (mesh_edges two_nodes))) \<le> 2" unfolding two_nodes_def by code_simp
  then have "1 + length (node_names two_nodes) * Suc (length (links (edge_weight_tree (mesh_edges two_nodes)))) \<le> 100"
    by (simp add: two_nodes_def)
  from direct_mesh_ends [OF two_nodes_direct this] obtain s' rep action where
    run: "graph ''a'' 0 True 100 two_nodes = Graph_Done s' rep action" by blast
  have names: "node_names two_nodes = [''a'', ''b'']" "mesh_subnets two_nodes = init_subnets"
    "\<And>n. reachable (mesh_nodes two_nodes n) = False" by (simp_all add: two_nodes_def new_node_def)
  have reach: "(mutual (mesh_edges two_nodes))\<^sup>*\<^sup>* ''a'' ''b''" using two_nodes_mutual(1) by (rule r_into_rtranclp)
  have "distinct (node_names two_nodes)" "caches_inv (\<lambda>_. False) (mesh_subnets two_nodes)"
    by (simp_all add: names init_caches_inv)
  from graph_reachability [OF two_nodes_edges(1) this run refl refl]
  have "\<forall>n \<in> set (node_names two_nodes). reachable (mesh_nodes s' n) \<longleftrightarrow> (mutual (mesh_edges two_nodes))\<^sup>*\<^sup>* ''a'' n"
    "action = Some Device_Enable" using reach by (auto simp: names)
  with reach run show ?thesis by (auto simp: names)
qed

text \<open>
  Property C8. On a mesh whose edges lead to known nodes and carry no indirect option, the
  recomputation always ends and never runs into the \<^verbatim>\<open>abort()\<close>: within a number of rounds of
  the search given by the numbers of nodes and edges.
\<close>

theorem graph_terminates:
  assumes "direct_mesh me s"
    and "1 + length (node_names s) * Suc (length (links (edge_weight_tree (mesh_edges s)))) \<le> fuel"
  shows "\<exists>s' rep action. graph me now standby fuel s = Graph_Done s' rep action"
  by (rule direct_mesh_ends [OF assms])

theorem graph_terminates_witness: "\<exists>s' rep action. graph ''a'' 5 False 7 two_nodes = Graph_Done s' rep action"
proof (rule graph_terminates [OF two_nodes_direct])
  have "length (links (edge_weight_tree (mesh_edges two_nodes))) = 2" unfolding two_nodes_def by code_simp
  then show "1 + length (node_names two_nodes) * Suc (length (links (edge_weight_tree (mesh_edges two_nodes)))) \<le> 7"
    by (simp add: two_nodes_def)
qed

text \<open>
  Property C6. When the recomputation ends on a mesh with a link to another node, the connections marked
  for broadcasts are those of a minimum spanning tree: there are edges, each of them with a reverse
  edge and one less than there are reachable nodes, that connect all reachable nodes; no other set
  of such edges that does has a smaller total weight; and a connection is marked exactly
  when it carries one of these edges or the reverse of one.
\<close>

theorem graph_broadcast_tree:
  assumes inv: "edges_inv (mesh_edges s)" and names: "distinct (node_names s)"
    and ends: "edge_from ` edges (mesh_edges s) \<subseteq> set (node_names s)" and me: "mutual (mesh_edges s) me n"
    and run: "graph me now standby fuel s = Graph_Done s' rep action"
    and R: "R = {v. (mutual (mesh_edges s))\<^sup>*\<^sup>* me v}"
  shows "\<exists>tree. set tree \<subseteq> mutual_edges (mesh_edges s) \<and> card R = Suc (length tree) \<and>
    (\<forall>v \<in> R. connected (set tree) {me} v) \<and>
    (\<forall>F \<subseteq> mutual_edges (mesh_edges s). (\<forall>v \<in> R. connected F {me} v) \<longrightarrow>
       sum_list (map edge_weight tree) \<le> (\<Sum>e \<in> F. edge_weight e)) \<and>
    (\<forall>c. mst_connections s' c \<longleftrightarrow> (\<exists>e \<in> set tree. edge_connection e = Some c \<or>
       (\<exists>r. reverse_edge (mesh_edges s) e = Some r \<and> edge_connection r = Some c)))"
proof -
  let ?es = "mesh_edges s" and ?l = "links (edge_weight_tree (mesh_edges s))"
  obtain st tree where mst: "mst_kruskal (reverse_edge ?es) ?l st = (mesh_nodes s', mst_connections s', tree)"
    and new: "\<And>n. n \<in> set (node_names s) \<Longrightarrow> reachable (st n) \<longleftrightarrow> (mutual ?es)\<^sup>*\<^sup>* me n"
    by (rule graph_done [OF inv names run]) (rule that)
  from me obtain e where e: "e \<in> edges ?es" "edge_from e = me" by (auto simp: mutual_def)
  then have start: "\<exists>e \<in> set ?l. reachable (st (edge_from e))" using new [of me] ends by (auto simp: edges_def)
  have "\<forall>e \<in> set ?l. 0 \<le> edge_weight e" using edges_ok [OF inv] by (auto simp: edges_def edge_ok_def)
  from mst_kruskal_minimal [OF edge_weights_sorted [OF inv] this start mutual_edges_usable [OF inv, symmetric]]
  obtain u st1 mst1 tree1 where run1: "mst_kruskal (reverse_edge ?es) ?l st = (st1, mst1, tree1)"
    and u: "u \<in> edge_from ` set ?l" "reachable (st u)" and sub: "set tree1 \<subseteq> mutual_edges ?es"
    and V: "visited_set st1 = {v. connected (mutual_edges ?es) {u} v}"
    and span: "\<forall>v \<in> visited_set st1. connected (set tree1) {u} v"
    and card: "card (visited_set st1) = Suc (length tree1)"
    and least: "\<forall>F \<subseteq> mutual_edges ?es. (\<forall>v \<in> visited_set st1. connected F {u} v) \<longrightarrow>
       sum_list (map edge_weight tree1) \<le> (\<Sum>e \<in> F. edge_weight e)"
    and flags: "\<forall>c. mst1 c \<longleftrightarrow> (\<exists>e \<in> set tree1. edge_connection e = Some c \<or>
       (\<exists>r. reverse_edge ?es e = Some r \<and> edge_connection r = Some c))"
    by (elim exE conjE) (rule that)
  have mst1: "mst_connections s' = mst1" using run1 mst by simp
  have "(mutual ?es)\<^sup>*\<^sup>* me u" using u new [of u] ends by (auto simp: edges_def)
  then have conn: "connected (mutual_edges ?es) {me} u" by (simp add: connected_mutual)
  have VR: "visited_set st1 = R"
    using connected_move [OF conn] by (auto simp: V R connected_mutual [symmetric])
  have "u \<in> R" "me \<in> R" using \<open>(mutual ?es)\<^sup>*\<^sup>* me u\<close> by (simp_all add: R)
  have move: "(\<forall>v \<in> R. connected F {me} v) \<longleftrightarrow> (\<forall>v \<in> R. connected F {u} v)" for F
    using \<open>u \<in> R\<close> \<open>me \<in> R\<close> connected_move [of F] by blast
  from sub card span least flags show ?thesis unfolding VR move mst1 by (intro exI [of _ tree1] conjI)
qed

theorem graph_broadcast_tree_witness:
  "\<exists>s' rep action tree. graph ''a'' 0 True 100 two_nodes = Graph_Done s' rep action \<and>
     set tree \<subseteq> mutual_edges (mesh_edges two_nodes) \<and> connected (set tree) {''a''} ''b''"
proof -
  have "length (links (edge_weight_tree (mesh_edges two_nodes))) \<le> 2" unfolding two_nodes_def by code_simp
  then have "1 + length (node_names two_nodes) * Suc (length (links (edge_weight_tree (mesh_edges two_nodes)))) \<le> 100"
    by (simp add: two_nodes_def)
  from direct_mesh_ends [OF two_nodes_direct this] obtain s' rep action where
    run: "graph ''a'' 0 True 100 two_nodes = Graph_Done s' rep action" by blast
  have names: "distinct (node_names two_nodes)" "edge_from ` edges (mesh_edges two_nodes) \<subseteq> set (node_names two_nodes)"
    unfolding two_nodes_edges by (simp_all add: two_nodes_def new_edge_def)
  have "(mutual (mesh_edges two_nodes))\<^sup>*\<^sup>* ''a'' ''b''" using two_nodes_mutual(1) by (rule r_into_rtranclp)
  with graph_broadcast_tree [OF two_nodes_edges(1) names two_nodes_mutual(1) run refl] run show ?thesis by auto
qed

end
