(* ===== verification/Graph_Loop.thy ===== *)
theory Graph_Loop
  imports Graph_Bfs
begin

text \<open>
  A mesh on which \<^verbatim>\<open>sssp_bfs\<close> does not come to an end: the condition on which a node is
  examined again lets a cheaper but indirect edge at the same distance replace a direct one, and a
  direct one at a greater distance replace an indirect one, so that two waves can chase each other
  around a ring.
\<close>

section \<open>A mesh on which the search does not end\<close>

text \<open>
  Ten nodes around the own node \<open>M\<close>. The nodes \<open>a b c\<close> and \<open>d e f\<close> are two rings; a wave of direct
  paths runs around the second one, and a wave of cheaper indirect paths follows and undoes it, so
  that every lap is an improvement again and only the distances grow.
\<close>

definition loop_table :: "(string \<times> (string \<times> int \<times> bool) list) list" where
  "loop_table =
     [(''M'', [(''a'', 30, True), (''b'', 30, True), (''c'', 30, True), (''d'', 30, True), (''e'', 30, True), (''f'', 30, True), (''m'', 1, False), (''p'', 30, True), (''y'', 30, True), (''z'', 1, False)]),
      (''a'', [(''M'', 100, True), (''b'', 15, True), (''c'', 100, True), (''e'', 5, True), (''f'', 100, True), (''p'', 100, True), (''y'', 100, True)]),
      (''b'', [(''M'', 100, True), (''a'', 100, True), (''c'', 15, True), (''d'', 100, True), (''f'', 5, True)]),
      (''c'', [(''M'', 100, True), (''a'', 15, True), (''b'', 100, True), (''d'', 5, True), (''e'', 100, True)]),
      (''d'', [(''M'', 100, True), (''b'', 20, False), (''c'', 100, True), (''e'', 10, False), (''f'', 100, True), (''p'', 100, True), (''y'', 100, True)]),
      (''e'', [(''M'', 100, True), (''a'', 100, True), (''c'', 20, False), (''d'', 100, True), (''f'', 10, False)]),
      (''f'', [(''M'', 100, True), (''a'', 20, False), (''b'', 100, True), (''d'', 10, False), (''e'', 100, True)]),
      (''m'', [(''M'', 100, True), (''p'', 10, False)]),
      (''p'', [(''M'', 100, True), (''a'', 20, False), (''d'', 10, False), (''m'', 100, True)]),
      (''y'', [(''M'', 100, True), (''a'', 15, True), (''d'', 5, True), (''z'', 100, True)]),
      (''z'', [(''M'', 100, True), (''y'', 1, False)])]"

definition loop_edge :: "string \<Rightarrow> string \<times> int \<times> bool \<Rightarrow> edge" where
  "loop_edge n = (\<lambda>(t, w, ind). \<lparr>edge_from = n, edge_to = t, edge_address = AF_UNSPEC, edge_local_address = AF_UNSPEC,
     edge_options = (if ind then OPTION_INDIRECT else 0), edge_weight = w, edge_connection = None\<rparr>)"

definition loop_adj :: "string \<Rightarrow> edge list" where
  "loop_adj n = (case map_of loop_table n of None \<Rightarrow> [] | Some l \<Rightarrow> map (loop_edge n) l)"

lemma loop_edge_fields [simp]:
  "edge_to (loop_edge n (t, w, ind)) = t" "edge_weight (loop_edge n (t, w, ind)) = w"
  "edge_options (loop_edge n (t, w, ind)) AND OPTION_INDIRECT = 0 \<longleftrightarrow> \<not> ind"
  by (simp_all add: loop_edge_def)

lemma loop_adj_ring:
  "loop_adj ''M'' = map (loop_edge ''M'') [(''a'', 30, True), (''b'', 30, True), (''c'', 30, True), (''d'', 30, True), (''e'', 30, True), (''f'', 30, True), (''m'', 1, False), (''p'', 30, True), (''y'', 30, True), (''z'', 1, False)]"
  "loop_adj ''m'' = map (loop_edge ''m'') [(''M'', 100, True), (''p'', 10, False)]"
  "loop_adj ''p'' = map (loop_edge ''p'') [(''M'', 100, True), (''a'', 20, False), (''d'', 10, False), (''m'', 100, True)]"
  "loop_adj ''y'' = map (loop_edge ''y'') [(''M'', 100, True), (''a'', 15, True), (''d'', 5, True), (''z'', 100, True)]"
  "loop_adj ''z'' = map (loop_edge ''z'') [(''M'', 100, True), (''y'', 1, False)]"
  "loop_adj ''a'' = map (loop_edge ''a'') [(''M'', 100, True), (''b'', 15, True), (''c'', 100, True), (''e'', 5, True), (''f'', 100, True), (''p'', 100, True), (''y'', 100, True)]"
  "loop_adj ''b'' = map (loop_edge ''b'') [(''M'', 100, True), (''a'', 100, True), (''c'', 15, True), (''d'', 100, True), (''f'', 5, True)]"
  "loop_adj ''c'' = map (loop_edge ''c'') [(''M'', 100, True), (''a'', 15, True), (''b'', 100, True), (''d'', 5, True), (''e'', 100, True)]"
  "loop_adj ''d'' = map (loop_edge ''d'') [(''M'', 100, True), (''b'', 20, False), (''c'', 100, True), (''e'', 10, False), (''f'', 100, True), (''p'', 100, True), (''y'', 100, True)]"
  "loop_adj ''e'' = map (loop_edge ''e'') [(''M'', 100, True), (''a'', 100, True), (''c'', 20, False), (''d'', 100, True), (''f'', 10, False)]"
  "loop_adj ''f'' = map (loop_edge ''f'') [(''M'', 100, True), (''a'', 20, False), (''b'', 100, True), (''d'', 10, False), (''e'', 100, True)]"
  by (simp_all add: loop_adj_def loop_table_def)

text \<open>The state at the start of a round: \<open>v u\<close> just reached, \<open>v' u'\<close> the ones before, \<open>v'' u''\<close> older.\<close>

definition loop_inv :: "string \<Rightarrow> string \<Rightarrow> string \<Rightarrow> string \<Rightarrow> string \<Rightarrow> string \<Rightarrow> int \<Rightarrow> gnodes \<Rightarrow> bool" where
  "loop_inv v u v' u' v'' u'' d st \<longleftrightarrow>
     visited (st v) \<and> \<not> indirect (st v) \<and> distance (st v) = d \<and> prev_weight (st v) = 20 \<and>
     visited (st u) \<and> \<not> indirect (st u) \<and> distance (st u) = d \<and> prev_weight (st u) = 10 \<and>
     visited (st v') \<and> indirect (st v') \<and> distance (st v') = d - 1 \<and>
     visited (st u') \<and> indirect (st u') \<and> distance (st u') = d - 1 \<and>
     visited (st v'') \<and> indirect (st v'') \<and> distance (st v'') \<le> d - 2 \<and>
     visited (st u'') \<and> indirect (st u'') \<and> distance (st u'') \<le> d - 2 \<and>
     visited (st ''p'') \<and> distance (st ''p'') \<le> 2 \<and> visited (st ''y'') \<and> distance (st ''y'') \<le> 2 \<and>
     4 \<le> d \<and> d < 2147483647"

lemmas bfs_symbolic = bfs_node_def loop_adj_ring bfs_edge_def edge_no_better_def

lemma loop_inv_distance:
  assumes "loop_inv v u v' u' v'' u'' d st"
  shows "c_int d = d" "d < 2147483646 \<Longrightarrow> c_int (d + 1) = d + 1"
  using assms by (auto simp: loop_inv_def c_int_ok_def intro!: c_int_id)

text \<open>One round for each position of the wave; four nodes are examined.\<close>

lemma loop_round_a:
  assumes "loop_inv ''a'' ''d'' ''c'' ''f'' ''b'' ''e'' d st" "d < 2147483646"
  shows "\<exists>st'. bfs_run ''M'' (\<lambda>_. True) loop_adj (Suc (Suc (Suc (Suc fuel)))) [''a'', ''d'', ''c'', ''f''] st =
      bfs_run ''M'' (\<lambda>_. True) loop_adj fuel [''b'', ''e'', ''a'', ''d''] st' \<and>
    loop_inv ''b'' ''e'' ''a'' ''d'' ''c'' ''f'' (d + 1) st'"
  using assms loop_inv_distance [OF assms(1)] unfolding loop_inv_def
  by (simp add: bfs_symbolic) (rule exI, rule conjI, rule refl, simp)

lemma loop_round_b:
  assumes "loop_inv ''b'' ''e'' ''a'' ''d'' ''c'' ''f'' d st" "d < 2147483646"
  shows "\<exists>st'. bfs_run ''M'' (\<lambda>_. True) loop_adj (Suc (Suc (Suc (Suc fuel)))) [''b'', ''e'', ''a'', ''d''] st =
      bfs_run ''M'' (\<lambda>_. True) loop_adj fuel [''c'', ''f'', ''b'', ''e''] st' \<and>
    loop_inv ''c'' ''f'' ''b'' ''e'' ''a'' ''d'' (d + 1) st'"
  using assms loop_inv_distance [OF assms(1)] unfolding loop_inv_def
  by (simp add: bfs_symbolic) (rule exI, rule conjI, rule refl, simp)

lemma loop_round_c:
  assumes "loop_inv ''c'' ''f'' ''b'' ''e'' ''a'' ''d'' d st" "d < 2147483646"
  shows "\<exists>st'. bfs_run ''M'' (\<lambda>_. True) loop_adj (Suc (Suc (Suc (Suc fuel)))) [''c'', ''f'', ''b'', ''e''] st =
      bfs_run ''M'' (\<lambda>_. True) loop_adj fuel [''a'', ''d'', ''c'', ''f''] st' \<and>
    loop_inv ''a'' ''d'' ''c'' ''f'' ''b'' ''e'' (d + 1) st'"
  using assms loop_inv_distance [OF assms(1)] unfolding loop_inv_def
  by (simp add: bfs_symbolic) (rule exI, rule conjI, rule refl, simp)

lemma loop_prefix:
  "\<exists>st'. bfs_run ''M'' (\<lambda>_. True) loop_adj (fuel + 15) [''M''] (bfs_begin ''M'' st) =
     bfs_run ''M'' (\<lambda>_. True) loop_adj fuel [''b'', ''e'', ''a'', ''d''] st' \<and>
     loop_inv ''b'' ''e'' ''a'' ''d'' ''c'' ''f'' 4 st'"
proof -
  have c: "c_int 1 = 1" "c_int 2 = 2" "c_int 3 = 3" "c_int 4 = 4"
    by (simp_all add: c_int_id c_int_ok_def)
  have fuel: "fuel + 15 = Suc (Suc (Suc (Suc (Suc (Suc (Suc (Suc (Suc (Suc (Suc (Suc (Suc (Suc (Suc fuel))))))))))))))"
    by simp
  show ?thesis unfolding fuel loop_inv_def
    by (simp add: bfs_symbolic bfs_begin_def bfs_clear_def c)
       (rule exI, rule conjI, rule refl, simp add: c)
qed


text \<open>However long the wave runs, something is waiting to be examined.\<close>

definition bfs_waiting :: "bfs_outcome \<Rightarrow> bool" where
  "bfs_waiting r = (case r of Bfs_Running todo st \<Rightarrow> todo \<noteq> [] | _ \<Rightarrow> False)"

lemma loop_rounds:
  "d + int k < 2147483646 \<Longrightarrow>
     (loop_inv ''a'' ''d'' ''c'' ''f'' ''b'' ''e'' d st \<longrightarrow>
        bfs_waiting (bfs_run ''M'' (\<lambda>_. True) loop_adj (4 * k) [''a'', ''d'', ''c'', ''f''] st)) \<and>
     (loop_inv ''b'' ''e'' ''a'' ''d'' ''c'' ''f'' d st \<longrightarrow>
        bfs_waiting (bfs_run ''M'' (\<lambda>_. True) loop_adj (4 * k) [''b'', ''e'', ''a'', ''d''] st)) \<and>
     (loop_inv ''c'' ''f'' ''b'' ''e'' ''a'' ''d'' d st \<longrightarrow>
        bfs_waiting (bfs_run ''M'' (\<lambda>_. True) loop_adj (4 * k) [''c'', ''f'', ''b'', ''e''] st))"
proof (induction k arbitrary: d st)
  case 0
  show ?case by (simp add: bfs_waiting_def)
next
  case (Suc k)
  have fuel: "4 * Suc k = Suc (Suc (Suc (Suc (4 * k))))" by simp
  have d: "d + 1 + int k < 2147483646" "d < 2147483646" using Suc.prems by simp_all
  note IH = Suc.IH [OF d(1)]
  show ?case unfolding fuel
  proof (intro conjI impI)
    assume "loop_inv ''a'' ''d'' ''c'' ''f'' ''b'' ''e'' d st"
    from loop_round_a [OF this d(2), of "4 * k"] obtain st' where
      step: "bfs_run ''M'' (\<lambda>_. True) loop_adj (Suc (Suc (Suc (Suc (4 * k))))) [''a'', ''d'', ''c'', ''f''] st =
        bfs_run ''M'' (\<lambda>_. True) loop_adj (4 * k) [''b'', ''e'', ''a'', ''d''] st'"
      and inv: "loop_inv ''b'' ''e'' ''a'' ''d'' ''c'' ''f'' (d + 1) st'" by blast
    show "bfs_waiting (bfs_run ''M'' (\<lambda>_. True) loop_adj (Suc (Suc (Suc (Suc (4 * k))))) [''a'', ''d'', ''c'', ''f''] st)"
      unfolding step by (rule IH [THEN conjunct2, THEN conjunct1, THEN mp, OF inv])
  next
    assume "loop_inv ''b'' ''e'' ''a'' ''d'' ''c'' ''f'' d st"
    from loop_round_b [OF this d(2), of "4 * k"] obtain st' where
      step: "bfs_run ''M'' (\<lambda>_. True) loop_adj (Suc (Suc (Suc (Suc (4 * k))))) [''b'', ''e'', ''a'', ''d''] st =
        bfs_run ''M'' (\<lambda>_. True) loop_adj (4 * k) [''c'', ''f'', ''b'', ''e''] st'"
      and inv: "loop_inv ''c'' ''f'' ''b'' ''e'' ''a'' ''d'' (d + 1) st'" by blast
    show "bfs_waiting (bfs_run ''M'' (\<lambda>_. True) loop_adj (Suc (Suc (Suc (Suc (4 * k))))) [''b'', ''e'', ''a'', ''d''] st)"
      unfolding step by (rule IH [THEN conjunct2, THEN conjunct2, THEN mp, OF inv])
  next
    assume "loop_inv ''c'' ''f'' ''b'' ''e'' ''a'' ''d'' d st"
    from loop_round_c [OF this d(2), of "4 * k"] obtain st' where
      step: "bfs_run ''M'' (\<lambda>_. True) loop_adj (Suc (Suc (Suc (Suc (4 * k))))) [''c'', ''f'', ''b'', ''e''] st =
        bfs_run ''M'' (\<lambda>_. True) loop_adj (4 * k) [''a'', ''d'', ''c'', ''f''] st'"
      and inv: "loop_inv ''a'' ''d'' ''c'' ''f'' ''b'' ''e'' (d + 1) st'" by blast
    show "bfs_waiting (bfs_run ''M'' (\<lambda>_. True) loop_adj (Suc (Suc (Suc (Suc (4 * k))))) [''c'', ''f'', ''b'', ''e''] st)"
      unfolding step by (rule IH [THEN conjunct1, THEN mp, OF inv])
  qed
qed

lemma bfs_run_more:
  "\<not> bfs_waiting (bfs_run me has_rev adj fuel todo st) \<Longrightarrow>
     bfs_run me has_rev adj (fuel + k) todo st = bfs_run me has_rev adj fuel todo st"
proof (induction me has_rev adj fuel todo st rule: bfs_run.induct)
  case (3 me has_rev adj fuel n todo st)
  obtain st' added where node: "bfs_node me has_rev adj n st = (st', added)" by fastforce
  show ?case
  proof (cases "distance (st n) < 0")
    case False
    with 3(2) node have "\<not> bfs_waiting (bfs_run me has_rev adj fuel (todo @ added) st')" by simp
    from 3(1) [OF False node [symmetric] this] show ?thesis using False node by simp
  qed simp
qed (simp_all add: bfs_waiting_def)

lemma loop_adj_reverse:
  assumes e: "e \<in> set (loop_adj n)"
  shows "\<exists>e' \<in> set (loop_adj (edge_to e)). edge_to e' = n"
proof -
  have "\<forall>(n, l) \<in> set loop_table. \<forall>e \<in> set (loop_adj n). \<exists>e' \<in> set (loop_adj (edge_to e)). edge_to e' = n"
    by code_simp
  moreover obtain l where "(n, l) \<in> set loop_table"
    using e by (cases "map_of loop_table n") (auto simp: loop_adj_def dest: map_of_SomeD)
  ultimately show ?thesis using e by blast
qed

section \<open>Property\<close>

text \<open>
  Property C9. There is a mesh of eleven nodes, in which every edge has its reverse edge, on which
  the search still has nodes to examine after every number of rounds up to \<open>2 ^ 32\<close>, whatever the
  nodes looked like before: the distances grow with every lap, until after about \<open>2 ^ 33\<close> rounds
  they exceed the range of the \<^verbatim>\<open>int\<close> that holds them.
\<close>

theorem sssp_bfs_runs_on:
  assumes "fuel \<le> 2 ^ 32"
  shows "(\<forall>n. \<forall>e \<in> set (loop_adj n). \<exists>e' \<in> set (loop_adj (edge_to e)). edge_to e' = n) \<and>
    (\<exists>todo st'. sssp_bfs ''M'' (\<lambda>_. True) loop_adj fuel st = Bfs_Running todo st' \<and> todo \<noteq> [])"
proof
  show "\<forall>n. \<forall>e \<in> set (loop_adj n). \<exists>e' \<in> set (loop_adj (edge_to e)). edge_to e' = n"
    by (intro allI ballI) (rule loop_adj_reverse)
next
  obtain st1 where "loop_inv ''b'' ''e'' ''a'' ''d'' ''c'' ''f'' 4 st1"
    and run: "bfs_run ''M'' (\<lambda>_. True) loop_adj (4 * 2 ^ 30 + 15) [''M''] (bfs_begin ''M'' st) =
      bfs_run ''M'' (\<lambda>_. True) loop_adj (4 * 2 ^ 30) [''b'', ''e'', ''a'', ''d''] st1"
    using loop_prefix [of "4 * 2 ^ 30" st] by blast
  then have "bfs_waiting (bfs_run ''M'' (\<lambda>_. True) loop_adj (4 * 2 ^ 30 + 15) [''M''] (bfs_begin ''M'' st))"
    using loop_rounds [of 4 "2 ^ 30" st1] by simp
  moreover have "fuel + (4 * 2 ^ 30 + 15 - fuel) = 4 * 2 ^ 30 + 15" using assms by simp
  ultimately have "bfs_waiting (bfs_run ''M'' (\<lambda>_. True) loop_adj fuel [''M''] (bfs_begin ''M'' st))"
    using bfs_run_more [of "''M''" "\<lambda>_. True" loop_adj fuel "[''M'']" "bfs_begin ''M'' st" "4 * 2 ^ 30 + 15 - fuel"]
    by metis
  then show "\<exists>todo st'. sssp_bfs ''M'' (\<lambda>_. True) loop_adj fuel st = Bfs_Running todo st' \<and> todo \<noteq> []"
    by (auto simp: sssp_bfs_def bfs_waiting_def split: bfs_outcome.splits)
qed

theorem sssp_bfs_runs_on_witness:
  "\<exists>todo st'. sssp_bfs ''M'' (\<lambda>_. True) loop_adj 1000000 (\<lambda>_. new_node) = Bfs_Running todo st' \<and> todo \<noteq> []"
  using sssp_bfs_runs_on [of 1000000 "\<lambda>_. new_node"] by simp

end
