(* ===== verification/Packet.thy ===== *)
theory Packet
  imports Prelude
begin

text \<open>
  Packets in their buffers, the Internet checksum and the limit on the rate of error messages
  (the first part of \<^verbatim>\<open>route.c\<close>). The bytes from \<^verbatim>\<open>DATA(packet)\<close> on are a store addressed
  from zero; the buffer behind it ends at \<^verbatim>\<open>MAXSIZE\<close>, and the properties on packets state
  how far a handler writes. The host is little-endian, so \<^verbatim>\<open>memcpy\<close> of two bytes into a
  \<^verbatim>\<open>uint16_t\<close> reads the low byte first.
\<close>

section \<open>Packets\<close>

record vpn_packet =
  pkt_len :: nat
  pkt_data :: "nat \<Rightarrow> byte"
  pkt_priority :: int

text \<open>Reading and writing blocks of the buffer (\<^verbatim>\<open>memcpy\<close>).\<close>

definition get_bytes :: "(nat \<Rightarrow> byte) \<Rightarrow> nat \<Rightarrow> nat \<Rightarrow> bytes" where
  "get_bytes d i n = map d [i ..< i + n]"

definition put_bytes :: "(nat \<Rightarrow> byte) \<Rightarrow> nat \<Rightarrow> bytes \<Rightarrow> nat \<Rightarrow> byte" where
  "put_bytes d i bs = (\<lambda>j. if i \<le> j \<and> j < i + length bs then bs ! (j - i) else d j)"

definition put_data :: "nat \<Rightarrow> bytes \<Rightarrow> vpn_packet \<Rightarrow> vpn_packet" where
  "put_data i bs p = p\<lparr>pkt_data := put_bytes (pkt_data p) i bs\<rparr>"

abbreviation data_at :: "vpn_packet \<Rightarrow> nat \<Rightarrow> byte" where
  "data_at p i \<equiv> pkt_data p i"

abbreviation data_be16 :: "vpn_packet \<Rightarrow> nat \<Rightarrow> nat" where
  "data_be16 p i \<equiv> be16_nat (data_at p i) (data_at p (Suc i))"

text \<open>The contents of the packet: the first \<^verbatim>\<open>len\<close> bytes.\<close>

definition contents :: "vpn_packet \<Rightarrow> bytes" where
  "contents p = get_bytes (pkt_data p) 0 (pkt_len p)"

lemma length_get_bytes [simp]: "length (get_bytes d i n) = n"
  by (simp add: get_bytes_def)

lemma nth_get_bytes [simp]: "k < n \<Longrightarrow> get_bytes d i n ! k = d (i + k)"
  by (simp add: get_bytes_def)

lemma get_put_same [byte_simps]: "n = length bs \<Longrightarrow> get_bytes (put_bytes d i bs) i n = bs"
  by (rule nth_equalityI) (simp_all add: put_bytes_def)

lemma get_put_other [byte_simps]:
  "j + n \<le> i \<or> i + length bs \<le> j \<Longrightarrow> get_bytes (put_bytes d i bs) j n = get_bytes d j n"
  by (rule nth_equalityI) (auto simp: put_bytes_def)

lemma put_bytes_at [byte_simps]:
  "j < i \<or> i + length bs \<le> j \<Longrightarrow> put_bytes d i bs j = d j"
  by (auto simp: put_bytes_def)

lemma put_data_fields [simp]:
  "pkt_len (put_data i bs p) = pkt_len p" "pkt_priority (put_data i bs p) = pkt_priority p"
  "pkt_data (put_data i bs p) = put_bytes (pkt_data p) i bs"
  by (simp_all add: put_data_def)

section \<open>The Internet checksum\<close>

fun add_words :: "bytes \<Rightarrow> u32 \<Rightarrow> u32" where
  "add_words (a # b # bs) s = add_words bs (s + (ucast a + 256 * ucast b))"
| "add_words [a] s = s + ucast a"
| "add_words [] s = s"

function fold_carry :: "u32 \<Rightarrow> u32" where
  "fold_carry s = (if drop_bit 16 s \<noteq> 0 then fold_carry ((s AND 0xFFFF) + drop_bit 16 s) else s)"
  by pat_completeness auto

lemma drop_bit_16_nat: "unat (drop_bit 16 (s::u32)) = unat s div 65536"
  by (simp add: drop_bit_eq_div unat_div)

lemma low_16_nat: "unat ((s::u32) AND 0xFFFF) = unat s mod 65536"
proof -
  have "(s AND 0xFFFF) = take_bit 16 s" by (simp add: take_bit_eq_mask mask_eq_exp_minus_1)
  then show ?thesis by (simp add: take_bit_eq_mod unat_mod)
qed

lemma carry_step_nat: "unat ((s AND 0xFFFF) + drop_bit 16 (s::u32)) = unat s mod 65536 + unat s div 65536"
proof -
  have "unat s < 4294967296" using unsigned_less [of s, where 'a = nat] by simp
  then have "unat s mod 65536 + unat s div 65536 < 4294967296" by linarith
  then show ?thesis by (simp add: unat_word_ariths low_16_nat drop_bit_16_nat)
qed

termination fold_carry
proof (relation "measure unat")
  fix s :: u32
  assume "drop_bit 16 s \<noteq> 0"
  then have "0 < unat s div 65536" unfolding drop_bit_16_nat [symmetric] by (simp add: unat_gt_0)
  then have "unat s mod 65536 + unat s div 65536 < unat s" using div_mult_mod_eq [of "unat s" 65536] by linarith
  then show "((s AND 0xFFFF) + drop_bit 16 s, s) \<in> measure unat" by (simp only: in_measure carry_step_nat)
qed simp

declare fold_carry.simps [simp del]

definition inet_checksum :: "bytes \<Rightarrow> u16 \<Rightarrow> u16" where
  "inet_checksum data prevsum = NOT (ucast (fold_carry (add_words data (ucast (prevsum XOR 0xFFFF)))))"

text \<open>A \<^verbatim>\<open>uint16_t\<close> as it lies in memory.\<close>

definition le16_bytes :: "u16 \<Rightarrow> bytes" where
  "le16_bytes w = [ucast w, ucast (drop_bit 8 w)]"

section \<open>The rate limit\<close>

record ratelimit_state =
  lasttime :: int
  limit_count :: int

definition ratelimit :: "int \<Rightarrow> int \<Rightarrow> ratelimit_state \<Rightarrow> bool \<times> ratelimit_state" where
  "ratelimit now frequency st =
     (if lasttime st = now then
        if limit_count st \<ge> frequency then (True, st)
        else (False, st\<lparr>limit_count := limit_count st + 1\<rparr>)
      else (False, st\<lparr>lasttime := now, limit_count := 1\<rparr>))"

section \<open>The checksum as arithmetic modulo 65535\<close>

text \<open>The sums of RFC 1071, over words in network order and over words in host order.\<close>

fun be_sum :: "bytes \<Rightarrow> nat" where
  "be_sum (a # b # bs) = 256 * unat a + unat b + be_sum bs"
| "be_sum [a] = 256 * unat a"
| "be_sum [] = 0"

fun le_sum :: "bytes \<Rightarrow> nat" where
  "le_sum (a # b # bs) = unat a + 256 * unat b + le_sum bs"
| "le_sum [a] = unat a"
| "le_sum [] = 0"

text \<open>What the receiver of a checksummed block tests.\<close>

definition checksum_ok :: "bytes \<Rightarrow> bool" where
  "checksum_ok bs \<longleftrightarrow> be_sum bs mod 65535 = 0"

lemma le_be_sum: "le_sum bs mod 65535 = (256 * be_sum bs) mod 65535"
proof (induction bs rule: le_sum.induct)
  case (1 a b bs)
  have "256 * be_sum (a # b # bs) = (unat a + 256 * unat b + 256 * be_sum bs) + unat a * 65535" by simp
  then have "(256 * be_sum (a # b # bs)) mod 65535 = (unat a + 256 * unat b + 256 * be_sum bs) mod 65535"
    by (simp only: mod_mult_self1)
  also have "\<dots> = (unat a + 256 * unat b + le_sum bs) mod 65535" using 1 by (metis mod_add_right_eq)
  finally show ?case by simp
next
  case (2 a)
  have "256 * (256 * unat a) = unat a + unat a * 65535" by simp
  then show ?case by (simp only: be_sum.simps le_sum.simps mod_mult_self1)
qed simp

lemma checksum_ok_le: "checksum_ok bs \<longleftrightarrow> le_sum bs mod 65535 = 0"
proof -
  have "256 * (256 * be_sum bs) = 65535 * be_sum bs + be_sum bs" by simp
  then have "65535 dvd be_sum bs" if "65535 dvd 256 * be_sum bs"
    using that by (metis dvd_add_right_iff dvd_mult dvd_triv_left)
  then have "65535 dvd 256 * be_sum bs \<longleftrightarrow> 65535 dvd be_sum bs" by (meson dvd_mult)
  then show ?thesis unfolding checksum_ok_def le_be_sum by (simp only: dvd_eq_mod_eq_0)
qed

lemma le_sum_append: "even (length bs) \<Longrightarrow> le_sum (bs @ cs) = le_sum bs + le_sum cs"
  by (induction bs rule: le_sum.induct) auto

lemma le_sum_bound: "le_sum bs \<le> 65535 * length bs"
proof (induction bs rule: le_sum.induct)
  case (1 a b bs)
  then show ?case using unsigned_less [of a, where 'a = nat] unsigned_less [of b, where 'a = nat] by simp
next
  case (2 a)
  then show ?case using unsigned_less [of a, where 'a = nat] by simp
qed simp

lemma add_words_nat:
  "unat s + 65535 * length bs < 2 ^ 32 \<Longrightarrow> unat (add_words bs s) = unat s + le_sum bs"
proof (induction bs s rule: add_words.induct)
  case (1 a b bs s)
  have ab: "unat a < 256" "unat b < 256" using unsigned_less [of a, where 'a = nat] unsigned_less [of b, where 'a = nat] by simp_all
  then have w: "unat (ucast a + 256 * ucast b :: u32) = unat a + 256 * unat b"
    by (simp add: unat_word_ariths unsigned_ucast_eq take_bit_eq_mod)
  have "unat (s + (ucast a + 256 * ucast b)) = unat s + (unat a + 256 * unat b)"
    using 1(2) ab w by (simp add: unat_word_ariths(1))
  with 1 ab show ?case by simp
next
  case (2 a s)
  then show ?case using unsigned_less [of a, where 'a = nat] by (simp add: unat_word_ariths unsigned_ucast_eq take_bit_eq_mod)
qed simp

lemma fold_carry_nat: "unat (fold_carry s) < 65536 \<and> unat (fold_carry s) mod 65535 = unat s mod 65535"
proof (induction s rule: fold_carry.induct)
  case (1 s)
  show ?case
  proof (cases "drop_bit 16 s = 0")
    case True
    then have "unat s div 65536 = 0" using drop_bit_16_nat [of s] by simp
    with True show ?thesis by (subst (1 2) fold_carry.simps) (simp add: div_eq_0_iff)
  next
    case False
    have "unat s = (unat s mod 65536 + unat s div 65536) + (unat s div 65536) * 65535"
      using div_mult_mod_eq [of "unat s" 65536] by simp
    then have "unat s mod 65535 = (unat s mod 65536 + unat s div 65536) mod 65535" by (metis mod_mult_self1)
    with 1 [OF False] False show ?thesis by (subst (1 2) fold_carry.simps) (simp add: carry_step_nat)
  qed
qed

lemma not_u16_nat: "unat (NOT (w::u16)) = 65535 - unat w"
proof -
  have "NOT w = - 1 - w" by (simp add: not_eq_complement)
  then show ?thesis using unat_sub [of w "- 1"] by (simp add: unsigned_minus_1_eq_mask mask_eq_exp_minus_1)
qed

lemma complement_sum:
  assumes "c = 65535 - f" "f < 65536" "p < 65536" "f mod 65535 = (65535 - p + s) mod (65535::nat)"
  shows "(c + s) mod 65535 = p mod 65535"
proof -
  have "int f mod 65535 = (65535 - int p + int s) mod 65535"
    using arg_cong [OF assms(4), of int] assms(3) by (simp add: zmod_int of_nat_diff algebra_simps)
  then have "65535 dvd int f - (65535 - int p + int s)" by (simp add: mod_eq_dvd_iff)
  moreover have "int c + int s - int p = - (int f - (65535 - int p + int s))" using assms(1,2) by (simp add: of_nat_diff)
  ultimately have "65535 dvd int c + int s - int p" by (simp only: dvd_minus_iff)
  then have "int (c + s) mod 65535 = int p mod 65535" by (simp add: mod_eq_dvd_iff)
  then have "int ((c + s) mod 65535) = int (p mod 65535)" by (simp add: zmod_int)
  then show ?thesis by (simp only: of_nat_eq_iff)
qed

text \<open>
  The new checksum makes up for exactly the data summed: together with it the data sums to the
  checksum carried in.
\<close>

lemma inet_checksum_sum:
  assumes "length bs \<le> 65536"
  shows "(unat (inet_checksum bs prev) + le_sum bs) mod 65535 = unat prev mod 65535"
proof -
  let ?s = "ucast (prev XOR 0xFFFF) :: u32"
  have "(0xFFFF :: u16) = - 1" by simp
  then have "prev XOR 0xFFFF = NOT prev" by (simp only:) (rule bit_eqI, auto simp: bit_simps)
  then have s: "unat ?s = 65535 - unat prev"
    using unsigned_less [of prev, where 'a = nat] by (simp add: unsigned_ucast_eq take_bit_eq_mod not_u16_nat)
  let ?f = "fold_carry (add_words bs ?s)"
  have sum: "unat (add_words bs ?s) = 65535 - unat prev + le_sum bs"
    using add_words_nat [of ?s bs] assms s by simp
  have f: "unat ?f < 65536" "unat ?f mod 65535 = (65535 - unat prev + le_sum bs) mod 65535"
    using fold_carry_nat [of "add_words bs ?s"] sum by simp_all
  then have "unat (inet_checksum bs prev) = 65535 - unat ?f"
    by (simp add: inet_checksum_def not_u16_nat unsigned_ucast_eq take_bit_eq_mod)
  with f unsigned_less [of prev, where 'a = nat] show ?thesis
    by (intro complement_sum [of _ "unat ?f"]) simp_all
qed

lemma le_sum_checksum [simp]: "le_sum (le16_bytes w) = unat w"
proof -
  have "unat (drop_bit 8 w) < 256"
    using unsigned_less [of w, where 'a = nat] by (simp add: drop_bit_eq_div unat_div)
  then show ?thesis
    by (simp add: le16_bytes_def unsigned_ucast_eq take_bit_eq_mod) (simp add: drop_bit_eq_div unat_div)
qed

lemma length_le16_bytes [simp]: "length (le16_bytes w) = 2"
  by (simp add: le16_bytes_def)

text \<open>A header with its checksum filled in passes the receiver's test.\<close>

lemma inet_checksum_fills:
  assumes "even (length pre)" "length (pre @ post) \<le> 65534"
  shows "checksum_ok (pre @ le16_bytes (inet_checksum (pre @ [0, 0] @ post) (- 1)) @ post)"
proof -
  let ?c = "inet_checksum (pre @ [0, 0] @ post) (- 1)"
  have "(unat ?c + le_sum (pre @ [0, 0] @ post)) mod 65535 = 0"
    using inet_checksum_sum [of "pre @ [0, 0] @ post" "- 1"] assms(2)
    by (simp add: unsigned_minus_1_eq_mask mask_eq_exp_minus_1)
  moreover have "le_sum (pre @ le16_bytes ?c @ post) = unat ?c + le_sum (pre @ [0, 0] @ post)"
    using assms(1) by (simp add: le_sum_append)
  ultimately show ?thesis unfolding checksum_ok_le by simp
qed

text \<open>A checksum computed over two blocks, one after the other.\<close>

lemma inet_checksum_two:
  assumes "length as \<le> 65536" "length bs \<le> 65536"
  shows "(unat (inet_checksum bs (inet_checksum as (- 1))) + le_sum as + le_sum bs) mod 65535 = 0"
proof -
  let ?c = "inet_checksum as (- 1)" and ?c2 = "inet_checksum bs (inet_checksum as (- 1))"
  have "(unat ?c + le_sum as) mod 65535 = 0"
    using inet_checksum_sum [OF assms(1), of "- 1"] by (simp add: unsigned_minus_1_eq_mask mask_eq_exp_minus_1)
  moreover have "((unat ?c2 + le_sum bs) + le_sum as) mod 65535 = (unat ?c + le_sum as) mod 65535"
    by (rule mod_add_cong [OF inet_checksum_sum [OF assms(2)] refl])
  moreover have "(unat ?c2 + le_sum bs) + le_sum as = unat ?c2 + le_sum as + le_sum bs" by simp
  ultimately show ?thesis by metis
qed

section \<open>Error messages per second\<close>

text \<open>The calls that are let through, given the second of every call.\<close>

fun passed :: "int \<Rightarrow> int list \<Rightarrow> ratelimit_state \<Rightarrow> int list" where
  "passed frequency [] st = []"
| "passed frequency (now # later) st =
     (case ratelimit now frequency st of (limited, st') \<Rightarrow>
        (if limited then [] else [now]) @ passed frequency later st')"

lemma passed_subset: "set (passed frequency ts st) \<subseteq> set ts"
  by (induction ts arbitrary: st) (auto split: prod.splits if_splits)

lemma passed_count:
  assumes "sorted ts" "\<forall>t \<in> set ts. lasttime st \<le> t" "0 < frequency" "limit_count st \<le> frequency"
  shows "int (count_list (passed frequency ts st) x) \<le> frequency - (if x = lasttime st then limit_count st else 0)"
  using assms
proof (induction ts arbitrary: st)
  case (Cons t ts)
  obtain limited st' where r: "ratelimit t frequency st = (limited, st')" by (cases "ratelimit t frequency st")
  have st': "lasttime st' = t" "limit_count st' \<le> frequency"
    using r Cons.prems(3,4) by (auto simp: ratelimit_def split: if_splits)
  have IH: "int (count_list (passed frequency ts st') x) \<le> frequency - (if x = t then limit_count st' else 0)"
    using Cons.IH [of st'] st' Cons.prems by simp
  have old: "count_list (passed frequency ts st') x = 0" if "x < t"
    using that passed_subset [of frequency ts st'] Cons.prems(1) by (fastforce simp: count_list_0_iff)
  show ?case
  proof (cases "lasttime st = t")
    case True
    with IH r show ?thesis by (auto simp: ratelimit_def split: if_splits)
  next
    case False
    then have "lasttime st < t" using Cons.prems(2) by auto
    moreover have "limited = False" "limit_count st' = 1" using r False by (auto simp: ratelimit_def)
    ultimately show ?thesis using IH old r Cons.prems(4) by auto
  qed
qed simp

section \<open>Property\<close>

text \<open>
  However often the handlers ask to send error messages, at most three of them are let through
  in any one second, as long as the clock does not run backwards.
\<close>

theorem error_messages_per_second:
  assumes "sorted ts" "\<forall>t \<in> set ts. lasttime st \<le> t" "0 \<le> limit_count st" "limit_count st \<le> 3"
  shows "count_list (passed 3 ts st) second \<le> 3"
  using passed_count [OF assms(1,2), of 3 second] assms(3,4) by (simp split: if_splits)

theorem error_messages_per_second_witness:
  "count_list (passed 3 [7, 7, 7, 7, 7, 8] \<lparr>lasttime = 0, limit_count = 0\<rparr>) 7 \<le> 3 \<and>
   passed 3 [7, 7, 7, 7, 7, 8] \<lparr>lasttime = 0, limit_count = 0\<rparr> = [7, 7, 7, 8]"
  using error_messages_per_second [of "[7, 7, 7, 7, 7, 8]" "\<lparr>lasttime = 0, limit_count = 0\<rparr>" 7]
  by (simp add: ratelimit_def)

end
