(* ===== verification/Route.thy ===== *)
theory Route
  imports Packet Graph_Bfs Subnet_Table
begin

text \<open>
  Routing of packets (\<^verbatim>\<open>route.c\<close>). A handler takes the packet as it lies in its buffer and
  returns the state of the router and what it does: packets sent to a node, packets broadcast, and
  MAC addresses learned or forgotten. What the operating system answers when it is asked for the
  local address towards a destination is a field of the environment. Packet capture for the
  control socket and log messages are left out.
\<close>

section \<open>Environment, state and effects\<close>

datatype rmode = RMODE_HUB | RMODE_SWITCH | RMODE_ROUTER
datatype fmode = FMODE_OFF | FMODE_INTERNAL | FMODE_KERNEL

record route_env =
  myself :: string
  route_nodes :: gnodes
  node_mtu :: "string \<Rightarrow> nat"
  routing_mode :: rmode
  forwarding_mode :: fmode
  decrement_ttl :: bool
  directonly :: bool
  priorityinheritance :: bool
  macexpire :: int
  overwrite_mac :: bool
  now_sec :: int
  local_ipv4 :: "bytes \<Rightarrow> bytes option"
  local_ipv6 :: "bytes \<Rightarrow> bytes option"

record route_state =
  limiter :: ratelimit_state
  table :: subnet_state
  mymac :: bytes

datatype route_action = Send_Packet string vpn_packet | Broadcast_Packet string vpn_packet
  | Subnet_Learned subnet | Subnet_Expired subnet

type_synonym routed = "route_state \<times> route_action list"

abbreviation (input) ETH_P_IP :: nat where "ETH_P_IP \<equiv> 0x0800"
abbreviation (input) ETH_P_ARP :: nat where "ETH_P_ARP \<equiv> 0x0806"
abbreviation (input) ETH_P_IPV6 :: nat where "ETH_P_IPV6 \<equiv> 0x86DD"
abbreviation (input) ETH_P_8021Q :: nat where "ETH_P_8021Q \<equiv> 0x8100"

abbreviation (input) ether_size :: nat where "ether_size \<equiv> 14"
abbreviation (input) ip_size :: nat where "ip_size \<equiv> 20"
abbreviation (input) icmp_size :: nat where "icmp_size \<equiv> 8"
abbreviation (input) ip6_size :: nat where "ip6_size \<equiv> 40"
abbreviation (input) icmp6_size :: nat where "icmp6_size \<equiv> 8"
abbreviation (input) arp_size :: nat where "arp_size \<equiv> 28"
abbreviation (input) ns_size :: nat where "ns_size \<equiv> 24"
abbreviation (input) opt_size :: nat where "opt_size \<equiv> 2"
abbreviation (input) IP_MSS :: nat where "IP_MSS \<equiv> 576"
abbreviation (input) OPTION_CLAMP_MSS :: u32 where "OPTION_CLAMP_MSS \<equiv> 8"

abbreviation (input) ICMP_DEST_UNREACH :: byte where "ICMP_DEST_UNREACH \<equiv> 3"
abbreviation (input) ICMP_NET_UNREACH :: byte where "ICMP_NET_UNREACH \<equiv> 0"
abbreviation (input) ICMP_FRAG_NEEDED :: byte where "ICMP_FRAG_NEEDED \<equiv> 4"
abbreviation (input) ICMP_NET_UNKNOWN :: byte where "ICMP_NET_UNKNOWN \<equiv> 6"
abbreviation (input) ICMP_NET_ANO :: byte where "ICMP_NET_ANO \<equiv> 9"
abbreviation (input) ICMP_TIME_EXCEEDED :: byte where "ICMP_TIME_EXCEEDED \<equiv> 11"
abbreviation (input) ICMP_EXC_TTL :: byte where "ICMP_EXC_TTL \<equiv> 0"
abbreviation (input) IPPROTO_ICMP :: byte where "IPPROTO_ICMP \<equiv> 1"
abbreviation (input) IPPROTO_ICMPV6 :: byte where "IPPROTO_ICMPV6 \<equiv> 58"
abbreviation (input) ICMP6_DST_UNREACH :: byte where "ICMP6_DST_UNREACH \<equiv> 1"
abbreviation (input) ICMP6_DST_UNREACH_NOROUTE :: byte where "ICMP6_DST_UNREACH_NOROUTE \<equiv> 0"
abbreviation (input) ICMP6_DST_UNREACH_ADMIN :: byte where "ICMP6_DST_UNREACH_ADMIN \<equiv> 1"
abbreviation (input) ICMP6_DST_UNREACH_ADDR :: byte where "ICMP6_DST_UNREACH_ADDR \<equiv> 3"
abbreviation (input) ICMP6_PACKET_TOO_BIG :: byte where "ICMP6_PACKET_TOO_BIG \<equiv> 2"
abbreviation (input) ICMP6_TIME_EXCEEDED :: byte where "ICMP6_TIME_EXCEEDED \<equiv> 3"
abbreviation (input) ICMP6_TIME_EXCEED_TRANSIT :: byte where "ICMP6_TIME_EXCEED_TRANSIT \<equiv> 0"
abbreviation (input) ND_NEIGHBOR_SOLICIT :: byte where "ND_NEIGHBOR_SOLICIT \<equiv> 135"
abbreviation (input) ND_NEIGHBOR_ADVERT :: byte where "ND_NEIGHBOR_ADVERT \<equiv> 136"

definition checklength :: "vpn_packet \<Rightarrow> nat \<Rightarrow> bool" where
  "checklength p n \<longleftrightarrow> \<not> pkt_len p < n"

definition be32_bytes :: "nat \<Rightarrow> bytes" where
  "be32_bytes n = be16_bytes (n div 65536) @ be16_bytes n"

section \<open>Error messages to the sender\<close>

definition swap_mac_addresses :: "vpn_packet \<Rightarrow> vpn_packet" where
  "swap_mac_addresses p =
     (let tmp = get_bytes (pkt_data p) 0 6;
          p = put_data 0 (get_bytes (pkt_data p) 6 6) p
      in put_data 6 tmp p)"

text \<open>An IPv4 header without options, with its checksum.\<close>

definition ipv4_header :: "nat \<Rightarrow> bytes \<Rightarrow> bytes \<Rightarrow> bytes" where
  "ipv4_header tot src dst =
     (let pre = [0x45, 0] @ be16_bytes tot @ [0, 0, 0, 0, 255, IPPROTO_ICMP]; post = src @ dst
      in pre @ le16_bytes (inet_checksum (pre @ [0, 0] @ post) (- 1)) @ post)"

definition route_ipv4_unreachable ::
  "route_env \<Rightarrow> string \<Rightarrow> vpn_packet \<Rightarrow> nat \<Rightarrow> byte \<Rightarrow> byte \<Rightarrow> route_state \<Rightarrow> routed" where
  "route_ipv4_unreachable env source p ethlen type code st =
     (case ratelimit (now_sec env) 3 (limiter st) of (limited, lim) \<Rightarrow>
        let st = st\<lparr>limiter := lim\<rparr> in
        if limited then (st, [])
        else
          let p = swap_mac_addresses p;
              ip_src = get_bytes (pkt_data p) (ethlen + 12) 4;
              ip_dst = get_bytes (pkt_data p) (ethlen + 16) 4;
              ip_dst = (if type = ICMP_TIME_EXCEEDED \<and> code = ICMP_EXC_TTL
                        then (case local_ipv4 env ip_src of Some a \<Rightarrow> a | None \<Rightarrow> ip_dst) else ip_dst);
              oldlen = nat ((int (pkt_len p) - int ethlen) mod 2 ^ 32);
              nextmtu = (if type = ICMP_DEST_UNREACH \<and> code = ICMP_FRAG_NEEDED then be16_bytes oldlen else [0, 0]);
              oldlen = (if oldlen \<ge> IP_MSS - ip_size - icmp_size then IP_MSS - ip_size - icmp_size else oldlen);
              p = put_data (ethlen + ip_size + icmp_size) (get_bytes (pkt_data p) ethlen oldlen) p;
              ip = ipv4_header (ip_size + icmp_size + oldlen) ip_dst ip_src;
              icmp_sum = inet_checksum ([type, code, 0, 0, 0, 0] @ nextmtu) (- 1);
              icmp_sum = inet_checksum (get_bytes (pkt_data p) (ethlen + ip_size + icmp_size) oldlen) icmp_sum;
              icmp = [type, code] @ le16_bytes icmp_sum @ [0, 0] @ nextmtu;
              p = put_data ethlen ip p;
              p = put_data (ethlen + ip_size) icmp p;
              p = p\<lparr>pkt_len := ethlen + ip_size + icmp_size + oldlen\<rparr>
          in (st, [Send_Packet source p]))"

text \<open>The pseudo header that goes into checksums over IPv6.\<close>

definition pseudo_header :: "bytes \<Rightarrow> bytes \<Rightarrow> nat \<Rightarrow> bytes" where
  "pseudo_header src dst n = src @ dst @ be32_bytes n @ [0, 0, 0, IPPROTO_ICMPV6]"

definition route_ipv6_unreachable ::
  "route_env \<Rightarrow> string \<Rightarrow> vpn_packet \<Rightarrow> nat \<Rightarrow> byte \<Rightarrow> byte \<Rightarrow> route_state \<Rightarrow> routed" where
  "route_ipv6_unreachable env source p ethlen type code st =
     (case ratelimit (now_sec env) 3 (limiter st) of (limited, lim) \<Rightarrow>
        let st = st\<lparr>limiter := lim\<rparr> in
        if limited then (st, [])
        else
          let p = swap_mac_addresses p;
              dst = get_bytes (pkt_data p) (ethlen + 8) 16;
              src = get_bytes (pkt_data p) (ethlen + 24) 16;
              src = (if type = ICMP6_TIME_EXCEEDED \<and> code = ICMP6_TIME_EXCEED_TRANSIT
                     then (case local_ipv6 env dst of Some a \<Rightarrow> a | None \<Rightarrow> src) else src);
              oldlen = nat ((int (pkt_len p) - int ethlen) mod 2 ^ 32);
              mtu = (if type = ICMP6_PACKET_TOO_BIG then be32_bytes oldlen else [0, 0, 0, 0]);
              oldlen = (if oldlen \<ge> IP_MSS - ip6_size - icmp6_size then IP_MSS - ip6_size - icmp6_size else oldlen);
              p = put_data (ethlen + ip6_size + icmp6_size) (get_bytes (pkt_data p) ethlen oldlen) p;
              ip6 = [0x60, 0, 0, 0] @ be16_bytes (icmp6_size + oldlen) @ [IPPROTO_ICMPV6, 255] @ src @ dst;
              checksum = inet_checksum (pseudo_header src dst (icmp6_size + oldlen)) (- 1);
              checksum = inet_checksum ([type, code, 0, 0] @ mtu) checksum;
              checksum = inet_checksum (get_bytes (pkt_data p) (ethlen + ip6_size + icmp6_size) oldlen) checksum;
              p = put_data ethlen ip6 p;
              p = put_data (ethlen + ip6_size) ([type, code] @ le16_bytes checksum @ mtu) p;
              p = p\<lparr>pkt_len := ethlen + ip6_size + icmp6_size + oldlen\<rparr>
          in (st, [Send_Packet source p]))"

section \<open>The time to live\<close>

text \<open>The Ethernet type behind a VLAN tag, if there is one, and the length of the header.\<close>

definition ether_type :: "vpn_packet \<Rightarrow> nat \<times> nat" where
  "ether_type p = (if data_be16 p 12 = ETH_P_8021Q then (data_be16 p 16, ether_size + 4) else (data_be16 p 12, ether_size))"

definition ttl_ipv4 :: "nat \<Rightarrow> vpn_packet \<Rightarrow> vpn_packet" where
  "ttl_ipv4 ethlen p =
     (let old = data_be16 p (ethlen + 8);
          p = put_data (ethlen + 8) [data_at p (ethlen + 8) - 1] p;
          new = data_be16 p (ethlen + 8);
          checksum = unat (fold_carry (of_nat (data_be16 p (ethlen + 10) + (old + (65535 - new)))))
      in put_data (ethlen + 10) [of_nat (checksum div 256), of_nat checksum] p)"

definition do_decrement_ttl ::
  "route_env \<Rightarrow> string \<Rightarrow> vpn_packet \<Rightarrow> route_state \<Rightarrow> bool \<times> vpn_packet \<times> routed" where
  "do_decrement_ttl env source p st =
     (case ether_type p of (type, ethlen) \<Rightarrow>
        if type = ETH_P_IP then
          if \<not> checklength p (ethlen + ip_size) then (False, p, st, [])
          else if data_at p (ethlen + 8) \<le> 1 then
            if data_at p (ethlen + 11) \<noteq> IPPROTO_ICMP \<or> data_at p (ethlen + 32) \<noteq> ICMP_TIME_EXCEEDED
            then (False, p, route_ipv4_unreachable env source p ethlen ICMP_TIME_EXCEEDED ICMP_EXC_TTL st)
            else (False, p, st, [])
          else (True, ttl_ipv4 ethlen p, st, [])
        else if type = ETH_P_IPV6 then
          if \<not> checklength p (ethlen + ip6_size) then (False, p, st, [])
          else if data_at p (ethlen + 7) \<le> 1 then
            if data_at p (ethlen + 6) \<noteq> IPPROTO_ICMPV6 \<or> data_at p (ethlen + 40) \<noteq> ICMP6_TIME_EXCEEDED
            then (False, p, route_ipv6_unreachable env source p ethlen ICMP6_TIME_EXCEEDED ICMP6_TIME_EXCEED_TRANSIT st)
            else (False, p, st, [])
          else (True, put_data (ethlen + 7) [data_at p (ethlen + 7) - 1] p, st, [])
        else (True, p, st, []))"

section \<open>The TCP segment size\<close>

text \<open>What is done to the option once it was found: the new value and the checksum.\<close>

definition clamp_option :: "vpn_packet \<Rightarrow> nat \<Rightarrow> nat \<Rightarrow> nat \<Rightarrow> vpn_packet" where
  "clamp_option p mtu start i =
     (let oldmss = data_be16 p (start + 22 + i);
          newmss = nat ((int mtu - int start - 20) mod 65536);
          csum = of_nat (data_be16 p (start + 16)) :: u32
      in if oldmss \<le> newmss then p
         else
           let p = put_data (start + 22 + i) (be16_bytes newmss) p;
               csum = csum XOR 0xFFFF;
               csum = csum + (of_nat oldmss XOR 0xFFFF);
               csum = csum + of_nat newmss;
               csum = (csum AND 0xFFFF) + drop_bit 16 csum;
               csum = csum + drop_bit 16 csum;
               csum = csum XOR 0xFFFF
           in put_data (start + 16) [ucast (drop_bit 8 csum), ucast csum] p)"

text \<open>The search for the option, among \<open>len\<close> bytes of options from \<open>i\<close> on.\<close>

function mss_loop :: "vpn_packet \<Rightarrow> nat \<Rightarrow> nat \<Rightarrow> int \<Rightarrow> nat \<Rightarrow> vpn_packet" where
  "mss_loop p mtu start len i =
     (if \<not> int i < len then p
      else if data_at p (start + 20 + i) = 0 then p
      else if data_at p (start + 20 + i) = 1 then mss_loop p mtu start len (i + 1)
      else if int i > len - 2 \<or> int i > len - int (unat (data_at p (start + 21 + i))) then p
      else if data_at p (start + 20 + i) \<noteq> 2 then
        if unat (data_at p (start + 21 + i)) < 2 then p
        else mss_loop p mtu start len (i + unat (data_at p (start + 21 + i)))
      else if data_at p (start + 21) \<noteq> 4 then p
      else clamp_option p mtu start i)"
  by pat_completeness auto

lemma two_le_byte: "\<not> unat (w::byte) < 2 \<Longrightarrow> 0 < uint w"
proof -
  assume "\<not> unat w < 2"
  then have "w \<noteq> 0" by auto
  then show "0 < uint w" using uint_ge_0 [of w] by (simp add: order_less_le uint_0_iff)
qed

termination mss_loop
  by (relation "measure (\<lambda>(p, mtu, start, len, i). nat (len - int i))") (auto dest: two_le_byte)

declare mss_loop.simps [simp del]

text \<open>Where the TCP header starts, if there is one in the packet.\<close>

definition tcp_start :: "vpn_packet \<Rightarrow> nat option" where
  "tcp_start p =
     (case ether_type p of (type, start) \<Rightarrow>
        let start = (if type = ETH_P_IP \<and> data_at p (start + 9) = 4 then start + 20 else start) in
        if pkt_len p \<le> start + 20 then None
        else if type = ETH_P_IP \<and> data_at p (start + 9) = 6
             then Some (start + unat (data_at p start AND 0x0F) * 4)
        else if type = ETH_P_IPV6 \<and> data_at p (start + 6) = 6 then Some (start + 40)
        else None)"

definition clamp_mss :: "route_env \<Rightarrow> string \<Rightarrow> string option \<Rightarrow> vpn_packet \<Rightarrow> vpn_packet" where
  "clamp_mss env source through p =
     (case through of
        None \<Rightarrow> p
      | Some v \<Rightarrow>
          if node_options (route_nodes env v) AND OPTION_CLAMP_MSS = 0 then p
          else
            let mtu = (if v \<noteq> myself env \<and> node_mtu env v < node_mtu env source then node_mtu env v else node_mtu env source) in
            case tcp_start p of
              None \<Rightarrow> p
            | Some start \<Rightarrow>
                if pkt_len p \<le> start + 20 then p
                else
                  let len = (int (unat (data_at p (start + 12)) div 16) - 5) * 4 in
                  if int (pkt_len p) < int (start + 20) + len then p
                  else mss_loop p mtu start len 0)"

section \<open>Learned MAC addresses\<close>

text \<open>A write to the \<^verbatim>\<open>expires\<close> field of a subnet, seen by the trees and caches that hold it.\<close>

definition map_splay :: "('a \<Rightarrow> 'a) \<Rightarrow> 'a splay_tree \<Rightarrow> 'a splay_tree" where
  "map_splay f t = t\<lparr>links := map f (links t), root := map_tree f (root t)\<rparr>"

definition map_hash :: "('v \<Rightarrow> 'v) \<Rightarrow> 'v hash \<Rightarrow> 'v hash" where
  "map_hash f h = h\<lparr>hash_values := map (map_option f) (hash_values h)\<rparr>"

definition set_expires :: "subnet \<Rightarrow> int \<Rightarrow> subnet_state \<Rightarrow> subnet_state" where
  "set_expires s e st =
     (let f = (\<lambda>x. if x = s then x\<lparr>expires := e\<rparr> else x) in
      st\<lparr>subnet_tree := map_splay f (subnet_tree st), node_subnets := (\<lambda>n. map_splay f (node_subnets st n)),
         ipv4_cache := map_hash f (ipv4_cache st), ipv6_cache := map_hash f (ipv6_cache st),
         mac_cache := map_hash f (mac_cache st)\<rparr>)"

definition learn_mac :: "route_env \<Rightarrow> bytes \<Rightarrow> route_state \<Rightarrow> routed" where
  "learn_mac env address st =
     (case lookup_subnet_mac (\<lambda>n. reachable (route_nodes env n)) (Some (myself env)) address (table st) of
        (None, tab) \<Rightarrow>
          (let subnet = \<lparr>owner = None, expires = now_sec env + macexpire env, weight = 10, net = SUBNET_MAC address\<rparr>
           in (st\<lparr>table := subnet_add (Some (myself env)) subnet tab\<rparr>,
               [Subnet_Learned (subnet\<lparr>owner := Some (myself env)\<rparr>)]))
      | (Some subnet, tab) \<Rightarrow>
          (st\<lparr>table := (if expires subnet \<noteq> 0 then set_expires subnet (now_sec env + macexpire env) tab else tab)\<rparr>, []))"

definition age_subnet :: "route_env \<Rightarrow> subnet \<Rightarrow> routed \<times> bool \<Rightarrow> routed \<times> bool" where
  "age_subnet env s r =
     (case r of ((st, acts), again) \<Rightarrow>
        if expires s \<noteq> 0 \<and> expires s < now_sec env
        then ((st\<lparr>table := subnet_del (Some (myself env)) s (table st)\<rparr>, acts @ [Subnet_Expired s]), again)
        else ((st, acts), again \<or> expires s \<noteq> 0))"

text \<open>The last component tells whether the timer is set again.\<close>

definition age_subnets :: "route_env \<Rightarrow> route_state \<Rightarrow> routed \<times> bool" where
  "age_subnets env st = fold (age_subnet env) (links (node_subnets (table st) (myself env))) ((st, []), False)"

section \<open>Fragmentation\<close>

text \<open>The header of a fragment: the original one with a new length, offset and checksum.\<close>

definition fragment_header :: "bytes \<Rightarrow> nat \<Rightarrow> nat \<Rightarrow> bytes" where
  "fragment_header ip tot off =
     (let pre = take 2 ip @ be16_bytes tot @ take 2 (drop 4 ip) @ be16_bytes off @ take 2 (drop 8 ip);
          post = drop 12 ip
      in pre @ le16_bytes (inet_checksum (pre @ [0, 0] @ post) (- 1)) @ post)"

text \<open>
  The loop over what is left of the payload. Its caller takes at least 590 bytes for a packet and
  at most 18 for the Ethernet header, so \<open>maxlen\<close> is positive.
\<close>

function fragment_loop :: "bytes \<Rightarrow> bytes \<Rightarrow> nat \<Rightarrow> nat \<Rightarrow> int \<Rightarrow> bytes \<Rightarrow> nat \<Rightarrow> vpn_packet list" where
  "fragment_loop ether ip maxlen origf prio payload ip_off =
     (if payload = [] \<or> maxlen = 0 then []
      else
        let len = (if length payload > maxlen then maxlen else length payload);
            rest = drop len payload;
            off = (ip_off OR origf) OR (if rest \<noteq> [] then 0x2000 else 0);
            header = fragment_header ip (ip_size + len) off
        in \<lparr>pkt_len = length ether + ip_size + len,
            pkt_data = put_bytes (put_bytes (put_bytes (\<lambda>_. 0) (length ether + ip_size) (take len payload))
              0 ether) (length ether) header,
            pkt_priority = prio\<rparr> #
           fragment_loop ether ip maxlen origf prio rest ((ip_off + len div 8) mod 65536))"
  by pat_completeness auto

termination fragment_loop
  by (relation "measure (\<lambda>(ether, ip, maxlen, origf, prio, payload, ip_off). length payload)") auto

declare fragment_loop.simps [simp del]

text \<open>
  It is called only for packets longer than 590 bytes, so that with the check of the length the total length of the IPv4 packet is
  larger than its header; for a shorter one, which does not occur, the result here is empty.
\<close>

definition fragment_ipv4_packet :: "route_env \<Rightarrow> string \<Rightarrow> vpn_packet \<Rightarrow> nat \<Rightarrow> route_action list" where
  "fragment_ipv4_packet env dest p ethlen =
     (let ip = get_bytes (pkt_data p) ethlen ip_size; ip_len = data_be16 p (ethlen + 2) in
      if ip ! 0 AND 0x0F \<noteq> 5 then []
      else if ethlen + ip_len \<noteq> pkt_len p then []
      else
        let maxlen = (max (node_mtu env dest) 590 - ethlen - ip_size) div 8 * 8;
            ip_off = data_be16 p (ethlen + 6);
            payload = get_bytes (pkt_data p) (ethlen + ip_size) (ip_len - ip_size)
        in map (Send_Packet dest) (fragment_loop (get_bytes (pkt_data p) 0 ethlen) ip maxlen
             (ip_off div 0x2000 * 0x2000) (pkt_priority p) payload (ip_off mod 0x2000)))"

section \<open>Routing by address\<close>

definition route_broadcast :: "route_env \<Rightarrow> string \<Rightarrow> vpn_packet \<Rightarrow> route_state \<Rightarrow> routed" where
  "route_broadcast env source p st =
     (if decrement_ttl env \<and> source \<noteq> myself env
      then (case do_decrement_ttl env source p st of (go, p, st, acts) \<Rightarrow>
              if \<not> go then (st, acts) else (st, acts @ [Broadcast_Packet source p]))
      else (st, [Broadcast_Packet source p]))"

definition route_via :: "route_env \<Rightarrow> string \<Rightarrow> string option" where
  "route_via env own =
     (if via (route_nodes env own) = Some (myself env) then nexthop (route_nodes env own)
      else via (route_nodes env own))"

text \<open>The guarded call of \<^verbatim>\<open>do_decrement_ttl\<close> that the three forwarding handlers share.\<close>

definition forward_ttl ::
  "route_env \<Rightarrow> string \<Rightarrow> string \<Rightarrow> vpn_packet \<Rightarrow> route_state \<Rightarrow> bool \<times> vpn_packet \<times> routed" where
  "forward_ttl env source own p st =
     (if decrement_ttl env \<and> source \<noteq> myself env \<and> own \<noteq> myself env
      then do_decrement_ttl env source p st else (True, p, st, []))"

definition route_ipv4 :: "route_env \<Rightarrow> string \<Rightarrow> vpn_packet \<Rightarrow> route_state \<Rightarrow> routed" where
  "route_ipv4 env source p st =
     (if \<not> checklength p (ether_size + ip_size) then (st, [])
      else
        case lookup_subnet_ipv4 (\<lambda>n. reachable (route_nodes env n)) (get_bytes (pkt_data p) 30 4) (table st) of (subnet, tab) \<Rightarrow>
        let st = st\<lparr>table := tab\<rparr>; unreachable = (\<lambda>p. route_ipv4_unreachable env source p ether_size ICMP_DEST_UNREACH) in
        case subnet of
          None \<Rightarrow> unreachable p ICMP_NET_UNKNOWN st
        | Some s \<Rightarrow>
            (case owner s of
               None \<Rightarrow> route_broadcast env source p st
             | Some own \<Rightarrow>
                 if own = source then (st, [])
                 else if \<not> reachable (route_nodes env own) then unreachable p ICMP_NET_UNREACH st
                 else if forwarding_mode env = FMODE_OFF \<and> source \<noteq> myself env \<and> own \<noteq> myself env
                 then unreachable p ICMP_NET_ANO st
                 else
                   case forward_ttl env source own p st of (go, p, st, acts) \<Rightarrow>
                   if \<not> go then (st, acts)
                   else
                     let p = (if priorityinheritance env then p\<lparr>pkt_priority := uint (data_at p 15)\<rparr> else p);
                         through = route_via env own in
                     if through = Some source then (st, [])
                     else if directonly env \<and> through \<noteq> Some own then unreachable p ICMP_NET_ANO st
                     else
                       case through of
                         Some v \<Rightarrow>
                           if pkt_len p > max (node_mtu env v) 590 \<and> v \<noteq> myself env then
                             if data_at p 20 AND 0x40 \<noteq> 0
                             then unreachable (p\<lparr>pkt_len := max (node_mtu env v) 590\<rparr>) ICMP_FRAG_NEEDED st
                             else (st, fragment_ipv4_packet env v p ether_size)
                           else (st, [Send_Packet own (clamp_mss env source through p)])
                       | None \<Rightarrow> (st, [Send_Packet own (clamp_mss env source through p)])))"

text \<open>The priority a packet inherits from the traffic class of IPv6.\<close>

definition ipv6_priority :: "vpn_packet \<Rightarrow> int" where
  "ipv6_priority p = int (unat (data_at p 14) mod 16 * 16 + unat (data_at p 15) div 16)"

text \<open>The checksum over a neighbor solicitation or advertisement.\<close>

definition ns_checksum :: "bytes \<Rightarrow> bytes \<Rightarrow> bytes \<Rightarrow> bytes option \<Rightarrow> bytes \<Rightarrow> u16" where
  "ns_checksum src dst ns opt hard =
     (let checksum = inet_checksum (pseudo_header src dst (if opt \<noteq> None then ns_size + opt_size + 6 else ns_size)) (- 1);
          checksum = inet_checksum ns checksum
      in case opt of None \<Rightarrow> checksum
         | Some ob \<Rightarrow> inet_checksum hard (inet_checksum ob checksum))"

definition route_neighborsol :: "route_env \<Rightarrow> string \<Rightarrow> vpn_packet \<Rightarrow> route_state \<Rightarrow> routed" where
  "route_neighborsol env source p st =
     (if \<not> checklength p (ether_size + ip6_size + ns_size) then (st, [])
      else
        let has_opt = (pkt_len p \<ge> ether_size + ip6_size + ns_size + opt_size + 6) in
        if source \<noteq> myself env then (st, [])
        else
          let ip6 = get_bytes (pkt_data p) ether_size ip6_size;
              ns = get_bytes (pkt_data p) (ether_size + ip6_size) ns_size;
              opt = (if has_opt then Some (get_bytes (pkt_data p) (ether_size + ip6_size + ns_size) opt_size) else None);
              opt_addr = ether_size + ip6_size + ns_size + opt_size;
              src = take 16 (drop 8 ip6); dst = drop 24 ip6; target = drop 8 ns;
              st = (if overwrite_mac env then st\<lparr>mymac := get_bytes (pkt_data p) 6 6\<rparr> else st) in
          if ns ! 0 \<noteq> ND_NEIGHBOR_SOLICIT \<or> (case opt of Some ob \<Rightarrow> ob ! 0 \<noteq> 1 | None \<Rightarrow> False) then (st, [])
          else if ns_checksum src dst ns opt (get_bytes (pkt_data p) opt_addr 6) \<noteq> 0 then (st, [])
          else
            case lookup_subnet_ipv6 (\<lambda>n. reachable (route_nodes env n)) target (table st) of (subnet, tab) \<Rightarrow>
            let st = st\<lparr>table := tab\<rparr> in
            case subnet of
              None \<Rightarrow> (st, [])
            | Some s \<Rightarrow>
                if owner s = Some (myself env) then (st, [])
                else
                  case (if decrement_ttl env then do_decrement_ttl env source p st else (True, p, st, [])) of (go, p, st, acts) \<Rightarrow>
                  if \<not> go then (st, acts)
                  else
                    let p = put_data 0 (get_bytes (pkt_data p) 6 6) p;
                        p = put_data 11 [data_at p 11 XOR 0xFF] p;
                        ip6 = take 8 ip6 @ target @ src;
                        p = (if has_opt then put_data opt_addr (get_bytes (pkt_data p) 6 6) p else p);
                        ns = [ND_NEIGHBOR_ADVERT] @ take 1 (drop 1 ns) @ [0, 0, 0x40, 0, 0, 0] @ target;
                        opt = map_option (\<lambda>ob. [2] @ drop 1 ob) opt;
                        checksum = ns_checksum target src ns opt (get_bytes (pkt_data p) opt_addr 6);
                        ns = take 2 ns @ le16_bytes checksum @ drop 4 ns;
                        p = put_data ether_size ip6 p;
                        p = put_data (ether_size + ip6_size) ns p;
                        p = (case opt of Some ob \<Rightarrow> put_data (ether_size + ip6_size + ns_size) ob p | None \<Rightarrow> p)
                    in (st, [Send_Packet source p]))"

definition route_ipv6 :: "route_env \<Rightarrow> string \<Rightarrow> vpn_packet \<Rightarrow> route_state \<Rightarrow> routed" where
  "route_ipv6 env source p st =
     (if \<not> checklength p (ether_size + ip6_size) then (st, [])
      else if data_at p 20 = IPPROTO_ICMPV6 \<and> checklength p (ether_size + ip6_size + icmp6_size) \<and>
              data_at p 54 = ND_NEIGHBOR_SOLICIT
      then route_neighborsol env source p st
      else
        case lookup_subnet_ipv6 (\<lambda>n. reachable (route_nodes env n)) (get_bytes (pkt_data p) 38 16) (table st) of (subnet, tab) \<Rightarrow>
        let st = st\<lparr>table := tab\<rparr>; unreachable = (\<lambda>p. route_ipv6_unreachable env source p ether_size ICMP6_DST_UNREACH) in
        case subnet of
          None \<Rightarrow> unreachable p ICMP6_DST_UNREACH_ADDR st
        | Some s \<Rightarrow>
            (case owner s of
               None \<Rightarrow> route_broadcast env source p st
             | Some own \<Rightarrow>
                 if own = source then (st, [])
                 else if \<not> reachable (route_nodes env own) then unreachable p ICMP6_DST_UNREACH_NOROUTE st
                 else if forwarding_mode env = FMODE_OFF \<and> source \<noteq> myself env \<and> own \<noteq> myself env
                 then unreachable p ICMP6_DST_UNREACH_ADMIN st
                 else
                   case forward_ttl env source own p st of (go, p, st, acts) \<Rightarrow>
                   if \<not> go then (st, acts)
                   else
                     let p = (if priorityinheritance env then p\<lparr>pkt_priority := ipv6_priority p\<rparr> else p);
                         through = route_via env own in
                     if through = Some source then (st, [])
                     else if directonly env \<and> through \<noteq> Some own then unreachable p ICMP6_DST_UNREACH_ADMIN st
                     else
                       case through of
                         Some v \<Rightarrow>
                           if pkt_len p > max (node_mtu env v) 1294 \<and> v \<noteq> myself env
                           then route_ipv6_unreachable env source (p\<lparr>pkt_len := max (node_mtu env v) 1294\<rparr>) ether_size
                                  ICMP6_PACKET_TOO_BIG 0 st
                           else (st, [Send_Packet own (clamp_mss env source through p)])
                       | None \<Rightarrow> (st, [Send_Packet own (clamp_mss env source through p)])))"

definition route_arp :: "route_env \<Rightarrow> string \<Rightarrow> vpn_packet \<Rightarrow> route_state \<Rightarrow> routed" where
  "route_arp env source p st =
     (if \<not> checklength p (ether_size + arp_size) then (st, [])
      else if source \<noteq> myself env then (st, [])
      else
        let st = (if overwrite_mac env then st\<lparr>mymac := get_bytes (pkt_data p) 6 6\<rparr> else st);
            arp = get_bytes (pkt_data p) ether_size arp_size;
            sha = take 6 (drop 8 arp); spa = take 4 (drop 14 arp); tpa = drop 24 arp in
        if take 8 arp \<noteq> be16_bytes 1 @ be16_bytes ETH_P_IP @ [6, 4] @ be16_bytes 1 then (st, [])
        else
          case lookup_subnet_ipv4 (\<lambda>n. reachable (route_nodes env n)) tpa (table st) of (subnet, tab) \<Rightarrow>
          let st = st\<lparr>table := tab\<rparr> in
          case subnet of
            None \<Rightarrow> (st, [])
          | Some s \<Rightarrow>
              if owner s = Some (myself env) then (st, [])
              else
                case (if decrement_ttl env then do_decrement_ttl env source p st else (True, p, st, [])) of (go, p, st, acts) \<Rightarrow>
                if \<not> go then (st, acts)
                else
                  let hard = get_bytes (pkt_data p) 6 5 @ [data_at p 11 XOR 0xFF];
                      arp = take 6 arp @ be16_bytes 2 @ hard @ tpa @ sha @ spa
                  in (st, [Send_Packet source (put_data ether_size arp p)]))"

definition mac_priority :: "vpn_packet \<Rightarrow> int" where
  "mac_priority p =
     (if data_be16 p 12 = ETH_P_IP \<and> pkt_len p \<ge> ether_size + ip_size then uint (data_at p 15)
      else if data_be16 p 12 = ETH_P_IPV6 \<and> pkt_len p \<ge> ether_size + ip6_size then ipv6_priority p
      else pkt_priority p)"

definition route_mac :: "route_env \<Rightarrow> string \<Rightarrow> vpn_packet \<Rightarrow> route_state \<Rightarrow> routed" where
  "route_mac env source p st =
     (case (if source = myself env then learn_mac env (get_bytes (pkt_data p) 6 6) st else (st, [])) of (st, learned) \<Rightarrow>
        case lookup_subnet_mac (\<lambda>n. reachable (route_nodes env n)) None (get_bytes (pkt_data p) 0 6) (table st) of (subnet, tab) \<Rightarrow>
        let st = st\<lparr>table := tab\<rparr> in
        case Option.bind subnet owner of
          None \<Rightarrow> (case route_broadcast env source p st of (st, acts) \<Rightarrow> (st, learned @ acts))
        | Some own \<Rightarrow>
            if own = source then (st, learned)
            else if forwarding_mode env = FMODE_OFF \<and> source \<noteq> myself env \<and> own \<noteq> myself env then (st, learned)
            else
              case forward_ttl env source own p st of (go, p, st, acts) \<Rightarrow>
              if \<not> go then (st, learned @ acts)
              else
                let p = (if priorityinheritance env then p\<lparr>pkt_priority := mac_priority p\<rparr> else p);
                    through = route_via env own;
                    send = (st, learned @ [Send_Packet own (clamp_mss env source through p)]) in
                if directonly env \<and> through \<noteq> Some own then (st, learned)
                else
                  case through of
                    None \<Rightarrow> send
                  | Some v \<Rightarrow>
                      if pkt_len p > node_mtu env v \<and> v \<noteq> myself env then
                        (case ether_type p of (type, ethlen) \<Rightarrow>
                           if type = ETH_P_IP \<and> pkt_len p > 576 + ethlen then
                             if data_at p (6 + ethlen) AND 0x40 \<noteq> 0
                             then (case route_ipv4_unreachable env source (p\<lparr>pkt_len := node_mtu env v\<rparr>) ethlen
                                     ICMP_DEST_UNREACH ICMP_FRAG_NEEDED st of (st, acts) \<Rightarrow> (st, learned @ acts))
                             else (st, learned @ fragment_ipv4_packet env v p ethlen)
                           else if type = ETH_P_IPV6 \<and> pkt_len p > 1280 + ethlen
                           then (case route_ipv6_unreachable env source (p\<lparr>pkt_len := node_mtu env v\<rparr>) ethlen
                                   ICMP6_PACKET_TOO_BIG 0 st of (st, acts) \<Rightarrow> (st, learned @ acts))
                           else send)
                      else send)"

definition route :: "route_env \<Rightarrow> string \<Rightarrow> vpn_packet \<Rightarrow> route_state \<Rightarrow> routed" where
  "route env source p st =
     (if forwarding_mode env = FMODE_KERNEL \<and> source \<noteq> myself env then (st, [Send_Packet (myself env) p])
      else if \<not> checklength p ether_size then (st, [])
      else
        case routing_mode env of
          RMODE_ROUTER \<Rightarrow>
            (let type = data_be16 p 12 in
             if type = ETH_P_ARP then route_arp env source p st
             else if type = ETH_P_IP then route_ipv4 env source p st
             else if type = ETH_P_IPV6 then route_ipv6 env source p st
             else (st, []))
        | RMODE_SWITCH \<Rightarrow> route_mac env source p st
        | RMODE_HUB \<Rightarrow> route_broadcast env source p st)"

end
