(* ===== verification/Route_Packets.thy ===== *)
theory Route_Packets
  imports Route
begin

text \<open>
  What the handlers of \<^verbatim>\<open>route.c\<close> do to packets: the time to live and the segment size with
  their incrementally updated checksums, fragmentation, and the error messages of IPv4.
\<close>

section \<open>Blocks of a packet\<close>

lemma get_bytes_split: "get_bytes d i (m + n) = get_bytes d i m @ get_bytes d (i + m) n"
  by (rule nth_equalityI) (auto simp: nth_append)

lemma get_bytes_4: "get_bytes d i 4 = [d i, d (i + 1), d (i + 2), d (i + 3)]"
  by (simp add: get_bytes_def upt_conv_Cons eval_nat_numeral)

lemma get_bytes_2: "get_bytes d i 2 = [d i, d (i + 1)]"
  by (simp add: get_bytes_def upt_conv_Cons eval_nat_numeral)

lemma be_sum_append: "even (length bs) \<Longrightarrow> be_sum (bs @ cs) = be_sum bs + be_sum cs"
  by (induction bs rule: be_sum.induct) auto

lemma get_bytes_cong: "(\<And>k. k < n \<Longrightarrow> d (i + k) = d' (j + k)) \<Longrightarrow> get_bytes d i n = get_bytes d' j n"
  by (rule nth_equalityI) simp_all

lemma get_put_inside [byte_simps]:
  "k + n \<le> length bs \<Longrightarrow> get_bytes (put_bytes d i bs) (i + k) n = take n (drop k bs)"
  by (rule nth_equalityI) (auto simp: put_bytes_def)

lemma fold_carry_of_nat: "n < 2 ^ 32 \<Longrightarrow> unat (fold_carry (of_nat n)) mod 65535 = n mod 65535"
  using fold_carry_nat [of "of_nat n"] by (simp add: unat_of_nat)

section \<open>The time to live\<close>

lemma ttl_ipv4_fields:
  shows "pkt_len (ttl_ipv4 e p) = pkt_len p" "pkt_priority (ttl_ipv4 e p) = pkt_priority p"
    "data_at (ttl_ipv4 e p) (e + 8) = data_at p (e + 8) - 1"
    "j \<notin> {e + 8, e + 10, e + 11} \<Longrightarrow> data_at (ttl_ipv4 e p) j = data_at p j"
    "data_be16 (ttl_ipv4 e p) (e + 10) = unat (fold_carry (of_nat (data_be16 p (e + 10) +
       (data_be16 p (e + 8) + (65535 - be16_nat (data_at p (e + 8) - 1) (data_at p (Suc (e + 8))))))))"
proof -
  let ?f = "fold_carry (of_nat (data_be16 p (e + 10) +
       (data_be16 p (e + 8) + (65535 - be16_nat (data_at p (e + 8) - 1) (data_at p (Suc (e + 8)))))))"
  have f: "unat ?f < 65536" using fold_carry_nat by blast
  show "pkt_len (ttl_ipv4 e p) = pkt_len p" "pkt_priority (ttl_ipv4 e p) = pkt_priority p"
    "data_at (ttl_ipv4 e p) (e + 8) = data_at p (e + 8) - 1"
    "j \<notin> {e + 8, e + 10, e + 11} \<Longrightarrow> data_at (ttl_ipv4 e p) j = data_at p j"
    by (auto simp: ttl_ipv4_def Let_def put_bytes_def)
  show "data_be16 (ttl_ipv4 e p) (e + 10) = unat ?f"
    using be16_roundtrip [OF f] by (simp add: ttl_ipv4_def Let_def put_bytes_def)
qed

lemma ttl_ipv4_sum:
  "be_sum (get_bytes (pkt_data (ttl_ipv4 e p)) e 20) mod 65535 = be_sum (get_bytes (pkt_data p) e 20) mod 65535"
proof -
  let ?d = "pkt_data p" and ?d' = "pkt_data (ttl_ipv4 e p)"
  let ?old = "data_be16 p (e + 8)" and ?new = "be16_nat (data_at p (e + 8) - 1) (data_at p (Suc (e + 8)))"
  let ?ck = "data_be16 p (e + 10)" and ?ck' = "data_be16 (ttl_ipv4 e p) (e + 10)"
  have split: "get_bytes d e 20 = get_bytes d e 8 @ get_bytes d (e + 8) 4 @ get_bytes d (e + 12) 8" for d
    using get_bytes_split [of d e 8 12] get_bytes_split [of d "e + 8" 4 8] by (simp add: add.commute)
  have sum: "be_sum (get_bytes d e 20) =
      be_sum (get_bytes d e 8) + (be16_nat (d (e + 8)) (d (Suc (e + 8))) + be16_nat (d (e + 10)) (d (Suc (e + 10)))) +
      be_sum (get_bytes d (e + 12) 8)" for d
    by (simp add: split be_sum_append get_bytes_4 be16_nat_def) (simp add: add.commute)
  have same: "get_bytes ?d' e 8 = get_bytes ?d e 8" "get_bytes ?d' (e + 12) 8 = get_bytes ?d (e + 12) 8"
    by (rule get_bytes_cong; simp add: ttl_ipv4_fields(4))+
  have bound: "?old < 65536" "?new < 65536" "?ck < 65536" by (simp_all add: be16_less)
  have ck': "?ck' mod 65535 = (?ck + (?old + (65535 - ?new))) mod 65535"
    unfolding ttl_ipv4_fields(5) by (rule fold_carry_of_nat) (use bound in simp)
  have "(?ck' + ?new) mod 65535 = ((?ck + (?old + (65535 - ?new))) + ?new) mod 65535"
    by (rule mod_add_cong [OF ck' refl])
  also have "(?ck + (?old + (65535 - ?new))) + ?new = ?ck + ?old + 65535" using bound by linarith
  also have "(?ck + ?old + 65535) mod 65535 = (?ck + ?old) mod 65535" by (rule mod_add_self2)
  finally have "(?ck' + ?new) mod 65535 = (?ck + ?old) mod 65535" .
  then have "(?new + ?ck') mod 65535 = (?old + ?ck) mod 65535" by (simp add: add.commute)
  moreover have "data_at (ttl_ipv4 e p) (e + 8) = data_at p (e + 8) - 1" "data_at (ttl_ipv4 e p) (Suc (e + 8)) = data_at p (Suc (e + 8))"
    by (simp_all add: ttl_ipv4_fields)
  ultimately have mid: "(be16_nat (?d' (e + 8)) (?d' (Suc (e + 8))) + be16_nat (?d' (e + 10)) (?d' (Suc (e + 10)))) mod 65535 =
      (be16_nat (?d (e + 8)) (?d (Suc (e + 8))) + be16_nat (?d (e + 10)) (?d (Suc (e + 10)))) mod 65535" by simp
  show ?thesis unfolding sum same
    by (rule mod_add_cong [OF mod_add_cong [OF refl mid] refl])
qed

lemma do_decrement_ttl_ipv4:
  assumes "ether_type p = (ETH_P_IP, e)" "checklength p (e + 20)" "1 < data_at p (e + 8)"
  shows "do_decrement_ttl env source p st = (True, ttl_ipv4 e p, st, [])"
proof -
  have "\<not> data_at p (e + 8) \<le> 1" using assms(3) by simp
  with assms(1,2) show ?thesis by (simp add: do_decrement_ttl_def)
qed

section \<open>Fragments\<close>

definition fragment_payload :: "nat \<Rightarrow> vpn_packet \<Rightarrow> bytes" where
  "fragment_payload e f = get_bytes (pkt_data f) (e + 20) (pkt_len f - e - 20)"

text \<open>
  Fragments that cover a payload from an offset (in units of eight bytes) on: each one carries the next
  part, says where it belongs, and has the more-fragments bit set unless it is the last one of an original that
  did not have it; all but the last are a multiple of eight bytes long.
\<close>

fun fragments :: "nat \<Rightarrow> bool \<Rightarrow> nat \<Rightarrow> bytes \<Rightarrow> vpn_packet list \<Rightarrow> bool" where
  "fragments e mf off payload [] \<longleftrightarrow> payload = []"
| "fragments e mf off payload (f # fs) \<longleftrightarrow>
     (let part = fragment_payload e f; field = data_be16 f (e + 6) in
      part \<noteq> [] \<and> part = take (length part) payload \<and> take_bit 13 field = off \<and>
      bit field 13 = (fs \<noteq> [] \<or> mf) \<and> (fs \<noteq> [] \<longrightarrow> 8 dvd length part) \<and>
      fragments e mf (off + length part div 8) (drop (length part) payload) fs)"

lemma length_fragment_header [simp]: "length ip = 20 \<Longrightarrow> length (fragment_header ip tot off) = 20"
  by (simp add: fragment_header_def Let_def)

lemma fragment_header_ok: "length ip = 20 \<Longrightarrow> checksum_ok (fragment_header ip tot off)"
  unfolding fragment_header_def Let_def by (intro inet_checksum_fills) simp_all

lemma fragment_header_parts:
  assumes "length ip = 20"
  shows "take 2 (drop 2 (fragment_header ip tot off)) = be16_bytes tot"
    "take 2 (drop 6 (fragment_header ip tot off)) = be16_bytes off"
    "take 2 (drop 8 (fragment_header ip tot off)) = take 2 (drop 8 ip)"
    "drop 12 (fragment_header ip tot off) = drop 12 ip"
  using assms by (simp_all add: fragment_header_def Let_def)

lemma be16_bytes_nat: "n < 65536 \<Longrightarrow> [a, b] = be16_bytes n \<Longrightarrow> be16_nat a b = n"
  by (simp add: be16_bytes_def be16_roundtrip)

text \<open>What each fragment looks like besides its place.\<close>

definition fragment_ok :: "nat \<Rightarrow> bytes \<Rightarrow> bytes \<Rightarrow> nat \<Rightarrow> vpn_packet \<Rightarrow> bool" where
  "fragment_ok e ether ip limit f \<longleftrightarrow> pkt_len f \<le> limit \<and> e + 20 < pkt_len f \<and> get_bytes (pkt_data f) 0 e = ether \<and>
     checksum_ok (get_bytes (pkt_data f) e 20) \<and> data_be16 f (e + 2) = pkt_len f - e \<and>
     get_bytes (pkt_data f) (e + 8) 2 = take 2 (drop 8 ip) \<and> get_bytes (pkt_data f) (e + 12) 8 = drop 12 ip"

lemma or_less: "a < 65536 \<Longrightarrow> b < 65536 \<Longrightarrow> a OR b < (65536::nat)"
proof -
  assume "a < 65536" "b < 65536"
  then have "take_bit 16 (a OR b) = a OR b" by (simp add: take_bit_nat_eq_self)
  then show ?thesis using take_bit_nat_less_exp [of 16 "a OR b"] by simp
qed

text \<open>The offset field: place, flags of the original and the more-fragments bit do not overlap.\<close>

lemma offset_field:
  assumes "off < 8192" "field < (65536::nat)"
    and x_def: "x = (off OR field div 0x2000 * 0x2000) OR (if m then 0x2000 else 0)"
  shows "x < 65536" "take_bit 13 x = off" "bit x 13 = (m \<or> bit field 13)"
proof -
  have f: "field div 0x2000 * 0x2000 = push_bit 13 (drop_bit 13 field)" by (simp add: push_bit_eq_mult drop_bit_eq_div)
  have "field div 0x2000 * 0x2000 < 65536" using assms(2) by simp
  with assms(1) show "x < 65536" unfolding x_def by (intro or_less) auto
  have "take_bit 13 (push_bit 13 (drop_bit 13 field)) = 0" by (simp add: take_bit_push_bit)
  with assms(1) show "take_bit 13 x = off" unfolding x_def f by (simp add: take_bit_nat_eq_self)
  have "\<not> bit off 13" using assms(1) by (simp add: bit_iff_odd)
  then show "bit x 13 = (m \<or> bit field 13)" unfolding x_def f by (auto simp: bit_simps)
qed

text \<open>One fragment.\<close>

definition one_fragment :: "bytes \<Rightarrow> bytes \<Rightarrow> int \<Rightarrow> bytes \<Rightarrow> nat \<Rightarrow> vpn_packet" where
  "one_fragment ether ip prio part off =
     \<lparr>pkt_len = length ether + ip_size + length part,
      pkt_data = put_bytes (put_bytes (put_bytes (\<lambda>_. 0) (length ether + ip_size) part) 0 ether) (length ether)
        (fragment_header ip (ip_size + length part) off),
      pkt_priority = prio\<rparr>"

lemma one_fragment_ok:
  assumes "length ip = 20" "length part + 20 < 65536" "part \<noteq> []" "length ether + 20 + length part \<le> limit" "off < 65536"
  shows "fragment_ok (length ether) ether ip limit (one_fragment ether ip prio part off)"
    "fragment_payload (length ether) (one_fragment ether ip prio part off) = part"
    "data_be16 (one_fragment ether ip prio part off) (length ether + 6) = off"
proof -
  let ?e = "length ether" and ?h = "fragment_header ip (ip_size + length part) off"
  let ?d = "pkt_data (one_fragment ether ip prio part off)"
  have h: "length ?h = 20" using assms(1) by simp
  have d: "?d = put_bytes (put_bytes (put_bytes (\<lambda>_. 0) (?e + ip_size) part) 0 ether) ?e ?h" by (simp add: one_fragment_def)
  have "get_bytes ?d ?e 20 = ?h" "get_bytes ?d 0 ?e = ether" "get_bytes ?d (?e + 20) (length part) = part"
    by (simp_all add: d h byte_simps)
  note blocks = this
  have inside: "get_bytes ?d (?e + k) n = take n (drop k ?h)" if "k + n \<le> 20" for k n
    unfolding d by (rule get_put_inside) (simp add: h that)
  have k: "(2::nat) + 2 \<le> 20" "(6::nat) + 2 \<le> 20" "(8::nat) + 2 \<le> 20" "(12::nat) + 8 \<le> 20" by simp_all
  have "get_bytes ?d (?e + 2) 2 = be16_bytes (20 + length part)" "get_bytes ?d (?e + 6) 2 = be16_bytes off"
    "get_bytes ?d (?e + 8) 2 = take 2 (drop 8 ip)" "get_bytes ?d (?e + 12) 8 = drop 12 ip"
    unfolding inside [OF k(1)] inside [OF k(2)] inside [OF k(3)] inside [OF k(4)]
    using fragment_header_parts [OF assms(1), of "20 + length part" off] assms(1) by simp_all
  with blocks show "fragment_ok ?e ether ip limit (one_fragment ether ip prio part off)"
    "fragment_payload ?e (one_fragment ether ip prio part off) = part"
    "data_be16 (one_fragment ether ip prio part off) (?e + 6) = off"
    using assms fragment_header_ok [OF assms(1)]
    by (simp_all add: fragment_ok_def fragment_payload_def get_bytes_2 be16_bytes_nat one_fragment_def)
qed

lemma fragment_loop_step:
  "payload \<noteq> [] \<Longrightarrow> 0 < maxlen \<Longrightarrow> fragment_loop ether ip maxlen origf prio payload ip_off =
     one_fragment ether ip prio (take maxlen payload)
       ((ip_off OR origf) OR (if drop maxlen payload \<noteq> [] then 0x2000 else 0)) #
     fragment_loop ether ip maxlen origf prio (drop maxlen payload) ((ip_off + length (take maxlen payload) div 8) mod 65536)"
  by (subst fragment_loop.simps) (auto simp: Let_def one_fragment_def min_def)

lemma fragment_loop_covers:
  assumes ip: "length ip = 20" and maxlen: "8 dvd maxlen" "0 < maxlen" "length ether + 20 + maxlen \<le> limit" "maxlen + 20 < 65536"
    and field: "field < 65536" and off: "off * 8 + length payload \<le> 65535"
  shows "fragments (length ether) (bit field 13) off payload
      (fragment_loop ether ip maxlen (field div 0x2000 * 0x2000) prio payload off) \<and>
    (\<forall>f \<in> set (fragment_loop ether ip maxlen (field div 0x2000 * 0x2000) prio payload off).
       fragment_ok (length ether) ether ip limit f)"
  using off
proof (induction "length payload" arbitrary: payload off rule: less_induct)
  case less
  show ?case
  proof (cases "payload = []")
    case True
    then show ?thesis by (subst (1 2) fragment_loop.simps) simp
  next
    case False
    let ?part = "take maxlen payload" and ?rest = "drop maxlen payload"
    let ?x = "(off OR field div 0x2000 * 0x2000) OR (if ?rest \<noteq> [] then 0x2000 else 0)"
    let ?off = "off + length ?part div 8"
    have "0 < length payload" using False by simp
    then have "off < 8192" using less.prems by linarith
    note x = offset_field [OF this field refl, of "?rest \<noteq> []"]
    have part: "?part \<noteq> []" "length ?part \<le> maxlen" using False maxlen(2) by simp_all
    note one = one_fragment_ok [OF ip _ part(1) _ x(1), of ether limit prio]
    have one: "fragment_ok (length ether) ether ip limit (one_fragment ether ip prio ?part ?x)"
      "fragment_payload (length ether) (one_fragment ether ip prio ?part ?x) = ?part"
      "data_be16 (one_fragment ether ip prio ?part ?x) (length ether + 6) = ?x"
      using one part(2) maxlen(3,4) by simp_all
    have eq: "?off * 8 + length ?rest = off * 8 + length payload" if "?rest \<noteq> []"
    proof -
      have "length ?part = maxlen" using that by simp
      moreover have "maxlen div 8 * 8 = maxlen" using maxlen(1) by simp
      ultimately show ?thesis using that by simp
    qed
    have rest: "?off * 8 + length ?rest \<le> 65535"
      using eq less.prems by (cases "?rest = []") auto
    then have "?off mod 65536 = ?off" by simp
    note loop = fragment_loop_step [OF False maxlen(2), of ether ip "field div 0x2000 * 0x2000" prio off, unfolded this]
    have "length ?rest < length payload" using False maxlen(2) by simp
    from less.hyps [OF this rest] have IH:
      "fragments (length ether) (bit field 13) ?off ?rest (fragment_loop ether ip maxlen (field div 0x2000 * 0x2000) prio ?rest ?off)"
      "\<forall>f \<in> set (fragment_loop ether ip maxlen (field div 0x2000 * 0x2000) prio ?rest ?off). fragment_ok (length ether) ether ip limit f"
      by blast+
    have empty: "fragment_loop ether ip maxlen (field div 0x2000 * 0x2000) prio ?rest ?off = [] \<longleftrightarrow> ?rest = []"
      using maxlen(2) by (subst fragment_loop.simps) (simp add: Let_def)
    have "?rest \<noteq> [] \<longrightarrow> 8 dvd length ?part" using maxlen(1) by auto
    moreover have "drop (length ?part) payload = ?rest" by (auto simp: min_def)
    ultimately show ?thesis
      unfolding loop fragments.simps Let_def one(2,3) using one(1) IH x(2,3) part(1) empty
      by (auto simp: min_def)
  qed
qed

lemma fragments_concat: "fragments e mf off payload fs \<Longrightarrow> concat (map (fragment_payload e) fs) = payload"
proof (induction fs arbitrary: off payload)
  case (Cons f fs)
  let ?part = "fragment_payload e f"
  have "?part = take (length ?part) payload"
    "fragments e mf (off + length ?part div 8) (drop (length ?part) payload) fs"
    using Cons.prems by (simp_all add: Let_def)
  with Cons.IH [of "off + length ?part div 8" "drop (length ?part) payload"] show ?case
    by (metis append_take_drop_id concat.simps(2) list.simps(9))
qed simp

section \<open>Error messages of IPv4\<close>

lemma ipv4_header_parts:
  assumes "length src = 4" "length dst = 4"
  shows "length (ipv4_header tot src dst) = 20" "checksum_ok (ipv4_header tot src dst)"
    "take 2 (drop 2 (ipv4_header tot src dst)) = be16_bytes tot"
    "take 4 (drop 16 (ipv4_header tot src dst)) = dst"
proof -
  show "checksum_ok (ipv4_header tot src dst)"
    unfolding ipv4_header_def Let_def by (rule inet_checksum_fills) (simp_all add: assms)
qed (simp_all add: ipv4_header_def Let_def assms)

lemma swap_mac_other: "12 \<le> i \<Longrightarrow> get_bytes (pkt_data (swap_mac_addresses p)) i n = get_bytes (pkt_data p) i n"
  by (simp add: swap_mac_addresses_def Let_def get_put_other)

lemma swap_mac_same:
  "get_bytes (pkt_data (swap_mac_addresses p)) 0 6 = get_bytes (pkt_data p) 6 6"
  "get_bytes (pkt_data (swap_mac_addresses p)) 6 6 = get_bytes (pkt_data p) 0 6"
  "pkt_len (swap_mac_addresses p) = pkt_len p"
  by (simp_all add: swap_mac_addresses_def Let_def byte_simps)

lemma swap_mac_at: "12 \<le> j \<Longrightarrow> data_at (swap_mac_addresses p) j = data_at p j"
  by (simp add: swap_mac_addresses_def Let_def put_bytes_at)

text \<open>The message as a whole: headers and the quoted beginning of the packet.\<close>

definition icmp_reply :: "nat \<Rightarrow> bytes \<Rightarrow> bytes \<Rightarrow> bytes \<Rightarrow> vpn_packet \<Rightarrow> vpn_packet" where
  "icmp_reply e ip icmp quoted p =
     (put_data (e + 20) icmp (put_data e ip (put_data (e + 20 + 8) quoted p)))\<lparr>pkt_len := e + 20 + 8 + length quoted\<rparr>"

lemma icmp_reply_blocks:
  assumes "length ip = 20" "length icmp = 8" and q_def: "q = icmp_reply e ip icmp quoted p"
  shows "get_bytes (pkt_data q) e 20 = ip" "get_bytes (pkt_data q) (e + 20) (8 + length quoted) = icmp @ quoted"
    "get_bytes (pkt_data q) (e + 28) (length quoted) = quoted" "pkt_len q = e + 28 + length quoted"
    "j < e \<Longrightarrow> data_at q j = data_at p j" "pkt_len q \<le> j \<Longrightarrow> data_at q j = data_at p j"
proof -
  show q: "get_bytes (pkt_data q) (e + 28) (length quoted) = quoted" "get_bytes (pkt_data q) e 20 = ip"
    using assms by (simp_all add: q_def icmp_reply_def byte_simps add.commute)
  have "get_bytes (pkt_data q) (e + 20) 8 = icmp" using assms by (simp add: q_def icmp_reply_def byte_simps)
  with q(1) show "get_bytes (pkt_data q) (e + 20) (8 + length quoted) = icmp @ quoted"
    unfolding get_bytes_split by (simp add: add.commute)
qed (use assms in \<open>auto simp: q_def icmp_reply_def put_bytes_def\<close>)

lemma route_ipv4_unreachable_reply:
  assumes lim: "ratelimit (now_sec env) 3 (limiter st) = (False, lim)" and e: "12 \<le> e" "e \<le> pkt_len p" "pkt_len p < 65536"
    and src: "\<forall>x a. local_ipv4 env x = Some a \<longrightarrow> length a = 4"
  obtains a nextmtu quoted c where "length a = 4" "length nextmtu = 2" "length quoted = min (pkt_len p - e) 548"
    "quoted = get_bytes (pkt_data p) e (length quoted)"
    "(unat c + le_sum ([type, code, 0, 0, 0, 0] @ nextmtu) + le_sum quoted) mod 65535 = 0"
    "type = ICMP_DEST_UNREACH \<and> code = ICMP_FRAG_NEEDED \<Longrightarrow> nextmtu = be16_bytes (pkt_len p - e)"
    "route_ipv4_unreachable env source p e type code st = (st\<lparr>limiter := lim\<rparr>,
      [Send_Packet source (icmp_reply e (ipv4_header (28 + length quoted) a (get_bytes (pkt_data p) (e + 12) 4))
         ([type, code] @ le16_bytes c @ [0, 0] @ nextmtu) quoted (swap_mac_addresses p))])"
proof -
  let ?n = "min (pkt_len p - e) 548" and ?s = "swap_mac_addresses p"
  have old: "nat ((int (pkt_len p) - int e) mod 2 ^ 32) = pkt_len p - e" using e(2,3) by (simp add: nat_diff_distrib)
  define quoted where "quoted = get_bytes (pkt_data p) e ?n"
  define nextmtu :: bytes where "nextmtu = (if type = ICMP_DEST_UNREACH \<and> code = ICMP_FRAG_NEEDED then be16_bytes (pkt_len p - e) else [0, 0])"
  define dst where "dst = get_bytes (pkt_data p) (e + 16) 4"
  define a where "a = (if type = ICMP_TIME_EXCEEDED \<and> code = ICMP_EXC_TTL
    then (case local_ipv4 env (get_bytes (pkt_data p) (e + 12) 4) of Some a \<Rightarrow> a | None \<Rightarrow> dst) else dst)"
  define c where "c = inet_checksum quoted (inet_checksum ([type, code, 0, 0, 0, 0] @ nextmtu) (- 1))"
  have same: "get_bytes (pkt_data ?s) e k = get_bytes (pkt_data p) e k"
    "get_bytes (pkt_data ?s) (e + 12) k = get_bytes (pkt_data p) (e + 12) k"
    "get_bytes (pkt_data ?s) (e + 16) k = get_bytes (pkt_data p) (e + 16) k" for k
    using e(1) by (simp_all add: swap_mac_other)
  have n: "(if pkt_len p - e \<ge> 576 - 20 - 8 then 576 - 20 - 8 else pkt_len p - e) = ?n" by (simp add: min_def)
  have n0: "(if pkt_len p - e \<ge> 548 then 548 else pkt_len p - e) = ?n" by (simp add: min_def)
  have "length a = 4" using src by (auto simp: a_def dst_def split: option.split)
  moreover have "length nextmtu = 2" "length quoted = ?n" by (simp_all add: nextmtu_def quoted_def)
  moreover have "(unat c + le_sum ([type, code, 0, 0, 0, 0] @ nextmtu) + le_sum quoted) mod 65535 = 0"
    unfolding c_def by (rule inet_checksum_two) (simp_all add: nextmtu_def quoted_def)
  moreover have "route_ipv4_unreachable env source p e type code st = (st\<lparr>limiter := lim\<rparr>,
      [Send_Packet source (icmp_reply e (ipv4_header (28 + length quoted) a (get_bytes (pkt_data p) (e + 12) 4))
         ([type, code] @ le16_bytes c @ [0, 0] @ nextmtu) quoted ?s)])"
    unfolding route_ipv4_unreachable_def Let_def lim prod.case swap_mac_same(3) old n same
      c_def a_def dst_def nextmtu_def quoted_def by (simp add: get_put_same icmp_reply_def)
  ultimately show ?thesis by (intro that [of a nextmtu quoted c]) (simp_all add: quoted_def nextmtu_def)
qed

section \<open>The segment size\<close>

lemma xor_ffff: "unat (w::u32) < 65536 \<Longrightarrow> unat (w XOR 0xFFFF) = 65535 - unat w"
proof -
  assume w: "unat w < 65536"
  then have "take_bit 16 w = w" by (simp add: word_unat_eq_iff unsigned_take_bit_eq take_bit_nat_eq_self)
  then have bits: "bit w n \<Longrightarrow> n < 16" for n by (metis bit_take_bit_iff)
  have m: "(0xFFFF::u32) = mask 16" by (simp add: mask_eq_exp_minus_1)
  have "(w XOR 0xFFFF) + w = (w XOR 0xFFFF) OR w"
    unfolding m by (rule disjunctive_add) (auto simp: bit_simps dest: bits)
  also have "\<dots> = 0xFFFF" unfolding m by (rule bit_eqI) (auto simp: bit_simps dest: bits)
  finally have "w XOR 0xFFFF = 0xFFFF - w" by (simp add: eq_diff_eq)
  moreover have "w \<le> 0xFFFF" using w by (simp add: word_le_nat_alt)
  ultimately show ?thesis by (simp add: unat_sub)
qed

lemma be16_of_u32: "be16_nat (ucast (drop_bit 8 (w::u32))) (ucast w) = unat w mod 65536"
proof -
  have "unat w mod 65536 = 256 * (unat w div 256 mod 256) + unat w mod 256"
    using mod_mult2_eq [of "unat w" 256 256] by simp
  then show ?thesis by (simp add: be16_nat_def unsigned_ucast_eq take_bit_eq_mod) (simp add: drop_bit_eq_div unat_div)
qed

lemma low_xor_ffff: "unat ((w::u32) XOR 0xFFFF) mod 65536 = 65535 - unat w mod 65536"
proof -
  have low: "unat (take_bit 16 v) = unat v mod 65536" for v :: u32 by (simp add: take_bit_eq_mod unat_mod)
  have m: "(0xFFFF::u32) = mask 16" by (simp add: mask_eq_exp_minus_1)
  have "take_bit 16 (w XOR 0xFFFF) = take_bit 16 w XOR 0xFFFF" unfolding m by (rule bit_eqI) (auto simp: bit_simps)
  then have "unat (w XOR 0xFFFF) mod 65536 = unat (take_bit 16 w XOR 0xFFFF)" using low [of "w XOR 0xFFFF"] by simp
  then show ?thesis using xor_ffff [of "take_bit 16 w"] by (simp add: low)
qed

text \<open>The update of the checksum as arithmetic.\<close>

definition mss_checksum :: "nat \<Rightarrow> nat \<Rightarrow> nat \<Rightarrow> u32" where
  "mss_checksum c old new =
     (let csum = (of_nat c XOR 0xFFFF) + (of_nat old XOR 0xFFFF) + of_nat new;
          csum = (csum AND 0xFFFF) + drop_bit 16 csum;
          csum = csum + drop_bit 16 csum
      in csum XOR 0xFFFF)"

lemma mss_checksum_nat:
  assumes "c < 65536" "old < 65536" "new < 65536"
  shows "(unat (mss_checksum c old new) mod 65536 + new) mod 65535 = (c + old) mod 65535"
proof -
  define w where "w = (of_nat c XOR 0xFFFF) + (of_nat old XOR 0xFFFF) + (of_nat new :: u32)"
  define s where "s = (65535 - c) + (65535 - old) + new"
  have s: "s < 196608" using assms by (simp add: s_def)
  have "unat (of_nat x XOR 0xFFFF :: u32) = 65535 - x" if "x < 65536" for x
    using xor_ffff [of "of_nat x"] that by (simp add: unat_of_nat)
  then have w: "unat w = s" using assms by (simp add: w_def s_def unat_word_ariths unat_of_nat)
  define t where "t = (w AND 0xFFFF) + drop_bit 16 w"
  have t: "unat t = s mod 65536 + s div 65536" using carry_step_nat [of w] by (simp add: t_def w)
  have s3: "s div 65536 \<le> 2" using s by simp
  define u where "u = t + drop_bit 16 t"
  have t131: "unat t < 65538" using t s3 by (simp add: add_less_le_mono)
  have u: "unat u = unat t + unat t div 65536"
    using t131 by (simp add: u_def unat_word_ariths drop_bit_16_nat)
  have "unat u mod 65536 mod 65535 = s mod 65535"
  proof (cases "unat t < 65536")
    case True
    then have "unat u mod 65536 = unat t" using u by simp
    moreover have "s = unat t + s div 65536 * 65535" using t div_mult_mod_eq [of s 65536] by linarith
    ultimately show ?thesis by (metis mod_mult_self1)
  next
    case False
    then have "unat t = 65536 \<or> unat t = 65537" using t131 by linarith
    then have "unat u mod 65536 + 65535 = unat t" using u by auto
    moreover have "s = unat t + s div 65536 * 65535" using t div_mult_mod_eq [of s 65536] by linarith
    ultimately show ?thesis by (metis add.commute mod_add_self1 mod_mult_self1)
  qed
  then have "int (unat u mod 65536) mod 65535 = int s mod 65535" by (metis of_nat_numeral zmod_int)
  then have dvd: "65535 dvd int (unat u mod 65536) - int s" by (simp add: mod_eq_dvd_iff)
  have "mss_checksum c old new = u XOR 0xFFFF" by (simp add: mss_checksum_def Let_def w_def t_def u_def)
  then have r: "unat (mss_checksum c old new) mod 65536 = 65535 - unat u mod 65536" by (simp only: low_xor_ffff)
  have "unat u mod 65536 < 65536" by simp
  then have eq: "int (65535 - unat u mod 65536 + new) - int (c + old) = - (int (unat u mod 65536) - int s) - 65535"
    using assms by (simp add: s_def of_nat_diff)
  have "65535 dvd - (int (unat u mod 65536) - int s) - (65535::int)"
    using dvd by (intro dvd_diff) (simp_all only: dvd_minus_iff dvd_refl)
  then have "65535 dvd int (65535 - unat u mod 65536 + new) - int (c + old)" by (simp only: eq)
  then have "int (65535 - unat u mod 65536 + new) mod 65535 = int (c + old) mod 65535" by (simp only: mod_eq_dvd_iff)
  then show ?thesis unfolding r by (metis of_nat_eq_iff of_nat_numeral zmod_int)
qed

lemma clamp_option_result:
  assumes "new < 65536" "new = nat ((int mtu - int start - 20) mod 65536)"
  shows "data_be16 (clamp_option p mtu start 0) (start + 22) = min (data_be16 p (start + 22)) new"
    "(data_be16 (clamp_option p mtu start 0) (start + 16) + data_be16 (clamp_option p mtu start 0) (start + 22)) mod 65535 =
      (data_be16 p (start + 16) + data_be16 p (start + 22)) mod 65535"
    "j \<notin> {start + 16, start + 17, start + 22, start + 23} \<Longrightarrow> data_at (clamp_option p mtu start 0) j = data_at p j"
    "pkt_len (clamp_option p mtu start 0) = pkt_len p"
proof -
  let ?q = "clamp_option p mtu start 0" and ?old = "data_be16 p (start + 22)" and ?c = "data_be16 p (start + 16)"
  have new: "?old \<le> new \<Longrightarrow> ?q = p"
    "\<not> ?old \<le> new \<Longrightarrow> ?q = put_data (start + 16) [ucast (drop_bit 8 (mss_checksum ?c ?old new)), ucast (mss_checksum ?c ?old new)]
        (put_data (start + 22) (be16_bytes new) p)"
    unfolding clamp_option_def Let_def assms(2) [symmetric] mss_checksum_def by simp_all
  have other: "data_be16 ?q (start + 22) = new" "data_be16 ?q (start + 16) = unat (mss_checksum ?c ?old new) mod 65536"
    if "\<not> ?old \<le> new"
  proof -
    show "data_be16 ?q (start + 16) = unat (mss_checksum ?c ?old new) mod 65536"
      unfolding new(2) [OF that] be16_of_u32 [symmetric] by (simp add: put_bytes_def)
    show "data_be16 ?q (start + 22) = new"
      unfolding new(2) [OF that] using be16_roundtrip [OF assms(1)] by (simp add: put_bytes_def be16_bytes_def)
  qed
  show "data_be16 ?q (start + 22) = min ?old new"
  proof (cases "?old \<le> new")
    case False
    with other(1) [OF False] show ?thesis by linarith
  qed (simp only: new(1) min_def if_True)
  show "(data_be16 ?q (start + 16) + data_be16 ?q (start + 22)) mod 65535 = (?c + ?old) mod 65535"
  proof (cases "?old \<le> new")
    case False
    show ?thesis unfolding other [OF False] by (rule mss_checksum_nat) (simp_all only: be16_less assms(1))
  qed (simp only: new(1))
  show "j \<notin> {start + 16, start + 17, start + 22, start + 23} \<Longrightarrow> data_at ?q j = data_at p j" "pkt_len ?q = pkt_len p"
    by (cases "?old \<le> new"; auto simp: new put_bytes_def)+
qed

section \<open>Properties\<close>

text \<open>
  Property C13. Decrementing the time to live of an IPv4 packet succeeds when more than one hop is left,
  lowers that byte by one and updates the header checksum so that the header sums to the same
  value as before: a header that was valid stays valid, one that was not does not become so. No
  other byte changes.
\<close>

theorem ttl_update_keeps_checksum:
  assumes "ether_type p = (ETH_P_IP, e)" "checklength p (e + 20)" "1 < data_at p (e + 8)"
  shows "\<exists>q. do_decrement_ttl env source p st = (True, q, st, []) \<and> pkt_len q = pkt_len p \<and>
    data_at q (e + 8) = data_at p (e + 8) - 1 \<and>
    be_sum (get_bytes (pkt_data q) e 20) mod 65535 = be_sum (get_bytes (pkt_data p) e 20) mod 65535 \<and>
    (checksum_ok (get_bytes (pkt_data q) e 20) \<longleftrightarrow> checksum_ok (get_bytes (pkt_data p) e 20)) \<and>
    (\<forall>j. j \<notin> {e + 8, e + 10, e + 11} \<longrightarrow> data_at q j = data_at p j)"
  using do_decrement_ttl_ipv4 [OF assms] ttl_ipv4_sum [of e p]
  by (intro exI [of _ "ttl_ipv4 e p"]) (simp add: checksum_ok_def ttl_ipv4_fields)

theorem ttl_update_keeps_checksum_witness:
  "\<exists>q. \<forall>env st. do_decrement_ttl env ''a'' \<lparr>pkt_len = 34, pkt_data = (\<lambda>i. if i = 12 then 8 else if i = 22 then 64 else 0), pkt_priority = 0\<rparr> st =
     (True, q, st, []) \<and> data_at q 22 = 63"
proof -
  let ?p = "\<lparr>pkt_len = 34, pkt_data = (\<lambda>i. if i = 12 then 8 else if i = 22 then 64 else 0), pkt_priority = 0\<rparr>"
  have "ether_type ?p = (ETH_P_IP, 14)" "checklength ?p (14 + 20)" "1 < data_at ?p (14 + 8)"
    by (simp_all add: ether_type_def be16_nat_def checklength_def word_less_nat_alt)
  note do_decrement_ttl_ipv4 [OF this] ttl_update_keeps_checksum [OF this, of undefined "''a''" undefined]
  then show ?thesis by (intro exI [of _ "ttl_ipv4 14 ?p"]) (auto simp: checksum_ok_def)
qed

text \<open>A router for the examples: node \<open>a\<close>, with a packet for nobody known.\<close>

definition sample_env :: route_env where
  "sample_env = \<lparr>myself = ''a'', route_nodes = (\<lambda>_. new_node\<lparr>reachable := True, node_options := 8\<rparr>), node_mtu = (\<lambda>_. 1400),
     routing_mode = RMODE_ROUTER, forwarding_mode = FMODE_INTERNAL, decrement_ttl = True, directonly = False,
     priorityinheritance = False, macexpire = 600, overwrite_mac = False, now_sec = 1,
     local_ipv4 = (\<lambda>_. None), local_ipv6 = (\<lambda>_. None)\<rparr>"

definition sample_state :: route_state where
  "sample_state = \<lparr>limiter = \<lparr>lasttime = 0, limit_count = 0\<rparr>, table = init_subnets, mymac = [0xFE, 0xFD, 0, 0, 0, 0]\<rparr>"

lemma sample_limit: "ratelimit (now_sec sample_env) 3 (limiter sample_state) = (False, \<lparr>lasttime = 1, limit_count = 1\<rparr>)"
  by (simp add: sample_env_def sample_state_def ratelimit_def)

text \<open>
  Property C11. Fragmenting an IPv4 packet without header options, whose length field is right and whose last byte
  has an offset below 64 KiB, gives fragments that together carry the payload, each with its place and with the
  more-fragments bit set except on the last (where it stays what it was), none larger than the limit of
  the link, with the Ethernet header, protocol and addresses of the original and a valid checksum.
\<close>

theorem fragments_reassemble:
  assumes "data_at p e AND 0x0F = 5" "e + data_be16 p (e + 2) = pkt_len p" "e \<le> 18" "node_mtu env dest < 65536"
    and off: "take_bit 13 (data_be16 p (e + 6)) * 8 + (data_be16 p (e + 2) - 20) \<le> 65535"
  shows "\<exists>fs. fragment_ipv4_packet env dest p e = map (Send_Packet dest) fs \<and>
    concat (map (fragment_payload e) fs) = get_bytes (pkt_data p) (e + 20) (data_be16 p (e + 2) - 20) \<and>
    fragments e (bit (data_be16 p (e + 6)) 13) (take_bit 13 (data_be16 p (e + 6)))
      (get_bytes (pkt_data p) (e + 20) (data_be16 p (e + 2) - 20)) fs \<and>
    (\<forall>f \<in> set fs. fragment_ok e (get_bytes (pkt_data p) 0 e) (get_bytes (pkt_data p) e 20) (max (node_mtu env dest) 590) f)"
proof -
  let ?field = "data_be16 p (e + 6)" and ?ether = "get_bytes (pkt_data p) 0 e" and ?ip = "get_bytes (pkt_data p) e 20"
  let ?payload = "get_bytes (pkt_data p) (e + 20) (data_be16 p (e + 2) - 20)"
  let ?limit = "max (node_mtu env dest) 590"
  let ?max = "(?limit - e - 20) div 8 * 8"
  let ?fs = "fragment_loop ?ether ?ip ?max (?field div 0x2000 * 0x2000) (pkt_priority p) ?payload (?field mod 0x2000)"
  have "?ip ! 0 AND 0x0F = 5" using assms(1) by simp
  then have frags: "fragment_ipv4_packet env dest p e = map (Send_Packet dest) ?fs"
    unfolding fragment_ipv4_packet_def Let_def using assms(2) by simp
  have lim: "590 \<le> ?limit" "?limit < 65536" using assms(4) by simp_all
  have div: "?max \<le> ?limit - e - 20" "?limit - e - 20 < ?max + 8"
    by (simp_all add: div_mult_mod_eq [symmetric] flip: minus_mod_eq_div_mult)
  have m: "8 dvd ?max" "0 < ?max" "length ?ether + 20 + ?max \<le> ?limit" "?max + 20 < 65536"
    using div lim assms(3) by simp_all
  have field: "?field < 65536" "?field mod 0x2000 * 8 + length ?payload \<le> 65535"
    using off by (simp_all add: be16_less take_bit_eq_mod)
  have low: "take_bit 13 ?field = ?field mod 0x2000" by (simp add: take_bit_eq_mod)
  note covers = fragment_loop_covers [OF _ m field, of ?ip "pkt_priority p", simplified length_get_bytes]
  then show ?thesis unfolding low
    by (intro exI [of _ ?fs] conjI frags) (auto intro: fragments_concat)
qed

theorem fragments_reassemble_witness:
  "let p = \<lparr>pkt_len = 1514, pkt_data = (\<lambda>i. if i = 14 then 0x45 else if i = 16 then 5 else if i = 17 then 0xDC else 7),
             pkt_priority = 0\<rparr>
   in \<exists>fs. fragment_ipv4_packet (sample_env\<lparr>node_mtu := \<lambda>_. 600\<rparr>) ''b'' p 14 = map (Send_Packet ''b'') fs \<and>
        concat (map (fragment_payload 14) fs) = replicate 1480 7"
proof -
  let ?p = "\<lparr>pkt_len = 1514, pkt_data = (\<lambda>i. if i = 14 then 0x45 else if i = 16 then 5 else if i = 17 then 0xDC else 7), pkt_priority = 0\<rparr>"
  have "data_be16 ?p (14 + 2) = 1500" "data_be16 ?p (14 + 6) = 1799" by (simp_all add: be16_nat_def)
  moreover have "take_bit 13 (1799::nat) = 1799" by (simp add: take_bit_eq_mod)
  moreover have "get_bytes (pkt_data ?p) 34 1480 = replicate 1480 7" by (rule nth_equalityI) simp_all
  ultimately show ?thesis
    using fragments_reassemble [of ?p 14 "sample_env\<lparr>node_mtu := \<lambda>_. 600\<rparr>" "''b''"] by (auto simp: Let_def)
qed

text \<open>
  Property C12. When the rate limit lets it through, an IPv4 error message goes back to the sender of the
  packet, at most 576 bytes long after the Ethernet header, with the Ethernet addresses exchanged, addressed
  to the source of the packet, with a right length and valid checksums of the IPv4 header and of the
  ICMP message, quoting the beginning of the packet; when fragmentation is needed it carries the length the
  packet may have. Nothing beyond the message is written.
\<close>

theorem icmp_error_wellformed:
  assumes "ratelimit (now_sec env) 3 (limiter st) = (False, lim)" "12 \<le> e" "e \<le> pkt_len p" "pkt_len p < 65536"
    and "\<forall>x a. local_ipv4 env x = Some a \<longrightarrow> length a = 4"
  shows "\<exists>q. route_ipv4_unreachable env source p e type code st = (st\<lparr>limiter := lim\<rparr>, [Send_Packet source q]) \<and>
    pkt_len q = e + 28 + min (pkt_len p - e) 548 \<and> data_be16 q (e + 2) = pkt_len q - e \<and>
    get_bytes (pkt_data q) 0 12 = get_bytes (pkt_data p) 6 6 @ get_bytes (pkt_data p) 0 6 \<and>
    get_bytes (pkt_data q) (e + 16) 4 = get_bytes (pkt_data p) (e + 12) 4 \<and>
    checksum_ok (get_bytes (pkt_data q) e 20) \<and> checksum_ok (get_bytes (pkt_data q) (e + 20) (pkt_len q - e - 20)) \<and>
    get_bytes (pkt_data q) (e + 28) (pkt_len q - e - 28) = get_bytes (pkt_data p) e (pkt_len q - e - 28) \<and>
    (type = ICMP_DEST_UNREACH \<and> code = ICMP_FRAG_NEEDED \<longrightarrow> get_bytes (pkt_data q) (e + 26) 2 = be16_bytes (pkt_len p - e)) \<and>
    (\<forall>j \<ge> pkt_len q. data_at q j = data_at p j)"
proof -
  obtain a nextmtu quoted c where a: "length a = 4" and nm: "length nextmtu = 2" and n: "length quoted = min (pkt_len p - e) 548"
    and quoted: "quoted = get_bytes (pkt_data p) e (length quoted)"
    and c: "(unat c + le_sum ([type, code, 0, 0, 0, 0] @ nextmtu) + le_sum quoted) mod 65535 = 0"
    and mtu: "type = ICMP_DEST_UNREACH \<and> code = ICMP_FRAG_NEEDED \<Longrightarrow> nextmtu = be16_bytes (pkt_len p - e)"
    and run: "route_ipv4_unreachable env source p e type code st = (st\<lparr>limiter := lim\<rparr>,
      [Send_Packet source (icmp_reply e (ipv4_header (28 + length quoted) a (get_bytes (pkt_data p) (e + 12) 4))
         ([type, code] @ le16_bytes c @ [0, 0] @ nextmtu) quoted (swap_mac_addresses p))])"
    by (rule route_ipv4_unreachable_reply [OF assms, where type = type and code = code and source = source]) (rule that)
  let ?ip = "ipv4_header (28 + length quoted) a (get_bytes (pkt_data p) (e + 12) 4)"
  let ?icmp = "[type, code] @ le16_bytes c @ [0, 0] @ nextmtu"
  let ?q = "icmp_reply e ?ip ?icmp quoted (swap_mac_addresses p)"
  note ip = ipv4_header_parts [OF a, of "get_bytes (pkt_data p) (e + 12) 4" "28 + length quoted", simplified]
  have icmp: "length ?icmp = 8" using nm by simp
  note q = icmp_reply_blocks [OF ip(1) icmp refl, where e = e and quoted = quoted and p = "swap_mac_addresses p"]
  have inside: "get_bytes (pkt_data ?q) (e + k) n = take n (drop k ?ip)" if "k + n \<le> 20" for k n
  proof -
    have "get_bytes (pkt_data ?q) (e + k) n = take n (drop k (get_bytes (pkt_data ?q) e 20))"
      using that by (intro nth_equalityI) (auto simp: add.assoc)
    then show ?thesis using q(1) by simp
  qed
  have k: "(2::nat) + 2 \<le> 20" "(16::nat) + 4 \<le> 20" by simp_all
  have "[data_at ?q (e + 2), data_at ?q (Suc (e + 2))] = be16_bytes (28 + length quoted)"
    using inside [OF k(1)] ip(3) by (simp add: get_bytes_2)
  then have "data_be16 ?q (e + 2) = 28 + length quoted" by (intro be16_bytes_nat) (use n in simp_all)
  moreover have "get_bytes (pkt_data ?q) 0 12 = get_bytes (pkt_data (swap_mac_addresses p)) 0 12"
    using q(5) assms(2) by (intro get_bytes_cong) simp
  then have "get_bytes (pkt_data ?q) 0 12 = get_bytes (pkt_data p) 6 6 @ get_bytes (pkt_data p) 0 6"
    using get_bytes_split [of "pkt_data (swap_mac_addresses p)" 0 6 6] by (simp add: swap_mac_same)
  moreover have "checksum_ok (?icmp @ quoted)"
    using c nm unfolding checksum_ok_le by (simp add: le_sum_append ac_simps)
  moreover have "get_bytes (pkt_data ?q) (e + 26) 2 = nextmtu"
  proof -
    have "get_bytes (pkt_data ?q) (e + 26) 2 = take 2 (drop 6 (get_bytes (pkt_data ?q) (e + 20) (8 + length quoted)))"
      by (intro nth_equalityI) (auto simp: add.assoc)
    also have "\<dots> = nextmtu" unfolding q(2) using nm by simp
    finally show ?thesis .
  qed
  moreover have "data_at ?q j = data_at p j" if "pkt_len ?q \<le> j" for j
    using q(6) [OF that] that q(4) assms(2) by (simp add: swap_mac_at)
  ultimately have fields: "data_be16 ?q (e + 2) = 28 + length quoted"
    "get_bytes (pkt_data ?q) 0 12 = get_bytes (pkt_data p) 6 6 @ get_bytes (pkt_data p) 0 6" "checksum_ok (?icmp @ quoted)"
    "get_bytes (pkt_data ?q) (e + 26) 2 = nextmtu" "\<forall>j \<ge> pkt_len ?q. data_at ?q j = data_at p j" by blast+
  have len: "pkt_len ?q = e + 28 + length quoted" "pkt_len ?q - e = 28 + length quoted"
    "pkt_len ?q - e - 20 = 8 + length quoted" "pkt_len ?q - e - 28 = length quoted" unfolding q(4) by simp_all
  show ?thesis
  proof (rule exI [of _ ?q], intro conjI)
    show "route_ipv4_unreachable env source p e type code st = (st\<lparr>limiter := lim\<rparr>, [Send_Packet source ?q])" by (rule run)
    show "pkt_len ?q = e + 28 + min (pkt_len p - e) 548" using len(1) n by linarith
    show "data_be16 ?q (e + 2) = pkt_len ?q - e" unfolding len(2) by (rule fields(1))
    show "get_bytes (pkt_data ?q) 0 12 = get_bytes (pkt_data p) 6 6 @ get_bytes (pkt_data p) 0 6" by (rule fields(2))
    show "get_bytes (pkt_data ?q) (e + 16) 4 = get_bytes (pkt_data p) (e + 12) 4" unfolding inside [OF k(2)] by (rule ip(4))
    show "checksum_ok (get_bytes (pkt_data ?q) e 20)" unfolding q(1) by (rule ip(2))
    show "checksum_ok (get_bytes (pkt_data ?q) (e + 20) (pkt_len ?q - e - 20))" unfolding len(3) q(2) by (rule fields(3))
    show "get_bytes (pkt_data ?q) (e + 28) (pkt_len ?q - e - 28) = get_bytes (pkt_data p) e (pkt_len ?q - e - 28)"
      unfolding len(4) q(3) by (rule quoted)
    show "type = ICMP_DEST_UNREACH \<and> code = ICMP_FRAG_NEEDED \<longrightarrow> get_bytes (pkt_data ?q) (e + 26) 2 = be16_bytes (pkt_len p - e)"
      unfolding fields(4) using mtu by blast
    show "\<forall>j \<ge> pkt_len ?q. data_at ?q j = data_at p j" by (rule fields(5))
  qed
qed

theorem icmp_error_wellformed_witness:
  "\<exists>q st'. route_ipv4_unreachable sample_env ''b'' \<lparr>pkt_len = 60, pkt_data = of_nat, pkt_priority = 0\<rparr> 14 3 6 sample_state =
     (st', [Send_Packet ''b'' q]) \<and> pkt_len q = 88 \<and> checksum_ok (get_bytes (pkt_data q) 14 20)"
proof -
  have "\<forall>x a. local_ipv4 sample_env x = Some a \<longrightarrow> length a = 4" by (simp add: sample_env_def)
  from icmp_error_wellformed [OF sample_limit _ _ _ this, of 14 "\<lparr>pkt_len = 60, pkt_data = of_nat, pkt_priority = 0\<rparr>" "''b''" 3 6]
  show ?thesis by auto
qed

text \<open>
  When the segment size option is the first option of a TCP header that lies in the packet, and
  the link leaves room for a segment, the option is lowered to what the smaller of the two links can carry
  and never raised, and the checksum of TCP is updated to match. No other byte changes.
\<close>

theorem clamp_mss_first_option:
  assumes "node_options (route_nodes env v) AND OPTION_CLAMP_MSS \<noteq> 0" "tcp_start p = Some start"
    and "24 \<le> hl" "start + hl \<le> pkt_len p" "unat (data_at p (start + 12)) div 16 * 4 = hl"
    and "data_at p (start + 20) = 2" "data_at p (start + 21) = 4"
    and "mtu = (if v = myself env then node_mtu env source else min (node_mtu env v) (node_mtu env source))"
    and "start + 20 \<le> mtu" "mtu < 65536" and q: "q = clamp_mss env source (Some v) p"
  shows "data_be16 q (start + 22) = min (data_be16 p (start + 22)) (mtu - start - 20) \<and>
    (data_be16 q (start + 16) + data_be16 q (start + 22)) mod 65535 =
      (data_be16 p (start + 16) + data_be16 p (start + 22)) mod 65535 \<and>
    (\<forall>j. j \<notin> {start + 16, start + 17, start + 22, start + 23} \<longrightarrow> data_at q j = data_at p j) \<and> pkt_len q = pkt_len p"
proof -
  let ?len = "(int (unat (data_at p (start + 12)) div 16) - 5) * 4"
  have len: "?len = int hl - 20" using assms(5) by (simp flip: of_nat_mult)
  have mtu: "(if v \<noteq> myself env \<and> node_mtu env v < node_mtu env source then node_mtu env v else node_mtu env source) = mtu"
    using assms(8) by (auto simp: min_def)
  have loop: "mss_loop p mtu start (int hl - 20) 0 = clamp_option p mtu start 0"
    using assms(3,6,7) by (subst mss_loop.simps) simp
  have "q = clamp_option p mtu start 0"
    unfolding q clamp_mss_def assms(2) option.case Let_def mtu len loop using assms(1,3,4) by simp
  moreover have "mtu - start - 20 = nat ((int mtu - int start - 20) mod 65536)" using assms(9,10) by simp
  ultimately show ?thesis using clamp_option_result [where new = "mtu - start - 20" and mtu = mtu and start = start and p = p] assms(10) by simp
qed

definition syn_packet :: vpn_packet where
  "syn_packet = \<lparr>pkt_len = 58, pkt_data = (\<lambda>i. case map_of [(12, 8), (14, 0x45), (23, 6), (46, 0x60), (54, 2), (55, 4), (56, 5), (57, 0xB4)] i of
     Some b \<Rightarrow> b | None \<Rightarrow> 0), pkt_priority = 0\<rparr>"

lemma syn_packet_data:
  "data_at syn_packet 12 = 8" "data_at syn_packet 13 = 0" "data_at syn_packet 14 = 0x45" "data_at syn_packet 23 = 6"
  "data_at syn_packet 46 = 0x60" "data_at syn_packet 54 = 2" "data_at syn_packet 55 = 4" "data_at syn_packet 56 = 5"
  "data_at syn_packet 57 = 0xB4" "pkt_len syn_packet = 58"
  by (simp_all add: syn_packet_def)

theorem clamp_mss_first_option_witness:
  "data_be16 (clamp_mss sample_env ''a'' (Some ''b'') syn_packet) 56 = 1346"
proof -
  have start: "tcp_start syn_packet = Some 34"
    by (simp add: tcp_start_def ether_type_def syn_packet_data be16_nat_def)
  have opt: "node_options (route_nodes sample_env ''b'') AND OPTION_CLAMP_MSS \<noteq> 0" by (simp add: sample_env_def)
  have hl: "34 + 24 \<le> pkt_len syn_packet" "unat (data_at syn_packet (34 + 12)) div 16 * 4 = 24"
    "data_at syn_packet (34 + 20) = 2" "data_at syn_packet (34 + 21) = 4" by (simp_all add: syn_packet_data)
  have mtu: "1400 = (if ''b'' = myself sample_env then node_mtu sample_env ''a''
      else min (node_mtu sample_env ''b'') (node_mtu sample_env ''a''))" by (simp add: sample_env_def)
  have "data_be16 (clamp_mss sample_env ''a'' (Some ''b'') syn_packet) (34 + 22) = min (data_be16 syn_packet (34 + 22)) (1400 - 34 - 20)"
    by (rule clamp_mss_first_option [OF opt start _ hl mtu _ _ refl, THEN conjunct1]) simp_all
  moreover have "data_be16 syn_packet (34 + 22) = 1460" by (simp add: syn_packet_data be16_nat_def)
  ultimately show ?thesis by simp
qed

text \<open>
  A segment size option that comes after a no-operation byte is not clamped, whatever its
  value: the length of the option is read at the place of the first option.
\<close>

theorem clamp_mss_padded_option:
  assumes "tcp_start p = Some start" "data_at p (start + 20) = 1" "data_at p (start + 21) = 2"
  shows "clamp_mss env source (Some v) p = p"
proof -
  have one: "mss_loop p mtu start len 1 = p" for mtu len
    using assms(3) by (subst mss_loop.simps) (simp add: numeral_eq_Suc)
  have "mss_loop p mtu start len 0 = p" for mtu len
    using assms(2) one by (subst mss_loop.simps) simp
  then show ?thesis using assms(1) by (simp add: clamp_mss_def Let_def)
qed

theorem clamp_mss_padded_option_witness:
  "let p = put_data 54 [1, 2, 4, 5, 0xB4, 0, 0, 0] syn_packet in
     clamp_mss sample_env ''a'' (Some ''b'') p = p \<and> data_be16 p 57 = 1460 \<and> node_mtu sample_env ''b'' = 1400"
proof -
  let ?p = "put_data 54 [1, 2, 4, 5, 0xB4, 0, 0, 0] syn_packet"
  have "tcp_start ?p = Some 34"
    by (simp add: tcp_start_def ether_type_def syn_packet_data be16_nat_def put_bytes_def)
  from clamp_mss_padded_option [OF this, of sample_env "''a''" "''b''"] show ?thesis
    by (simp add: Let_def put_bytes_def be16_nat_def sample_env_def)
qed

text \<open>
  An expired ICMP message that itself reports an expired time to live is answered with another
  such message, unless the low byte of its header checksum happens to be 1: the guard against this looks at
  the checksum where it means the protocol. Only the rate limit stops two nodes from answering each other.
\<close>

theorem expired_icmp_error_answered:
  assumes "ether_type p = (ETH_P_IP, e)" "e + 20 \<le> pkt_len p" "pkt_len p < 65536" "data_at p (e + 8) \<le> 1"
    and "data_at p (e + 9) = IPPROTO_ICMP" "data_at p (e + 20) = ICMP_TIME_EXCEEDED"
    and "data_at p (e + 11) \<noteq> 1" "ratelimit (now_sec env) 3 (limiter st) = (False, lim)"
    and src: "\<forall>x a. local_ipv4 env x = Some a \<longrightarrow> length a = 4"
  shows "\<exists>q. do_decrement_ttl env source p st = (False, p, st\<lparr>limiter := lim\<rparr>, [Send_Packet source q]) \<and>
    data_at q (e + 9) = IPPROTO_ICMP \<and> data_at q (e + 20) = ICMP_TIME_EXCEEDED"
proof -
  have e: "12 \<le> e" using assms(1) by (auto simp: ether_type_def split: if_splits)
  have e2: "e \<le> pkt_len p" using assms(2) by simp
  obtain a nextmtu quoted c where a: "length a = 4" "length nextmtu = 2"
    and run: "route_ipv4_unreachable env source p e 11 0 st = (st\<lparr>limiter := lim\<rparr>,
      [Send_Packet source (icmp_reply e (ipv4_header (28 + length quoted) a (get_bytes (pkt_data p) (e + 12) 4))
         ([11, 0] @ le16_bytes c @ [0, 0] @ nextmtu) quoted (swap_mac_addresses p))])"
    by (rule route_ipv4_unreachable_reply [OF assms(8) e e2 assms(3) src, where type = 11 and code = 0 and source = source])
       (rule that)
  let ?ip = "ipv4_header (28 + length quoted) a (get_bytes (pkt_data p) (e + 12) 4)"
  let ?icmp = "[11, 0] @ le16_bytes c @ [0, 0] @ nextmtu"
  let ?q = "icmp_reply e ?ip ?icmp quoted (swap_mac_addresses p)"
  have len: "length ?ip = 20" "length ?icmp = 8" using a by (simp_all add: ipv4_header_parts)
  note blocks = icmp_reply_blocks [OF len refl, where e = e and quoted = quoted and p = "swap_mac_addresses p"]
  have "data_at ?q (e + 9) = ?ip ! 9" "data_at ?q (e + 20) = 11"
    using arg_cong [OF blocks(1), of "\<lambda>l. l ! 9"] arg_cong [OF blocks(2), of "\<lambda>l. l ! 0"] by simp_all
  moreover have "?ip ! 9 = 1" by (simp add: ipv4_header_def Let_def be16_bytes_def nth_append)
  moreover have "do_decrement_ttl env source p st = (False, p, st\<lparr>limiter := lim\<rparr>, [Send_Packet source ?q])"
    using assms(1,2,4,7) run by (simp add: do_decrement_ttl_def checklength_def)
  ultimately show ?thesis by (intro exI [of _ ?q] conjI) simp_all
qed

theorem expired_icmp_error_answered_witness:
  "\<exists>q st'. do_decrement_ttl sample_env ''b'' (put_data 22 [1, 1, 0, 0] (put_data 34 [11] syn_packet)) sample_state =
     (False, put_data 22 [1, 1, 0, 0] (put_data 34 [11] syn_packet), st', [Send_Packet ''b'' q]) \<and> data_at q 34 = 11"
proof -
  let ?p = "put_data 22 [1, 1, 0, 0] (put_data 34 [11] syn_packet)"
  have p: "ether_type ?p = (ETH_P_IP, 14)" "14 + 20 \<le> pkt_len ?p" "pkt_len ?p < 65536" "data_at ?p (14 + 8) \<le> 1"
    "data_at ?p (14 + 9) = IPPROTO_ICMP" "data_at ?p (14 + 20) = ICMP_TIME_EXCEEDED" "data_at ?p (14 + 11) \<noteq> 1"
    by (simp_all add: ether_type_def syn_packet_data be16_nat_def put_bytes_def)
  have src: "\<forall>x a. local_ipv4 sample_env x = Some a \<longrightarrow> length a = 4" by (simp add: sample_env_def)
  from expired_icmp_error_answered [OF p sample_limit src, of "''b''"] show ?thesis by auto
qed

end
