(* ===== verification/Route_Delivery.thy ===== *)
theory Route_Delivery
  imports Route
begin

text \<open>
  Where packets go: the handlers of \<^verbatim>\<open>route.c\<close> together with the subnet table. Error messages only
  ever go back to the sender, and a packet is only ever forwarded towards the reachable owner of the
  subnet that the table gives for its destination.
\<close>

section \<open>Error messages go back\<close>

definition back_to :: "string \<Rightarrow> route_action list \<Rightarrow> bool" where
  "back_to source acts \<longleftrightarrow> (\<forall>a \<in> set acts. \<exists>q. a = Send_Packet source q)"

lemma ipv4_unreachable_back: "back_to source (snd (route_ipv4_unreachable env source p e type code st))"
  by (simp add: route_ipv4_unreachable_def Let_def back_to_def split: prod.split)

lemma ipv6_unreachable_back: "back_to source (snd (route_ipv6_unreachable env source p e type code st))"
  by (simp add: route_ipv6_unreachable_def Let_def back_to_def split: prod.split)

lemma unreachable_backD:
  "route_ipv4_unreachable env source p e type code st = (st', acts) \<Longrightarrow> back_to source acts"
  "route_ipv6_unreachable env source p e type code st = (st', acts) \<Longrightarrow> back_to source acts"
  using ipv4_unreachable_back [of source env p e type code st] ipv6_unreachable_back [of source env p e type code st] by auto

lemma back_to_Nil [simp]: "back_to source []"
  by (simp add: back_to_def)

lemma do_decrement_ttl_back:
  "do_decrement_ttl env source p st = (go, p', st', acts) \<Longrightarrow> back_to source acts \<and> (go \<longrightarrow> acts = [] \<and> st' = st)"
  using ipv4_unreachable_back [of source env p] ipv6_unreachable_back [of source env p]
  by (auto simp: do_decrement_ttl_def back_to_def split: prod.splits if_splits) (metis snd_conv)+

lemma forward_ttl_back:
  "forward_ttl env source own p st = (go, p', st', acts) \<Longrightarrow> back_to source acts \<and> (go \<longrightarrow> acts = [] \<and> st' = st)"
  using do_decrement_ttl_back [of env source p st go p' st' acts]
  by (auto simp: forward_ttl_def back_to_def split: if_splits)

lemma table_unreachable [simp]:
  "table (fst (route_ipv4_unreachable env source p e type code st)) = table st"
  "table (fst (route_ipv6_unreachable env source p e type code st)) = table st"
  by (simp_all add: route_ipv4_unreachable_def route_ipv6_unreachable_def Let_def split: prod.split)

lemma table_unreachableD:
  "route_ipv4_unreachable env source p e type code st = (st', acts) \<Longrightarrow> table st' = table st"
  "route_ipv6_unreachable env source p e type code st = (st', acts) \<Longrightarrow> table st' = table st"
  using table_unreachable [of env source p e type code st] by auto

lemma do_decrement_ttl_table:
  "do_decrement_ttl env source p st = (go, p', st', acts) \<Longrightarrow> table st' = table st"
  by (auto simp: do_decrement_ttl_def dest: table_unreachableD split: prod.splits if_splits)

lemma forward_ttl_table:
  "forward_ttl env source own p st = (go, p', st', acts) \<Longrightarrow> table st' = table st"
  by (auto simp: forward_ttl_def dest: do_decrement_ttl_table split: if_splits)

section \<open>Forwarding\<close>

text \<open>
  The ways a packet may leave towards the owner of a subnet: to the owner itself, or in fragments to the node
  that stands between.
\<close>

definition may_forward :: "route_env \<Rightarrow> string \<Rightarrow> string \<Rightarrow> bool" where
  "may_forward env source own \<longleftrightarrow> own \<noteq> source \<and> reachable (route_nodes env own) \<and> route_via env own \<noteq> Some source \<and>
     (forwarding_mode env = FMODE_OFF \<longrightarrow> source = myself env \<or> own = myself env) \<and>
     (directonly env \<longrightarrow> route_via env own = Some own)"

definition towards :: "route_env \<Rightarrow> string \<Rightarrow> route_action list \<Rightarrow> bool" where
  "towards env own acts \<longleftrightarrow> (\<forall>a \<in> set acts. \<exists>d q. a = Send_Packet d q \<and> (d = own \<or> route_via env own = Some d))"

lemma fragment_towards: "route_via env own = Some v \<Longrightarrow> towards env own (fragment_ipv4_packet env v p e)"
  by (auto simp: fragment_ipv4_packet_def Let_def towards_def)

lemma broadcast_only:
  "a \<in> set (snd (route_broadcast env source p st)) \<Longrightarrow> (\<exists>q. a = Broadcast_Packet source q) \<or> (\<exists>q. a = Send_Packet source q)"
  using do_decrement_ttl_back [of env source p st]
  by (fastforce simp: route_broadcast_def back_to_def split: if_splits prod.splits)

lemma route_ipv4_result:
  assumes run: "route_ipv4 env source p st = (st', acts)" and len: "checklength p 34"
    and look: "lookup_subnet_ipv4 (\<lambda>n. reachable (route_nodes env n)) (get_bytes (pkt_data p) 30 4) (table st) = (subnet, tab)"
  shows "back_to source acts \<or> (\<exists>s. subnet = Some s \<and> owner s = None \<and> (st', acts) = route_broadcast env source p (st\<lparr>table := tab\<rparr>)) \<or>
    (\<exists>s own. subnet = Some s \<and> owner s = Some own \<and> may_forward env source own \<and> towards env own acts)"
proof (cases subnet)
  case None
  with run len look ipv4_unreachable_back [of source env p 14 3 6 "st\<lparr>table := tab\<rparr>"] show ?thesis
    by (simp add: route_ipv4_def)
next
  case (Some s)
  show ?thesis
  proof (cases "owner s")
    case None
    with Some run len look show ?thesis by (simp add: route_ipv4_def)
  next
    case own: (Some own)
    obtain go p1 st1 acts1 where ttl: "forward_ttl env source own p (st\<lparr>table := tab\<rparr>) = (go, p1, st1, acts1)"
      by (cases "forward_ttl env source own p (st\<lparr>table := tab\<rparr>)") auto
    note bk = forward_ttl_back [OF ttl]
    show ?thesis
    proof (cases "own = source \<or> \<not> reachable (route_nodes env own) \<or> (forwarding_mode env = FMODE_OFF \<and> source \<noteq> myself env \<and> own \<noteq> myself env) \<or>
        \<not> go \<or> route_via env own = Some source \<or> (directonly env \<and> route_via env own \<noteq> Some own)")
      case True
      then have "back_to source acts"
        using run len look Some own ttl bk by (auto simp: route_ipv4_def Let_def dest: unreachable_backD split: if_splits)
      then show ?thesis by simp
    next
      case False
      then have "may_forward env source own" by (auto simp: may_forward_def)
      moreover have "back_to source acts \<or> towards env own acts"
        using run len look Some own ttl bk False fragment_towards [of env own]
        by (auto simp: route_ipv4_def Let_def dest: unreachable_backD split: if_splits option.splits) (auto simp: towards_def)
      ultimately show ?thesis using Some own by blast
    qed
  qed
qed

text \<open>Nothing stands in the way: no time to live to decrement, and no node on the way for which the packet is too large.\<close>

definition unhindered :: "route_env \<Rightarrow> string \<Rightarrow> vpn_packet \<Rightarrow> string \<Rightarrow> bool" where
  "unhindered env source p own \<longleftrightarrow> checklength p 34 \<and> may_forward env source own \<and> (decrement_ttl env \<longrightarrow> source = myself env \<or> own = myself env) \<and>
     (case route_via env own of None \<Rightarrow> True | Some v \<Rightarrow> v = myself env \<or> pkt_len p \<le> max (node_mtu env v) 590)"

lemma route_ipv4_unhindered:
  assumes run: "route_ipv4 env source p st = (st', acts)"
    and look: "lookup_subnet_ipv4 (\<lambda>n. reachable (route_nodes env n)) (get_bytes (pkt_data p) 30 4) (table st) = (Some s, tab)"
    and own: "owner s = Some own" and free: "unhindered env source p own"
  shows "\<exists>q. acts = [Send_Packet own q]"
proof -
  have ttl: "forward_ttl env source own p st1 = (True, p, st1, [])" for st1
    using free by (auto simp: forward_ttl_def unhindered_def)
  show ?thesis
    using run look own free ttl
    by (auto simp: route_ipv4_def Let_def unhindered_def may_forward_def split: option.splits if_splits)
qed

section \<open>Property\<close>

text \<open>
  Property C10. In router mode, whatever a node receives or sends, all that an IPv4 packet gives rise to, besides what goes
  back to its sender, is this. If the subnet that the table, caches or not, gives for the
  destination address has no owner, the packet is broadcast. If it has one, the packet leaves only towards that owner, and only if the owner
  is reachable, is not the sender, and the way to it does not lead back to the
  sender; the packet goes to the owner or, in fragments, to the node through which the owner is reached; with
  forwarding off it comes from or ends at the own node, and with \<^verbatim>\<open>DirectOnly\<close> there is no node in between.
  If there is no subnet, nothing leaves. Conversely, if these conditions hold, the packet is complete, no time to live has to be decremented and the packet is
  not too large for the way, then it is sent to the owner, and nothing else happens.
\<close>

theorem route_ipv4_delivery:
  assumes "routing_mode env = RMODE_ROUTER" "forwarding_mode env \<noteq> FMODE_KERNEL \<or> source = myself env" "data_be16 p 12 = ETH_P_IP"
    and caches: "caches_inv (\<lambda>n. reachable (route_nodes env n)) (table st)"
    and run: "route env source p st = (st', acts)"
  shows "(\<forall>a \<in> set acts. (\<exists>q. a = Send_Packet source q) \<or>
      (\<exists>s. ref_ipv4 (\<lambda>n. reachable (route_nodes env n)) (table st) (get_bytes (pkt_data p) 30 4) = Some s \<and>
        s \<in> set (links (subnet_tree (table st))) \<and> matches_ipv4 (get_bytes (pkt_data p) 30 4) (net s) \<and>
        (case owner s of
           None \<Rightarrow> \<exists>q. a = Broadcast_Packet source q
         | Some own \<Rightarrow> reachable (route_nodes env own) \<and> own \<noteq> source \<and> route_via env own \<noteq> Some source \<and>
             (\<exists>d q. a = Send_Packet d q \<and> (d = own \<or> route_via env own = Some d) \<and> (directonly env \<longrightarrow> route_via env own = Some own \<and> d = own)) \<and>
             (forwarding_mode env = FMODE_OFF \<longrightarrow> source = myself env \<or> own = myself env)))) \<and>
    (\<forall>s own. ref_ipv4 (\<lambda>n. reachable (route_nodes env n)) (table st) (get_bytes (pkt_data p) 30 4) = Some s \<and>
       owner s = Some own \<and> unhindered env source p own \<longrightarrow> (\<exists>q. acts = [Send_Packet own q]))"
proof (intro conjI ballI allI impI)
  let ?r = "\<lambda>n. reachable (route_nodes env n)" and ?a = "get_bytes (pkt_data p) 30 4"
  obtain subnet tab where look: "lookup_subnet_ipv4 ?r ?a (table st) = (subnet, tab)" by (cases "lookup_subnet_ipv4 ?r ?a (table st)")
  then have ref: "subnet = ref_ipv4 ?r (table st) ?a" using lookup_ipv4_coherent [OF caches, of ?a] by simp
  have ip: "route_ipv4 env source p st = (st', acts)" if "checklength p 14"
    using assms(1-3) run that by (auto simp: route_def split: if_splits)
  fix a assume a: "a \<in> set acts"
  then have ip': "route_ipv4 env source p st = (st', acts)"
    using assms(1-3) run by (auto simp: route_def split: if_splits)
  then have len: "checklength p 34" using a by (auto simp: route_ipv4_def split: if_splits)
  have table: "s \<in> set (links (subnet_tree (table st))) \<and> matches_ipv4 ?a (net s)" if "ref_ipv4 ?r (table st) ?a = Some s" for s
    using that scan_result [of "matches_ipv4 ?a" ?r "links (subnet_tree (table st))" None s] by (auto simp: ref_ipv4_def)
  from route_ipv4_result [OF ip' len look] consider "back_to source acts"
    | s where "subnet = Some s" "owner s = None" "(st', acts) = route_broadcast env source p (st\<lparr>table := tab\<rparr>)"
    | s own where "subnet = Some s" "owner s = Some own" "may_forward env source own" "towards env own acts" by blast
  then show "(\<exists>q. a = Send_Packet source q) \<or>
      (\<exists>s. ref_ipv4 ?r (table st) ?a = Some s \<and> s \<in> set (links (subnet_tree (table st))) \<and> matches_ipv4 ?a (net s) \<and>
        (case owner s of
           None \<Rightarrow> \<exists>q. a = Broadcast_Packet source q
         | Some own \<Rightarrow> reachable (route_nodes env own) \<and> own \<noteq> source \<and> route_via env own \<noteq> Some source \<and>
             (\<exists>d q. a = Send_Packet d q \<and> (d = own \<or> route_via env own = Some d) \<and> (directonly env \<longrightarrow> route_via env own = Some own \<and> d = own)) \<and>
             (forwarding_mode env = FMODE_OFF \<longrightarrow> source = myself env \<or> own = myself env)))"
  proof cases
    case 1
    then show ?thesis using a by (auto simp: back_to_def)
  next
    case 2
    then have "a \<in> set (snd (route_broadcast env source p (st\<lparr>table := tab\<rparr>)))" using a by (metis snd_conv)
    from broadcast_only [OF this] show ?thesis
    proof
      assume "\<exists>q. a = Broadcast_Packet source q"
      then show ?thesis using 2(1,2) ref table [of s] by (intro disjI2 exI [of _ s]) simp
    qed simp
  next
    case 3
    then obtain d q where "a = Send_Packet d q" "d = own \<or> route_via env own = Some d" using a by (auto simp: towards_def)
    then show ?thesis using 3 ref table by (auto simp: may_forward_def)
  qed
next
  let ?r = "\<lambda>n. reachable (route_nodes env n)" and ?a = "get_bytes (pkt_data p) 30 4"
  fix s own assume s: "ref_ipv4 ?r (table st) ?a = Some s \<and> owner s = Some own \<and> unhindered env source p own"
  obtain tab where look: "lookup_subnet_ipv4 ?r ?a (table st) = (Some s, tab)"
    using lookup_ipv4_coherent [OF caches, of ?a] s by (cases "lookup_subnet_ipv4 ?r ?a (table st)") auto
  have "checklength p 14" using s by (simp add: unhindered_def checklength_def)
  then have "route_ipv4 env source p st = (st', acts)"
    using assms(1-3) run by (auto simp: route_def split: if_splits)
  from route_ipv4_unhindered [OF this look] s show "\<exists>q. acts = [Send_Packet own q]" by blast
qed

definition wan_env :: route_env where
  "wan_env = \<lparr>myself = ''a'', route_nodes = (\<lambda>n. new_node\<lparr>reachable := True, via := Some n\<rparr>), node_mtu = (\<lambda>_. 1400),
     routing_mode = RMODE_ROUTER, forwarding_mode = FMODE_INTERNAL, decrement_ttl = False, directonly = False,
     priorityinheritance = False, macexpire = 600, overwrite_mac = False, now_sec = 1,
     local_ipv4 = (\<lambda>_. None), local_ipv6 = (\<lambda>_. None)\<rparr>"

definition wan_state :: route_state where
  "wan_state = \<lparr>limiter = \<lparr>lasttime = 0, limit_count = 0\<rparr>,
     table = subnet_add (Some ''b'') \<lparr>owner = None, expires = 0, weight = 10, net = SUBNET_IPV4 [10, 0, 0, 0] 8\<rparr> init_subnets,
     mymac = [0xFE, 0xFD, 0, 0, 0, 0]\<rparr>"

definition wan_packet :: vpn_packet where
  "wan_packet = \<lparr>pkt_len = 60, pkt_data = (\<lambda>i. if i = 12 then 8 else if i = 30 then 10 else 0), pkt_priority = 0\<rparr>"

theorem route_ipv4_delivery_witness:
  "\<exists>st' q. route wan_env ''a'' wan_packet wan_state = (st', [Send_Packet ''b'' q])"
proof -
  obtain st' acts where run: "route wan_env ''a'' wan_packet wan_state = (st', acts)" by (cases "route wan_env ''a'' wan_packet wan_state")
  have env: "routing_mode wan_env = RMODE_ROUTER" "forwarding_mode wan_env \<noteq> FMODE_KERNEL \<or> ''a'' = myself wan_env"
    "data_be16 wan_packet 12 = ETH_P_IP" "(\<lambda>n. reachable (route_nodes wan_env n)) = (\<lambda>_. True)"
    by (simp_all add: wan_env_def wan_packet_def be16_nat_def)
  have address: "get_bytes (pkt_data wan_packet) 30 4 = [10, 0, 0, 0]" by code_simp
  have "map_option owner (ref_ipv4 (\<lambda>_. True) (table wan_state) [10, 0, 0, 0]) = Some (Some ''b'')" by code_simp
  then obtain s where s: "ref_ipv4 (\<lambda>_. True) (table wan_state) [10, 0, 0, 0] = Some s" "owner s = Some ''b''" by auto
  have free: "unhindered wan_env ''a'' wan_packet ''b''" by code_simp
  have "caches_inv (\<lambda>_. True) (table wan_state)"
    unfolding wan_state_def route_state.select_convs subnet_add_def Let_def
    by (rule flush_caches_inv) (use init_caches_inv [of "\<lambda>_. True"] in \<open>simp_all add: caches_inv_def\<close>)
  then have "caches_inv (\<lambda>n. reachable (route_nodes wan_env n)) (table wan_state)" unfolding env(4) .
  note route_ipv4_delivery [OF env(1-3) this run, unfolded env(4) address]
  with s free have "\<exists>q. acts = [Send_Packet ''b'' q]" by blast
  with run show ?thesis by blast
qed

end
