(* ===== verification/C_Text.thy ===== *)
theory C_Text
  imports Prelude
begin

text \<open>
  What the daemon uses of the C library to read and write text: the character classes of the C locale,
  the conversions of \<^verbatim>\<open>printf\<close> for numbers, and \<^verbatim>\<open>sscanf\<close>. A scan format is a list of items; the
  result is the list of values that were assigned and, when the end of the format was reached
  (where the sources put a \<^verbatim>\<open>%n\<close>), the rest of the input. Numbers that do not fit are cut the way glibc
  cuts them: saturated to 64 bits, then reduced to the size of the variable.
\<close>

section \<open>Character classes\<close>

abbreviation code_of :: "char \<Rightarrow> nat" where "code_of c \<equiv> of_char c"

definition isdigit :: "char \<Rightarrow> bool" where
  "isdigit c \<longleftrightarrow> 48 \<le> code_of c \<and> code_of c \<le> 57"

definition isalnum :: "char \<Rightarrow> bool" where
  "isalnum c \<longleftrightarrow> isdigit c \<or> (65 \<le> code_of c \<and> code_of c \<le> 90) \<or> (97 \<le> code_of c \<and> code_of c \<le> 122)"

definition isxdigit :: "char \<Rightarrow> bool" where
  "isxdigit c \<longleftrightarrow> isdigit c \<or> (65 \<le> code_of c \<and> code_of c \<le> 70) \<or> (97 \<le> code_of c \<and> code_of c \<le> 102)"

definition isspace :: "char \<Rightarrow> bool" where
  "isspace c \<longleftrightarrow> code_of c = 32 \<or> (9 \<le> code_of c \<and> code_of c \<le> 13)"

definition iscntrl :: "char \<Rightarrow> bool" where
  "iscntrl c \<longleftrightarrow> code_of c < 32 \<or> code_of c = 127"

definition digit_value :: "char \<Rightarrow> nat" where
  "digit_value c = (if isdigit c then code_of c - 48 else if code_of c \<le> 90 then code_of c - 55 else code_of c - 87)"

definition digit_char :: "nat \<Rightarrow> char" where
  "digit_char d = (if d < 10 then char_of (48 + d) else char_of (87 + d))"

section \<open>Printing numbers\<close>

function digits :: "nat \<Rightarrow> nat \<Rightarrow> string" where
  "digits b n = (if n < b \<or> b < 2 then [digit_char n] else digits b (n div b) @ [digit_char (n mod b)])"
  by pat_completeness auto
termination by (relation "measure snd") auto

declare digits.simps [simp del]

abbreviation print_u :: "nat \<Rightarrow> string" where "print_u \<equiv> digits 10"

abbreviation print_x :: "nat \<Rightarrow> string" where "print_x \<equiv> digits 16"

definition print_d :: "int \<Rightarrow> string" where
  "print_d i = (if i < 0 then CHR ''-'' # print_u (nat (- i)) else print_u (nat i))"

definition print_02x :: "nat \<Rightarrow> string" where
  "print_02x n = (if n < 16 then CHR ''0'' # print_x n else print_x n)"

section \<open>Scanning\<close>

definition digits_value :: "nat \<Rightarrow> string \<Rightarrow> nat" where
  "digits_value b s = foldl (\<lambda>v c. v * b + digit_value c) 0 s"

definition scan_space :: "string \<Rightarrow> string" where
  "scan_space s = dropWhile isspace s"

fun scan_sign :: "string \<Rightarrow> bool \<times> string" where
  "scan_sign (c # s) = (if c = CHR ''-'' then (True, s) else if c = CHR ''+'' then (False, s) else (False, c # s))"
| "scan_sign [] = (False, [])"

fun scan_0x :: "string \<Rightarrow> string" where
  "scan_0x (a # b # s) = (if a = CHR ''0'' \<and> (b = CHR ''x'' \<or> b = CHR ''X'') then s else a # b # s)"
| "scan_0x s = s"

definition scan_digits :: "(char \<Rightarrow> bool) \<Rightarrow> nat \<Rightarrow> string \<Rightarrow> (nat \<times> string) option" where
  "scan_digits ok b s =
     (if takeWhile ok s = [] then None else Some (digits_value b (takeWhile ok s), dropWhile ok s))"

definition strtol_value :: "bool \<Rightarrow> nat \<Rightarrow> int" where
  "strtol_value neg v = (if neg then max (- int v) (- (2 ^ 63)) else min (int v) (2 ^ 63 - 1))"

definition strtoul_value :: "bool \<Rightarrow> nat \<Rightarrow> int" where
  "strtoul_value neg v = (let w = min (int v) (2 ^ 64 - 1) in if neg then (2 ^ 64 - w) mod 2 ^ 64 else w)"

text \<open>\<^verbatim>\<open>%d\<close>, \<^verbatim>\<open>%x\<close> and \<^verbatim>\<open>%u\<close>, the last two into a variable of \<open>w\<close> bits.\<close>

definition scan_d :: "string \<Rightarrow> (int \<times> string) option" where
  "scan_d s = (case scan_sign (scan_space s) of (neg, r) \<Rightarrow>
     map_option (\<lambda>(v, r). (c_int (strtol_value neg v), r)) (scan_digits isdigit 10 r))"

definition scan_x :: "nat \<Rightarrow> string \<Rightarrow> (nat \<times> string) option" where
  "scan_x w s = (case scan_sign (scan_space s) of (neg, r) \<Rightarrow>
     map_option (\<lambda>(v, r). (nat (strtoul_value neg v mod 2 ^ w), r)) (scan_digits isxdigit 16 (scan_0x r)))"

definition scan_u :: "nat \<Rightarrow> string \<Rightarrow> (nat \<times> string) option" where
  "scan_u w s = (case scan_sign (scan_space s) of (neg, r) \<Rightarrow>
     map_option (\<lambda>(v, r). (nat (strtoul_value neg v mod 2 ^ w), r)) (scan_digits isdigit 10 r))"

text \<open>A number with a maximal field width, such as \<^verbatim>\<open>%2d\<close>: white space is skipped first and does not count.\<close>

definition scan_wd :: "nat \<Rightarrow> string \<Rightarrow> (int \<times> string) option" where
  "scan_wd k s = (let s = scan_space s in map_option (\<lambda>(v, r). (v, r @ drop k s)) (scan_d (take k s)))"

text \<open>\<^verbatim>\<open>%2048s\<close>: characters up to the next white space, at most \<open>k\<close> of them.\<close>

definition scan_s :: "nat \<Rightarrow> string \<Rightarrow> (string \<times> string) option" where
  "scan_s k s = (let s = scan_space s; w = take k (takeWhile (\<lambda>c. \<not> isspace c) s)
     in if w = [] then None else Some (w, drop (length w) s))"

datatype scan_item = Match_Char char | Match_Space | Skip_D | Skip_X | Scan_D | Scan_WD nat | Scan_X nat | Scan_U nat | Scan_S nat

datatype scan_value = V_Int int | V_Nat nat | V_String string

fun sscanf :: "scan_item list \<Rightarrow> string \<Rightarrow> scan_value list \<times> string option" where
  "sscanf [] s = ([], Some s)"
| "sscanf (Match_Char c # f) s = (case s of [] \<Rightarrow> ([], None) | d # r \<Rightarrow> if c = d then sscanf f r else ([], None))"
| "sscanf (Match_Space # f) s = sscanf f (scan_space s)"
| "sscanf (Skip_D # f) s = (case scan_d s of None \<Rightarrow> ([], None) | Some (_, r) \<Rightarrow> sscanf f r)"
| "sscanf (Skip_X # f) s = (case scan_x 32 s of None \<Rightarrow> ([], None) | Some (_, r) \<Rightarrow> sscanf f r)"
| "sscanf (Scan_D # f) s = (case scan_d s of None \<Rightarrow> ([], None)
     | Some (v, r) \<Rightarrow> (case sscanf f r of (vs, e) \<Rightarrow> (V_Int v # vs, e)))"
| "sscanf (Scan_WD k # f) s = (case scan_wd k s of None \<Rightarrow> ([], None)
     | Some (v, r) \<Rightarrow> (case sscanf f r of (vs, e) \<Rightarrow> (V_Int v # vs, e)))"
| "sscanf (Scan_X w # f) s = (case scan_x w s of None \<Rightarrow> ([], None)
     | Some (v, r) \<Rightarrow> (case sscanf f r of (vs, e) \<Rightarrow> (V_Nat v # vs, e)))"
| "sscanf (Scan_U w # f) s = (case scan_u w s of None \<Rightarrow> ([], None)
     | Some (v, r) \<Rightarrow> (case sscanf f r of (vs, e) \<Rightarrow> (V_Nat v # vs, e)))"
| "sscanf (Scan_S k # f) s = (case scan_s k s of None \<Rightarrow> ([], None)
     | Some (v, r) \<Rightarrow> (case sscanf f r of (vs, e) \<Rightarrow> (V_String v # vs, e)))"

text \<open>\<^verbatim>\<open>atoi\<close>: 0 when no number can be read.\<close>

definition atoi :: "string \<Rightarrow> int" where
  "atoi s = (case scan_d s of Some (v, _) \<Rightarrow> v | None \<Rightarrow> 0)"

section \<open>Digits\<close>

lemma digit_char_code: "d < 16 \<Longrightarrow> code_of (digit_char d) = (if d < 10 then 48 + d else 87 + d)"
  by (simp add: digit_char_def)

lemma digit_value_char [simp]: "d < 16 \<Longrightarrow> digit_value (digit_char d) = d"
  by (simp add: digit_value_def isdigit_def digit_char_code)

lemma isxdigit_char [simp]: "d < 16 \<Longrightarrow> isxdigit (digit_char d)"
  by (auto simp: isxdigit_def isdigit_def digit_char_code)

lemma isdigit_char [simp]: "d < 10 \<Longrightarrow> isdigit (digit_char d)"
  by (auto simp: isdigit_def digit_char_code)

lemma digits_nonempty [simp]: "digits b n \<noteq> []"
  by (subst digits.simps) simp

lemma set_digits: "2 \<le> b \<Longrightarrow> set (digits b n) \<subseteq> digit_char ` {..<b}"
proof (induction b n rule: digits.induct)
  case (1 b n)
  show ?case
  proof (cases "n < b")
    case True
    then show ?thesis by (subst digits.simps) simp
  next
    case False
    with 1 have "set (digits b (n div b)) \<subseteq> digit_char ` {..<b}" by simp
    then show ?thesis using False 1(2) by (subst digits.simps) auto
  qed
qed

lemma digits_value_append [simp]: "digits_value b (s @ [c]) = digits_value b s * b + digit_value c"
  by (simp add: digits_value_def)

lemma digits_value_digits [simp]: "2 \<le> b \<Longrightarrow> b \<le> 16 \<Longrightarrow> digits_value b (digits b n) = n"
proof (induction b n rule: digits.induct)
  case (1 b n)
  show ?case
  proof (cases "n < b")
    case True
    with 1(3) show ?thesis by (subst digits.simps) (simp add: digits_value_def)
  next
    case False
    with 1 have "digits_value b (digits b (n div b)) = n div b" by simp
    moreover from 1(2,3) have "n mod b < 16" by (intro less_le_trans [OF mod_less_divisor]) auto
    ultimately show ?thesis using False 1(2) by (subst digits.simps) simp
  qed
qed

text \<open>A printed number has no more digits than its range allows.\<close>

lemma length_digits: "2 \<le> b \<Longrightarrow> n < b ^ Suc k \<Longrightarrow> length (digits b n) \<le> Suc k"
proof (induction k arbitrary: n)
  case 0
  then show ?case by (subst digits.simps) simp
next
  case (Suc k)
  then have "n div b < b ^ Suc k" by (simp add: less_mult_imp_div_less mult.commute)
  with Suc show ?case by (subst digits.simps) auto
qed

lemma takeWhile_prefix: "(\<And>c. c \<in> set s \<Longrightarrow> ok c) \<Longrightarrow> r = [] \<or> \<not> ok (hd r) \<Longrightarrow> takeWhile ok (s @ r) = s \<and> dropWhile ok (s @ r) = r"
  by (cases r) (auto simp: takeWhile_append2 dropWhile_append2)

lemma hex_digits: "c \<in> set (print_x n) \<Longrightarrow> isxdigit c"
  using set_digits [of 16 n] by auto

lemma dec_digits: "c \<in> set (print_u n) \<Longrightarrow> isdigit c"
  using set_digits [of 10 n] by auto

lemma digit_not_space: "isxdigit c \<Longrightarrow> \<not> isspace c \<and> c \<noteq> CHR ''-'' \<and> c \<noteq> CHR ''+'' \<and> c \<noteq> CHR '':'' \<and> c \<noteq> CHR ''.'' \<and>
    c \<noteq> CHR ''/'' \<and> c \<noteq> CHR ''#''  \<and> c \<noteq> CHR ''x'' \<and> c \<noteq> CHR ''X''"
  by (auto simp: isxdigit_def isdigit_def isspace_def)

lemma isdigit_isxdigit: "isdigit c \<Longrightarrow> isxdigit c"
  by (simp add: isxdigit_def)

lemma scan_start:
  assumes "s \<noteq> []" "isxdigit (hd s)"
  shows "scan_space (s @ r) = s @ r" "scan_sign (s @ r) = (False, s @ r)"
  using assms digit_not_space [of "hd s"] by (cases s; simp add: scan_space_def)+

lemma hd_digit: "isxdigit (hd (print_x n))" "isxdigit (hd (print_u n))"
  using hex_digits [of "hd (print_x n)" n] dec_digits [of "hd (print_u n)" n] isdigit_isxdigit by simp_all

lemma scan_0x_plain: "s \<noteq> [] \<Longrightarrow> set s \<subseteq> Collect isxdigit \<Longrightarrow> r = [] \<or> \<not> (hd r = CHR ''x'' \<or> hd r = CHR ''X'') \<Longrightarrow> scan_0x (s @ r) = s @ r"
proof (cases s)
  case (Cons a t)
  assume "set s \<subseteq> Collect isxdigit" "r = [] \<or> \<not> (hd r = CHR ''x'' \<or> hd r = CHR ''X'')"
  with Cons digit_not_space show ?thesis by (cases t; cases r) auto
qed simp

lemma scan_digits_print:
  assumes "\<And>c. c \<in> set (digits b n) \<Longrightarrow> ok c" "r = [] \<or> \<not> ok (hd r)" "2 \<le> b" "b \<le> 16"
  shows "scan_digits ok b (digits b n @ r) = Some (n, r)"
  using takeWhile_prefix [of "digits b n" ok r] assms by (simp add: scan_digits_def)

lemma strtoul_fits: "n < 2 ^ w \<Longrightarrow> w \<le> 64 \<Longrightarrow> nat (strtoul_value False n mod 2 ^ w) = n"
proof -
  assume n: "n < 2 ^ w" and w: "w \<le> 64"
  have "(2::int) ^ w \<le> 2 ^ 64" using w by (rule power_increasing) simp
  moreover have v: "int n < 2 ^ w" using n by (metis of_nat_less_iff of_nat_numeral of_nat_power)
  ultimately have "int n \<le> 2 ^ 64 - 1" by linarith
  then have "strtoul_value False n = int n" by (simp only: strtoul_value_def Let_def min_absorb1 if_False)
  moreover have "int n mod 2 ^ w = int n" using v by (intro mod_pos_pos_trivial) auto
  ultimately show ?thesis by simp
qed

lemma scan_x_print:
  assumes "n < 2 ^ w" "w \<le> 64" "r = [] \<or> \<not> isxdigit (hd r) \<and> hd r \<noteq> CHR ''x'' \<and> hd r \<noteq> CHR ''X''"
  shows "scan_x w (print_x n @ r) = Some (n, r)"
proof -
  have v: "nat (strtoul_value False n mod 2 ^ w) = n" by (rule strtoul_fits) fact+
  have "scan_0x (print_x n @ r) = print_x n @ r"
    by (rule scan_0x_plain) (use hex_digits assms(3) in auto)
  moreover have "scan_digits isxdigit 16 (print_x n @ r) = Some (n, r)"
    by (rule scan_digits_print) (use assms(3) hex_digits in auto)
  ultimately show ?thesis
    using scan_start [OF digits_nonempty hd_digit(1)] v by (simp add: scan_x_def)
qed

lemma scan_u_print:
  assumes "n < 2 ^ w" "w \<le> 64" "r = [] \<or> \<not> isdigit (hd r)"
  shows "scan_u w (print_u n @ r) = Some (n, r)"
proof -
  have v: "nat (strtoul_value False n mod 2 ^ w) = n" by (rule strtoul_fits) fact+
  then show ?thesis
    using scan_start [OF digits_nonempty hd_digit(2)] assms(3)
    by (simp add: scan_u_def scan_digits_print [OF dec_digits])
qed

lemma scan_d_print:
  assumes "c_int_ok i" "r = [] \<or> \<not> isdigit (hd r)"
  shows "scan_d (print_d i @ r) = Some (i, r)"
proof (cases "i < 0")
  case True
  with assms have "c_int (strtol_value True (nat (- i))) = i" by (simp add: strtol_value_def c_int_ok_def c_int_id)
  with True assms show ?thesis
    by (simp add: scan_d_def print_d_def scan_space_def isspace_def scan_digits_print dec_digits)
next
  case False
  with assms have "c_int (strtol_value False (nat i)) = i" by (simp add: strtol_value_def c_int_ok_def c_int_id)
  with False assms show ?thesis
    using scan_start [OF digits_nonempty hd_digit(2)] by (simp add: scan_d_def print_d_def scan_digits_print dec_digits)
qed

text \<open>What is left of the input is made of its characters, so a character that is missing cannot be matched.\<close>

lemma set_scan_rest:
  "set (scan_space s) \<subseteq> set s"
  "set (snd (scan_sign s)) \<subseteq> set s"
  "set (scan_0x s) \<subseteq> set s"
  "scan_digits ok b s = Some (v, r) \<Longrightarrow> set r \<subseteq> set s"
  "scan_s k s = Some (w, r) \<Longrightarrow> set r \<subseteq> set s"
proof -
  show space: "set (scan_space s) \<subseteq> set s" for s using set_dropWhileD by (fastforce simp: scan_space_def)
  show "set (snd (scan_sign s)) \<subseteq> set s" by (cases s rule: scan_sign.cases) auto
  show "set (scan_0x s) \<subseteq> set s" by (cases s rule: scan_0x.cases) auto
  show "scan_digits ok b s = Some (v, r) \<Longrightarrow> set r \<subseteq> set s"
    using set_dropWhileD by (fastforce simp: scan_digits_def split: if_splits)
  show "scan_s k s = Some (w, r) \<Longrightarrow> set r \<subseteq> set s"
    using set_drop_subset space [of s] by (fastforce simp: scan_s_def Let_def split: if_splits)
qed

lemma set_scan_d: "scan_d s = Some (v, r) \<Longrightarrow> set r \<subseteq> set s"
  using set_scan_rest(1) [of s] set_scan_rest(2) [of "scan_space s"] set_scan_rest(4) [of isdigit 10 "snd (scan_sign (scan_space s))"]
  by (fastforce simp: scan_d_def split: prod.splits)

lemma set_scan_x: "scan_x w s = Some (v, r) \<Longrightarrow> set r \<subseteq> set s"
  using set_scan_rest(1) [of s] set_scan_rest(2) [of "scan_space s"] set_scan_rest(3) [of "snd (scan_sign (scan_space s))"]
    set_scan_rest(4) [of isxdigit 16 "scan_0x (snd (scan_sign (scan_space s)))"]
  by (fastforce simp: scan_x_def split: prod.splits)

lemma set_scan_u: "scan_u w s = Some (v, r) \<Longrightarrow> set r \<subseteq> set s"
  using set_scan_rest(1) [of s] set_scan_rest(2) [of "scan_space s"] set_scan_rest(4) [of isdigit 10 "snd (scan_sign (scan_space s))"]
  by (fastforce simp: scan_u_def split: prod.splits)

lemma set_scan_wd: "scan_wd k s = Some (v, r) \<Longrightarrow> set r \<subseteq> set s"
  using set_scan_rest(1) [of s] set_scan_d [of "take k (scan_space s)"] set_take_subset [of k "scan_space s"]
    set_drop_subset [of k "scan_space s"]
  by (fastforce simp: scan_wd_def Let_def)

lemma sscanf_missing: "Match_Char c \<in> set f \<Longrightarrow> c \<notin> set s \<Longrightarrow> snd (sscanf f s) = None"
proof (induction f s rule: sscanf.induct)
  case (3 f s)
  then show ?case using set_scan_rest(1) [of s] by auto
qed ((auto split: list.splits option.splits prod.splits) [1],
  (blast dest: set_scan_d set_scan_x set_scan_u set_scan_wd set_scan_rest(5))?)+

text \<open>A word without white space, followed by white space or the end.\<close>

lemma scan_s_word:
  assumes "s \<noteq> []" "\<And>c. c \<in> set s \<Longrightarrow> \<not> isspace c" "length s \<le> k" "r = [] \<or> isspace (hd r)"
  shows "scan_s k (s @ r) = Some (s, r)"
proof -
  have "scan_space (s @ r) = s @ r" using assms(1,2) by (cases s) (auto simp: scan_space_def)
  moreover have "0 < k" using assms(1,3) by (cases k) auto
  ultimately show ?thesis using takeWhile_prefix [of s "\<lambda>c. \<not> isspace c" r] assms by (simp add: scan_s_def Let_def)
qed

end
