(* ===== verification/Utils.thy ===== *)
theory Utils
  imports C_Text
begin

text \<open>
  Text encodings and name checks (\<^verbatim>\<open>utils.c\<close>): hexadecimal and base64 in both directions, valid node and
  net names, and the name a daemon takes from its environment. The two base64 alphabets are decoded by
  one table. A result of the decoders is the list of the bytes that the returned length covers.
\<close>

section \<open>Hexadecimal\<close>

definition hexadecimals :: string where "hexadecimals = ''0123456789ABCDEF''"

definition c_toupper :: "char \<Rightarrow> char" where
  "c_toupper c = (if 97 \<le> code_of c \<and> code_of c \<le> 122 then char_of (code_of c - 32) else c)"

definition charhex2bin :: "char \<Rightarrow> int" where
  "charhex2bin c = (if isdigit c then int (code_of c) - 48 else int (code_of (c_toupper c)) - 65 + 10)"

fun hex2bin :: "string \<Rightarrow> nat \<Rightarrow> bytes" where
  "hex2bin (a # b # s) (Suc n) =
     (if isxdigit a \<and> isxdigit b then of_int (charhex2bin a * 16 + charhex2bin b) # hex2bin s n else [])"
| "hex2bin _ _ = []"

definition bin2hex :: "bytes \<Rightarrow> string" where
  "bin2hex bs = concat (map (\<lambda>b. [hexadecimals ! unat (drop_bit 4 b), hexadecimals ! unat (b AND 15)]) bs)"

section \<open>Base64\<close>

definition base64_original :: string where
  "base64_original = ''ABCDEFGHIJKLMNOPQRSTUVWXYZabcdefghijklmnopqrstuvwxyz0123456789+/''"

definition base64_urlsafe :: string where
  "base64_urlsafe = ''ABCDEFGHIJKLMNOPQRSTUVWXYZabcdefghijklmnopqrstuvwxyz0123456789-_''"

definition base64_decode :: "int list" where
  "base64_decode = replicate 43 (-1) @ [62, -1, 62, -1, 63] @ [52..61] @ replicate 7 (-1) @ [0..25] @
     [-1, -1, -1, -1, 63, -1] @ [26..51] @ replicate 133 (-1)"

text \<open>What a character contributes: -1 of the table becomes a word with all bits set.\<close>

definition b64_value :: "char \<Rightarrow> u32" where
  "b64_value c = word_of_int (base64_decode ! code_of c)"

definition triplet_bytes :: "u32 \<Rightarrow> bytes" where
  "triplet_bytes t = [ucast t, ucast (drop_bit 8 t), ucast (drop_bit 16 t)]"

text \<open>
  The loop of \<^verbatim>\<open>b64decode\<close> over the characters that are left, with the index of the next one, the group
  under construction and the bytes written so far.
\<close>

fun b64_loop :: "string \<Rightarrow> nat \<Rightarrow> u32 \<Rightarrow> bytes \<Rightarrow> bytes" where
  "b64_loop [] i t out =
     (if t AND 0xFF000000 \<noteq> 0 then []
      else if i mod 4 = 3 then out @ take 2 (triplet_bytes t)
      else if i mod 4 = 2 then out @ take 1 (triplet_bytes t)
      else out)"
| "b64_loop (c # s) i t out =
     (let t = t OR push_bit (6 * (i mod 4)) (b64_value c) in
      if i mod 4 = 3 then
        (if t AND 0xFF000000 \<noteq> 0 then [] else b64_loop s (i + 1) 0 (out @ triplet_bytes t))
      else b64_loop s (i + 1) t out)"

definition b64decode :: "string \<Rightarrow> nat \<Rightarrow> bytes" where
  "b64decode src n = b64_loop (take n src) 0 0 []"

definition b64_char :: "string \<Rightarrow> u32 \<Rightarrow> char" where
  "b64_char alphabet t = alphabet ! unat t"

text \<open>The group of four characters for three bytes, and the shorter groups at the end.\<close>

definition b64_group :: "string \<Rightarrow> byte \<Rightarrow> byte \<Rightarrow> byte \<Rightarrow> string" where
  "b64_group alphabet a b c =
     (let t = ucast a OR push_bit 8 (ucast b) OR push_bit 16 (ucast c)
      in [b64_char alphabet (t AND 63), b64_char alphabet (drop_bit 6 t AND 63),
          b64_char alphabet (drop_bit 12 t AND 63), b64_char alphabet (drop_bit 18 t)])"

fun b64_tail :: "string \<Rightarrow> bytes \<Rightarrow> string" where
  "b64_tail alphabet [a, b] =
     (let t = ucast a OR push_bit 8 (ucast b)
      in [b64_char alphabet (t AND 63), b64_char alphabet (drop_bit 6 t AND 63), b64_char alphabet (drop_bit 12 t)])"
| "b64_tail alphabet [a] =
     (let t = ucast a in [b64_char alphabet (t AND 63), b64_char alphabet (drop_bit 6 t)])"
| "b64_tail alphabet _ = []"

definition b64encode_internal :: "bytes \<Rightarrow> string \<Rightarrow> string" where
  "b64encode_internal src alphabet =
     concat (map (\<lambda>k. b64_group alphabet (src ! (3 * k)) (src ! (3 * k + 1)) (src ! (3 * k + 2))) [0..<length src div 3]) @
     b64_tail alphabet (drop (length src div 3 * 3) src)"

definition b64encode :: "bytes \<Rightarrow> string" where
  "b64encode src = b64encode_internal src base64_original"

definition b64encode_urlsafe :: "bytes \<Rightarrow> string" where
  "b64encode_urlsafe src = b64encode_internal src base64_urlsafe"

section \<open>Names\<close>

definition check_id :: "string \<Rightarrow> bool" where
  "check_id name \<longleftrightarrow> name \<noteq> [] \<and> (\<forall>c \<in> set name. isalnum c \<or> c = CHR ''_'')"

definition check_netname :: "string \<Rightarrow> bool \<Rightarrow> bool" where
  "check_netname netname strict \<longleftrightarrow> netname \<noteq> [] \<and> hd netname \<noteq> CHR ''.'' \<and>
     (\<forall>c \<in> set netname. \<not> iscntrl c \<and> c \<noteq> CHR ''/'' \<and> c \<noteq> CHR 0x5C \<and>
        \<not> (strict \<and> c \<in> set ('' $%<>:`|?*'' @ [CHR 0x22])))"

text \<open>
  The environment is a map from variable names to values; \<open>hostname\<close> is the answer of \<^verbatim>\<open>gethostname\<close>, if it
  gave one.
\<close>

definition sanitize :: "string \<Rightarrow> string" where
  "sanitize s = map (\<lambda>c. if isalnum c then c else CHR ''_'') s"

definition replace_name :: "(string \<rightharpoonup> string) \<Rightarrow> string option \<Rightarrow> string \<Rightarrow> string option" where
  "replace_name env hostname name =
     (let ret =
        (case name of
           c # var \<Rightarrow>
             if c = CHR ''$'' then
               (case env var of
                  Some v \<Rightarrow> Some (sanitize v)
                | None \<Rightarrow>
                    if var \<noteq> ''HOST'' then None
                    else (case hostname of Some h \<Rightarrow> if h = [] then None else Some (sanitize h) | None \<Rightarrow> None))
             else Some name
         | [] \<Rightarrow> Some name)
      in case ret of Some r \<Rightarrow> if check_id r then Some r else None | None \<Rightarrow> None)"

section \<open>Hexadecimal round trip\<close>

lemma hexadecimals_digit:
  assumes "d < 16"
  shows "isxdigit (hexadecimals ! d)" "charhex2bin (hexadecimals ! d) = int d"
proof -
  have "\<forall>d \<in> set [0..<16]. isxdigit (hexadecimals ! d) \<and> charhex2bin (hexadecimals ! d) = int d" by code_simp
  with assms show "isxdigit (hexadecimals ! d)" "charhex2bin (hexadecimals ! d) = int d" by simp_all
qed

lemma nibbles:
  fixes b :: byte
  shows "unat (drop_bit 4 b) = unat b div 16" "unat (b AND 15) = unat b mod 16"
    "of_int (int (unat b div 16) * 16 + int (unat b mod 16)) = b"
proof -
  show "unat (drop_bit 4 b) = unat b div 16" by (simp add: drop_bit_eq_div unat_div)
  have "b AND 15 = take_bit 4 b" by (simp add: take_bit_eq_mask mask_numeral)
  then show "unat (b AND 15) = unat b mod 16" by (simp add: take_bit_eq_mod unat_mod)
  have "int (unat b div 16) * 16 + int (unat b mod 16) = int (unat b)"
    by (metis (no_types) div_mult_mod_eq of_nat_add of_nat_mult of_nat_numeral)
  then show "of_int (int (unat b div 16) * 16 + int (unat b mod 16)) = b" by simp
qed

lemma hex2bin_bin2hex: "hex2bin (bin2hex bs @ s) (length bs) = bs"
proof (induction bs)
  case (Cons b bs)
  have "unat b div 16 < 16" using unsigned_less [of b, where 'a = nat] by simp
  then show ?case using Cons nibbles [of b] hexadecimals_digit by (simp add: bin2hex_def)
qed (simp add: bin2hex_def)

lemma hex2bin_stops: "\<not> (isxdigit a \<and> isxdigit b) \<Longrightarrow> hex2bin (bin2hex bs @ a # b # s) (length bs + n) = bs"
proof (induction bs)
  case Nil
  then show ?case by (cases n) (simp_all add: bin2hex_def)
next
  case (Cons x bs)
  have "unat x div 16 < 16" using unsigned_less [of x, where 'a = nat] by simp
  then show ?case using Cons nibbles [of x] hexadecimals_digit by (simp add: bin2hex_def)
qed

section \<open>Base64 round trip\<close>

definition alphabet_ok :: "string \<Rightarrow> bool" where
  "alphabet_ok al \<longleftrightarrow> (\<forall>v \<in> set [0..<64]. b64_value (al ! v) = of_nat v)"

lemma alphabets_ok: "alphabet_ok base64_original" "alphabet_ok base64_urlsafe"
  by (simp_all add: alphabet_ok_def base64_original_def base64_urlsafe_def b64_value_def base64_decode_def nth_append upt_conv_Cons)

lemma b64_value_char:
  assumes "alphabet_ok al" "w < 64"
  shows "b64_value (b64_char al w) = w"
proof -
  have "unat w < 64" using assms(2) by (simp add: word_less_nat_alt)
  with assms(1) have "b64_value (al ! unat w) = of_nat (unat w)" by (simp add: alphabet_ok_def)
  then show ?thesis by (simp add: b64_char_def)
qed

lemma and_63_less: "(t::u32) AND 63 < 64"
proof -
  have "t AND 63 \<le> 63" by (rule word_and_le1)
  then show ?thesis by (rule le_less_trans) simp
qed

lemma six_bits: "(\<And>n. bit w n \<Longrightarrow> n < 6) \<Longrightarrow> (w::u32) < 64"
proof -
  assume w: "\<And>n. bit w n \<Longrightarrow> n < 6"
  have "(63::u32) = mask 6" by (simp add: mask_numeral)
  with w have "w AND 63 = w" by (auto simp: bit_eq_iff bit_simps)
  with and_63_less [of w] show ?thesis by simp
qed

text \<open>A group of four, three or two characters puts the bits together again.\<close>

lemma mask_63: "(63::u32) = mask 6"
  by (simp add: mask_numeral)

lemma b64_join:
  fixes t :: u32
  assumes "\<And>n. bit t n \<Longrightarrow> n < 24"
  shows "(((t AND 63) OR push_bit 6 (drop_bit 6 t AND 63)) OR push_bit 12 (drop_bit 12 t AND 63)) OR push_bit 18 (drop_bit 18 t) = t"
proof (rule bit_eqI)
  fix n
  show "bit ((((t AND 63) OR push_bit 6 (drop_bit 6 t AND 63)) OR push_bit 12 (drop_bit 12 t AND 63)) OR push_bit 18 (drop_bit 18 t)) n \<longleftrightarrow> bit t n"
    using assms [of n] by (cases "n < 6"; cases "n < 12"; cases "n < 18"; auto simp: bit_simps mask_63)
qed

lemma b64_join_3:
  fixes t :: u32
  assumes "\<And>n. bit t n \<Longrightarrow> n < 16"
  shows "((t AND 63) OR push_bit 6 (drop_bit 6 t AND 63)) OR push_bit 12 (drop_bit 12 t) = t"
proof (rule bit_eqI)
  fix n
  show "bit (((t AND 63) OR push_bit 6 (drop_bit 6 t AND 63)) OR push_bit 12 (drop_bit 12 t)) n \<longleftrightarrow> bit t n"
    using assms [of n] by (cases "n < 6"; cases "n < 12"; auto simp: bit_simps mask_63)
qed

lemma b64_join_2:
  fixes t :: u32
  assumes "\<And>n. bit t n \<Longrightarrow> n < 8"
  shows "(t AND 63) OR push_bit 6 (drop_bit 6 t) = t"
proof (rule bit_eqI)
  fix n
  show "bit ((t AND 63) OR push_bit 6 (drop_bit 6 t)) n \<longleftrightarrow> bit t n"
    using assms [of n] by (cases "n < 6"; auto simp: bit_simps mask_63)
qed

lemma top_byte_clear:
  fixes t :: u32
  assumes "\<And>n. bit t n \<Longrightarrow> n < 24"
  shows "t AND 0xFF000000 = 0"
proof -
  have "(0xFF000000::u32) = push_bit 24 (mask 8)" by (simp add: mask_numeral push_bit_eq_mult)
  moreover have "t AND push_bit 24 (mask 8) = 0"
    using assms by (intro bit_eqI) (auto simp: bit_simps dest!: assms)
  ultimately show ?thesis by simp
qed

definition join_bytes :: "byte \<Rightarrow> byte \<Rightarrow> byte \<Rightarrow> u32" where
  "join_bytes a b c = ucast a OR push_bit 8 (ucast b) OR push_bit 16 (ucast c)"

lemma bit_byte: "bit (b::byte) n \<Longrightarrow> n < 8"
  using bit_imp_le_length [of b n] by simp

lemma join_bytes_24: "bit (join_bytes a b c) n \<Longrightarrow> n < 24"
  by (auto simp: join_bytes_def bit_simps dest!: bit_byte)

lemma join_bytes_16: "bit (join_bytes a b 0) n \<Longrightarrow> n < 16"
  by (auto simp: join_bytes_def bit_simps dest!: bit_byte)

lemma join_bytes_8: "bit (join_bytes a 0 0) n \<Longrightarrow> n < 8"
  by (auto simp: join_bytes_def bit_simps dest!: bit_byte)

lemma triplet_join: "triplet_bytes (join_bytes a b c) = [a, b, c]"
  by (auto simp: triplet_bytes_def join_bytes_def bit_eq_iff bit_simps dest: bit_byte)

lemma b64_loop_group:
  assumes "alphabet_ok al" "i mod 4 = 0"
  shows "b64_loop (b64_group al a b c @ s) i 0 out = b64_loop s (4 + i) 0 (out @ [a, b, c])"
proof -
  let ?t = "join_bytes a b c"
  have "drop_bit 18 ?t < 64" by (rule six_bits) (auto simp: bit_simps dest!: join_bytes_24)
  then have "b64_value (b64_char al (drop_bit 18 ?t)) = drop_bit 18 ?t" using b64_value_char [OF assms(1)] by simp
  moreover have "Suc i mod 4 = 1" "Suc (Suc i) mod 4 = 2" "Suc (Suc (Suc i)) mod 4 = 3" using assms(2) by presburger+
  ultimately have "b64_loop (b64_group al a b c @ s) i 0 out = b64_loop s (Suc (Suc (Suc (Suc i)))) 0 (out @ [a, b, c])"
    using assms(2) b64_join [of ?t, OF join_bytes_24] top_byte_clear [of ?t, OF join_bytes_24] triplet_join [of a b c]
    by (simp add: b64_group_def Let_def b64_value_char [OF assms(1) and_63_less] flip: join_bytes_def)
  moreover have "Suc (Suc (Suc (Suc i))) = 4 + i" by simp
  ultimately show ?thesis by (simp only:)
qed

lemma b64_loop_tail:
  assumes "alphabet_ok al" "i mod 4 = 0" "length bs < 3"
  shows "b64_loop (b64_tail al bs) i 0 out = out @ bs"
proof -
  have m: "Suc i mod 4 = 1" "Suc (Suc i) mod 4 = 2" "Suc (Suc (Suc i)) mod 4 = 3" using assms(2) by presburger+
  consider "bs = []" | a where "bs = [a]" | a b where "bs = [a, b]" using assms(3)
    by (cases bs rule: remdups_adj.cases) auto
  then show ?thesis
  proof cases
    case (2 a)
    let ?t = "join_bytes a 0 0"
    have "drop_bit 6 ?t < 64" by (rule six_bits) (auto simp: bit_simps dest!: join_bytes_8)
    moreover have "ucast a = ?t" by (simp add: join_bytes_def)
    ultimately show ?thesis
      using 2 assms(2) m b64_value_char [OF assms(1)] b64_join_2 [of ?t, OF join_bytes_8] top_byte_clear [of ?t, OF join_bytes_24] triplet_join [of a 0 0]
      by (simp add: b64_value_char [OF assms(1) and_63_less] Let_def)
  next
    case (3 a b)
    let ?t = "join_bytes a b 0"
    have "drop_bit 12 ?t < 64" by (rule six_bits) (auto simp: bit_simps dest!: join_bytes_16)
    moreover have "ucast a OR push_bit 8 (ucast b) = ?t" by (simp add: join_bytes_def)
    ultimately show ?thesis
      using 3 assms(2) m b64_value_char [OF assms(1)] b64_join_3 [of ?t, OF join_bytes_16] top_byte_clear [of ?t, OF join_bytes_24] triplet_join [of a b 0]
      by (simp add: b64_value_char [OF assms(1) and_63_less] Let_def)
  qed (use assms(2) in simp)
qed

lemma b64_loop_groups:
  assumes "alphabet_ok al" "3 * m \<le> length src"
  shows "b64_loop (concat (map (\<lambda>k. b64_group al (src ! (3 * k)) (src ! (3 * k + 1)) (src ! (3 * k + 2))) [0..<m]) @ s) 0 0 [] =
    b64_loop s (4 * m) 0 (take (3 * m) src)"
  using assms(2)
proof (induction m arbitrary: s)
  case (Suc m)
  then have "take (3 * Suc m) src = take (3 * m) src @ [src ! (3 * m), src ! (3 * m + 1), src ! (3 * m + 2)]"
    by (simp add: take_Suc_conv_app_nth numeral_3_eq_3)
  then show ?case using Suc b64_loop_group [OF assms(1), of "4 * m"] by simp
qed simp

lemma b64_internal_roundtrip:
  assumes "alphabet_ok al" "length (b64encode_internal src al) \<le> n"
  shows "b64decode (b64encode_internal src al) n = src"
proof -
  let ?m = "length src div 3"
  have "3 * ?m \<le> length src" "length (drop (?m * 3) src) < 3" by (simp_all add: minus_div_mult_eq_mod)
  then have "b64_loop (b64encode_internal src al) 0 0 [] = take (3 * ?m) src @ drop (?m * 3) src"
    unfolding b64encode_internal_def using b64_loop_groups [OF assms(1)] b64_loop_tail [OF assms(1)] by simp
  then show ?thesis using assms(2) by (simp add: b64decode_def mult.commute)
qed

text \<open>A character outside both alphabets sets the top byte of its group, whatever the other characters are.\<close>

definition b64_valid :: "char \<Rightarrow> bool" where
  "b64_valid c \<longleftrightarrow> isalnum c \<or> c \<in> set ''+-/_''"

lemma b64_value_invalid:
  assumes "\<not> b64_valid c"
  shows "b64_value c = - 1"
proof -
  let ?n = "code_of c"
  have "?n \<noteq> code_of (CHR ''+'')" "?n \<noteq> code_of (CHR ''-'')" "?n \<noteq> code_of (CHR ''/'')" "?n \<noteq> code_of (CHR ''_'')"
    using assms by (auto simp only: of_char_eq_iff b64_valid_def set_simps)
  then have "?n \<notin> {43, 45, 47, 95}" by simp
  moreover have "?n < 48 \<or> 57 < ?n" "?n < 65 \<or> 90 < ?n" "?n < 97 \<or> 122 < ?n" "?n < 256"
    using assms by (auto simp: b64_valid_def isalnum_def isdigit_def)
  ultimately consider "?n < 43" | "?n = 44" | "?n = 46" | "57 < ?n" "?n < 65" | "?n = 91" | "?n = 92" | "?n = 93" | "?n = 94" | "?n = 96"
    | "122 < ?n" "?n < 256" by force
  then have "base64_decode ! ?n = - 1"
  proof cases
    case 4
    then show ?thesis unfolding base64_decode_def by (subst nth_append, simp)+
  next
    case 10
    then have "?n - 123 < 133" by linarith
    then have "replicate 133 (- 1 :: int) ! (?n - 123) = - 1" by (rule nth_replicate)
    with 10 show ?thesis by (simp add: base64_decode_def nth_append)
  qed (simp_all add: base64_decode_def nth_append)
  then show ?thesis by (simp add: b64_value_def)
qed

lemma b64_poison:
  assumes "bit (t::u32) 24"
  shows "t AND 0xFF000000 \<noteq> 0"
proof -
  have "bit (t AND 0xFF000000) 24" using assms by (simp add: bit_simps)
  then show ?thesis by auto
qed

lemma b64_loop_poisoned: "bit t 24 \<Longrightarrow> b64_loop s i t out = []"
proof (induction s arbitrary: i t)
  case (Cons c s)
  then have "bit (t OR push_bit (6 * (i mod 4)) (b64_value c)) 24" by (simp add: bit_simps)
  with Cons b64_poison show ?case by (auto simp: Let_def)
qed (auto dest: b64_poison)

lemma b64_loop_invalid: "c \<in> set s \<Longrightarrow> \<not> b64_valid c \<Longrightarrow> b64_loop s i t out = []"
proof (induction s arbitrary: i t out)
  case (Cons d s)
  show ?case
  proof (cases "d = c")
    case True
    have "\<not> 4 < i mod 4" using mod_less_divisor [of 4 i] by linarith
    then have "bit (t OR push_bit (6 * (i mod 4)) (b64_value d)) 24"
      using b64_value_invalid [OF Cons.prems(2)] True by (simp add: bit_simps)
    then show ?thesis by (auto simp: Let_def b64_loop_poisoned dest: b64_poison)
  next
    case False
    with Cons show ?thesis by (simp add: Let_def)
  qed
qed simp

text \<open>
  Binary data survives both encodings: what \<^verbatim>\<open>bin2hex\<close> and the two variants of
  \<^verbatim>\<open>b64encode\<close> write, the decoders read back. A string with a character of neither base64 alphabet within the
  given length decodes to nothing. A string of hexadecimal digits in which another character follows decodes to the bytes of
  the pairs of digits before that character.
\<close>

theorem codecs_roundtrip:
  assumes "length (b64encode bs) \<le> n"
  shows "hex2bin (bin2hex bs) (length bs) = bs \<and> b64decode (b64encode bs) n = bs \<and>
    b64decode (b64encode_urlsafe bs) (length (b64encode_urlsafe bs)) = bs \<and>
    (\<forall>s c k. c \<in> set (take k s) \<and> \<not> (isalnum c \<or> c \<in> set ''+-/_'') \<longrightarrow> b64decode s k = []) \<and>
    (\<forall>s a b k. \<not> (isxdigit a \<and> isxdigit b) \<longrightarrow> hex2bin (bin2hex bs @ a # b # s) (length bs + k) = bs)"
proof (intro conjI allI impI)
  show "hex2bin (bin2hex bs) (length bs) = bs" using hex2bin_bin2hex [of bs "[]"] by simp
  show "b64decode (b64encode bs) n = bs"
    using assms unfolding b64encode_def by (rule b64_internal_roundtrip [OF alphabets_ok(1)])
  show "b64decode (b64encode_urlsafe bs) (length (b64encode_urlsafe bs)) = bs"
    unfolding b64encode_urlsafe_def by (rule b64_internal_roundtrip [OF alphabets_ok(2) order_refl])
next
  fix s c k
  assume "c \<in> set (take k s) \<and> \<not> (isalnum c \<or> c \<in> set ''+-/_'')"
  then show "b64decode s k = []" unfolding b64decode_def by (intro b64_loop_invalid) (auto simp: b64_valid_def)
next
  fix s a b k
  assume "\<not> (isxdigit a \<and> isxdigit b)"
  then show "hex2bin (bin2hex bs @ a # b # s) (length bs + k) = bs" by (rule hex2bin_stops)
qed

theorem codecs_roundtrip_witness:
  "b64encode [1, 2, 3, 4] = ''BIwAEA'' \<and> b64decode (b64encode [1, 2, 3, 4]) 10 = [1, 2, 3, 4]"
proof -
  have enc: "b64encode [1, 2, 3, 4] = ''BIwAEA''" by code_simp
  then have "length (b64encode [1, 2, 3, 4]) \<le> 10" by simp
  from codecs_roundtrip [OF this] enc show ?thesis by simp
qed

text \<open>A name that passes \<^verbatim>\<open>check_id\<close> has nothing that could be taken for a separator of a request or of a path.\<close>

lemma check_id_chars:
  assumes "check_id name" "c \<in> set name"
  shows "\<not> isspace c" "c \<noteq> CHR 0x00" "c \<noteq> CHR ''/''" "c \<noteq> CHR ''.''"
  using assms by (auto simp: check_id_def isalnum_def isdigit_def isspace_def)

lemma check_id_c_string: "check_id name \<Longrightarrow> c_string name"
  using check_id_chars(2) by (auto simp: c_string_def)

lemma replace_name_check_id: "replace_name env host name = Some r \<Longrightarrow> check_id r"
  by (auto simp: replace_name_def Let_def split: option.splits if_splits)

end
