(* ===== verification/Subnet_Text.thy ===== *)
theory Subnet_Text
  imports C_Text Subnet
begin

text \<open>
  The text form of subnets (\<^verbatim>\<open>str2net\<close> and \<^verbatim>\<open>net2str\<close> of \<^verbatim>\<open>subnet_parse.c\<close>), which is what the requests
  between daemons and the configuration files carry. The parser works on a copy of its argument in a
  buffer of 1024 bytes; writing past the end of that buffer is an outcome of its own. All callers of the
  printer pass a buffer of 64 bytes, which is never too small, so that truncation is left out.
\<close>

section \<open>Parsing\<close>

abbreviation (input) DEFAULT_WEIGHT :: int where "DEFAULT_WEIGHT \<equiv> 10"

datatype str2net_result = Net_Ok subnet | Net_Bad | Net_Overrun

text \<open>
  The part of the string after a separator read as a number: the separator may be missing, and
  the number has to fill the rest of the string.
\<close>

definition split_number :: "char \<Rightarrow> string \<Rightarrow> (string \<times> int option) option" where
  "split_number sep str =
     (case dropWhile (\<lambda>c. c \<noteq> sep) str of
        [] \<Rightarrow> Some (str, None)
      | _ # number \<Rightarrow>
          (case sscanf [Scan_D] number of
             ([V_Int v], Some rest) \<Rightarrow> if rest = [] then Some (takeWhile (\<lambda>c. c \<noteq> sep) str, Some v) else None
           | _ \<Rightarrow> None))"

definition new_subnet :: "int \<Rightarrow> net \<Rightarrow> subnet" where
  "new_subnet w n = \<lparr>owner = None, expires = 0, weight = w, net = n\<rparr>"

abbreviation colon :: scan_item where "colon \<equiv> Match_Char CHR '':''"

abbreviation dot :: scan_item where "dot \<equiv> Match_Char CHR ''.''"

fun separated :: "scan_item \<Rightarrow> scan_item \<Rightarrow> nat \<Rightarrow> scan_item list" where
  "separated item sep 0 = []"
| "separated item sep (Suc 0) = [item]"
| "separated item sep (Suc n) = item # sep # separated item sep n"

text \<open>All conversions of the format succeeded and nothing is left.\<close>

definition scan_all :: "scan_item list \<Rightarrow> string \<Rightarrow> nat list option" where
  "scan_all f s = (case sscanf f s of (vs, Some rest) \<Rightarrow> if rest = [] then Some (map (\<lambda>v. case v of V_Nat n \<Rightarrow> n | _ \<Rightarrow> 0) vs) else None
     | _ \<Rightarrow> None)"

definition mac_format :: "scan_item list" where "mac_format = separated (Scan_X 16) colon 6"

definition ipv4_format :: "scan_item list" where "ipv4_format = separated (Scan_U 16) dot 4"

definition ipv6_format :: "scan_item list" where "ipv6_format = separated (Scan_X 16) colon 8"

text \<open>A dotted quad after the last colon is rewritten as two groups of hexadecimal digits.\<close>

definition last_colon :: "string \<Rightarrow> nat option" where
  "last_colon s = (if CHR '':'' \<in> set s
     then Some (length s - Suc (length (takeWhile (\<lambda>c. c \<noteq> CHR '':'') (rev s)))) else None)"

definition dotted_suffix :: "string \<Rightarrow> string option" where
  "dotted_suffix str =
     (case last_colon str of
        None \<Rightarrow> Some str
      | Some p \<Rightarrow>
          (case scan_all (colon # ipv4_format) (drop p str) of
             Some [a, b, c, d] \<Rightarrow>
               if a > 255 \<or> b > 255 \<or> c > 255 \<or> d > 255 then None
               else Some (take p str @ take (1023 - p) (CHR '':'' # print_02x a @ print_02x b @ CHR '':'' # print_02x c @ print_02x d))
           | _ \<Rightarrow> Some str))"

text \<open>The two adjacent colons stand for as many groups of zeroes as are missing.\<close>

fun double_colon :: "string \<Rightarrow> nat option" where
  "double_colon (a # b # s) = (if a = CHR '':'' \<and> b = CHR '':'' then Some 0 else map_option Suc (double_colon (b # s)))"
| "double_colon _ = None"

function count_groups :: "string \<Rightarrow> nat" where
  "count_groups [] = 0"
| "count_groups (c # s) =
     (if c = CHR '':'' then count_groups s else Suc (count_groups (dropWhile (\<lambda>d. d \<noteq> CHR '':'') s)))"
  by pat_completeness auto
termination by (relation "measure length") (auto simp: le_imp_less_Suc length_dropWhile_le)

definition strip_colons :: "string \<Rightarrow> string" where
  "strip_colons s =
     (let s = (if s \<noteq> [] \<and> hd s = CHR '':'' then tl s else s)
      in if s \<noteq> [] \<and> last s = CHR '':'' then butlast s else s)"

datatype expansion = Expanded string | Expand_Bad | Expand_Overrun

definition expand_zeroes :: "string \<Rightarrow> expansion" where
  "expand_zeroes str =
     (case double_colon str of
        None \<Rightarrow> Expanded str
      | Some p \<Rightarrow>
          let zeroes = 8 - int (count_groups str) in
          if zeroes < 1 then Expand_Bad
          else if length str + 2 * nat zeroes > 1024 then Expand_Overrun
          else Expanded (strip_colons (take (p + 1) str @ concat (replicate (nat zeroes) ''0:'') @ drop (p + 2) str)))"

text \<open>What is left after the weight and the prefix length were cut off.\<close>

definition parse_address :: "string \<Rightarrow> int \<Rightarrow> int option \<Rightarrow> str2net_result" where
  "parse_address str w prefixlength =
     (case scan_all mac_format str of
        Some x \<Rightarrow> if prefixlength \<noteq> None then Net_Bad else Net_Ok (new_subnet w (SUBNET_MAC (map of_nat x)))
      | None \<Rightarrow>
          (case scan_all ipv4_format str of
             Some x \<Rightarrow>
               let p = (case prefixlength of None \<Rightarrow> 32 | Some p \<Rightarrow> p) in
               if p > 32 \<or> (\<exists>b \<in> set x. b > 255) then Net_Bad
               else Net_Ok (new_subnet w (SUBNET_IPV4 (map of_nat x) (nat p)))
           | None \<Rightarrow>
               (case dotted_suffix str of
                  None \<Rightarrow> Net_Bad
                | Some str \<Rightarrow>
                    (case expand_zeroes str of
                       Expand_Overrun \<Rightarrow> Net_Overrun
                     | Expand_Bad \<Rightarrow> Net_Bad
                     | Expanded str \<Rightarrow>
                         (case scan_all ipv6_format str of
                            None \<Rightarrow> Net_Bad
                          | Some x \<Rightarrow>
                              let p = (case prefixlength of None \<Rightarrow> 128 | Some p \<Rightarrow> p) in
                              if p > 128 then Net_Bad
                              else Net_Ok (new_subnet w (SUBNET_IPV6 (concat (map be16_bytes x)) (nat p))))))))"

definition str2net :: "string \<Rightarrow> str2net_result" where
  "str2net subnetstr =
     (case split_number CHR ''#'' (take 1023 subnetstr) of
        None \<Rightarrow> Net_Bad
      | Some (str, w) \<Rightarrow>
          (case split_number CHR ''/'' str of
             None \<Rightarrow> Net_Bad
           | Some (str, prefixlength) \<Rightarrow>
               if (case prefixlength of Some p \<Rightarrow> p < 0 | None \<Rightarrow> False) then Net_Bad
               else parse_address str (case w of None \<Rightarrow> DEFAULT_WEIGHT | Some w \<Rightarrow> w) prefixlength))"

section \<open>Printing\<close>

definition ipv6_groups :: "bytes \<Rightarrow> nat list" where
  "ipv6_groups a = map (\<lambda>i. be16_nat (a ! (2 * i)) (a ! (2 * i + 1))) [0..<8]"

text \<open>The search for the longest run of zeroes, the first of them: its length and start, then those of the current run.\<close>

definition zero_step :: "nat list \<Rightarrow> nat \<Rightarrow> nat \<times> nat \<times> nat \<times> nat \<Rightarrow> nat \<times> nat \<times> nat \<times> nat" where
  "zero_step x i s =
     (case s of (max_len, max_at, len, at) \<Rightarrow>
        if x ! i \<noteq> 0 then (max_len, max_at, 0, at)
        else
          let at = (if len = 0 then i else at); len = len + 1
          in if len > max_len then (len, at, len, at) else (max_len, max_at, len, at))"

definition longest_zeroes :: "nat list \<Rightarrow> nat \<times> nat" where
  "longest_zeroes x = (case fold (zero_step x) [0..<8] (0, 0, 0, 0) of (max_len, max_at, _) \<Rightarrow> (max_len, max_at))"

function print_groups :: "nat list \<Rightarrow> nat \<Rightarrow> nat \<Rightarrow> nat \<Rightarrow> string" where
  "print_groups x n at i =
     (if i \<ge> 8 then []
      else if n > 1 \<and> at = i then
        take (1 + (if i = 0 then 1 else 0) + (if i + n = 8 then 1 else 0)) '':::'' @ print_groups x n at (i + n)
      else print_x (x ! i) @ '':'' @ print_groups x n at (i + 1))"
  by pat_completeness auto
termination by (relation "measure (\<lambda>(x, n, at, i). 8 - i)") auto

declare print_groups.simps [simp del]

definition print_ipv6 :: "bytes \<Rightarrow> string" where
  "print_ipv6 a = (let x = ipv6_groups a in case longest_zeroes x of (n, at) \<Rightarrow> butlast (print_groups x n at 0))"

definition print_prefix :: "nat \<Rightarrow> nat \<Rightarrow> string" where
  "print_prefix full p = (if p = full then [] else CHR ''/'' # print_d (int p))"

definition print_mac :: "bytes \<Rightarrow> string" where
  "print_mac a = butlast (concat (map (\<lambda>b. print_02x (unat b) @ '':'') a))"

definition print_ipv4 :: "bytes \<Rightarrow> string" where
  "print_ipv4 a = butlast (concat (map (\<lambda>b. print_u (unat b) @ ''.'') a))"

definition net2str :: "subnet \<Rightarrow> string" where
  "net2str s =
     (case net s of
        SUBNET_MAC a \<Rightarrow> print_mac a
      | SUBNET_IPV4 a p \<Rightarrow> print_ipv4 a @ print_prefix 32 p
      | SUBNET_IPV6 a p \<Rightarrow> print_ipv6 a @ print_prefix 128 p) @
     (if weight s \<noteq> DEFAULT_WEIGHT then CHR ''#'' # print_d (weight s) else [])"

section \<open>Lists of numbers with separators\<close>

fun join :: "(nat \<Rightarrow> string) \<Rightarrow> char \<Rightarrow> nat list \<Rightarrow> string" where
  "join pr sep [] = []"
| "join pr sep [g] = pr g"
| "join pr sep (g # h # gs) = pr g @ sep # join pr sep (h # gs)"

lemma butlast_concat_join: "butlast (concat (map (\<lambda>g. pr g @ [sep]) gs)) = join pr sep gs"
  by (induction pr sep gs rule: join.induct) (auto simp: butlast_append)

lemma concat_join: "gs \<noteq> [] \<Longrightarrow> concat (map (\<lambda>g. pr g @ [sep]) gs) = join pr sep gs @ [sep]"
  by (induction pr sep gs rule: join.induct) auto

lemma join_append: "gs \<noteq> [] \<Longrightarrow> hs \<noteq> [] \<Longrightarrow> join pr sep (gs @ hs) = join pr sep gs @ sep # join pr sep hs"
  by (induction pr sep gs rule: join.induct) (auto simp: neq_Nil_conv)

lemma set_join: "set (join pr sep gs) \<subseteq> insert sep (\<Union>g \<in> set gs. set (pr g))"
  by (induction pr sep gs rule: join.induct) auto

text \<open>
  A conversion that reads back what \<open>pr\<close> prints reads a list of such numbers; without the numbers it
  expects, the format is not completed.
\<close>

locale number_format =
  fixes item :: scan_item and pr :: "nat \<Rightarrow> string" and sep :: char and bound :: nat
  assumes reads: "g < bound \<Longrightarrow> r = [] \<or> hd r = sep \<Longrightarrow>
      sscanf (item # f) (pr g @ r) = (case sscanf f r of (vs, e) \<Rightarrow> (V_Nat g # vs, e))"
    and stuck: "sscanf (item # f) (sep # r) = ([], None)"
begin

lemma scan_join:
  assumes "gs \<noteq> []" "\<And>g. g \<in> set gs \<Longrightarrow> g < bound" "r = [] \<or> hd r = sep"
  shows "sscanf (separated item (Match_Char sep) (length gs)) (join pr sep gs @ r) = (map V_Nat gs, Some r)"
  using assms
proof (induction gs rule: induct_list012)
  case (2 g)
  then show ?case using reads [of g r "[]"] by simp
next
  case (3 g h gs)
  then have "sscanf (separated item (Match_Char sep) (length (h # gs))) (join pr sep (h # gs) @ r) =
      (map V_Nat (h # gs), Some r)" by simp
  then show ?case
    using 3(4) reads [of g "sep # join pr sep (h # gs) @ r" "Match_Char sep # separated item (Match_Char sep) (length (h # gs))"]
    by simp
qed simp

lemma scan_all_join:
  "gs \<noteq> [] \<Longrightarrow> (\<And>g. g \<in> set gs \<Longrightarrow> g < bound) \<Longrightarrow>
     scan_all (separated item (Match_Char sep) (length gs)) (join pr sep gs) = Some gs"
  using scan_join [of gs "[]"] by (simp add: scan_all_def o_def)

text \<open>A longer list, or one followed by two separators, is not a list of the length asked for.\<close>

lemma scan_all_longer:
  assumes "gs \<noteq> []" "\<And>g. g \<in> set gs \<Longrightarrow> g < bound"
  shows "scan_all (separated item (Match_Char sep) (length gs)) (join pr sep gs @ sep # r) = None"
  using scan_join [of gs "sep # r"] assms by (simp add: scan_all_def)

lemma separated_Suc: "0 < n \<Longrightarrow> separated item s (Suc n) = item # s # separated item s n"
  by (cases n) simp_all

lemma scan_stuck:
  assumes "\<And>g. g \<in> set gs \<Longrightarrow> g < bound" "length gs < n"
  shows "snd (sscanf (separated item (Match_Char sep) n) (join pr sep gs @ sep # sep # r)) = None"
  using assms
proof (induction gs arbitrary: n rule: induct_list012)
  case 1
  then obtain m where "n = Suc m" by (cases n) auto
  then obtain f where "separated item (Match_Char sep) n = item # f" by (cases m) auto
  then show ?case using stuck by simp
next
  case (2 g)
  then obtain m where n: "n = Suc (Suc m)" by (cases n; cases "n - 1") auto
  then obtain f where f: "separated item (Match_Char sep) (Suc m) = item # f" by (cases m) auto
  with n 2 show ?case
    using reads [of g "sep # sep # r" "Match_Char sep # item # f"] stuck by simp
next
  case (3 g h gs)
  then obtain m where n: "n = Suc m" "0 < m" "length (h # gs) < m" by (cases n) auto
  then have "snd (sscanf (separated item (Match_Char sep) m) (join pr sep (h # gs) @ sep # sep # r)) = None" using 3 by simp
  then show ?case
    using 3(3) n separated_Suc [of m "Match_Char sep"]
      reads [of g "sep # join pr sep (h # gs) @ sep # sep # r" "Match_Char sep # separated item (Match_Char sep) m"]
    by (simp split: prod.splits)
qed

end

interpretation hex_colon: number_format "Scan_X 16" print_x "CHR '':''" 65536
proof (unfold_locales, goal_cases)
  case (1 g r f)
  then have "scan_x 16 (print_x g @ r) = Some (g, r)" by (intro scan_x_print) (auto simp: isxdigit_def isdigit_def)
  then show ?case by simp
next
  case (2 f r)
  have "scan_x 16 (CHR '':'' # r) = None"
    by (cases r) (simp_all add: scan_x_def scan_space_def isspace_def scan_digits_def isxdigit_def isdigit_def)
  then show ?case by simp
qed

lemma scan_x_02x:
  assumes "g < 256" "r = [] \<or> hd r = CHR '':''"
  shows "scan_x 16 (print_02x g @ r) = Some (g, r)"
proof (cases "g < 16")
  case True
  then have x: "print_x g = [digit_char g]" by (subst digits.simps) simp
  have r: "takeWhile isxdigit r = []" "dropWhile isxdigit r = r"
    using assms(2) by (cases r; simp add: isxdigit_def isdigit_def)+
  have zero: "isxdigit (CHR ''0'')" "\<not> isspace (CHR ''0'')" "digit_value (CHR ''0'') = 0"
    by (simp_all add: isxdigit_def isdigit_def isspace_def digit_value_def)
  have "digit_char g \<noteq> CHR ''x''" "digit_char g \<noteq> CHR ''X''"
    using digit_not_space [OF isxdigit_char [OF True]] by simp_all
  moreover have "nat (strtoul_value False g mod 2 ^ 16) = g" using assms(1) by (intro strtoul_fits) simp_all
  ultimately show ?thesis using True x r zero
    by (simp add: print_02x_def scan_x_def scan_space_def scan_digits_def digits_value_def)
next
  case False
  have "scan_x 16 (print_x g @ r) = Some (g, r)" by (rule scan_x_print) (use assms in \<open>auto simp: isxdigit_def isdigit_def\<close>)
  with False show ?thesis by (simp add: print_02x_def)
qed

interpretation hex2_colon: number_format "Scan_X 16" print_02x "CHR '':''" 256
  by unfold_locales (simp add: scan_x_02x, rule hex_colon.stuck)

interpretation dec_dot: number_format "Scan_U 16" print_u "CHR ''.''" 65536
proof (unfold_locales, goal_cases)
  case (1 g r f)
  then have "scan_u 16 (print_u g @ r) = Some (g, r)" by (intro scan_u_print) (auto simp: isdigit_def)
  then show ?case by simp
next
  case (2 f r)
  have "scan_u 16 (CHR ''.'' # r) = None"
    by (cases r) (simp_all add: scan_u_def scan_space_def isspace_def scan_digits_def isdigit_def)
  then show ?case by simp
qed

section \<open>Runs of zeroes\<close>

definition zero_inv :: "nat list \<Rightarrow> nat \<Rightarrow> nat \<times> nat \<times> nat \<times> nat \<Rightarrow> bool" where
  "zero_inv x k s \<longleftrightarrow> (case s of (n, m, len, at) \<Rightarrow>
     m + n \<le> k \<and> (\<forall>i. m \<le> i \<and> i < m + n \<longrightarrow> x ! i = 0) \<and>
     (0 < len \<longrightarrow> at + len = k \<and> (\<forall>i. at \<le> i \<and> i < k \<longrightarrow> x ! i = 0)))"

lemma zero_step_inv: "zero_inv x k s \<Longrightarrow> zero_inv x (Suc k) (zero_step x k s)"
  by (auto simp: zero_inv_def zero_step_def Let_def less_Suc_eq split: prod.splits if_splits)

lemma longest_zeroes_run:
  assumes "longest_zeroes x = (n, at)"
  shows "at + n \<le> 8" "\<And>i. at \<le> i \<Longrightarrow> i < at + n \<Longrightarrow> x ! i = 0"
proof -
  have "zero_inv x k (fold (zero_step x) [0..<k] (0, 0, 0, 0))" for k
    by (induction k) (simp_all add: zero_inv_def [of x 0] zero_step_inv)
  from this [of 8] assms show "at + n \<le> 8" "\<And>i. at \<le> i \<Longrightarrow> i < at + n \<Longrightarrow> x ! i = 0"
    by (auto simp: longest_zeroes_def zero_inv_def split: prod.splits)
qed

abbreviation hexes :: "nat list \<Rightarrow> string" where
  "hexes gs \<equiv> concat (map (\<lambda>g. print_x g @ [CHR '':'']) gs)"

abbreviation joined :: "nat list \<Rightarrow> string" where
  "joined \<equiv> join print_x (CHR '':'')"

lemma print_groups_plain:
  assumes "length x = 8" "n \<le> 1 \<or> at < i"
  shows "print_groups x n at i = hexes (drop i x)"
  using assms(2)
proof (induction "8 - i" arbitrary: i)
  case 0
  then show ?case using assms(1) by (subst print_groups.simps) simp
next
  case (Suc k)
  then have i: "i < 8" by simp
  moreover have "print_groups x n at (i + 1) = hexes (drop (i + 1) x)" using Suc by force
  moreover have "drop i x = x ! i # drop (Suc i) x" using i assms(1) by (simp add: Cons_nth_drop_Suc)
  ultimately show ?case using Suc(3) by (subst print_groups.simps) auto
qed

lemma print_groups_run:
  assumes "length x = 8" "1 < n" "at + n \<le> 8" "i \<le> at"
  shows "print_groups x n at i = hexes (drop i (take at x)) @
    take (1 + (if at = 0 then 1 else 0) + (if at + n = 8 then 1 else 0)) '':::'' @ hexes (drop (at + n) x)"
  using assms(4)
proof (induction "at - i" arbitrary: i)
  case 0
  then have "i = at" by simp
  moreover have "print_groups x n at (at + n) = hexes (drop (at + n) x)" using print_groups_plain assms(1,2) by simp
  ultimately show ?case using assms by (subst print_groups.simps) simp
next
  case (Suc k)
  then have i: "i < at" by simp
  then have "drop i (take at x) = x ! i # drop (Suc i) (take at x)"
    using assms by (metis Cons_nth_drop_Suc length_take less_le_trans min_less_iff_conj nth_take trans_less_add1 le_add1)
  then show ?case using Suc i assms by (subst print_groups.simps) simp
qed

text \<open>The printed form: all groups, or those before and those after a run of zeroes around two colons.\<close>

lemma print_groups_form:
  assumes "length x = 8" "longest_zeroes x = (n, at)"
  shows "butlast (print_groups x n at 0) = joined x \<or>
    (\<exists>as bs. x = as @ replicate (8 - length as - length bs) 0 @ bs \<and> length as + length bs < 7 \<and>
       butlast (print_groups x n at 0) = joined as @ ''::'' @ joined bs)"
proof (cases "n \<le> 1")
  case True
  then have "print_groups x n at 0 = hexes (drop 0 x)" using assms(1) by (intro print_groups_plain) simp_all
  then show ?thesis using butlast_concat_join [of print_x _ x] by simp
next
  case False
  note run = longest_zeroes_run [OF assms(2)]
  let ?as = "take at x" and ?bs = "drop (at + n) x"
  have "x = ?as @ take n (drop at x) @ ?bs" by (metis add.commute append_take_drop_id drop_drop)
  moreover have "take n (drop at x) = replicate n 0"
    using run assms(1) by (intro nth_equalityI) auto
  moreover have len: "length ?as = at" "length ?bs = 8 - (at + n)" "8 - length ?as - length ?bs = n" using run(1) assms(1) by auto
  ultimately have x: "x = ?as @ replicate (8 - length ?as - length ?bs) 0 @ ?bs" by simp
  have pg: "print_groups x n at 0 = hexes ?as @
      take (1 + (if at = 0 then 1 else 0) + (if at + n = 8 then 1 else 0)) '':::'' @ hexes ?bs"
    using print_groups_run [of x n at 0] False run(1) assms(1) by simp
  have as: "hexes ?as = joined ?as @ [CHR '':'']" if "at \<noteq> 0"
    using that assms(1) by (intro concat_join) auto
  have "butlast (print_groups x n at 0) = joined ?as @ ''::'' @ joined ?bs"
  proof (cases "at + n = 8")
    case True
    then have "?bs = []" using assms(1) by simp
    then show ?thesis using pg True run(1) len as
      by (cases "at = 0") (auto simp: butlast_append take_Cons' numeral_2_eq_2)
  next
    case False
    then have bs: "?bs \<noteq> []" using assms(1) run(1) by auto
    then have "butlast (hexes ?bs) = joined ?bs" "hexes ?bs \<noteq> []" by (simp_all add: butlast_concat_join concat_join)
    then show ?thesis using pg False bs run(1) len as
      by (cases "at = 0") (auto simp: butlast_append take_Cons' numeral_2_eq_2)
  qed
  moreover have "length ?as + length ?bs < 7" using len run(1) False by simp
  ultimately show ?thesis using x by blast
qed

section \<open>Expanding zeroes\<close>

lemma print_x_no_colon: "CHR '':'' \<notin> set (print_x g)"
  using hex_digits digit_not_space by blast

lemma double_colon_skip:
  "CHR '':'' \<notin> set s \<Longrightarrow> double_colon (s @ t) = map_option ((+) (length s)) (double_colon t)"
proof (induction s)
  case (Cons c s)
  then show ?case by (cases "s @ t") (auto simp: option.map_comp o_def)
qed (simp add: option.map_ident plus_nat.add_0 [abs_def])

lemma double_colon_one: "t = [] \<or> hd t \<noteq> CHR '':'' \<Longrightarrow> double_colon (CHR '':'' # t) = map_option Suc (double_colon t)"
  by (cases t) auto

lemma hd_joined: "gs \<noteq> [] \<Longrightarrow> joined gs \<noteq> [] \<and> isxdigit (hd (joined gs))"
  using hd_digit(1) by (induction gs rule: induct_list012) (auto simp: hd_append)

lemma last_joined: "gs \<noteq> [] \<Longrightarrow> isxdigit (last (joined gs))"
proof (induction gs rule: induct_list012)
  case (2 g)
  then show ?case using hex_digits [of "last (print_x g)" g] by simp
next
  case (3 g h gs)
  then show ?case using hd_joined [of "h # gs"] by (simp add: last_append)
qed simp

lemma isxdigit_not_colon: "isxdigit c \<Longrightarrow> c \<noteq> CHR '':''"
  using digit_not_space by blast

lemma double_colon_joined: "double_colon (joined gs) = None"
proof (induction gs rule: induct_list012)
  case (2 g)
  then show ?case using double_colon_skip [OF print_x_no_colon, of g "[]"] by simp
next
  case (3 g h gs)
  then show ?case using hd_joined [of "h # gs"] isxdigit_not_colon
    by (simp add: double_colon_skip [OF print_x_no_colon] double_colon_one)
qed simp

lemma double_colon_between: "double_colon (joined gs @ CHR '':'' # CHR '':'' # r) = Some (length (joined gs))"
proof (induction gs rule: induct_list012)
  case (3 g h gs)
  then show ?case using hd_joined [of "h # gs"] isxdigit_not_colon
    by (simp add: double_colon_skip [OF print_x_no_colon] double_colon_one)
qed (simp_all add: double_colon_skip [OF print_x_no_colon])

lemma count_groups_skip:
  "s \<noteq> [] \<Longrightarrow> CHR '':'' \<notin> set s \<Longrightarrow> t = [] \<or> hd t = CHR '':'' \<Longrightarrow> count_groups (s @ t) = Suc (count_groups t)"
proof -
  assume s: "s \<noteq> []" "CHR '':'' \<notin> set s" and t: "t = [] \<or> hd t = CHR '':''"
  have "dropWhile (\<lambda>d. d \<noteq> CHR '':'') (tl s @ t) = t"
    by (rule takeWhile_prefix [THEN conjunct2]) (use s t list.set_sel(2) [OF s(1)] in auto)
  with s show ?thesis by (cases s) auto
qed

lemma count_groups_joined:
  "r = [] \<or> hd r = CHR '':'' \<Longrightarrow> count_groups (joined gs @ r) = length gs + count_groups r"
proof (induction gs rule: induct_list012)
  case (3 g h gs)
  then show ?case using count_groups_skip [OF digits_nonempty print_x_no_colon, of "CHR '':'' # joined (h # gs) @ r" g] by simp
qed (simp_all add: count_groups_skip [OF digits_nonempty print_x_no_colon])

lemma hexes_zeroes: "concat (replicate n ''0:'') = hexes (replicate n 0)"
proof -
  have "print_x 0 = ''0''" unfolding digits.simps [of 16 0] digit_char_def by code_simp
  then show ?thesis by simp
qed

lemma strip_colons_zeroes:
  assumes "0 < z"
  shows "strip_colons ((joined as @ '':'') @ hexes (replicate z 0) @ joined bs) = joined (as @ replicate z 0 @ bs)"
proof -
  let ?zs = "replicate z 0" and ?t = "joined (as @ replicate z 0 @ bs)"
  have zs: "hexes ?zs = joined ?zs @ '':''" using assms by (intro concat_join) simp
  have tail: "hexes ?zs @ joined bs = joined (?zs @ bs) @ (if bs = [] then '':'' else [])"
    using assms zs join_append [of ?zs bs print_x "CHR '':''"] by simp
  have t: "?t \<noteq> []" "isxdigit (hd ?t)" "isxdigit (last ?t)" using hd_joined last_joined assms by auto
  then have c: "hd ?t \<noteq> CHR '':''" "last ?t \<noteq> CHR '':''" using isxdigit_not_colon by auto
  show ?thesis
  proof (cases "as = []")
    case True
    then show ?thesis using tail t(1) c by (simp add: strip_colons_def Let_def del: concat_replicate_trivial)
  next
    case False
    then have "(joined as @ '':'') @ joined (?zs @ bs) = ?t" using join_append [of as "?zs @ bs" print_x "CHR '':''"] assms by simp
    then have "(joined as @ '':'') @ hexes ?zs @ joined bs = ?t @ (if bs = [] then '':'' else [])" unfolding tail by simp
    then show ?thesis using t(1) c by (simp add: strip_colons_def Let_def hd_append split: if_splits)
  qed
qed

lemma expand_zeroes_joined:
  assumes "length as + length bs < 8" "length (joined as @ ''::'' @ joined bs) \<le> 1000"
  shows "expand_zeroes (joined as @ ''::'' @ joined bs) = Expanded (joined (as @ replicate (8 - length as - length bs) 0 @ bs))"
proof -
  let ?s = "joined as @ ''::'' @ joined bs" and ?z = "8 - length as - length bs"
  have count: "count_groups ?s = length as + length bs"
    using count_groups_joined [of "''::'' @ joined bs" as] count_groups_joined [of "[]" bs] by simp
  have at: "double_colon ?s = Some (length (joined as))" using double_colon_between by simp
  have z: "nat (8 - int (length as + length bs)) = ?z" "0 < ?z" using assms(1) by simp_all
  have "take (length (joined as) + 1) ?s = joined as @ '':''" "drop (length (joined as) + 2) ?s = joined bs" by simp_all
  then show ?thesis
    unfolding expand_zeroes_def at option.case Let_def count z(1)
    using strip_colons_zeroes [OF z(2), of as bs] assms hexes_zeroes [of ?z] by (simp del: concat_replicate_trivial)
qed

section \<open>Round trip\<close>

lemma split_number_none: "sep \<notin> set s \<Longrightarrow> split_number sep s = Some (s, None)"
proof -
  assume "sep \<notin> set s"
  then have none: "dropWhile (\<lambda>c. c \<noteq> sep) s = []" unfolding dropWhile_eq_Nil_conv by auto
  show ?thesis unfolding split_number_def none by simp
qed

lemma split_number_some:
  assumes "sep \<notin> set s" "c_int_ok v"
  shows "split_number sep (s @ sep # print_d v) = Some (s, Some v)"
proof -
  have "takeWhile (\<lambda>c. c \<noteq> sep) (s @ sep # print_d v) = s \<and> dropWhile (\<lambda>c. c \<noteq> sep) (s @ sep # print_d v) = sep # print_d v"
    by (rule takeWhile_prefix) (use assms(1) in auto)
  moreover have "scan_d (print_d v) = Some (v, [])" using scan_d_print [of v "[]"] assms(2) by simp
  ultimately show ?thesis by (simp add: split_number_def)
qed

text \<open>The characters of an address are digits and the separator of its kind.\<close>

definition addr_char :: "char \<Rightarrow> bool" where
  "addr_char c \<longleftrightarrow> isxdigit c \<or> c = CHR '':'' \<or> c = CHR ''.''"

lemma addr_char_no_sep: "addr_char c \<Longrightarrow> c \<noteq> CHR ''#'' \<and> c \<noteq> CHR ''/''"
  using digit_not_space [of c] by (auto simp: addr_char_def)

lemma print_d_no_hash: "CHR ''#'' \<notin> set (print_d v)" "CHR ''/'' \<notin> set (print_d v)"
proof -
  have "c \<in> set (print_d v) \<Longrightarrow> isdigit c \<or> c = CHR ''-''" for c using dec_digits by (auto simp: print_d_def split: if_splits)
  from this [of "CHR ''#''"] this [of "CHR ''/''"]
  show "CHR ''#'' \<notin> set (print_d v)" "CHR ''/'' \<notin> set (print_d v)" by (auto simp: isdigit_def)
qed

lemma str2net_parts:
  assumes "\<And>c. c \<in> set a \<Longrightarrow> addr_char c" "c_int_ok w" "p < 1000"
    and "length (a @ (if with_p then CHR ''/'' # print_d (int p) else []) @ (if w \<noteq> 10 then CHR ''#'' # print_d w else [])) < 1024"
  shows "str2net (a @ (if with_p then CHR ''/'' # print_d (int p) else []) @ (if w \<noteq> 10 then CHR ''#'' # print_d w else [])) =
    parse_address a w (if with_p then Some (int p) else None)"
proof -
  let ?body = "a @ (if with_p then CHR ''/'' # print_d (int p) else [])"
  have a: "CHR ''#'' \<notin> set a" "CHR ''/'' \<notin> set a" using assms(1) addr_char_no_sep by blast+
  have "CHR ''#'' \<notin> set ?body" using a(1) print_d_no_hash by auto
  then have "split_number CHR ''#'' (?body @ (if w \<noteq> 10 then CHR ''#'' # print_d w else [])) =
      Some (?body, if w \<noteq> 10 then Some w else None)"
    using split_number_some [OF _ assms(2), of _ ?body] split_number_none [of _ ?body] by (cases "w = 10") (simp_all del: append_assoc)
  moreover have "c_int_ok (int p)" using assms(3) by (simp add: c_int_ok_def)
  then have "split_number CHR ''/'' ?body = Some (a, if with_p then Some (int p) else None)"
    using split_number_some [OF a(2)] split_number_none [OF a(2)] by simp
  moreover have "take 1023 (?body @ (if w \<noteq> 10 then CHR ''#'' # print_d w else [])) = ?body @ (if w \<noteq> 10 then CHR ''#'' # print_d w else [])"
    using assms(4) by (intro take_all) simp
  ultimately show ?thesis unfolding str2net_def append.assoc by simp
qed

text \<open>The three kinds of addresses.\<close>

lemma scan_all_missing: "Match_Char c \<in> set f \<Longrightarrow> c \<notin> set s \<Longrightarrow> scan_all f s = None"
  using sscanf_missing [of c f s] by (cases "sscanf f s") (simp add: scan_all_def)

lemma formats:
  "mac_format = separated (Scan_X 16) colon 6" "ipv4_format = separated (Scan_U 16) dot 4" "ipv6_format = separated (Scan_X 16) colon 8"
  "colon \<in> set mac_format" "dot \<in> set ipv4_format" "dot \<in> set (colon # ipv4_format)"
  by (simp_all add: mac_format_def ipv4_format_def ipv6_format_def eval_nat_numeral)

lemma bytes_of_nats: "map of_nat (map unat bs) = (bs :: bytes)" "g \<in> set (map unat (bs :: bytes)) \<Longrightarrow> g < 256"
  using unsigned_less [where 'a = nat and ?w = "_ :: byte"] by (auto simp: o_def)

lemma parse_mac:
  assumes "length a = 6"
  shows "parse_address (print_mac a) w None = Net_Ok (new_subnet w (SUBNET_MAC a))"
proof -
  have "scan_all mac_format (print_mac a) = Some (map unat a)"
    using hex2_colon.scan_all_join [of "map unat a"] bytes_of_nats(2) [of _ a] assms
      butlast_concat_join [of print_02x "CHR '':''" "map unat a"]
    by (cases "a = []") (auto simp: print_mac_def formats(1) o_def)
  then show ?thesis by (simp add: parse_address_def o_def)
qed

lemma addr_char_print:
  "c \<in> set (print_mac a) \<Longrightarrow> addr_char c" "c \<in> set (print_ipv4 a) \<Longrightarrow> addr_char c"
proof -
  have "c \<in> set (print_02x n) \<Longrightarrow> isxdigit c" for n
    using hex_digits by (auto simp: print_02x_def isxdigit_def isdigit_def split: if_splits)
  then show "c \<in> set (print_mac a) \<Longrightarrow> addr_char c"
    unfolding print_mac_def addr_char_def by (auto split: if_splits dest!: in_set_butlastD) blast
  show "c \<in> set (print_ipv4 a) \<Longrightarrow> addr_char c"
    using dec_digits isdigit_isxdigit by (auto simp: print_ipv4_def addr_char_def split: if_splits dest!: in_set_butlastD)
qed

lemma parse_ipv4:
  assumes "length a = 4" "p \<le> 32"
  shows "parse_address (print_ipv4 a) w (if p \<noteq> 32 then Some (int p) else None) = Net_Ok (new_subnet w (SUBNET_IPV4 a p))"
proof -
  have "c \<in> set (print_ipv4 a) \<Longrightarrow> isdigit c \<or> c = CHR ''.''" for c
    using dec_digits by (auto simp: print_ipv4_def split: if_splits dest!: in_set_butlastD)
  from this [of "CHR '':''"] have "CHR '':'' \<notin> set (print_ipv4 a)" by (auto simp: isdigit_def)
  then have "scan_all mac_format (print_ipv4 a) = None" using scan_all_missing formats(4) by blast
  moreover have "scan_all ipv4_format (print_ipv4 a) = Some (map unat a)"
    using dec_dot.scan_all_join [of "map unat a"] bytes_of_nats(2) [of _ a] assms
      butlast_concat_join [of print_u "CHR ''.''" "map unat a"]
    by (cases "a = []") (fastforce simp: print_ipv4_def formats(2) o_def)+
  moreover have "\<not> (\<exists>b \<in> set (map unat a). b > 255)" using bytes_of_nats(2) [of _ a] by fastforce
  ultimately show ?thesis using assms(2) unfolding parse_address_def by (simp add: o_def Let_def)
qed

lemma joined_chars: "c \<in> set (joined gs) \<Longrightarrow> isxdigit c \<or> c = CHR '':''"
  using set_join [of print_x "CHR '':''" gs] hex_digits by blast

lemma mac_format_joined:
  assumes "\<And>g. g \<in> set gs \<Longrightarrow> g < 65536" "6 < length gs"
  shows "scan_all mac_format (joined gs) = None"
proof -
  have "joined gs = joined (take 6 gs) @ CHR '':'' # joined (drop 6 gs)"
    using join_append [of "take 6 gs" "drop 6 gs" print_x "CHR '':''"] assms(2) by (cases gs) auto
  moreover have "scan_all mac_format (joined (take 6 gs) @ CHR '':'' # joined (drop 6 gs)) = None"
    using hex_colon.scan_all_longer [of "take 6 gs"] assms in_set_takeD [of _ 6 gs] by (cases gs) (auto simp: formats(1) min_def)
  ultimately show ?thesis by simp
qed

lemma mac_format_zeroes:
  assumes "\<And>g. g \<in> set as \<Longrightarrow> g < 65536" "length as \<le> 6"
  shows "scan_all mac_format (joined as @ ''::'' @ r) = None"
proof (cases "length as = 6")
  case True
  then have "as \<noteq> []" by auto
  then show ?thesis using hex_colon.scan_all_longer [of as "CHR '':'' # r"] assms True by (simp add: formats(1))
next
  case False
  then have "snd (sscanf mac_format (joined as @ ''::'' @ r)) = None"
    using hex_colon.scan_stuck [of as 6 r] assms by (simp add: formats(1))
  then show ?thesis by (cases "sscanf mac_format (joined as @ ''::'' @ r)") (simp add: scan_all_def)
qed

lemma dotted_suffix_none: "CHR ''.'' \<notin> set s \<Longrightarrow> dotted_suffix s = Some s"
proof -
  assume s: "CHR ''.'' \<notin> set s"
  have "scan_all (colon # ipv4_format) (drop p s) = None" for p
    using scan_all_missing [OF formats(6)] s in_set_dropD by fast
  then show ?thesis by (simp add: dotted_suffix_def split: option.split)
qed

lemma ipv6_groups_bytes:
  assumes "length a = 16"
  shows "concat (map be16_bytes (ipv6_groups a)) = a" "length (ipv6_groups a) = 8" "g \<in> set (ipv6_groups a) \<Longrightarrow> g < 65536"
proof -
  have "be16_bytes (be16_nat h l) = [h, l]" for h l
  proof -
    have "be16_nat h l div 256 = unat h" "be16_nat h l mod 256 = unat l"
      using unsigned_less [of l, where 'a = nat] by (simp_all add: be16_nat_def)
    then have "unat (of_nat (be16_nat h l) :: byte) = unat l" "of_nat (be16_nat h l div 256) = h" by (simp_all add: unat_of_nat)
    then show ?thesis by (simp add: be16_bytes_def word_unat_eq_iff)
  qed
  moreover obtain a0 a1 a2 a3 a4 a5 a6 a7 a8 a9 a10 a11 a12 a13 a14 a15
    where "a = [a0, a1, a2, a3, a4, a5, a6, a7, a8, a9, a10, a11, a12, a13, a14, a15]"
    using assms by (auto simp: length_Suc_conv numeral_eq_Suc)
  ultimately show "concat (map be16_bytes (ipv6_groups a)) = a" by (simp add: ipv6_groups_def upt_conv_Cons)
  show "length (ipv6_groups a) = 8" by (simp add: ipv6_groups_def)
  show "g \<in> set (ipv6_groups a) \<Longrightarrow> g < 65536" using be16_less by (auto simp: ipv6_groups_def)
qed

lemma parse_ipv6:
  assumes "length a = 16" "p \<le> 128" "length (print_ipv6 a) \<le> 1000"
  shows "parse_address (print_ipv6 a) w (if p \<noteq> 128 then Some (int p) else None) = Net_Ok (new_subnet w (SUBNET_IPV6 a p))"
proof -
  let ?x = "ipv6_groups a"
  note x = ipv6_groups_bytes [OF assms(1)]
  obtain n at where z: "longest_zeroes ?x = (n, at)" by fastforce
  have form: "print_ipv6 a = butlast (print_groups ?x n at 0)" by (simp add: print_ipv6_def z)
  have dots: "CHR ''.'' \<notin> set (joined gs)" for gs
    using joined_chars [of "CHR ''.''" gs] by (auto simp: isxdigit_def isdigit_def)
  consider (plain) "print_ipv6 a = joined ?x"
    | (zeroes) as bs where "?x = as @ replicate (8 - length as - length bs) 0 @ bs" "length as + length bs < 7"
        "print_ipv6 a = joined as @ ''::'' @ joined bs"
    using print_groups_form [OF x(2) z] form by auto
  then have "scan_all mac_format (print_ipv6 a) = None \<and> CHR ''.'' \<notin> set (print_ipv6 a) \<and>
      expand_zeroes (print_ipv6 a) = Expanded (joined ?x)"
  proof cases
    case plain
    then show ?thesis using mac_format_joined [of ?x] x(2,3) dots double_colon_joined by (simp add: expand_zeroes_def)
  next
    case zeroes
    have "set as \<subseteq> set ?x" by (subst zeroes(1)) simp
    then have "g < 65536" if "g \<in> set as" for g using x(3) [of g] that by blast
    then have "scan_all mac_format (print_ipv6 a) = None" using mac_format_zeroes zeroes(2,3) by simp
    moreover have "expand_zeroes (print_ipv6 a) = Expanded (joined ?x)"
      using expand_zeroes_joined [of as bs] zeroes assms(3) by simp
    ultimately show ?thesis using dots zeroes(3) by simp
  qed
  moreover have "scan_all ipv6_format (joined ?x) = Some ?x"
    using hex_colon.scan_all_join [of ?x] x(2,3) by (cases "?x = []") (auto simp: formats(3))
  ultimately show ?thesis
    using assms(2) x(1) scan_all_missing [OF formats(5)] dotted_suffix_none unfolding parse_address_def by (simp add: Let_def)
qed

lemma addr_char_ipv6: "length a = 16 \<Longrightarrow> c \<in> set (print_ipv6 a) \<Longrightarrow> addr_char c"
proof -
  assume a: "length a = 16" and c: "c \<in> set (print_ipv6 a)"
  obtain n at where z: "longest_zeroes (ipv6_groups a) = (n, at)" by fastforce
  then show ?thesis
    using print_groups_form [OF ipv6_groups_bytes(2) [OF a] z] c joined_chars by (fastforce simp: print_ipv6_def addr_char_def)
qed

text \<open>Everything fits into the buffers of 64 bytes.\<close>

lemma length_print_groups:
  "length x = 8 \<Longrightarrow> (\<And>g. g \<in> set x \<Longrightarrow> g < 65536) \<Longrightarrow> length (print_groups x n at i) \<le> 5 * (8 - i)"
proof (induction x n at i rule: print_groups.induct)
  case (1 x n at i)
  show ?case
  proof (cases "i < 8")
    case True
    then have "x ! i < 16 ^ Suc 3" using 1(3,4) by simp
    then have "length (print_x (x ! i)) \<le> 4" using length_digits [of 16 "x ! i" 3] by simp
    with True 1 show ?thesis by (subst print_groups.simps) (auto simp: min_def)
  qed (subst print_groups.simps, simp)
qed

lemma length_print_ipv6: "length a = 16 \<Longrightarrow> length (print_ipv6 a) \<le> 39"
proof -
  assume a: "length a = 16"
  note x = ipv6_groups_bytes [OF a]
  obtain n at where z: "longest_zeroes (ipv6_groups a) = (n, at)" by fastforce
  have "length (print_groups (ipv6_groups a) n at 0) \<le> 5 * (8 - 0)" by (rule length_print_groups) (use x in auto)
  then have "length (butlast (print_groups (ipv6_groups a) n at 0)) \<le> 39" by simp
  then show ?thesis by (simp add: print_ipv6_def z)
qed

lemma length_small_number: "n < 1000 \<Longrightarrow> length (print_u n) \<le> 3"
  using length_digits [of 10 n 2] by simp

lemma length_print_d: "c_int_ok v \<Longrightarrow> length (print_d v) \<le> 11"
proof -
  assume v: "c_int_ok v"
  have "length (print_u (nat u)) \<le> 10" if "u \<le> 2 ^ 31" for u :: int
    using length_digits [of 10 "nat u" 9] that by simp
  from this [of v] this [of "- v"] v show ?thesis by (auto simp: print_d_def c_int_ok_def)
qed

lemma length_octets: "n < 256 \<Longrightarrow> length (print_02x n) = 2" "n < 256 \<Longrightarrow> length (print_u n) \<le> 3"
proof -
  show "n < 256 \<Longrightarrow> length (print_u n) \<le> 3" using length_small_number [of n] by simp
  assume n: "n < 256"
  show "length (print_02x n) = 2"
  proof (cases "n < 16")
    case True
    then have "print_x n = [digit_char n]" by (subst digits.simps) simp
    with True show ?thesis by (simp add: print_02x_def)
  next
    case False
    with n have "print_x n = [digit_char (n div 16), digit_char (n mod 16)]" by (subst digits.simps, subst digits.simps) auto
    with False show ?thesis by (simp add: print_02x_def)
  qed
qed

lemma length_print_octets: "length (print_mac a) \<le> 3 * length a" "length (print_ipv4 a) \<le> 4 * length a"
proof -
  have b: "unat (x :: byte) < 256" for x using unsigned_less [of x, where 'a = nat] by simp
  have "length (concat (map (\<lambda>b. print_02x (unat b) @ '':'') a)) = 3 * length a"
    by (induction a) (simp_all add: length_octets(1) b)
  then show "length (print_mac a) \<le> 3 * length a" by (simp add: print_mac_def)
  have "length (concat (map (\<lambda>b. print_u (unat b) @ ''.'') a)) \<le> 4 * length a"
  proof (induction a)
    case (Cons x a)
    then show ?case using length_octets(2) [OF b [of x]] by simp
  qed simp
  then show "length (print_ipv4 a) \<le> 4 * length a" by (simp add: print_ipv4_def)
qed

lemma length_print_prefix: "p < 1000 \<Longrightarrow> length (print_prefix full p) \<le> 4"
  using length_small_number [of p] by (simp add: print_prefix_def print_d_def)

lemma length_net2str:
  assumes "net_ok (net s)" "c_int_ok (weight s)"
  shows "length (net2str s) < 64"
proof -
  have "length (if weight s \<noteq> DEFAULT_WEIGHT then CHR ''#'' # print_d (weight s) else []) \<le> 12"
    using length_print_d [OF assms(2)] by simp
  with assms(1) show ?thesis
  proof (cases "net s")
    case (SUBNET_MAC a)
    then show ?thesis using assms(1) length_print_octets(1) [of a] length_print_d [OF assms(2)] by (simp add: net2str_def)
  next
    case (SUBNET_IPV4 a p)
    then show ?thesis using assms(1) length_print_octets(2) [of a] length_print_d [OF assms(2)] length_print_prefix [of p 32]
      by (simp add: net2str_def)
  next
    case (SUBNET_IPV6 a p)
    then show ?thesis using assms(1) length_print_ipv6 [of a] length_print_d [OF assms(2)] length_print_prefix [of p 128]
      by (simp add: net2str_def)
  qed
qed

lemma subnet_text_parse:
  assumes "net_ok (net s)" "c_int_ok (weight s)"
  shows "str2net (net2str s) = Net_Ok (new_subnet (weight s) (net s))"
proof -
  note w = assms(2) and len = length_net2str [OF assms]
  show ?thesis
  proof (cases "net s")
    case (SUBNET_MAC a)
    then have shape: "net2str s = print_mac a @ (if False then CHR ''/'' # print_d (int 0) else []) @
        (if weight s \<noteq> 10 then CHR ''#'' # print_d (weight s) else [])" by (simp add: net2str_def)
    have "str2net (net2str s) = parse_address (print_mac a) (weight s) (if False then Some (int 0) else None)"
      using len unfolding shape by (intro str2net_parts addr_char_print(1) w) simp_all
    then show ?thesis using parse_mac [of a] SUBNET_MAC assms(1) by simp
  next
    case (SUBNET_IPV4 a p)
    then have shape: "net2str s = print_ipv4 a @ (if p \<noteq> 32 then CHR ''/'' # print_d (int p) else []) @
        (if weight s \<noteq> 10 then CHR ''#'' # print_d (weight s) else [])" by (simp add: net2str_def print_prefix_def)
    have "str2net (net2str s) = parse_address (print_ipv4 a) (weight s) (if p \<noteq> 32 then Some (int p) else None)"
      using len assms(1) SUBNET_IPV4 unfolding shape by (intro str2net_parts addr_char_print(2) w) simp_all
    then show ?thesis using parse_ipv4 [of a p] SUBNET_IPV4 assms(1) by simp
  next
    case (SUBNET_IPV6 a p)
    then have shape: "net2str s = print_ipv6 a @ (if p \<noteq> 128 then CHR ''/'' # print_d (int p) else []) @
        (if weight s \<noteq> 10 then CHR ''#'' # print_d (weight s) else [])" by (simp add: net2str_def print_prefix_def)
    have a: "length a = 16" using assms(1) SUBNET_IPV6 by simp
    have "str2net (net2str s) = parse_address (print_ipv6 a) (weight s) (if p \<noteq> 128 then Some (int p) else None)"
      using len assms(1) SUBNET_IPV6 unfolding shape by (intro str2net_parts addr_char_ipv6 [OF a] w) simp_all
    then show ?thesis using parse_ipv6 [of a p] length_print_ipv6 [OF a] SUBNET_IPV6 assms(1) by simp
  qed
qed

text \<open>
  Property C35. The text form of a subnet fits the 64-byte buffers of its users and is read back as
  the same network with the same weight, for MAC addresses, IPv4 and IPv6 networks alike; the shortened
  form of IPv6 addresses loses nothing, and no address is taken for one of another kind.
\<close>

theorem subnet_text_roundtrip:
  assumes "net_ok (net s)" "c_int_ok (weight s)"
  shows "length (net2str s) < 64 \<and> str2net (net2str s) = Net_Ok (new_subnet (weight s) (net s))"
proof
  show "length (net2str s) < 64" by (rule length_net2str) fact+
  show "str2net (net2str s) = Net_Ok (new_subnet (weight s) (net s))" by (rule subnet_text_parse) fact+
qed

theorem subnet_text_roundtrip_witness:
  "str2net (net2str (new_subnet 7 (SUBNET_IPV6 [0x20, 1, 0xD, 0xB8, 0, 0, 0, 0, 0, 0, 0, 0, 0, 0, 0, 1] 64))) =
     Net_Ok (new_subnet 7 (SUBNET_IPV6 [0x20, 1, 0xD, 0xB8, 0, 0, 0, 0, 0, 0, 0, 0, 0, 0, 0, 1] 64))"
  using subnet_text_roundtrip [of "new_subnet 7 (SUBNET_IPV6 [0x20, 1, 0xD, 0xB8, 0, 0, 0, 0, 0, 0, 0, 0, 0, 0, 0, 1] 64)"]
  by (simp add: new_subnet_def c_int_ok_def)

section \<open>The buffer of the parser\<close>

lemma split_number_length: "split_number sep s = Some (r, v) \<Longrightarrow> length r \<le> length s"
  using length_takeWhile_le [of _ s]
  by (auto simp: split_number_def split: list.splits prod.splits scan_value.splits option.splits if_splits)

lemma dotted_suffix_length: "dotted_suffix s = Some r \<Longrightarrow> length r \<le> length s + 10"
proof -
  assume r: "dotted_suffix s = Some r"
  show ?thesis
  proof (cases "last_colon s")
    case (Some p)
    then have "p \<le> length s" by (auto simp: last_colon_def split: if_splits)
    then show ?thesis using r Some length_octets(1)
      by (auto simp: dotted_suffix_def min_def split: option.splits list.splits if_splits)
  qed (use r in \<open>simp add: dotted_suffix_def\<close>)
qed

lemma expand_zeroes_fits: "length s \<le> 1008 \<Longrightarrow> expand_zeroes s \<noteq> Expand_Overrun"
  by (auto simp: expand_zeroes_def Let_def split: option.split)

lemma str2net_fits: "length s \<le> 998 \<Longrightarrow> str2net s \<noteq> Net_Overrun"
proof -
  assume s: "length s \<le> 998"
  have "parse_address r w p \<noteq> Net_Overrun" if "length r \<le> 998" for r w p
  proof -
    have "expand_zeroes t \<noteq> Expand_Overrun" if "dotted_suffix r = Some t" for t
      using dotted_suffix_length [OF that] \<open>length r \<le> 998\<close> by (intro expand_zeroes_fits) simp
    then show ?thesis by (auto simp: parse_address_def Let_def split: option.splits expansion.splits)
  qed
  moreover have "length r \<le> 998"
    if "split_number CHR ''#'' (take 1023 s) = Some (q, v)" "split_number CHR ''/'' q = Some (r, v')" for q v r v'
    using split_number_length [OF that(1)] split_number_length [OF that(2)] s by simp
  ultimately show ?thesis
    by (simp add: str2net_def split: option.split prod.split)
qed

lemma str2net_overruns:
  assumes "1008 < n" "n \<le> 1021"
  shows "str2net (replicate n CHR ''a'' @ ''::'') = Net_Overrun"
proof -
  let ?as = "replicate n CHR ''a''" and ?s = "replicate n CHR ''a'' @ ''::''"
  have a: "isxdigit (CHR ''a'')" by (simp add: isxdigit_def isdigit_def)
  have no: "CHR ''#'' \<notin> set ?s" "CHR ''/'' \<notin> set ?s" "CHR ''.'' \<notin> set ?s" by auto
  have pos: "?as \<noteq> []" "hd ?as = CHR ''a''" using assms(1) by auto
  have "scan_0x ?s = ?s" by (rule scan_0x_plain) (use pos a in auto)
  moreover have "takeWhile isxdigit ?s = ?as \<and> dropWhile isxdigit ?s = ''::''"
    by (rule takeWhile_prefix) (use a in \<open>auto simp: isxdigit_def isdigit_def\<close>)
  ultimately obtain v where v: "scan_x 16 ?s = Some (v, ''::'')"
    using scan_start [of ?as "''::''"] pos a by (auto simp: scan_x_def scan_digits_def)
  obtain f where f: "mac_format = Scan_X 16 # colon # Scan_X 16 # f" by (simp add: mac_format_def eval_nat_numeral)
  have "scan_all mac_format ?s = None"
    using v hex_colon.stuck [of f "[]"] by (simp add: scan_all_def f split: option.splits)
  moreover have "double_colon ?s = Some n" using double_colon_skip [of ?as "''::''"] by simp
  moreover have "count_groups ?s = 1" using count_groups_skip [of ?as "''::''"] pos by simp
  ultimately have "parse_address ?s 10 None = Net_Overrun"
    using scan_all_missing [OF formats(5) no(3)] dotted_suffix_none [OF no(3)] assms(1)
    by (simp add: parse_address_def expand_zeroes_def)
  moreover have "take 1023 ?s = ?s" using assms(2) by (intro take_all) simp
  ultimately show ?thesis using split_number_none [OF no(1)] split_number_none [OF no(2)] by (simp add: str2net_def)
qed

text \<open>
  A string of up to 998 characters is parsed within the 1024 bytes of the parser's copy; beyond that the
  expansion of two colons into groups of zeroes can write past the end of it, as it does for any run
  of 1009 to 1021 hexadecimal digits with two colons behind, which a request may carry.
\<close>

theorem str2net_buffer:
  "(\<forall>s. length s \<le> 998 \<longrightarrow> str2net s \<noteq> Net_Overrun) \<and>
   (\<forall>n. 1008 < n \<and> n \<le> 1021 \<longrightarrow> str2net (replicate n CHR ''a'' @ ''::'') = Net_Overrun)"
  using str2net_fits str2net_overruns by blast

theorem str2net_buffer_witness:
  "str2net ''10.0.0.0/8'' \<noteq> Net_Overrun \<and> str2net (replicate 1010 CHR ''a'' @ ''::'') = Net_Overrun"
proof
  show "str2net ''10.0.0.0/8'' \<noteq> Net_Overrun" using str2net_buffer by simp
  show "str2net (replicate 1010 CHR ''a'' @ ''::'') = Net_Overrun"
    by (rule str2net_buffer [THEN conjunct2, rule_format]) simp
qed

end
