(* ===== verification/Daemon.thy ===== *)
theory Daemon
  imports Route Graph Utils Subnet_Text
begin

text \<open>
  The state that the requests between daemons work on, and what all handlers use (\<^verbatim>\<open>protocol.c\<close>,
  \<^verbatim>\<open>connection.c\<close>, \<^verbatim>\<open>node.c\<close>, \<^verbatim>\<open>meta.c\<close>): the tree of known nodes, the connections, the tree of requests
  seen before, sending, forwarding and the dispatch of a request to its handler. Nodes are named by
  their names and connections by numbers; the times of the last UDP_INFO and MTU_INFO are in microseconds. Requests are lines without their newline; what is handed to the transport is
  appended to an outbox, scripts are appended to a list, and random numbers come from a
  sequence. The indices of nodes by identifier and by address are written but never read by the daemon and are left out.
\<close>

section \<open>State\<close>

record connection =
  conn_id :: nat
  conn_name :: string
  conn_node :: "string option"
  conn_edge :: "(string \<times> string) option"
  conn_address :: sockaddr
  conn_local_address :: sockaddr
  outgoing :: bool
  allow_request :: int
  protocol_major :: int
  protocol_minor :: int
  conn_options :: u32
  estimated_weight :: int
  quic_context :: bool
  control :: bool
  socket :: int
  tcplen :: int
  pinged :: bool
  last_ping_time :: int

record past_request =
  request :: string
  firstseen :: int

record daemon =
  node_tree :: "string splay_tree"
  nodes :: gnodes
  edges :: edge_state
  subnets :: subnet_state
  mst_conns :: "nat \<Rightarrow> bool"
  connection_list :: "connection list"
  node_connection :: "string \<Rightarrow> nat option"
  past_request_tree :: "past_request splay_tree"
  contradicting_add_edge :: nat
  contradicting_del_edge :: nat
  node_mtu :: "string \<Rightarrow> int"
  udp_info_sent :: "string \<Rightarrow> int"
  mtu_info_sent :: "string \<Rightarrow> int"
  outgoing_timeout :: "string \<Rightarrow> int"
  cache_resets :: "(string \<times> sockaddr) list"
  retries :: "string list"
  outbox :: "(nat \<times> string) list"
  scripts_run :: "(string \<times> subnet option \<times> bool) list"
  rand_count :: nat

text \<open>
  What does not change while a request is handled: the configuration, the clock, the answers of the
  operating system, and the fuel for the search of the mesh.
\<close>

record daemon_env =
  self :: string
  tunnelserver :: bool
  strictsubnets :: bool
  clock :: int
  clock_usec :: int
  udp_info_interval :: int
  mtu_info_interval :: int
  pinginterval :: int
  device_standby :: bool
  proxy_http :: bool
  graph_fuel :: nat
  rand_value :: "nat \<Rightarrow> nat"
  getaddrinfo :: "string \<Rightarrow> string \<Rightarrow> sockaddr option"
  getnameinfo :: "sockaddr \<Rightarrow> string \<times> string"
  transport_accepts :: "nat \<Rightarrow> string \<Rightarrow> bool"

text \<open>
  How a handler ends: it returns, it writes past the end of a buffer, it follows a null pointer, it aborts, or it has
  not ended within its fuel.
\<close>

datatype outcome = Returned bool daemon | Overrun | Crashed | Aborted | Running

section \<open>Nodes\<close>

definition lookup_node :: "string \<Rightarrow> daemon \<Rightarrow> string option \<times> daemon" where
  "lookup_node name d = (case splay_search (node_tree d) name of (t, r) \<Rightarrow> (r, d\<lparr>node_tree := t\<rparr>))"

definition node_add :: "string \<Rightarrow> daemon \<Rightarrow> daemon" where
  "node_add name d = d\<lparr>node_tree := fst (splay_insert (node_tree d) name), nodes := (nodes d)(name := new_node),
     node_connection := (node_connection d)(name := None), node_mtu := (node_mtu d)(name := int MTU),
     udp_info_sent := (udp_info_sent d)(name := 0), mtu_info_sent := (mtu_info_sent d)(name := 0)\<rparr>"

definition node_del :: "string \<Rightarrow> daemon \<Rightarrow> daemon" where
  "node_del n d =
     (let d = d\<lparr>subnets := fold (subnet_del (Some n)) (links (node_subnets (subnets d) n)) (subnets d)\<rparr>;
          d = d\<lparr>edges := fold edge_del (links (node_edges (edges d) n)) (edges d)\<rparr>
      in d\<lparr>node_tree := fst (splay_delete (node_tree d) n)\<rparr>)"

section \<open>Sending\<close>

abbreviation (input) MAXBUFSIZE :: nat where "MAXBUFSIZE \<equiv> 65664"

definition next_rand :: "daemon_env \<Rightarrow> daemon \<Rightarrow> nat \<times> daemon" where
  "next_rand env d = (rand_value env (rand_count d), d\<lparr>rand_count := rand_count d + 1\<rparr>)"

definition send_meta :: "daemon_env \<Rightarrow> connection \<Rightarrow> string \<Rightarrow> daemon \<Rightarrow> bool \<times> daemon" where
  "send_meta env c line d =
     (if quic_context c \<or> control c \<and> 0 \<le> socket c
      then (transport_accepts env (conn_id c) line, d\<lparr>outbox := outbox d @ [(conn_id c, line)]\<rparr>)
      else (False, d))"

definition broadcast_meta :: "daemon_env \<Rightarrow> connection option \<Rightarrow> string \<Rightarrow> daemon \<Rightarrow> daemon" where
  "broadcast_meta env from line d =
     fold (\<lambda>c d. if map_option conn_id from \<noteq> Some (conn_id c) \<and> conn_edge c \<noteq> None then snd (send_meta env c line d) else d)
       (connection_list d) d"

text \<open>The format of \<^verbatim>\<open>send_request\<close> has been filled in; the identifier 0 is sent without looking at the answer.\<close>

definition send_request :: "daemon_env \<Rightarrow> connection \<Rightarrow> string \<Rightarrow> daemon \<Rightarrow> bool \<times> daemon" where
  "send_request env c line d =
     (if length line > MAXBUFSIZE - 1 then (False, d)
      else if atoi line \<noteq> 0 then send_meta env c line d
      else (True, snd (send_meta env c line d)))"

definition send_everyone :: "daemon_env \<Rightarrow> string \<Rightarrow> daemon \<Rightarrow> bool \<times> daemon" where
  "send_everyone env line d =
     (if length line > MAXBUFSIZE - 1 then (False, d) else (True, broadcast_meta env None line d))"

definition forward_request :: "daemon_env \<Rightarrow> connection \<Rightarrow> string \<Rightarrow> daemon \<Rightarrow> daemon" where
  "forward_request env from line d = broadcast_meta env (Some from) line d"

section \<open>Requests seen before\<close>

definition past_request_compare :: "past_request \<Rightarrow> past_request \<Rightarrow> int" where
  "past_request_compare a b = strcmp (request a) (request b)"

definition init_requests :: "past_request splay_tree" where
  "init_requests = splay_alloc_tree past_request_compare True"

definition seen_request :: "daemon_env \<Rightarrow> string \<Rightarrow> daemon \<Rightarrow> bool \<times> daemon" where
  "seen_request env line d =
     (case splay_search (past_request_tree d) \<lparr>request = line, firstseen = 0\<rparr> of
        (t, Some _) \<Rightarrow> (True, d\<lparr>past_request_tree := t\<rparr>)
      | (t, None) \<Rightarrow> (False, d\<lparr>past_request_tree := fst (splay_insert t \<lparr>request = line, firstseen = clock env\<rparr>)\<rparr>))"

text \<open>The timer: requests older than a ping interval are forgotten. The number of those left decides whether it is set again.\<close>

definition age_past_requests :: "daemon_env \<Rightarrow> daemon \<Rightarrow> bool \<times> daemon" where
  "age_past_requests env d =
     (case fold (\<lambda>p (n, t). if firstseen p + pinginterval env \<le> clock env then (n, splay_unlink_node t p) else (n + 1, t))
        (links (past_request_tree d)) (0 :: nat, past_request_tree d) of
      (n, t) \<Rightarrow> (n \<noteq> 0, d\<lparr>past_request_tree := t\<rparr>))"

section \<open>Recomputing the mesh\<close>

text \<open>\<^verbatim>\<open>graph()\<close> on the whole state, with the continuation of the handler.\<close>

definition run_graph :: "daemon_env \<Rightarrow> daemon \<Rightarrow> (daemon \<Rightarrow> outcome) \<Rightarrow> outcome" where
  "run_graph env d k =
     (case graph (self env) (clock env) (device_standby env) (graph_fuel env)
        \<lparr>node_names = links (node_tree d), mesh_nodes = nodes d, mesh_edges = edges d, mesh_subnets = subnets d,
         mst_connections = mst_conns d\<rparr> of
        Graph_Done s rep action \<Rightarrow>
          k (d\<lparr>nodes := mesh_nodes s, subnets := mesh_subnets s, mst_conns := mst_connections s,
               scripts_run := scripts_run d @ map (\<lambda>(n, up). (n, None, up)) (host_scripts rep)\<rparr>)
      | Graph_Abort \<Rightarrow> Aborted
      | Graph_Running \<Rightarrow> Running)"

section \<open>Dispatch\<close>

datatype handler = Id_H | Ack_H | Termreq_H | Ping_H | Pong_H | Add_Subnet_H | Del_Subnet_H | Add_Edge_H | Del_Edge_H
  | Control_H | Udp_Info_H | Mtu_Info_H | Invite_Join_H | Invite_Data_H | Invite_Csr_H | Invite_Cert_H

definition request_handlers :: "handler option list" where
  "request_handlers =
     [Some Id_H, None, None, None, Some Ack_H, None, None, Some Termreq_H, Some Ping_H, Some Pong_H,
      Some Add_Subnet_H, Some Del_Subnet_H, Some Add_Edge_H, Some Del_Edge_H, None, None, None, None, Some Control_H,
      None, None, Some Udp_Info_H, Some Mtu_Info_H, Some Invite_Join_H, Some Invite_Data_H, Some Invite_Csr_H, Some Invite_Cert_H]"

abbreviation (input) ALL_REQUESTS :: int where "ALL_REQUESTS \<equiv> - 1"
abbreviation (input) ID :: int where "ID \<equiv> 0"
abbreviation (input) ACK :: int where "ACK \<equiv> 4"
abbreviation (input) ADD_SUBNET :: int where "ADD_SUBNET \<equiv> 10"
abbreviation (input) DEL_SUBNET :: int where "DEL_SUBNET \<equiv> 11"
abbreviation (input) ADD_EDGE :: int where "ADD_EDGE \<equiv> 12"
abbreviation (input) DEL_EDGE :: int where "DEL_EDGE \<equiv> 13"
abbreviation (input) CONTROL :: int where "CONTROL \<equiv> 18"
abbreviation (input) INVITE_JOIN :: int where "INVITE_JOIN \<equiv> 23"
abbreviation (input) LAST :: int where "LAST \<equiv> 27"

text \<open>The answers of an HTTP proxy, which come before the first request of an outgoing connection.\<close>

definition proxy_answer :: "daemon_env \<Rightarrow> connection \<Rightarrow> string \<Rightarrow> bool option" where
  "proxy_answer env c line =
     (if outgoing c \<and> proxy_http env \<and> allow_request c = ID then
        if line = [] \<or> hd line = CHR 0x0D then Some True
        else if strcaseeq (take 9 line) ''HTTP/1.1 '' then Some (take 3 (drop 9 line) = ''200'')
        else None
      else None)"

text \<open>The handler that a request is given to, if it is given to any.\<close>

definition dispatch :: "connection \<Rightarrow> string \<Rightarrow> handler option" where
  "dispatch c line =
     (let reqno = atoi line in
      if reqno \<noteq> 0 \<or> take 1 line = ''0'' then
        if reqno < 0 \<or> reqno \<ge> LAST \<or> request_handlers ! nat reqno = None then None
        else if allow_request c \<noteq> ALL_REQUESTS \<and> allow_request c \<noteq> reqno \<and>
          \<not> (allow_request c = ID \<and> reqno = INVITE_JOIN) then None
        else request_handlers ! nat reqno
      else None)"

definition receive_request ::
  "daemon_env \<Rightarrow> (handler \<Rightarrow> connection \<Rightarrow> string \<Rightarrow> daemon \<Rightarrow> outcome) \<Rightarrow> connection \<Rightarrow> string \<Rightarrow> daemon \<Rightarrow> outcome" where
  "receive_request env run c line d =
     (case proxy_answer env c line of
        Some r \<Rightarrow> Returned r d
      | None \<Rightarrow> (case dispatch c line of None \<Rightarrow> Returned False d | Some h \<Rightarrow> run h c line d))"

section \<open>What sending does\<close>

text \<open>The connections a broadcast is written to.\<close>

definition recipients :: "connection option \<Rightarrow> daemon \<Rightarrow> connection list" where
  "recipients from d = filter (\<lambda>c. map_option conn_id from \<noteq> Some (conn_id c) \<and> conn_edge c \<noteq> None \<and> (quic_context c \<or> control c \<and> 0 \<le> socket c))
     (connection_list d)"

lemma broadcast_meta_outbox:
  "broadcast_meta env from line d = d\<lparr>outbox := outbox d @ map (\<lambda>c. (conn_id c, line)) (recipients from d)\<rparr>"
proof -
  have "fold (\<lambda>c d. if map_option conn_id from \<noteq> Some (conn_id c) \<and> conn_edge c \<noteq> None then snd (send_meta env c line d) else d) cs d =
      d\<lparr>outbox := outbox d @ map (\<lambda>c. (conn_id c, line))
        (filter (\<lambda>c. map_option conn_id from \<noteq> Some (conn_id c) \<and> conn_edge c \<noteq> None \<and> (quic_context c \<or> control c \<and> 0 \<le> socket c)) cs)\<rparr>" for cs d
    by (induction cs arbitrary: d) (auto simp: send_meta_def)
  then show ?thesis by (simp add: broadcast_meta_def recipients_def)
qed

lemma forward_request_outbox:
  "forward_request env c line d = d\<lparr>outbox := outbox d @ map (\<lambda>c. (conn_id c, line)) (recipients (Some c) d)\<rparr>"
  by (simp add: forward_request_def broadcast_meta_outbox)

lemma send_request_outbox:
  "length line < MAXBUFSIZE \<Longrightarrow> quic_context c \<Longrightarrow>
     snd (send_request env c line d) = d\<lparr>outbox := outbox d @ [(conn_id c, line)]\<rparr>"
  by (simp add: send_request_def send_meta_def)

section \<open>The trees of nodes and requests\<close>

definition past_ok :: "past_request \<Rightarrow> bool" where
  "past_ok p \<longleftrightarrow> c_string (request p)"

interpretation past_order: c_compare past_request_compare past_ok
  using c_compare_field [OF strcmp_order.c_compare_axioms, of past_ok request]
  by (simp add: past_request_compare_def [abs_def] past_ok_def)

definition known :: "daemon \<Rightarrow> string set" where
  "known d = set (links (node_tree d))"

definition seen :: "daemon \<Rightarrow> string set" where
  "seen d = request ` set (links (past_request_tree d))"

text \<open>The part of the invariant that is about the two trees.\<close>

definition request_inv :: "daemon \<Rightarrow> bool" where
  "request_inv d \<longleftrightarrow> splay_inv strcmp c_string (node_tree d) \<and> splay_inv past_request_compare past_ok (past_request_tree d)"

lemma find_unique: "(\<And>x. x \<in> set xs \<Longrightarrow> P x \<longleftrightarrow> x = y) \<Longrightarrow> List.find P xs = (if y \<in> set xs then Some y else None)"
  by (induction xs) auto

lemma lookup_node_spec:
  assumes "request_inv d" "c_string name"
  shows "\<exists>t. lookup_node name d = (if name \<in> known d then Some name else None, d\<lparr>node_tree := t\<rparr>) \<and>
    links t = links (node_tree d) \<and> splay_inv strcmp c_string t"
proof -
  have inv: "splay_inv strcmp c_string (node_tree d)" using assms(1) by (simp add: request_inv_def)
  then have ok: "list_all c_string (links (node_tree d))" using strcmp_order.splay.inv_elems by blast
  have "ordered_lookup strcmp name (links (node_tree d)) = (if name \<in> known d then Some name else None)"
    unfolding ordered_lookup_def known_def
    by (rule find_unique) (use ok assms(2) strcmp_zero in \<open>auto simp: list_all_iff\<close>)
  then show ?thesis
    using strcmp_order.splay.search_law [OF inv assms(2)] by (auto simp: lookup_node_def split: prod.split)
qed

lemma node_add_spec:
  assumes "request_inv d" "c_string name"
  shows "request_inv (node_add name d)" "known (node_add name d) = insert name (known d)"
proof -
  have inv: "splay_inv strcmp c_string (node_tree d)" using assms(1) by (simp add: request_inv_def)
  note ins = strcmp_order.splay.ins_law [OF inv assms(2)]
  have ok: "list_all c_string (links (node_tree d))" using strcmp_order.splay.inv_elems [OF inv] by blast
  show "request_inv (node_add name d)" using ins assms(1) by (simp add: request_inv_def node_add_def)
  have "set (ordered_insert strcmp name (links (node_tree d))) = insert name (set (links (node_tree d)))"
    using ok assms(2) strcmp_zero by (auto simp: set_ordered_insert list_all_iff)
  with ins show "known (node_add name d) = insert name (known d)" by (simp add: known_def node_add_def)
qed

lemma seen_request_spec:
  assumes "request_inv d" "c_string line"
  shows "\<exists>t. seen_request env line d = (line \<in> seen d, d\<lparr>past_request_tree := t\<rparr>) \<and>
    request_inv (d\<lparr>past_request_tree := t\<rparr>) \<and> request ` set (links t) = insert line (seen d)"
proof -
  let ?p = "\<lparr>request = line, firstseen = 0\<rparr>" and ?q = "\<lparr>request = line, firstseen = clock env\<rparr>"
  have inv: "splay_inv past_request_compare past_ok (past_request_tree d)" using assms(1) by (simp add: request_inv_def)
  have p: "past_ok ?p" "past_ok ?q" using assms(2) by (simp_all add: past_ok_def)
  have ok: "list_all past_ok (links (past_request_tree d))" using past_order.splay.inv_elems [OF inv] by blast
  then have zero: "x \<in> set (links (past_request_tree d)) \<Longrightarrow> past_request_compare q x = 0 \<longleftrightarrow> request x = line"
    if "request q = line" for x q
    using that assms(2) strcmp_zero [of line "request x"] by (auto simp: past_request_compare_def past_ok_def list_all_iff)
  obtain t r where tr: "splay_search (past_request_tree d) ?p = (t, r)" by fastforce
  with past_order.splay.search_law [OF inv p(1)] have t: "splay_inv past_request_compare past_ok t"
    "links t = links (past_request_tree d)" "r = ordered_lookup past_request_compare ?p (links (past_request_tree d))" by simp_all
  have found: "r = None \<longleftrightarrow> line \<notin> seen d"
    using t(3) zero [of ?p] by (auto simp: ordered_lookup_def find_None_iff seen_def image_iff)
  show ?thesis
  proof (cases r)
    case None
    have "request ` set (links (fst (splay_insert t ?q))) = insert line (seen d)"
      using past_order.splay.ins_law [OF t(1) p(2)] t(2) zero [of ?q] None found
      by (auto simp: set_ordered_insert seen_def image_iff)
    then show ?thesis using None tr found assms(1) past_order.splay.ins_law [OF t(1) p(2)]
      by (intro exI [of _ "fst (splay_insert t ?q)"]) (simp add: seen_request_def request_inv_def)
  next
    case (Some x)
    then show ?thesis using tr found assms(1) t(1,2)
      by (intro exI [of _ t]) (auto simp: seen_request_def request_inv_def seen_def)
  qed
qed

text \<open>Aging forgets the old requests and no other.\<close>

lemma age_past_requests_spec:
  assumes "request_inv d"
  shows "request_inv (snd (age_past_requests env d)) \<and>
    links (past_request_tree (snd (age_past_requests env d))) =
      filter (\<lambda>p. clock env < firstseen p + pinginterval env) (links (past_request_tree d)) \<and>
    (fst (age_past_requests env d) \<longleftrightarrow> (\<exists>p \<in> set (links (past_request_tree d)). clock env < firstseen p + pinginterval env))"
proof -
  let ?old = "\<lambda>p. firstseen p + pinginterval env \<le> clock env"
  let ?f = "\<lambda>p (n, t). if ?old p then (n, splay_unlink_node t p) else (n + 1, t)"
  have loop: "compare t = past_request_compare \<Longrightarrow> splay_wf past_ok t \<Longrightarrow> links t = filter (\<lambda>p. \<not> ?old p) xs @ ys \<Longrightarrow>
      (case fold ?f ys (n, t) of (n', t') \<Rightarrow> compare t' = past_request_compare \<and> splay_wf past_ok t' \<and>
        links t' = filter (\<lambda>p. \<not> ?old p) (xs @ ys) \<and> n' = n + length (filter (\<lambda>p. \<not> ?old p) ys))" for xs ys and n :: nat and t
  proof (induction ys arbitrary: xs n t)
    case (Cons p ys)
    show ?case
    proof (cases "?old p")
      case True
      have p: "p \<in> set (links t)" using Cons.prems(3) by simp
      have "distinct (links t)" using past_order.splay_wf_distinct Cons.prems(1,2) by blast
      then have "remove1 p (links t) = filter (\<lambda>p. \<not> ?old p) xs @ ys" using Cons.prems(3) by (auto simp: remove1_append)
      then show ?thesis
        using Cons.IH [of "splay_unlink_node t p" "xs @ [p]" n] past_order.splay_unlink_node_spec(1) [OF Cons.prems(1,2) p]
          Cons.prems(1) True by simp
    next
      case False
      then show ?thesis using Cons.IH [of t "xs @ [p]" "n + 1"] Cons.prems by (simp add: case_prod_beta)
    qed
  qed simp
  have inv: "compare (past_request_tree d) = past_request_compare" "splay_wf past_ok (past_request_tree d)"
    using assms by (simp_all add: request_inv_def splay_inv_def)
  from loop [OF inv, of "[]" "links (past_request_tree d)" 0] assms show ?thesis
    by (auto simp: age_past_requests_def request_inv_def splay_inv_def not_le filter_empty_conv case_prod_beta)
qed

section \<open>A daemon for the examples\<close>

text \<open>A daemon for the examples, with two connections and nothing known yet.\<close>

definition sample_connection :: "nat \<Rightarrow> string \<Rightarrow> connection" where
  "sample_connection i n = \<lparr>conn_id = i, conn_name = n, conn_node = Some n, conn_edge = Some (''a'', n), conn_address = AF_UNSPEC,
     conn_local_address = AF_UNSPEC, outgoing = True, allow_request = - 1, protocol_major = 17, protocol_minor = 7, conn_options = 0,
     estimated_weight = 10, quic_context = True, control = False, socket = - 1, tcplen = 0, pinged = False, last_ping_time = 0\<rparr>"

definition sample_daemon :: daemon where
  "sample_daemon = \<lparr>node_tree = splay_alloc_tree strcmp True, nodes = (\<lambda>_. new_node), edges = init_edges, subnets = init_subnets,
     mst_conns = (\<lambda>_. False), connection_list = [sample_connection 1 ''b'', sample_connection 2 ''c''], node_connection = (\<lambda>_. None),
     past_request_tree = init_requests, contradicting_add_edge = 0, contradicting_del_edge = 0, node_mtu = (\<lambda>_. int MTU),
     udp_info_sent = (\<lambda>_. 0), mtu_info_sent = (\<lambda>_. 0), outgoing_timeout = (\<lambda>_. 0), cache_resets = [], retries = [], outbox = [], scripts_run = [], rand_count = 0\<rparr>"

definition sample_denv :: daemon_env where
  "sample_denv = \<lparr>self = ''a'', tunnelserver = False, strictsubnets = False, clock = 1000, clock_usec = 0, udp_info_interval = 5, mtu_info_interval = 5, pinginterval = 60, device_standby = False,
     proxy_http = False, graph_fuel = 100, rand_value = (\<lambda>_. 1), getaddrinfo = (\<lambda>_ _. None), getnameinfo = (\<lambda>_. ([], [])),
     transport_accepts = (\<lambda>_ _. True)\<rparr>"

section \<open>Dispatch\<close>

text \<open>
  A request reaches a handler only when its number names one and the connection has been
  cleared for it: for all requests after the connection was activated, and before that only for the
  one that is expected next or, in place of an identification, an invitation. The number never leaves the table of handlers.
\<close>

theorem dispatch_guarded:
  assumes "dispatch c line = Some h"
  shows "0 \<le> atoi line \<and> nat (atoi line) < length request_handlers \<and> request_handlers ! nat (atoi line) = Some h \<and>
    (allow_request c = - 1 \<or> allow_request c = atoi line \<or> (allow_request c = 0 \<and> h = Invite_Join_H)) \<and>
    (allow_request c = 0 \<longrightarrow> h = Id_H \<or> h = Invite_Join_H)"
proof -
  have n: "0 \<le> atoi line" "atoi line < 27" "request_handlers ! nat (atoi line) = Some h"
    "allow_request c = - 1 \<or> allow_request c = atoi line \<or> (allow_request c = 0 \<and> atoi line = 23)"
    using assms by (auto simp: dispatch_def Let_def split: if_splits)
  moreover have "request_handlers ! 23 = Some Invite_Join_H" "request_handlers ! 0 = Some Id_H" "length request_handlers = 27"
    by (simp_all add: request_handlers_def)
  ultimately show ?thesis by auto
qed

theorem dispatch_guarded_witness:
  "dispatch ((sample_connection 1 ''b'')\<lparr>allow_request := 0\<rparr>) ''0 b'' = Some Id_H \<and>
   dispatch ((sample_connection 1 ''b'')\<lparr>allow_request := 0\<rparr>) ''8'' = None \<and> 0 \<le> atoi ''0 b''"
proof -
  have a: "atoi ''0 b'' = 0" "atoi ''8'' = 8"
    by (simp_all add: atoi_def scan_d_def scan_space_def isspace_def scan_digits_def isdigit_def digits_value_def digit_value_def strtol_value_def c_int_def c_int_diff_exact)
  have d: "dispatch ((sample_connection 1 ''b'')\<lparr>allow_request := 0\<rparr>) ''0 b'' = Some Id_H"
    "dispatch ((sample_connection 1 ''b'')\<lparr>allow_request := 0\<rparr>) ''8'' = None"
    by (simp_all add: dispatch_def a Let_def request_handlers_def)
  with dispatch_guarded [OF d(1)] show ?thesis by simp
qed

end
