(* ===== verification/Protocol_Subnet.thy ===== *)
theory Protocol_Subnet
  imports Daemon
begin

text \<open>
  The requests that announce and withdraw subnets (\<^verbatim>\<open>protocol_subnet.c\<close>): their text, and the two handlers
  with all their early returns. The owner of a subnet is named in the request; a key that is looked up before it has an
  owner compares equal to a subnet of the same network and weight.
\<close>

section \<open>Handlers\<close>

definition subnet_line :: "int \<Rightarrow> nat \<Rightarrow> string \<Rightarrow> string \<Rightarrow> string" where
  "subnet_line reqno r name netstr = print_d reqno @ '' '' @ print_x r @ '' '' @ name @ '' '' @ netstr"

definition send_add_subnet :: "daemon_env \<Rightarrow> connection \<Rightarrow> string \<Rightarrow> subnet \<Rightarrow> daemon \<Rightarrow> bool \<times> daemon" where
  "send_add_subnet env c own s d =
     (case next_rand env d of (r, d) \<Rightarrow> send_request env c (subnet_line ADD_SUBNET r own (net2str s)) d)"

definition send_del_subnet :: "daemon_env \<Rightarrow> connection \<Rightarrow> string \<Rightarrow> subnet \<Rightarrow> daemon \<Rightarrow> bool \<times> daemon" where
  "send_del_subnet env c own s d =
     (case next_rand env d of (r, d) \<Rightarrow> send_request env c (subnet_line DEL_SUBNET r own (net2str s)) d)"

definition subnet_update :: "string \<Rightarrow> subnet option \<Rightarrow> bool \<Rightarrow> daemon \<Rightarrow> daemon" where
  "subnet_update own s up d = d\<lparr>scripts_run := scripts_run d @ [(own, s, up)]\<rparr>"

definition subnet_format :: "scan_item list" where
  "subnet_format = [Skip_D, Match_Space, Skip_X, Match_Space, Scan_S 2048, Match_Space, Scan_S 2048]"

definition find_subnet :: "string \<Rightarrow> subnet \<Rightarrow> daemon \<Rightarrow> subnet option \<times> daemon" where
  "find_subnet own s d = (case lookup_subnet own s (subnets d) of (r, st) \<Rightarrow> (r, d\<lparr>subnets := st\<rparr>))"

text \<open>A MAC address that moved to another node is given up at once.\<close>

definition fast_handoff :: "daemon_env \<Rightarrow> string \<Rightarrow> subnet \<Rightarrow> daemon \<Rightarrow> daemon" where
  "fast_handoff env own s d =
     (case net s of
        SUBNET_MAC _ \<Rightarrow>
          if own = self env then d
          else (case find_subnet (self env) s d of
                  (Some old, d) \<Rightarrow> if expires old \<noteq> 0 then d\<lparr>subnets := set_expires old 1 (subnets d)\<rparr> else d
                | (None, d) \<Rightarrow> d)
      | _ \<Rightarrow> d)"

definition add_subnet_h :: "daemon_env \<Rightarrow> connection \<Rightarrow> string \<Rightarrow> daemon \<Rightarrow> outcome" where
  "add_subnet_h env c line d =
     (case fst (sscanf subnet_format line) of
        [V_String name, V_String subnetstr] \<Rightarrow>
          if \<not> check_id name then Returned False d
          else (case str2net subnetstr of
            Net_Bad \<Rightarrow> Returned False d
          | Net_Overrun \<Rightarrow> Overrun
          | Net_Ok s \<Rightarrow>
              (case seen_request env line d of (old, d) \<Rightarrow>
               if old then Returned True d
               else case lookup_node name d of (own, d) \<Rightarrow>
                 if tunnelserver env \<and> own \<noteq> Some (self env) \<and> own \<noteq> conn_node c then Returned True d
                 else
                   case find_subnet name s (if own = None then node_add name d else d) of (present, d) \<Rightarrow>
                   if present \<noteq> None then Returned True d
                   else if name = self env then Returned True (snd (send_del_subnet env c name s d))
                   else if tunnelserver env then Returned True d
                   else if strictsubnets env then Returned True (forward_request env c line d)
                   else
                     let d = d\<lparr>subnets := subnet_add (Some name) s (subnets d)\<rparr>;
                         d = (if reachable (nodes d name) then subnet_update name (Some s) True d else d);
                         d = forward_request env c line d
                     in Returned True (fast_handoff env name s d)))
      | _ \<Rightarrow> Returned False d)"

definition del_subnet_h :: "daemon_env \<Rightarrow> connection \<Rightarrow> string \<Rightarrow> daemon \<Rightarrow> outcome" where
  "del_subnet_h env c line d =
     (case fst (sscanf subnet_format line) of
        [V_String name, V_String subnetstr] \<Rightarrow>
          if \<not> check_id name then Returned False d
          else (case str2net subnetstr of
            Net_Bad \<Rightarrow> Returned False d
          | Net_Overrun \<Rightarrow> Overrun
          | Net_Ok s \<Rightarrow>
              (case seen_request env line d of (old, d) \<Rightarrow>
               if old then Returned True d
               else case lookup_node name d of (own, d) \<Rightarrow>
                 if tunnelserver env \<and> own \<noteq> Some (self env) \<and> own \<noteq> conn_node c then Returned True d
                 else if own = None then Returned True d
                 else
                   case find_subnet name (s\<lparr>owner := Some name\<rparr>) d of
                     (None, d) \<Rightarrow> Returned True (if strictsubnets env then forward_request env c line d else d)
                   | (Some present, d) \<Rightarrow>
                       if name = self env then Returned True (snd (send_add_subnet env c name present d))
                       else if tunnelserver env then Returned True d
                       else
                         let d = forward_request env c line d in
                         if strictsubnets env then Returned True d
                         else
                           let d = (if reachable (nodes d name) then subnet_update name (Some present) False d else d)
                           in Returned True (d\<lparr>subnets := subnet_del (Some name) present (subnets d)\<rparr>)))
      | _ \<Rightarrow> Returned False d)"

section \<open>Keys without an owner\<close>

definition node_key_ok :: "string \<Rightarrow> subnet \<Rightarrow> bool" where
  "node_key_ok n s \<longleftrightarrow> net_ok (net s) \<and> \<bar>weight s\<bar> < 2 ^ 30 \<and> (owner s = None \<or> owner s = Some n) \<and> c_string n"

lemma node_key_compare:
  assumes "node_key_ok n x" "node_key_ok n y"
  shows "subnet_compare x y = subnet_compare (x\<lparr>owner := None\<rparr>) (y\<lparr>owner := None\<rparr>)"
    "subnet_compare x y = 0 \<longleftrightarrow> net x = net y \<and> weight x = weight y"
proof -
  have w: "c_int_diff (weight x) (weight y) = weight x - weight y"
    using assms by (intro c_int_diff_exact) (auto simp: node_key_ok_def)
  show eq: "subnet_compare x y = subnet_compare (x\<lparr>owner := None\<rparr>) (y\<lparr>owner := None\<rparr>)"
    using assms
    by (cases "net x"; cases "net y")
       (auto simp: node_key_ok_def subnet_compare_def subnet_compare_mac_def subnet_compare_ip_def compare_weight_owner_def Let_def)
  have ok: "subnet_ok UNIV (x\<lparr>owner := None\<rparr>)" "subnet_ok UNIV (y\<lparr>owner := None\<rparr>)"
    using assms by (auto simp: node_key_ok_def subnet_ok_def)
  show "subnet_compare x y = 0 \<longleftrightarrow> net x = net y \<and> weight x = weight y"
    unfolding eq using subnet_compare_unfold [OF ok] assms net_compare_zero [of "net x" "net y"]
    by (auto simp: cmp_then_def node_key_ok_def)
qed

interpretation node_key_order: c_compare subnet_compare "node_key_ok n" for n
proof -
  have key: "c_compare (\<lambda>x y. subnet_compare (x\<lparr>owner := None\<rparr>) (y\<lparr>owner := None\<rparr>)) (node_key_ok n)"
    by (rule c_compare_field [OF subnet_order.c_compare_axioms [of UNIV]]) (auto simp: node_key_ok_def subnet_ok_def)
  note eq = node_key_compare(1)
  show "c_compare subnet_compare (node_key_ok n)"
  proof
    fix x y z assume x: "node_key_ok n x"
    show "subnet_compare x x = 0" using c_compare.cmp_refl [OF key x] eq [OF x x] by simp
    assume y: "node_key_ok n y"
    show "subnet_compare x y < 0 \<longleftrightarrow> 0 < subnet_compare y x" using c_compare.cmp_swap [OF key x y] eq [OF x y] eq [OF y x] by simp
    assume z: "node_key_ok n z"
    assume "subnet_compare x y \<le> 0" "subnet_compare y z \<le> 0"
    then show "subnet_compare x z \<le> 0"
      using c_compare.cmp_trans [OF key x y z] eq [OF x y] eq [OF y z] eq [OF x z] by simp
  qed
qed

lemma splay_inv_ok: "splay_inv cmp ok t \<Longrightarrow> list_all ok' (links t) \<Longrightarrow> splay_inv cmp ok' t"
  by (auto simp: splay_inv_def splay_wf_def)

text \<open>Looking up a subnet of a node by network and weight.\<close>

lemma lookup_subnet_key:
  assumes inv: "trees_inv B st" and key: "node_key_ok n s"
  shows "\<exists>r t. lookup_subnet n s st = (r, st\<lparr>node_subnets := (node_subnets st)(n := t)\<rparr>) \<and>
    links t = links (node_subnets st n) \<and> trees_inv B (st\<lparr>node_subnets := (node_subnets st)(n := t)\<rparr>) \<and>
    (case r of
       None \<Rightarrow> \<not> (\<exists>x \<in> set (links (subnet_tree st)). owner x = Some n \<and> net x = net s \<and> weight x = weight s)
     | Some x \<Rightarrow> x \<in> set (links (subnet_tree st)) \<and> owner x = Some n \<and> net x = net s \<and> weight x = weight s)"
proof -
  let ?t = "node_subnets st n"
  have T: "splay_inv subnet_compare (subnet_ok B) ?t"
    and elems: "set (links ?t) = {s \<in> set (links (subnet_tree st)). owner s = Some n}" using inv by (simp_all add: trees_inv_def)
  have keys: "list_all (node_key_ok n) (links ?t)"
    using subnet_order.splay.inv_elems [OF T] elems key by (auto simp: list_all_iff subnet_ok_def node_key_ok_def)
  with T have K: "splay_inv subnet_compare (node_key_ok n) ?t" by (rule splay_inv_ok)
  obtain t r where tr: "splay_search ?t s = (t, r)" by fastforce
  with node_key_order.splay.search_law [OF K key] have t: "splay_inv subnet_compare (node_key_ok n) t" "links t = links ?t"
    "r = ordered_lookup subnet_compare s (links ?t)" by simp_all
  have "list_all (subnet_ok B) (links t)" using subnet_order.splay.inv_elems [OF T] t(2) by simp
  with t(1) have tB: "splay_inv subnet_compare (subnet_ok B) t" by (rule splay_inv_ok)
  have zero: "subnet_compare s x = 0 \<longleftrightarrow> net x = net s \<and> weight x = weight s" if "x \<in> set (links ?t)" for x
    using node_key_compare(2) [OF key, of x] keys that by (auto simp: list_all_iff)
  have "case r of None \<Rightarrow> \<not> (\<exists>x \<in> set (links (subnet_tree st)). owner x = Some n \<and> net x = net s \<and> weight x = weight s)
     | Some x \<Rightarrow> x \<in> set (links (subnet_tree st)) \<and> owner x = Some n \<and> net x = net s \<and> weight x = weight s"
  proof (cases r)
    case None
    then have "\<not> (\<exists>x \<in> set (links ?t). net x = net s \<and> weight x = weight s)" using t(3) zero by (auto simp: ordered_lookup_def find_None_iff)
    then show ?thesis using None elems by auto
  next
    case (Some x)
    then have "x \<in> set (links ?t)" "subnet_compare s x = 0" using t(3) by (auto simp: ordered_lookup_def find_Some_iff)
    then show ?thesis using Some zero elems by auto
  qed
  moreover have "trees_inv B (st\<lparr>node_subnets := (node_subnets st)(n := t)\<rparr>)" using inv tB t(2) elems by (simp add: trees_inv_def)
  ultimately show ?thesis using tr t(2) by (auto simp: lookup_subnet_def)
qed

section \<open>Changing the time of expiry\<close>

lemma map_splay_inv:
  assumes "splay_inv cmp ok t" "\<And>x y. cmp (f x) (f y) = cmp x y" "\<And>x. ok x \<Longrightarrow> ok (f x)"
  shows "splay_inv cmp ok (map_splay f t)"
proof -
  have "sorted_wrt (\<lambda>x y. cmp x y < 0) (map f (links t))" using assms(1,2) by (auto simp: splay_inv_def splay_wf_def sorted_wrt_map)
  then show ?thesis using assms(1,3)
    by (auto simp: splay_inv_def splay_wf_def map_splay_def list_all_iff inorder_map)
qed

lemma subnet_compare_expires [simp]:
  "subnet_compare (if x = s then x\<lparr>expires := e\<rparr> else x) (if y = s then y\<lparr>expires := e\<rparr> else y) = subnet_compare x y"
  by (cases "net x"; cases "net y")
     (auto simp: subnet_compare_def subnet_compare_mac_def subnet_compare_ip_def compare_weight_owner_def Let_def)

lemma set_expires_trees_inv:
  assumes "trees_inv B st"
  shows "trees_inv B (set_expires s e st)"
proof -
  let ?f = "\<lambda>x. if x = s then x\<lparr>expires := e\<rparr> else x"
  have map: "splay_inv subnet_compare (subnet_ok B) t \<Longrightarrow> splay_inv subnet_compare (subnet_ok B) (map_splay ?f t)" for t
    by (rule map_splay_inv) (auto simp: subnet_ok_def)
  have own: "owner (?f x) = owner x" for x by simp
  have "set (links (map_splay ?f (node_subnets st n))) = {s \<in> set (links (map_splay ?f (subnet_tree st))). owner s = Some n}" for n
  proof -
    have "set (links (node_subnets st n)) = {s \<in> set (links (subnet_tree st)). owner s = Some n}" using assms by (simp add: trees_inv_def)
    then show ?thesis using own by (auto simp: map_splay_def image_iff)
  qed
  with assms map show ?thesis by (simp add: trees_inv_def set_expires_def Let_def)
qed

text \<open>A subnet of the given network and weight is in the table, with the given owner.\<close>

definition has_subnet :: "daemon \<Rightarrow> string \<Rightarrow> net \<Rightarrow> int \<Rightarrow> bool" where
  "has_subnet d own n w \<longleftrightarrow> (\<exists>x \<in> set (links (subnet_tree (subnets d))). owner x = Some own \<and> net x = n \<and> weight x = w)"

lemma bex_image_same: "(\<And>x. P (f x) \<longleftrightarrow> P x) \<Longrightarrow> (\<exists>y \<in> f ` A. P y) \<longleftrightarrow> (\<exists>x \<in> A. P x)"
  by blast

lemma has_subnet_expires: "has_subnet (d\<lparr>subnets := set_expires s e (subnets d)\<rparr>) own n w \<longleftrightarrow> has_subnet d own n w"
proof -
  have eq: "set (links (subnet_tree (set_expires s e (subnets d)))) =
      (\<lambda>x. if x = s then x\<lparr>expires := e\<rparr> else x) ` set (links (subnet_tree (subnets d)))"
    by (simp add: set_expires_def Let_def map_splay_def)
  have "has_subnet (d\<lparr>subnets := set_expires s e (subnets d)\<rparr>) own n w \<longleftrightarrow>
      (\<exists>x \<in> (\<lambda>x. if x = s then x\<lparr>expires := e\<rparr> else x) ` set (links (subnet_tree (subnets d))).
         owner x = Some own \<and> net x = n \<and> weight x = w)"
    unfolding has_subnet_def eq [symmetric] by simp
  also have "\<dots> \<longleftrightarrow> has_subnet d own n w" unfolding has_subnet_def by (rule bex_image_same) simp
  finally show ?thesis .
qed

lemma find_subnet_spec:
  assumes "trees_inv B (subnets d)" "node_key_ok own s"
  shows "\<exists>r st. find_subnet own s d = (r, d\<lparr>subnets := st\<rparr>) \<and> subnet_tree st = subnet_tree (subnets d) \<and> trees_inv B st \<and>
    (r \<noteq> None \<longleftrightarrow> has_subnet d own (net s) (weight s)) \<and>
    (\<forall>x. r = Some x \<longrightarrow> x \<in> set (links (subnet_tree (subnets d))) \<and> owner x = Some own \<and> net x = net s \<and> weight x = weight s)"
proof -
  obtain r t where "lookup_subnet own s (subnets d) = (r, (subnets d)\<lparr>node_subnets := (node_subnets (subnets d))(own := t)\<rparr>)"
    "trees_inv B ((subnets d)\<lparr>node_subnets := (node_subnets (subnets d))(own := t)\<rparr>)"
    "case r of None \<Rightarrow> \<not> has_subnet d own (net s) (weight s)
     | Some x \<Rightarrow> x \<in> set (links (subnet_tree (subnets d))) \<and> owner x = Some own \<and> net x = net s \<and> weight x = weight s"
    using lookup_subnet_key [OF assms] unfolding has_subnet_def by blast
  then show ?thesis by (cases r) (auto simp: find_subnet_def has_subnet_def)
qed

text \<open>What becomes of an entry of the table in a handoff: a learnt MAC address of the daemon itself expires at once, a configured one stays.\<close>

abbreviation table_of :: "daemon \<Rightarrow> subnet set" where "table_of d \<equiv> set (links (subnet_tree (subnets d)))"

definition handed :: "daemon_env \<Rightarrow> subnet \<Rightarrow> subnet \<Rightarrow> subnet" where
  "handed env s x =
     (if (\<exists>a. net s = SUBNET_MAC a) \<and> owner x = Some (self env) \<and> net x = net s \<and> weight x = weight s \<and> expires x \<noteq> 0
      then x\<lparr>expires := 1\<rparr> else x)"

lemma sorted_wrt_connex: "sorted_wrt R xs \<Longrightarrow> x \<in> set xs \<Longrightarrow> y \<in> set xs \<Longrightarrow> x \<noteq> y \<Longrightarrow> R x y \<or> R y x"
  by (induction xs) auto

lemma table_entry_unique:
  assumes "trees_inv B st" "x \<in> set (links (subnet_tree st))" "y \<in> set (links (subnet_tree st))" "owner x = owner y" "net x = net y" "weight x = weight y"
  shows "x = y"
proof (rule ccontr)
  assume "x \<noteq> y"
  have T: "splay_inv subnet_compare (subnet_ok B) (subnet_tree st)" using assms(1) by (simp add: trees_inv_def)
  have ok: "subnet_ok B z" if "z \<in> set (links (subnet_tree st))" for z using subnet_order.splay.inv_elems [OF T] that by (auto simp: list_all_iff)
  have sorted: "sorted_wrt (\<lambda>x y. subnet_compare x y < 0) (links (subnet_tree st))" using subnet_order.splay.inv_elems [OF T] by blast
  have "subnet_compare x y = 0" "subnet_compare y x = 0"
    using subnet_compare_zero [OF ok [OF assms(2)] ok [OF assms(3)]] subnet_compare_zero [OF ok [OF assms(3)] ok [OF assms(2)]] assms(4-6) by auto
  then show False using sorted_wrt_connex [OF sorted assms(2,3) \<open>x \<noteq> y\<close>] by simp
qed

lemma fast_handoff_spec:
  assumes "trees_inv B (subnets d)" "net_ok (net s)" "\<bar>weight s\<bar> < 2 ^ 30" "owner s = None" "c_string (self env)"
  shows "\<exists>st. fast_handoff env own s d = d\<lparr>subnets := st\<rparr> \<and> trees_inv B st \<and>
    (\<forall>o' n w. has_subnet (d\<lparr>subnets := st\<rparr>) o' n w \<longleftrightarrow> has_subnet d o' n w) \<and>
    (own \<noteq> self env \<longrightarrow> set (links (subnet_tree st)) = handed env s ` table_of d)"
proof -
  have same: "d = d\<lparr>subnets := subnets d\<rparr>" by simp
  have key: "node_key_ok (self env) s" using assms by (simp add: node_key_ok_def)
  obtain r st where f: "find_subnet (self env) s d = (r, d\<lparr>subnets := st\<rparr>)" "subnet_tree st = subnet_tree (subnets d)" "trees_inv B st"
    and r: "r \<noteq> None \<longleftrightarrow> has_subnet d (self env) (net s) (weight s)"
      "\<forall>x. r = Some x \<longrightarrow> x \<in> table_of d \<and> owner x = Some (self env) \<and> net x = net s \<and> weight x = weight s"
    using find_subnet_spec [OF assms(1) key] by blast
  have idle: "handed env s ` table_of d = table_of d"
    if "\<forall>x \<in> table_of d. owner x = Some (self env) \<and> net x = net s \<and> weight x = weight s \<longrightarrow> expires x = 0 \<or> \<not> (\<exists>a. net s = SUBNET_MAC a)"
  proof -
    have "handed env s x = x" if "x \<in> table_of d" for x using that \<open>\<forall>x \<in> table_of d. _\<close> by (auto simp: handed_def)
    then show ?thesis by simp
  qed
  have only: "x = y" if "r = Some x" "y \<in> table_of d" "owner y = Some (self env)" "net y = net s" "weight y = weight s" for x y
    using table_entry_unique [OF assms(1), of x y] r(2) that by auto
  have keep: "has_subnet (d\<lparr>subnets := st\<rparr>) o' n w \<longleftrightarrow> has_subnet d o' n w" for o' n w using f(2) by (simp add: has_subnet_def)
  have upd: "has_subnet (d\<lparr>subnets := set_expires x 1 st\<rparr>) o' n w \<longleftrightarrow> has_subnet d o' n w" for x o' n w
    using has_subnet_expires [where d = "d\<lparr>subnets := st\<rparr>" and s = x and e = 1 and own = o' and n = n and w = w] keep by simp
  have run: "fast_handoff env own s d = (if (\<exists>a. net s = SUBNET_MAC a) \<and> own \<noteq> self env then
      (case r of Some x \<Rightarrow> if expires x \<noteq> 0 then d\<lparr>subnets := set_expires x 1 st\<rparr> else d\<lparr>subnets := st\<rparr>
       | None \<Rightarrow> d\<lparr>subnets := st\<rparr>) else d)"
    by (cases "net s"; cases r) (simp_all add: fast_handoff_def f(1))
  consider (off) "\<not> ((\<exists>a. net s = SUBNET_MAC a) \<and> own \<noteq> self env)" | (none) "(\<exists>a. net s = SUBNET_MAC a) \<and> own \<noteq> self env" "r = None"
    | (static) x where "(\<exists>a. net s = SUBNET_MAC a) \<and> own \<noteq> self env" "r = Some x" "expires x = 0"
    | (learnt) x where "(\<exists>a. net s = SUBNET_MAC a) \<and> own \<noteq> self env" "r = Some x" "expires x \<noteq> 0" by (cases r) auto
  then show ?thesis
  proof cases
    case off
    then have "fast_handoff env own s d = d\<lparr>subnets := subnets d\<rparr>" using run unfolding if_not_P [OF off] by simp
    moreover have "handed env s ` table_of d = table_of d" if "own \<noteq> self env" using off that by (intro idle) auto
    ultimately show ?thesis using assms(1) by (intro exI [of _ "subnets d"]) (simp add: has_subnet_def)
  next
    case none
    then have "handed env s ` table_of d = table_of d" using r(1) by (intro idle) (auto simp: has_subnet_def)
    then show ?thesis using run none f(2,3) keep by (intro exI [of _ st]) simp
  next
    case (static x)
    then have "handed env s ` table_of d = table_of d" using only by (intro idle) auto
    then show ?thesis using run static f(2,3) keep by (intro exI [of _ st]) simp
  next
    case (learnt x)
    have x: "x \<in> table_of d" "owner x = Some (self env)" "net x = net s" "weight x = weight s" using r(2) learnt(2) by auto
    have "handed env s y = (if y = x then y\<lparr>expires := 1\<rparr> else y)" if "y \<in> table_of d" for y
    proof (cases "y = x")
      case True
      then show ?thesis using x learnt(1,3) by (simp add: handed_def)
    next
      case False
      then have "\<not> (owner y = Some (self env) \<and> net y = net s \<and> weight y = weight s)" using only [OF learnt(2) that] by blast
      then show ?thesis using False by (auto simp: handed_def)
    qed
    then have "set (links (subnet_tree (set_expires x 1 st))) = handed env s ` table_of d"
      using f(2) by (simp add: set_expires_def Let_def map_splay_def)
    moreover have "fast_handoff env own s d = d\<lparr>subnets := set_expires x 1 st\<rparr>" using run learnt by simp
    ultimately show ?thesis using set_expires_trees_inv [OF f(3)] upd by (intro exI [of _ "set_expires x 1 st"]) simp
  qed
qed

section \<open>Handling an announcement\<close>

lemma scan_space_word: "s \<noteq> [] \<Longrightarrow> \<not> isspace (hd s) \<Longrightarrow> scan_space (CHR '' '' # s) = s \<and> scan_space s = s"
proof -
  have "isspace (CHR '' '')" by (simp add: isspace_def)
  then show "s \<noteq> [] \<Longrightarrow> \<not> isspace (hd s) \<Longrightarrow> scan_space (CHR '' '' # s) = s \<and> scan_space s = s"
    by (cases s) (simp_all add: scan_space_def)
qed

definition text_word :: "string \<Rightarrow> bool" where
  "text_word s \<longleftrightarrow> s \<noteq> [] \<and> length s \<le> 2048 \<and> (\<forall>c \<in> set s. \<not> isspace c)"

lemma subnet_line_scan:
  assumes "c_int_ok q" "r < 2 ^ 32" "text_word name" "text_word netstr"
  shows "sscanf subnet_format (subnet_line q r name netstr) = ([V_String name, V_String netstr], Some [])"
proof -
  have sp: "\<not> isdigit (CHR '' '')" "\<not> isxdigit (CHR '' '')" "isspace (CHR '' '')" by (simp_all add: isdigit_def isxdigit_def isspace_def)
  have d: "scan_d (print_d q @ CHR '' '' # t) = Some (q, CHR '' '' # t)" for t
    by (rule scan_d_print) (use assms(1) sp in simp_all)
  have x: "scan_x 32 (print_x r @ CHR '' '' # t) = Some (r, CHR '' '' # t)" for t
    by (rule scan_x_print) (use assms(2) sp in simp_all)
  have n: "scan_s 2048 (name @ CHR '' '' # t) = Some (name, CHR '' '' # t)" for t
    by (rule scan_s_word) (use assms(3) sp in \<open>auto simp: text_word_def\<close>)
  have s: "scan_s 2048 netstr = Some (netstr, [])"
    using scan_s_word [of netstr 2048 "[]"] assms(4) by (simp add: text_word_def)
  have hd: "\<not> isspace (hd (print_x r))" "\<not> isspace (hd name)" "\<not> isspace (hd netstr)"
    using hd_digit(1) digit_not_space assms(3,4) by (auto simp: text_word_def)
  have gap: "scan_space (CHR '' '' # print_x r @ t) = print_x r @ t" "scan_space (CHR '' '' # name @ t) = name @ t"
    "scan_space (CHR '' '' # netstr) = netstr" for t
    using scan_space_word [of "print_x r @ t"] scan_space_word [of "name @ t"] scan_space_word [of netstr] hd assms(3,4)
    by (auto simp: text_word_def hd_append)
  show ?thesis by (simp add: subnet_format_def subnet_line_def d x n s gap)
qed

lemma net2str_chars:
  assumes "net_ok (net s)" "c \<in> set (net2str s)"
  shows "isxdigit c \<or> c \<in> set '':./#-''"
proof -
  have a: "addr_char c \<Longrightarrow> ?thesis" by (auto simp: addr_char_def)
  have d: "c \<in> set (print_d v) \<Longrightarrow> ?thesis" for v
    using dec_digits [of c] isdigit_isxdigit by (auto simp: print_d_def split: if_splits)
  show ?thesis using assms a d addr_char_print addr_char_ipv6
    by (cases "net s") (auto simp: net2str_def print_prefix_def split: if_splits)
qed

lemma net2str_word:
  assumes "net_ok (net s)" "c_int_ok (weight s)"
  shows "text_word (net2str s)" "c_string (net2str s)"
proof -
  have c: "\<not> isspace c \<and> c \<noteq> CHR 0x00" if "c \<in> set (net2str s)" for c
    using net2str_chars [OF assms(1) that] digit_not_space [of c] by (auto simp: isspace_def isxdigit_def isdigit_def)
  then show "c_string (net2str s)" by (auto simp: c_string_def)
  have "str2net [] = Net_Bad" by code_simp
  then have "net2str s \<noteq> []" using subnet_text_parse [OF assms] by auto
  then show "text_word (net2str s)" using c length_net2str [OF assms] by (auto simp: text_word_def)
qed

lemma subnet_line_c_string: "c_string name \<Longrightarrow> c_string netstr \<Longrightarrow> c_string (subnet_line q r name netstr)"
proof -
  have "CHR 0x00 \<notin> set (print_d q)" "CHR 0x00 \<notin> set (print_x r)"
    using dec_digits [of "CHR 0x00"] hex_digits [of "CHR 0x00" r] by (auto simp: print_d_def isdigit_def isxdigit_def split: if_splits)
  then show "c_string name \<Longrightarrow> c_string netstr \<Longrightarrow> c_string (subnet_line q r name netstr)"
    by (auto simp: c_string_def subnet_line_def)
qed

lemma check_id_word: "check_id name \<Longrightarrow> length name \<le> 2048 \<Longrightarrow> text_word name"
  using check_id_chars(1) by (auto simp: text_word_def check_id_def)

definition daemon_inv :: "(net \<times> int) set \<Rightarrow> daemon \<Rightarrow> bool" where
  "daemon_inv B d \<longleftrightarrow> request_inv d \<and> trees_inv B (subnets d)"

text \<open>The daemon has had the announcement before, or knows the subnet already.\<close>

definition informed :: "string \<Rightarrow> string \<Rightarrow> subnet \<Rightarrow> daemon \<Rightarrow> bool" where
  "informed line own s d \<longleftrightarrow> line \<in> seen d \<or> has_subnet d own (net s) (weight s)"

text \<open>What a well-formed announcement carries.\<close>

definition announcement :: "(net \<times> int) set \<Rightarrow> string \<Rightarrow> subnet \<Rightarrow> bool" where
  "announcement B own s \<longleftrightarrow> check_id own \<and> length own \<le> 2048 \<and> net_ok (net s) \<and> \<bar>weight s\<bar> < 2 ^ 30 \<and> (net s, weight s) \<notin> B"

lemma announcement_scan:
  assumes "announcement B own s" "r < 2 ^ 32"
  shows "c_int_ok q \<Longrightarrow> fst (sscanf subnet_format (subnet_line q r own (net2str s))) = [V_String own, V_String (net2str s)]"
    and "str2net (net2str s) = Net_Ok (new_subnet (weight s) (net s))" and "check_id own" and "c_string own"
    and "c_string (subnet_line q r own (net2str s))" and "node_key_ok own (new_subnet (weight s) (net s))"
    and "subnet_ok B ((new_subnet (weight s) (net s))\<lparr>owner := Some own\<rparr>)"
proof -
  have n: "net_ok (net s)" and w: "c_int_ok (weight s)" using assms(1) by (auto simp: announcement_def c_int_ok_def)
  show "str2net (net2str s) = Net_Ok (new_subnet (weight s) (net s))" using n w by (rule subnet_text_parse)
  show id: "check_id own" "c_string own" using assms(1) check_id_c_string by (auto simp: announcement_def)
  then show "c_string (subnet_line q r own (net2str s))" using net2str_word(2) [OF n w] by (intro subnet_line_c_string)
  show "node_key_ok own (new_subnet (weight s) (net s))" "subnet_ok B ((new_subnet (weight s) (net s))\<lparr>owner := Some own\<rparr>)"
    using assms(1) id(2) by (auto simp: announcement_def node_key_ok_def subnet_ok_def new_subnet_def)
  show "c_int_ok q \<Longrightarrow> fst (sscanf subnet_format (subnet_line q r own (net2str s))) = [V_String own, V_String (net2str s)]"
    using subnet_line_scan [OF _ assms(2) check_id_word net2str_word(1) [OF n w]] assms(1) by (simp add: announcement_def)
qed

lemma table_add:
  assumes "trees_inv B (subnets d)" "subnet_ok B (s\<lparr>owner := Some own\<rparr>)" "\<not> has_subnet d own (net s) (weight s)"
  shows "table_of (d\<lparr>subnets := subnet_add (Some own) s (subnets d)\<rparr>) = insert (s\<lparr>owner := Some own\<rparr>) (table_of d)"
proof -
  let ?s = "s\<lparr>owner := Some own\<rparr>"
  have T: "splay_inv subnet_compare (subnet_ok B) (subnet_tree (subnets d))" using assms(1) by (simp add: trees_inv_def)
  have "\<not> (\<exists>x \<in> table_of d. subnet_compare ?s x = 0)"
  proof
    assume "\<exists>x \<in> table_of d. subnet_compare ?s x = 0"
    then obtain x where x: "x \<in> table_of d" "subnet_compare ?s x = 0" by blast
    then have "subnet_ok B x" using subnet_order.splay.inv_elems [OF T] by (auto simp: list_all_iff)
    with x assms(2) have "net x = net s" "weight x = weight s" "owner x = Some own" using subnet_compare_zero [OF assms(2)] by auto
    with x(1) assms(3) show False by (auto simp: has_subnet_def)
  qed
  then show ?thesis using subnet_order.splay.ins_law [OF T assms(2)] by (simp add: subnet_add_def Let_def set_ordered_insert)
qed

lemma has_subnet_add:
  assumes "trees_inv B (subnets d)" "subnet_ok B (s\<lparr>owner := Some own\<rparr>)" "\<not> has_subnet d own (net s) (weight s)"
  shows "has_subnet (d\<lparr>subnets := subnet_add (Some own) s (subnets d)\<rparr>) o' n w \<longleftrightarrow>
    has_subnet d o' n w \<or> (o' = own \<and> n = net s \<and> w = weight s)"
  using table_add [OF assms] by (auto simp: has_subnet_def)

lemma frames [simp]:
  "has_subnet (d\<lparr>node_tree := t\<rparr>) = has_subnet d" "has_subnet (d\<lparr>past_request_tree := p\<rparr>) = has_subnet d"
  "has_subnet (d\<lparr>outbox := ms\<rparr>) = has_subnet d" "has_subnet (d\<lparr>scripts_run := sc\<rparr>) = has_subnet d"
  "has_subnet (node_add n d) = has_subnet d"
  "seen (d\<lparr>node_tree := t\<rparr>) = seen d" "seen (d\<lparr>subnets := st\<rparr>) = seen d" "seen (node_add n d) = seen d"
  "seen (d\<lparr>outbox := ms\<rparr>) = seen d" "seen (d\<lparr>scripts_run := sc\<rparr>) = seen d"
  "recipients c (d\<lparr>node_tree := t\<rparr>) = recipients c d" "recipients c (d\<lparr>past_request_tree := p\<rparr>) = recipients c d"
  "recipients c (d\<lparr>subnets := st\<rparr>) = recipients c d" "recipients c (d\<lparr>scripts_run := sc\<rparr>) = recipients c d"
  "recipients c (node_add n d) = recipients c d"
  "request_inv (d\<lparr>subnets := st\<rparr>) = request_inv d" "request_inv (d\<lparr>outbox := ms\<rparr>) = request_inv d"
  "request_inv (d\<lparr>scripts_run := sc\<rparr>) = request_inv d"
  by (simp_all add: has_subnet_def [abs_def] seen_def recipients_def request_inv_def node_add_def)

text \<open>The part of the two handlers up to the search for the subnet.\<close>

lemma lookup_node_frame:
  assumes "daemon_inv B d" "c_string own"
  obtains t where "lookup_node own d = (if own \<in> known d then Some own else None, d\<lparr>node_tree := t\<rparr>)"
    "daemon_inv B (d\<lparr>node_tree := t\<rparr>)" "known (d\<lparr>node_tree := t\<rparr>) = known d"
  using lookup_node_spec [of d own] assms by (auto simp: daemon_inv_def request_inv_def known_def)

lemma seen_request_frame:
  assumes "daemon_inv B d" "c_string line"
  obtains t where "seen_request env line d = (line \<in> seen d, d\<lparr>past_request_tree := t\<rparr>)"
    "daemon_inv B (d\<lparr>past_request_tree := t\<rparr>)" "seen (d\<lparr>past_request_tree := t\<rparr>) = insert line (seen d)"
  using seen_request_spec [of d line env] assms by (auto simp: daemon_inv_def seen_def)

lemma node_add_frame: "daemon_inv B d \<Longrightarrow> c_string own \<Longrightarrow> daemon_inv B (node_add own d)"
  using node_add_spec(1) [of d own] by (simp add: daemon_inv_def node_add_def)

section \<open>Handling an announcement\<close>

text \<open>Steps of a handler that send nothing and leave the table as it is, up to the shape of the trees.\<close>

definition quiet :: "daemon \<Rightarrow> daemon \<Rightarrow> bool" where
  "quiet d d' \<longleftrightarrow> has_subnet d' = has_subnet d \<and> subnet_tree (subnets d') = subnet_tree (subnets d) \<and> outbox d' = outbox d \<and> connection_list d' = connection_list d \<and> scripts_run d' = scripts_run d"

lemma quiet_recipients: "quiet d d' \<Longrightarrow> recipients c d' = recipients c d"
  by (simp add: quiet_def recipients_def)

lemma quiet_trans: "quiet d d1 \<Longrightarrow> quiet d1 d2 \<Longrightarrow> quiet d d2"
  by (simp add: quiet_def)

lemma quiet_steps [simp]:
  "quiet d (d\<lparr>past_request_tree := p\<rparr>)" "quiet d (d\<lparr>node_tree := t\<rparr>)" "quiet d (node_add n d)" "quiet d d"
  by (simp_all add: quiet_def) (simp_all add: node_add_def)

lemma find_subnet_found:
  assumes "daemon_inv B d" "node_key_ok own s"
  obtains r st where "find_subnet own s d = (r, d\<lparr>subnets := st\<rparr>)" "daemon_inv B (d\<lparr>subnets := st\<rparr>)"
    "has_subnet (d\<lparr>subnets := st\<rparr>) = has_subnet d" "r = None \<longleftrightarrow> \<not> has_subnet d own (net s) (weight s)"
    "subnet_tree st = subnet_tree (subnets d)"
    "\<And>x. r = Some x \<Longrightarrow> x \<in> set (links (subnet_tree st)) \<and> owner x = Some own \<and> net x = net s \<and> weight x = weight s"
proof -
  have "trees_inv B (subnets d)" using assms(1) by (simp add: daemon_inv_def)
  from find_subnet_spec [OF this assms(2)] obtain r st where f: "find_subnet own s d = (r, d\<lparr>subnets := st\<rparr>)"
    "subnet_tree st = subnet_tree (subnets d)" "trees_inv B st" "r \<noteq> None \<longleftrightarrow> has_subnet d own (net s) (weight s)"
    "\<forall>x. r = Some x \<longrightarrow> x \<in> set (links (subnet_tree (subnets d))) \<and> owner x = Some own \<and> net x = net s \<and> weight x = weight s" by blast
  have "has_subnet (d\<lparr>subnets := st\<rparr>) = has_subnet d" using f(2) by (simp add: has_subnet_def [abs_def])
  moreover have "daemon_inv B (d\<lparr>subnets := st\<rparr>)" using f(3) assms(1) by (simp add: daemon_inv_def)
  ultimately show thesis using f by (intro that [of r st]) auto
qed

text \<open>Both handlers begin with the requests seen before and the owner.\<close>

lemma subnet_request_start:
  assumes "daemon_inv B d" "c_string line" "c_string own"
  obtains d1 d2 where "seen_request env line d = (line \<in> seen d, d1)" "daemon_inv B d1" "quiet d d1" "seen d1 = insert line (seen d)"
    "lookup_node own d1 = (if own \<in> known d then Some own else None, d2)" "daemon_inv B d2" "quiet d d2" "seen d2 = insert line (seen d)"
    "known d2 = known d"
proof -
  obtain t1 where d1: "seen_request env line d = (line \<in> seen d, d\<lparr>past_request_tree := t1\<rparr>)"
    "daemon_inv B (d\<lparr>past_request_tree := t1\<rparr>)" "seen (d\<lparr>past_request_tree := t1\<rparr>) = insert line (seen d)"
    using seen_request_frame [OF assms(1,2)] by blast
  have k: "known (d\<lparr>past_request_tree := t1\<rparr>) = known d" by (simp add: known_def)
  obtain t2 where d2: "lookup_node own (d\<lparr>past_request_tree := t1\<rparr>) =
      (if own \<in> known d then Some own else None, (d\<lparr>past_request_tree := t1\<rparr>)\<lparr>node_tree := t2\<rparr>)"
    "daemon_inv B ((d\<lparr>past_request_tree := t1\<rparr>)\<lparr>node_tree := t2\<rparr>)"
    "known ((d\<lparr>past_request_tree := t1\<rparr>)\<lparr>node_tree := t2\<rparr>) = known d"
    using lookup_node_frame [OF d1(2) assms(3)] unfolding k by blast
  show thesis
    by (rule that [OF d1(1,2) _ d1(3) d2(1,2) _ _ d2(3)]) (use d1(3) in \<open>simp_all add: quiet_def\<close>)
qed

text \<open>The end of an announcement that is news: the subnet is added, the others are told, a MAC address is given up.\<close>

definition announce :: "daemon_env \<Rightarrow> connection \<Rightarrow> string \<Rightarrow> string \<Rightarrow> subnet \<Rightarrow> daemon \<Rightarrow> daemon" where
  "announce env c line own s d =
     (let d = d\<lparr>subnets := subnet_add (Some own) s (subnets d)\<rparr>;
          d = (if reachable (nodes d own) then subnet_update own (Some s) True d else d)
      in fast_handoff env own s (forward_request env c line d))"

lemma announce_effect:
  assumes inv: "daemon_inv B d" and ok: "subnet_ok B (s\<lparr>owner := Some own\<rparr>)" "node_key_ok own s" "owner s = None"
    and absent: "\<not> has_subnet d own (net s) (weight s)" and me: "c_string (self env)"
  shows "daemon_inv B (announce env c line own s d)" "connection_list (announce env c line own s d) = connection_list d"
    "seen (announce env c line own s d) = seen d"
    "outbox (announce env c line own s d) = outbox d @ map (\<lambda>c. (conn_id c, line)) (recipients (Some c) d)"
    "has_subnet (announce env c line own s d) o' n w \<longleftrightarrow> has_subnet d o' n w \<or> (o' = own \<and> n = net s \<and> w = weight s)"
    "own \<noteq> self env \<Longrightarrow> table_of (announce env c line own s d) = handed env s ` insert (s\<lparr>owner := Some own\<rparr>) (table_of d)"
proof -
  let ?d1 = "d\<lparr>subnets := subnet_add (Some own) s (subnets d)\<rparr>"
  define d2 where "d2 = forward_request env c line (if reachable (nodes ?d1 own) then subnet_update own (Some s) True ?d1 else ?d1)"
  have inv1: "trees_inv B (subnets ?d1)" using trees_inv_add [OF _ ok(1)] inv by (simp add: daemon_inv_def)
  have two: "subnets d2 = subnets ?d1" "seen d2 = seen d" "connection_list d2 = connection_list d" "request_inv d2 = request_inv d"
    "outbox d2 = outbox d @ map (\<lambda>c. (conn_id c, line)) (recipients (Some c) d)" "has_subnet d2 = has_subnet ?d1"
    by (simp_all add: d2_def forward_request_outbox subnet_update_def)
  obtain st where hand: "fast_handoff env own s d2 = d2\<lparr>subnets := st\<rparr>" "trees_inv B st"
    "\<forall>o' n w. has_subnet (d2\<lparr>subnets := st\<rparr>) o' n w \<longleftrightarrow> has_subnet d2 o' n w"
    "own \<noteq> self env \<longrightarrow> set (links (subnet_tree st)) = handed env s ` table_of d2"
    using fast_handoff_spec [where d = d2 and s = s and env = env and own = own and B = B] two(1) inv1 ok(2,3) me
    by (auto simp: node_key_ok_def)
  have whole: "announce env c line own s d = d2\<lparr>subnets := st\<rparr>" using hand(1) by (simp add: announce_def d2_def Let_def)
  show "daemon_inv B (announce env c line own s d)" using hand(2) two(4) inv by (simp add: whole daemon_inv_def)
  show "connection_list (announce env c line own s d) = connection_list d" "seen (announce env c line own s d) = seen d"
    "outbox (announce env c line own s d) = outbox d @ map (\<lambda>c. (conn_id c, line)) (recipients (Some c) d)"
    using two by (simp_all add: whole)
  show "has_subnet (announce env c line own s d) o' n w \<longleftrightarrow> has_subnet d o' n w \<or> (o' = own \<and> n = net s \<and> w = weight s)"
    using hand(3) two(6) has_subnet_add [OF _ ok(1) absent] inv by (simp add: whole daemon_inv_def)
  have "table_of ?d1 = insert (s\<lparr>owner := Some own\<rparr>) (table_of d)" using table_add [OF _ ok(1) absent] inv by (simp add: daemon_inv_def)
  then show "own \<noteq> self env \<Longrightarrow> table_of (announce env c line own s d) = handed env s ` insert (s\<lparr>owner := Some own\<rparr>) (table_of d)"
    using hand(4) two(1) by (simp add: whole)
qed

text \<open>A request about subnets that has been read, whatever its text.\<close>

definition read_request :: "(net \<times> int) set \<Rightarrow> string \<Rightarrow> string \<Rightarrow> subnet \<Rightarrow> bool" where
  "read_request B line own s \<longleftrightarrow> (\<exists>str. fst (sscanf subnet_format line) = [V_String own, V_String str] \<and> str2net str = Net_Ok s) \<and>
     check_id own \<and> c_string line \<and> owner s = None \<and> net_ok (net s) \<and> \<bar>weight s\<bar> < 2 ^ 30 \<and> (net s, weight s) \<notin> B"

lemma read_requestD:
  assumes "read_request B line own s"
  obtains str where "fst (sscanf subnet_format line) = [V_String own, V_String str]" "str2net str = Net_Ok s" "check_id own" "c_string own" "c_string line"
    "node_key_ok own s" "subnet_ok B (s\<lparr>owner := Some own\<rparr>)" "owner s = None"
  using assms check_id_c_string by (auto simp: read_request_def node_key_ok_def subnet_ok_def)

lemma announcement_read:
  assumes "announcement B own s" "r < 2 ^ 32" "c_int_ok q"
  shows "read_request B (subnet_line q r own (net2str s)) own (new_subnet (weight s) (net s))"
proof -
  note scan = announcement_scan [OF assms(1,2)]
  have "owner (new_subnet (weight s) (net s)) = None" "net (new_subnet (weight s) (net s)) = net s" "weight (new_subnet (weight s) (net s)) = weight s"
    by (simp_all add: new_subnet_def)
  then show ?thesis using scan(1) [OF assms(3)] scan(2,3,5) assms(1) by (auto simp: read_request_def announcement_def)
qed

text \<open>
  All ways through the handler of an announcement: the state after the tests (\<open>d1\<close>: seen before, \<open>d2\<close>: owner looked up,
  \<open>d4\<close>: subnet looked up), and what is done from there.
\<close>

lemma add_subnet_h_ways:
  assumes inv: "daemon_inv B d" and req: "read_request B line own s"
  obtains d1 d2 d4 where "daemon_inv B d1" "quiet d d1" "seen d1 = insert line (seen d)"
    "daemon_inv B d2" "quiet d d2" "seen d2 = insert line (seen d)" "daemon_inv B d4" "quiet d d4" "seen d4 = insert line (seen d)"
    "add_subnet_h env c line d = Returned True
       (if line \<in> seen d then d1
        else if tunnelserver env \<and> \<not> (own = self env \<and> own \<in> known d) \<and> (if own \<in> known d then Some own else None) \<noteq> conn_node c then d2
        else if has_subnet d own (net s) (weight s) then d4
        else if own = self env then snd (send_del_subnet env c own s d4)
        else if tunnelserver env then d4
        else if strictsubnets env then forward_request env c line d4
        else announce env c line own s d4)"
proof -
  obtain str where scan: "fst (sscanf subnet_format line) = [V_String own, V_String str]" "str2net str = Net_Ok s" "check_id own" "c_string own" "c_string line"
    "node_key_ok own s" "subnet_ok B (s\<lparr>owner := Some own\<rparr>)" "owner s = None" by (rule read_requestD [OF req]) (rule that)
  obtain d1 d2 where d1: "seen_request env line d = (line \<in> seen d, d1)" "daemon_inv B d1" "quiet d d1" "seen d1 = insert line (seen d)"
    and d2: "lookup_node own d1 = (if own \<in> known d then Some own else None, d2)" "daemon_inv B d2" "quiet d d2" "seen d2 = insert line (seen d)"
      "known d2 = known d"
    by (rule subnet_request_start [OF inv scan(5,4), where env = env]) (rule that)
  define d3 where "d3 = (if own \<in> known d then d2 else node_add own d2)"
  have d3: "daemon_inv B d3" "quiet d d3" "seen d3 = insert line (seen d)"
    using d2 node_add_frame [OF d2(2) scan(4)] quiet_trans [OF d2(3) quiet_steps(3)] by (simp_all add: d3_def)
  obtain p st where f: "find_subnet own s d3 = (p, d3\<lparr>subnets := st\<rparr>)" "daemon_inv B (d3\<lparr>subnets := st\<rparr>)"
    "has_subnet (d3\<lparr>subnets := st\<rparr>) = has_subnet d3" "p = None \<longleftrightarrow> \<not> has_subnet d3 own (net s) (weight s)"
    "subnet_tree st = subnet_tree (subnets d3)"
    by (rule find_subnet_found [OF d3(1) scan(6)]) (rule that)
  let ?d4 = "d3\<lparr>subnets := st\<rparr>"
  have d4: "quiet d ?d4" "seen ?d4 = insert line (seen d)" "p = None \<longleftrightarrow> \<not> has_subnet d own (net s) (weight s)"
    using d3 f(3-5) by (simp_all add: quiet_def)
  show thesis
  proof (rule that [OF d1(2-4) d2(2-4) f(2) d4(1,2)], goal_cases)
    case 1
    show ?case using d1(1) d2(1) f(1) d4(3) scan(3)
      unfolding add_subnet_h_def scan(1) d3_def announce_def Let_def
      by (cases "own = self env"; cases "own \<in> known d"; cases p) (simp_all add: scan(2))
  qed
qed

lemma add_subnet_h_effect:
  assumes inv: "daemon_inv B d" and ann: "announcement B own s" "r < 2 ^ 32" and me: "c_string (self env)" "own \<noteq> self env"
    and mode: "\<not> tunnelserver env" "\<not> strictsubnets env" and line: "line = subnet_line ADD_SUBNET r own (net2str s)"
  obtains d' where "add_subnet_h env c line d = Returned True d'" "daemon_inv B d'" "connection_list d' = connection_list d"
    "seen d' = insert line (seen d)"
    "outbox d' = outbox d @ (if informed line own s d then [] else map (\<lambda>c. (conn_id c, line)) (recipients (Some c) d))"
    "\<And>o' n w. has_subnet d' o' n w \<longleftrightarrow> has_subnet d o' n w \<or> (\<not> informed line own s d \<and> o' = own \<and> n = net s \<and> w = weight s)"
proof -
  let ?s = "new_subnet (weight s) (net s)"
  note scan = announcement_scan [OF ann]
  have s: "net ?s = net s" "weight ?s = weight s" "owner ?s = None" by (simp_all add: new_subnet_def)
  have req: "read_request B line own ?s" unfolding line by (rule announcement_read [OF ann]) (simp add: c_int_ok_def)
  obtain d1 d2 d4 where ways: "daemon_inv B d1" "quiet d d1" "seen d1 = insert line (seen d)"
    "daemon_inv B d2" "quiet d d2" "seen d2 = insert line (seen d)" "daemon_inv B d4" "quiet d d4" "seen d4 = insert line (seen d)"
    "add_subnet_h env c line d = Returned True
       (if line \<in> seen d then d1
        else if tunnelserver env \<and> \<not> (own = self env \<and> own \<in> known d) \<and> (if own \<in> known d then Some own else None) \<noteq> conn_node c then d2
        else if has_subnet d own (net s) (weight s) then d4
        else if own = self env then snd (send_del_subnet env c own ?s d4)
        else if tunnelserver env then d4
        else if strictsubnets env then forward_request env c line d4
        else announce env c line own ?s d4)"
    by (rule add_subnet_h_ways [OF inv req, unfolded s]) (rule that)
  consider "line \<in> seen d" | "line \<notin> seen d" "has_subnet d own (net s) (weight s)" | "line \<notin> seen d" "\<not> has_subnet d own (net s) (weight s)" by blast
  then show thesis
  proof cases
    case 1
    then show thesis using ways by (intro that [of d1]) (simp_all add: quiet_def informed_def)
  next
    case 2
    then show thesis using ways mode by (intro that [of d4]) (simp_all add: quiet_def informed_def)
  next
    case 3
    then have absent: "\<not> has_subnet d4 own (net ?s) (weight ?s)" using ways(8) s by (simp add: quiet_def)
    note new = announce_effect [OF ways(7) scan(7,6) s(3) absent me(1), where c = c and line = line]
    show thesis
      by (rule that [of "announce env c line own ?s d4"])
         (use ways 3 new mode me s quiet_recipients [OF ways(8)] in \<open>simp_all add: quiet_def informed_def\<close>)
  qed
qed

section \<open>Handling a withdrawal\<close>

lemma has_subnet_del:
  assumes "trees_inv B (subnets d)" "x \<in> set (links (subnet_tree (subnets d)))" "owner x = Some own"
  shows "trees_inv B (subnet_del (Some own) x (subnets d))"
    "has_subnet (d\<lparr>subnets := subnet_del (Some own) x (subnets d)\<rparr>) o' n w \<longleftrightarrow>
       has_subnet d o' n w \<and> \<not> (o' = own \<and> n = net x \<and> w = weight x)"
proof -
  have T: "splay_inv subnet_compare (subnet_ok B) (subnet_tree (subnets d))" using assms(1) by (simp add: trees_inv_def)
  have ok: "\<And>y. y \<in> set (links (subnet_tree (subnets d))) \<Longrightarrow> subnet_ok B y"
    using subnet_order.splay.inv_elems [OF T] by (auto simp: list_all_iff)
  show "trees_inv B (subnet_del (Some own) x (subnets d))" using assms(1) ok [OF assms(2)] assms(3) by (rule trees_inv_del)
  have "set (links (subnet_tree (subnet_del (Some own) x (subnets d)))) =
      {y \<in> set (links (subnet_tree (subnets d))). subnet_compare x y \<noteq> 0}"
    using subnet_order.splay.del_law [OF T ok [OF assms(2)]] by (simp add: subnet_del_def Let_def set_ordered_delete)
  then show "has_subnet (d\<lparr>subnets := subnet_del (Some own) x (subnets d)\<rparr>) o' n w \<longleftrightarrow>
       has_subnet d o' n w \<and> \<not> (o' = own \<and> n = net x \<and> w = weight x)"
    using subnet_compare_zero [OF ok [OF assms(2)]] ok assms(3) by (auto simp: has_subnet_def)
qed

lemma del_subnet_h_ways:
  assumes inv: "daemon_inv B d" and req: "read_request B line own s"
  obtains d1 d2 d4 x where "daemon_inv B d1" "quiet d d1" "seen d1 = insert line (seen d)"
    "daemon_inv B d2" "quiet d d2" "seen d2 = insert line (seen d)" "daemon_inv B d4" "quiet d d4" "seen d4 = insert line (seen d)"
    "has_subnet d own (net s) (weight s) \<Longrightarrow>
       x \<in> set (links (subnet_tree (subnets d4))) \<and> owner x = Some own \<and> net x = net s \<and> weight x = weight s"
    "del_subnet_h env c line d = Returned True
       (if line \<in> seen d then d1
        else if tunnelserver env \<and> \<not> (own = self env \<and> own \<in> known d) \<and> (if own \<in> known d then Some own else None) \<noteq> conn_node c then d2
        else if own \<notin> known d then d2
        else if \<not> has_subnet d own (net s) (weight s) then (if strictsubnets env then forward_request env c line d4 else d4)
        else if own = self env then snd (send_add_subnet env c own x d4)
        else if tunnelserver env then d4
        else
          let d = forward_request env c line d4 in
          if strictsubnets env then d
          else let d = (if reachable (nodes d own) then subnet_update own (Some x) False d else d)
               in d\<lparr>subnets := subnet_del (Some own) x (subnets d)\<rparr>)"
proof -
  let ?s = "s\<lparr>owner := Some own\<rparr>"
  obtain str where scan: "fst (sscanf subnet_format line) = [V_String own, V_String str]" "str2net str = Net_Ok s" "check_id own" "c_string own" "c_string line"
    "node_key_ok own s" "subnet_ok B (s\<lparr>owner := Some own\<rparr>)" "owner s = None" by (rule read_requestD [OF req]) (rule that)
  have s: "net ?s = net s" "weight ?s = weight s" "node_key_ok own ?s" using scan(6) by (simp_all add: node_key_ok_def)
  obtain d1 d2 where d1: "seen_request env line d = (line \<in> seen d, d1)" "daemon_inv B d1" "quiet d d1" "seen d1 = insert line (seen d)"
    and d2: "lookup_node own d1 = (if own \<in> known d then Some own else None, d2)" "daemon_inv B d2" "quiet d d2" "seen d2 = insert line (seen d)"
      "known d2 = known d"
    by (rule subnet_request_start [OF inv scan(5,4), where env = env]) (rule that)
  obtain p st where f: "find_subnet own ?s d2 = (p, d2\<lparr>subnets := st\<rparr>)" "daemon_inv B (d2\<lparr>subnets := st\<rparr>)"
    "has_subnet (d2\<lparr>subnets := st\<rparr>) = has_subnet d2" "p = None \<longleftrightarrow> \<not> has_subnet d2 own (net ?s) (weight ?s)"
    "subnet_tree st = subnet_tree (subnets d2)"
    and x: "\<And>x. p = Some x \<Longrightarrow> x \<in> set (links (subnet_tree st)) \<and> owner x = Some own \<and> net x = net ?s \<and> weight x = weight ?s"
    by (rule find_subnet_found [OF d2(2) s(3)]) (rule that)
  let ?d4 = "d2\<lparr>subnets := st\<rparr>"
  have d4: "quiet d ?d4" "seen ?d4 = insert line (seen d)" "p = None \<longleftrightarrow> \<not> has_subnet d own (net s) (weight s)"
    using d2 f(3-5) s by (simp_all add: quiet_def)
  show thesis
  proof (rule that [OF d1(2-4) d2(2-4) f(2) d4(1,2), where x = "the p"], goal_cases)
    case 1
    then show ?case using x [of "the p"] d4(3) s by (cases p) auto
  next
    case 2
    show ?case using d1(1) d2(1) f(1) d4(3) scan(3)
      unfolding del_subnet_h_def scan(1) Let_def
      by (cases "own = self env"; cases "own \<in> known d"; cases p) (simp_all add: scan(2))
  qed
qed

text \<open>The end of a withdrawal.\<close>

lemma withdraw_effect:
  assumes inv: "daemon_inv B d" and x: "x \<in> set (links (subnet_tree (subnets d)))" "owner x = Some own"
    and w: "d' = (if up then subnet_update own (Some x) False (forward_request env c line d) else forward_request env c line d)
      \<lparr>subnets := subnet_del (Some own) x (subnets d)\<rparr>"
  shows "daemon_inv B d'" "connection_list d' = connection_list d" "seen d' = seen d"
    "outbox d' = outbox d @ map (\<lambda>c. (conn_id c, line)) (recipients (Some c) d)"
    "has_subnet d' o' n v \<longleftrightarrow> has_subnet d o' n v \<and> \<not> (o' = own \<and> n = net x \<and> v = weight x)"
proof -
  have tr: "trees_inv B (subnets d)" using inv by (simp add: daemon_inv_def)
  note del = has_subnet_del [OF tr x]
  show "daemon_inv B d'" using inv del(1) by (simp add: daemon_inv_def w forward_request_outbox subnet_update_def)
  show "connection_list d' = connection_list d" "seen d' = seen d" "outbox d' = outbox d @ map (\<lambda>c. (conn_id c, line)) (recipients (Some c) d)"
    by (simp_all add: w forward_request_outbox subnet_update_def)
  have "has_subnet d' = has_subnet (d\<lparr>subnets := subnet_del (Some own) x (subnets d)\<rparr>)" by (simp add: w has_subnet_def [abs_def])
  then show "has_subnet d' o' n v \<longleftrightarrow> has_subnet d o' n v \<and> \<not> (o' = own \<and> n = net x \<and> v = weight x)" using del(2) by simp
qed

lemma del_subnet_h_effect:
  assumes inv: "daemon_inv B d" and ann: "announcement B own s" "r < 2 ^ 32" and me: "own \<noteq> self env"
    and mode: "\<not> tunnelserver env" "\<not> strictsubnets env" and line: "line = subnet_line DEL_SUBNET r own (net2str s)"
    and news: "news \<longleftrightarrow> line \<notin> seen d \<and> own \<in> known d \<and> has_subnet d own (net s) (weight s)"
  obtains d' where "del_subnet_h env c line d = Returned True d'" "daemon_inv B d'" "connection_list d' = connection_list d"
    "seen d' = insert line (seen d)"
    "outbox d' = outbox d @ (if news then map (\<lambda>c. (conn_id c, line)) (recipients (Some c) d) else [])"
    "\<And>o' n w. has_subnet d' o' n w \<longleftrightarrow> has_subnet d o' n w \<and> \<not> (news \<and> o' = own \<and> n = net s \<and> w = weight s)"
proof -
  have new: "net (new_subnet (weight s) (net s)) = net s" "weight (new_subnet (weight s) (net s)) = weight s" by (simp_all add: new_subnet_def)
  have req: "read_request B line own (new_subnet (weight s) (net s))" unfolding line by (rule announcement_read [OF ann]) (simp add: c_int_ok_def)
  obtain d1 d2 d4 x where ways: "daemon_inv B d1" "quiet d d1" "seen d1 = insert line (seen d)"
    "daemon_inv B d2" "quiet d d2" "seen d2 = insert line (seen d)" "daemon_inv B d4" "quiet d d4" "seen d4 = insert line (seen d)"
    and x: "has_subnet d own (net s) (weight s) \<Longrightarrow>
       x \<in> set (links (subnet_tree (subnets d4))) \<and> owner x = Some own \<and> net x = net s \<and> weight x = weight s"
    and run: "del_subnet_h env c line d = Returned True
       (if line \<in> seen d then d1
        else if tunnelserver env \<and> \<not> (own = self env \<and> own \<in> known d) \<and> (if own \<in> known d then Some own else None) \<noteq> conn_node c then d2
        else if own \<notin> known d then d2
        else if \<not> has_subnet d own (net s) (weight s) then (if strictsubnets env then forward_request env c line d4 else d4)
        else if own = self env then snd (send_add_subnet env c own x d4)
        else if tunnelserver env then d4
        else
          let d = forward_request env c line d4 in
          if strictsubnets env then d
          else let d = (if reachable (nodes d own) then subnet_update own (Some x) False d else d)
               in d\<lparr>subnets := subnet_del (Some own) x (subnets d)\<rparr>)"
    by (rule del_subnet_h_ways [OF inv req, unfolded new]) (rule that)
  show thesis
  proof (cases news)
    case True
    define up where "up = reachable (nodes (forward_request env c line d4) own)"
    define d5 where "d5 = (if up then subnet_update own (Some x) False (forward_request env c line d4) else forward_request env c line d4)
      \<lparr>subnets := subnet_del (Some own) x (subnets d4)\<rparr>"
    have there: "x \<in> set (links (subnet_tree (subnets d4)))" "owner x = Some own" "net x = net s" "weight x = weight s"
      using x True news by auto
    note gone = withdraw_effect [OF ways(7) there(1,2) d5_def]
    have "del_subnet_h env c line d = Returned True d5"
      using run True news mode me by (simp add: d5_def up_def Let_def forward_request_outbox subnet_update_def)
    then show thesis
      by (intro that [of d5]) (use gone ways(8,9) True there quiet_recipients [OF ways(8)] in \<open>simp_all add: quiet_def\<close>)
  next
    case False
    have "\<exists>d' \<in> {d1, d2, d4}. del_subnet_h env c line d = Returned True d'"
      using run False news mode by auto
    then obtain d' where "d' \<in> {d1, d2, d4}" "del_subnet_h env c line d = Returned True d'" by blast
    then show thesis using False ways by (intro that [of d']) (auto simp: quiet_def)
  qed
qed

section \<open>The requests between daemons\<close>

text \<open>A subnet for the examples.\<close>

definition sample_subnet :: subnet where
  "sample_subnet = new_subnet 10 (SUBNET_IPV4 [10, 1, 0, 0] 16)"

lemma sample_ok:
  "daemon_inv {} sample_daemon" "announcement {} ''d'' sample_subnet" "announcement {} ''a'' sample_subnet"
  "\<not> has_subnet sample_daemon n net' w" "known sample_daemon = {}" "seen sample_daemon = {}" "c_string (self sample_denv)"
proof -
  show "daemon_inv {} sample_daemon"
    by (simp add: daemon_inv_def request_inv_def sample_daemon_def init_requests_def splay_inv_alloc trees_inv_init)
  have "subnet_tree init_subnets = splay_alloc_tree subnet_compare True" by (simp add: init_subnets_def)
  then show "\<not> has_subnet sample_daemon n net' w" by (simp add: has_subnet_def sample_daemon_def splay_alloc_tree_def)
  show "known sample_daemon = {}" "seen sample_daemon = {}"
    by (simp_all add: known_def seen_def sample_daemon_def init_requests_def splay_alloc_tree_def)
  show "announcement {} ''d'' sample_subnet" "announcement {} ''a'' sample_subnet"
    by (simp_all add: announcement_def sample_subnet_def new_subnet_def check_id_def isalnum_def isdigit_def)
  show "c_string (self sample_denv)" by (simp add: sample_denv_def c_string_def)
qed

text \<open>
  Property C24. Outside the tunnel server and strict subnets modes, an announcement of a subnet of another node, as \<^verbatim>\<open>send_add_subnet\<close> writes it, is
  accepted; if the daemon had neither seen it nor known the subnet, the subnet is in the table afterwards and
  the request went unchanged to every other active connection; otherwise nothing was sent and the table is as before.
  The invariants of all trees are kept.
\<close>

theorem announcement_handled:
  assumes "daemon_inv B d" "announcement B own s" "r < 2 ^ 32" "c_string (self env)" "own \<noteq> self env"
    and "\<not> tunnelserver env" "\<not> strictsubnets env" and line: "line = subnet_line ADD_SUBNET r own (net2str s)"
  shows "\<exists>d'. add_subnet_h env c line d = Returned True d' \<and> daemon_inv B d' \<and> seen d' = insert line (seen d) \<and>
    outbox d' = outbox d @ (if informed line own s d then [] else map (\<lambda>c. (conn_id c, line)) (recipients (Some c) d)) \<and>
    (\<forall>o' n w. has_subnet d' o' n w \<longleftrightarrow> has_subnet d o' n w \<or> (\<not> informed line own s d \<and> o' = own \<and> n = net s \<and> w = weight s))"
  by (rule add_subnet_h_effect [OF assms]) blast

theorem announcement_handled_witness:
  "\<exists>d'. add_subnet_h sample_denv (sample_connection 1 ''b'') (subnet_line ADD_SUBNET 5 ''d'' (net2str sample_subnet)) sample_daemon = Returned True d' \<and>
     has_subnet d' ''d'' (SUBNET_IPV4 [10, 1, 0, 0] 16) 10 \<and> map fst (outbox d') = [2]"
proof -
  have env: "self sample_denv = ''a''" "\<not> tunnelserver sample_denv" "\<not> strictsubnets sample_denv" by (simp_all add: sample_denv_def)
  have news: "\<not> informed line ''d'' sample_subnet sample_daemon" for line using sample_ok by (simp add: informed_def)
  have out: "recipients (Some (sample_connection 1 ''b'')) sample_daemon = [sample_connection 2 ''c'']" "outbox sample_daemon = []"
    by (simp_all add: recipients_def sample_daemon_def sample_connection_def)
  have s: "net sample_subnet = SUBNET_IPV4 [10, 1, 0, 0] 16" "weight sample_subnet = 10" by (simp_all add: sample_subnet_def new_subnet_def)
  from announcement_handled [OF sample_ok(1,2) _ sample_ok(7) _ env(2,3) refl, of 5 "sample_connection 1 ''b''"] env(1) news out s
  show ?thesis by (fastforce simp: sample_connection_def)
qed

text \<open>
  Property C25. Outside the tunnel server and strict subnets modes, a withdrawal of a subnet of another node that the daemon knows takes exactly that subnet
  out of the table and is passed on to every other active connection, once; any other withdrawal changes nothing and is not passed on.
\<close>

theorem withdrawal_handled:
  assumes "daemon_inv B d" "announcement B own s" "r < 2 ^ 32" "own \<noteq> self env"
    and "\<not> tunnelserver env" "\<not> strictsubnets env" and line: "line = subnet_line DEL_SUBNET r own (net2str s)"
    and news: "news \<longleftrightarrow> line \<notin> seen d \<and> own \<in> known d \<and> has_subnet d own (net s) (weight s)"
  shows "\<exists>d'. del_subnet_h env c line d = Returned True d' \<and> daemon_inv B d' \<and> seen d' = insert line (seen d) \<and>
    outbox d' = outbox d @ (if news then map (\<lambda>c. (conn_id c, line)) (recipients (Some c) d) else []) \<and>
    (\<forall>o' n w. has_subnet d' o' n w \<longleftrightarrow> has_subnet d o' n w \<and> \<not> (news \<and> o' = own \<and> n = net s \<and> w = weight s))"
  by (rule del_subnet_h_effect [OF assms]) blast

theorem withdrawal_handled_witness:
  "\<exists>d'. del_subnet_h sample_denv (sample_connection 1 ''b'') (subnet_line DEL_SUBNET 5 ''d'' (net2str sample_subnet))
       ((node_add ''d'' sample_daemon)\<lparr>subnets := subnet_add (Some ''d'') sample_subnet (subnets sample_daemon)\<rparr>) = Returned True d' \<and>
     map fst (outbox d') = [2] \<and> \<not> has_subnet d' ''d'' (net sample_subnet) (weight sample_subnet)"
proof -
  let ?n = "node_add ''d'' sample_daemon" and ?s = "sample_subnet\<lparr>owner := Some ''d''\<rparr>"
  let ?d = "?n\<lparr>subnets := subnet_add (Some ''d'') sample_subnet (subnets sample_daemon)\<rparr>"
  have env: "self sample_denv = ''a''" "\<not> tunnelserver sample_denv" "\<not> strictsubnets sample_denv" by (simp_all add: sample_denv_def)
  have c: "c_string ''d''" by (simp add: c_string_def)
  note add = node_add_frame [OF sample_ok(1) c]
  have n: "outbox ?n = []" "connection_list ?n = connection_list sample_daemon" "seen ?n = {}" "subnets ?n = subnets sample_daemon"
    using sample_ok(6) by (simp_all add: node_add_def sample_daemon_def seen_def)
  have tr: "trees_inv {} (subnets sample_daemon)" using sample_ok(1) by (simp add: daemon_inv_def)
  have ok: "subnet_ok {} ?s" by (simp add: subnet_ok_def sample_subnet_def new_subnet_def c_string_def)
  have "daemon_inv {} ?d" using add(1) trees_inv_add [OF tr ok] by (simp add: daemon_inv_def)
  moreover have "subnet_line DEL_SUBNET 5 ''d'' (net2str sample_subnet) \<notin> seen ?d \<and> ''d'' \<in> known ?d \<and> has_subnet ?d ''d'' (net sample_subnet) (weight sample_subnet)"
  proof (intro conjI)
    have "table_of (sample_daemon\<lparr>subnets := subnet_add (Some ''d'') sample_subnet (subnets sample_daemon)\<rparr>) = insert ?s (table_of sample_daemon)"
      by (rule table_add [OF tr ok sample_ok(4)])
    then show "has_subnet ?d ''d'' (net sample_subnet) (weight sample_subnet)" by (simp add: has_subnet_def)
    show "subnet_line DEL_SUBNET 5 ''d'' (net2str sample_subnet) \<notin> seen ?d" using n(3) by (simp add: seen_def)
    show "''d'' \<in> known ?d" using node_add_spec(2) [OF _ c, of sample_daemon] sample_ok(1) by (simp add: known_def daemon_inv_def)
  qed
  ultimately obtain d' where "del_subnet_h sample_denv (sample_connection 1 ''b'') (subnet_line DEL_SUBNET 5 ''d'' (net2str sample_subnet)) ?d = Returned True d'"
    "outbox d' = map (\<lambda>c. (conn_id c, subnet_line DEL_SUBNET 5 ''d'' (net2str sample_subnet))) (recipients (Some (sample_connection 1 ''b'')) ?d)"
    "\<not> has_subnet d' ''d'' (net sample_subnet) (weight sample_subnet)"
    using withdrawal_handled [OF _ sample_ok(2) _ _ env(2,3) refl refl, of ?d 5 "sample_connection 1 ''b''"] env(1) n(1) by auto
  moreover have "recipients (Some (sample_connection 1 ''b'')) ?d = [sample_connection 2 ''c'']" using n(2) by (simp add: recipients_def sample_daemon_def sample_connection_def)
  ultimately show ?thesis by (intro exI [of _ d']) (simp add: sample_connection_def)
qed

lemma send_subnet_frame [simp]:
  "has_subnet (snd (send_del_subnet env c own s d)) = has_subnet d" "has_subnet (snd (send_add_subnet env c own s d)) = has_subnet d"
  by (simp_all add: send_del_subnet_def send_add_subnet_def next_rand_def send_request_def send_meta_def has_subnet_def [abs_def])

lemma has_subnet_forward: "has_subnet (forward_request env c line d) = has_subnet d"
  by (simp add: forward_request_outbox has_subnet_def [abs_def])

lemma table_frame [simp]:
  "table_of (snd (send_del_subnet env c own s d)) = table_of d" "table_of (snd (send_add_subnet env c own s d)) = table_of d"
  "table_of (forward_request env c line d) = table_of d"
  by (simp_all add: send_del_subnet_def send_add_subnet_def next_rand_def send_request_def send_meta_def forward_request_outbox)

text \<open>The table after an announcement, in any mode and whatever its text.\<close>

lemma add_subnet_h_table:
  assumes inv: "daemon_inv B d" and req: "read_request B line own s" and me: "c_string (self env)"
    and news: "news \<longleftrightarrow> line \<notin> seen d \<and> own \<noteq> self env \<and> \<not> tunnelserver env \<and> \<not> strictsubnets env \<and> \<not> has_subnet d own (net s) (weight s)"
  obtains d' where "add_subnet_h env c line d = Returned True d'"
    "table_of d' = (if news then handed env s ` insert (s\<lparr>owner := Some own\<rparr>) (table_of d) else table_of d)"
proof -
  obtain str where scan: "fst (sscanf subnet_format line) = [V_String own, V_String str]" "str2net str = Net_Ok s" "check_id own" "c_string own" "c_string line"
    "node_key_ok own s" "subnet_ok B (s\<lparr>owner := Some own\<rparr>)" "owner s = None" by (rule read_requestD [OF req]) (rule that)
  obtain d1 d2 d4 where ways: "quiet d d1" "quiet d d2" "daemon_inv B d4" "quiet d d4" and run: "add_subnet_h env c line d = Returned True
       (if line \<in> seen d then d1
        else if tunnelserver env \<and> \<not> (own = self env \<and> own \<in> known d) \<and> (if own \<in> known d then Some own else None) \<noteq> conn_node c then d2
        else if has_subnet d own (net s) (weight s) then d4
        else if own = self env then snd (send_del_subnet env c own s d4)
        else if tunnelserver env then d4
        else if strictsubnets env then forward_request env c line d4
        else announce env c line own s d4)"
    by (rule add_subnet_h_ways [OF inv req]) (rule that)
  have same: "table_of d1 = table_of d" "table_of d2 = table_of d" "table_of d4 = table_of d" "has_subnet d4 = has_subnet d" using ways by (simp_all add: quiet_def)
  show thesis
  proof (cases news)
    case True
    then have absent: "\<not> has_subnet d4 own (net s) (weight s)" using news same(4) by simp
    have "add_subnet_h env c line d = Returned True (announce env c line own s d4)" using run True news by simp
    then show thesis
      by (rule that) (use announce_effect(6) [OF ways(3) scan(7,6,8) absent me] True news same(3) in simp)
  next
    case False
    show thesis by (rule that [OF run]) (use False news same in \<open>auto\<close>)
  qed
qed

lemma table_del:
  assumes "trees_inv B (subnets d)" "x \<in> table_of d" "owner x = Some own"
  shows "table_of (d\<lparr>subnets := subnet_del (Some own) x (subnets d)\<rparr>) = {y \<in> table_of d. \<not> (owner y = Some own \<and> net y = net x \<and> weight y = weight x)}"
proof -
  have T: "splay_inv subnet_compare (subnet_ok B) (subnet_tree (subnets d))" using assms(1) by (simp add: trees_inv_def)
  have ok: "\<And>y. y \<in> table_of d \<Longrightarrow> subnet_ok B y" using subnet_order.splay.inv_elems [OF T] by (auto simp: list_all_iff)
  have "table_of (d\<lparr>subnets := subnet_del (Some own) x (subnets d)\<rparr>) = {y \<in> table_of d. subnet_compare x y \<noteq> 0}"
    using subnet_order.splay.del_law [OF T ok [OF assms(2)]] by (simp add: subnet_del_def Let_def set_ordered_delete)
  then show ?thesis using subnet_compare_zero [OF ok [OF assms(2)] ok] assms(3) by auto
qed

lemma del_subnet_h_table:
  assumes inv: "daemon_inv B d" and req: "read_request B line own s"
    and gone: "gone \<longleftrightarrow> line \<notin> seen d \<and> own \<in> known d \<and> own \<noteq> self env \<and> \<not> tunnelserver env \<and> \<not> strictsubnets env"
  obtains d' where "del_subnet_h env c line d = Returned True d'"
    "table_of d' = (if gone then {x \<in> table_of d. \<not> (owner x = Some own \<and> net x = net s \<and> weight x = weight s)} else table_of d)"
proof -
  obtain d1 d2 d4 x where ways: "quiet d d1" "quiet d d2" "daemon_inv B d4" "quiet d d4"
    and x: "has_subnet d own (net s) (weight s) \<Longrightarrow> x \<in> table_of d4 \<and> owner x = Some own \<and> net x = net s \<and> weight x = weight s"
    and run: "del_subnet_h env c line d = Returned True
       (if line \<in> seen d then d1
        else if tunnelserver env \<and> \<not> (own = self env \<and> own \<in> known d) \<and> (if own \<in> known d then Some own else None) \<noteq> conn_node c then d2
        else if own \<notin> known d then d2
        else if \<not> has_subnet d own (net s) (weight s) then (if strictsubnets env then forward_request env c line d4 else d4)
        else if own = self env then snd (send_add_subnet env c own x d4)
        else if tunnelserver env then d4
        else
          let d = forward_request env c line d4 in
          if strictsubnets env then d
          else let d = (if reachable (nodes d own) then subnet_update own (Some x) False d else d)
               in d\<lparr>subnets := subnet_del (Some own) x (subnets d)\<rparr>)"
    by (rule del_subnet_h_ways [OF inv req]) (rule that)
  have same: "table_of d1 = table_of d" "table_of d2 = table_of d" "table_of d4 = table_of d" "has_subnet d4 = has_subnet d" using ways by (simp_all add: quiet_def)
  show thesis
  proof (cases "gone \<and> has_subnet d own (net s) (weight s)")
    case True
    note there = x [OF conjunct2 [OF True]]
    define d5 where "d5 = (let d = forward_request env c line d4; d = (if reachable (nodes d own) then subnet_update own (Some x) False d else d)
       in d\<lparr>subnets := subnet_del (Some own) x (subnets d)\<rparr>)"
    have "del_subnet_h env c line d = Returned True d5" using run True gone by (simp add: d5_def Let_def)
    moreover have "subnets d5 = subnet_del (Some own) x (subnets d4)" by (simp add: d5_def Let_def forward_request_outbox subnet_update_def)
    moreover have "trees_inv B (subnets d4)" using ways(3) by (simp add: daemon_inv_def)
    ultimately show thesis
      by (intro that [of d5]) (use table_del [of B d4 x own] there True same(3) in simp_all)
  next
    case False
    have none: "{x \<in> table_of d. \<not> (owner x = Some own \<and> net x = net s \<and> weight x = weight s)} = table_of d" if "\<not> has_subnet d own (net s) (weight s)"
      using that by (auto simp: has_subnet_def)
    show thesis by (rule that [OF run]) (use False gone same none in \<open>auto simp: Let_def\<close>)
  qed
qed

definition own_subnets :: "daemon_env \<Rightarrow> daemon \<Rightarrow> subnet set" where
  "own_subnets env d = {x \<in> table_of d. owner x = Some (self env)}"

text \<open>
  Property C26. Whatever the mode of the daemon and whatever the text of a request, as long as it can be read as a well-formed subnet, no withdrawal changes the
  daemon's own entries of the table, and an announcement changes them only in one case: a new announcement that another node has the
  same MAC address lets the daemon's own entry expire at once if that entry had been learnt, that is, had a time of expiry; entries without one, which are
  configured, stay as they are. In the tunnel server mode and with strict subnets the table does not change at all. A request that
  cannot be read changes nothing.
\<close>

theorem own_subnets_defended:
  assumes "daemon_inv B d" "read_request B line own s" "c_string (self env)"
    and news: "news \<longleftrightarrow> line \<notin> seen d \<and> own \<noteq> self env \<and> \<not> tunnelserver env \<and> \<not> strictsubnets env \<and> \<not> has_subnet d own (net s) (weight s)"
  shows "\<exists>d1 d2. add_subnet_h env c line d = Returned True d1 \<and> del_subnet_h env c line d = Returned True d2 \<and>
    own_subnets env d1 = (if news then handed env s ` own_subnets env d else own_subnets env d) \<and> {x \<in> own_subnets env d. expires x = 0} \<subseteq> own_subnets env d1 \<and> own_subnets env d2 = own_subnets env d \<and>
    (tunnelserver env \<or> strictsubnets env \<longrightarrow> table_of d1 = table_of d \<and> table_of d2 = table_of d) \<and>
    (\<forall>line'. (\<forall>own' str. fst (sscanf subnet_format line') = [V_String own', V_String str] \<longrightarrow> \<not> check_id own' \<or> str2net str = Net_Bad) \<longrightarrow>
       add_subnet_h env c line' d = Returned False d \<and> del_subnet_h env c line' d = Returned False d)"
proof -
  obtain d1 where 1: "add_subnet_h env c line d = Returned True d1"
    "table_of d1 = (if news then handed env s ` insert (s\<lparr>owner := Some own\<rparr>) (table_of d) else table_of d)"
    by (rule add_subnet_h_table [OF assms(1-3) news]) (rule that)
  define gone where "gone \<longleftrightarrow> line \<notin> seen d \<and> own \<in> known d \<and> own \<noteq> self env \<and> \<not> tunnelserver env \<and> \<not> strictsubnets env"
  obtain d2 where 2: "del_subnet_h env c line d = Returned True d2"
    "table_of d2 = (if gone then {x \<in> table_of d. \<not> (owner x = Some own \<and> net x = net s \<and> weight x = weight s)} else table_of d)"
    by (rule del_subnet_h_table [OF assms(1,2) gone_def]) (rule that)
  have own: "owner (handed env s x) = owner x" for x by (simp add: handed_def)
  have m1: "own_subnets env d1 = (if news then handed env s ` own_subnets env d else own_subnets env d)"
  proof (cases news)
    case True
    then have "own \<noteq> self env" using news by simp
    then have "own_subnets env d1 = {x \<in> handed env s ` table_of d. owner x = Some (self env)}" using True 1(2) own by (auto simp: own_subnets_def)
    also have "\<dots> = handed env s ` own_subnets env d" using own by (auto simp: own_subnets_def)
    finally show ?thesis using True by simp
  qed (use 1(2) in \<open>simp add: own_subnets_def\<close>)
  have static: "{x \<in> own_subnets env d. expires x = 0} \<subseteq> own_subnets env d1"
  proof
    fix x assume "x \<in> {x \<in> own_subnets env d. expires x = 0}"
    then have "x \<in> own_subnets env d" "handed env s x = x" by (auto simp: handed_def)
    then show "x \<in> own_subnets env d1" unfolding m1 by (metis image_eqI)
  qed
  have m2: "own_subnets env d2 = own_subnets env d"
  proof (cases gone)
    case True
    then have ne: "own \<noteq> self env" by (simp add: gone_def)
    have t: "table_of d2 = {x \<in> table_of d. \<not> (owner x = Some own \<and> net x = net s \<and> weight x = weight s)}" using True 2(2) by simp
    show ?thesis unfolding own_subnets_def t using ne by (intro Collect_cong) auto
  qed (use 2(2) in \<open>simp add: own_subnets_def\<close>)
  have bad: "add_subnet_h env c line' d = Returned False d" "del_subnet_h env c line' d = Returned False d"
    if "\<forall>own' str. fst (sscanf subnet_format line') = [V_String own', V_String str] \<longrightarrow> \<not> check_id own' \<or> str2net str = Net_Bad" for line'
    using that by (simp_all add: add_subnet_h_def del_subnet_h_def split: list.split scan_value.split)
  have off: "table_of d1 = table_of d \<and> table_of d2 = table_of d" if "tunnelserver env \<or> strictsubnets env"
  proof -
    have "\<not> news" "\<not> gone" using that by (auto simp: news gone_def)
    then show ?thesis using 1(2) 2(2) by simp
  qed
  show ?thesis by (intro exI [of _ d1] exI [of _ d2] conjI allI impI 1(1) 2(1) m1 static m2) (use off bad in blast)+
qed

definition roaming :: "int \<Rightarrow> subnet" where
  "roaming e = \<lparr>owner = Some ''a'', expires = e, weight = 10, net = SUBNET_MAC [2, 0, 0, 0, 0, 1]\<rparr>"

theorem own_subnets_defended_witness:
  "\<exists>d1. add_subnet_h sample_denv (sample_connection 1 ''b'') (subnet_line ADD_SUBNET 5 ''d'' (net2str (roaming 0)))
       (sample_daemon\<lparr>subnets := subnet_add (Some ''a'') (roaming 900) (subnets sample_daemon)\<rparr>) = Returned True d1 \<and>
     own_subnets sample_denv d1 = {roaming 1}"
proof -
  let ?d = "sample_daemon\<lparr>subnets := subnet_add (Some ''a'') (roaming 900) (subnets sample_daemon)\<rparr>" and ?s = "new_subnet 10 (SUBNET_MAC [2, 0, 0, 0, 0, 1])"
  have ann: "announcement {} ''d'' (roaming 0)" by (simp add: announcement_def roaming_def check_id_def isalnum_def isdigit_def)
  have s: "net (roaming 0) = SUBNET_MAC [2, 0, 0, 0, 0, 1]" "weight (roaming 0) = 10" "roaming e\<lparr>owner := Some ''a''\<rparr> = roaming e" for e by (simp_all add: roaming_def)
  have req: "read_request {} (subnet_line ADD_SUBNET 5 ''d'' (net2str (roaming 0))) ''d'' ?s"
    using announcement_read [OF ann, of 5 ADD_SUBNET] unfolding s by (simp add: c_int_ok_def)
  have ok: "subnet_ok {} (roaming 900\<lparr>owner := Some ''a''\<rparr>)" by (simp add: subnet_ok_def roaming_def c_string_def)
  have tr: "trees_inv {} (subnets sample_daemon)" using sample_ok(1) by (simp add: daemon_inv_def)
  have inv: "daemon_inv {} ?d" using sample_ok(1) trees_inv_add [OF tr ok] by (simp add: daemon_inv_def)
  have "table_of sample_daemon = {}" using sample_ok(4) by (simp add: sample_daemon_def init_subnets_def splay_alloc_tree_def)
  then have table: "table_of ?d = {roaming 900}" using table_add [OF tr ok sample_ok(4)] s(3) by simp
  have env: "self sample_denv = ''a''" "\<not> tunnelserver sample_denv" "\<not> strictsubnets sample_denv" by (simp_all add: sample_denv_def)
  have mine: "own_subnets sample_denv ?d = {roaming 900}" unfolding own_subnets_def table env(1) by (auto simp: roaming_def)
  have fresh: "\<not> has_subnet ?d ''d'' (net ?s) (weight ?s)" unfolding has_subnet_def table by (simp add: roaming_def)
  have news: "subnet_line ADD_SUBNET 5 ''d'' (net2str (roaming 0)) \<notin> seen ?d \<and> ''d'' \<noteq> self sample_denv \<and> \<not> tunnelserver sample_denv \<and>
      \<not> strictsubnets sample_denv \<and> \<not> has_subnet ?d ''d'' (net ?s) (weight ?s)"
    using env sample_ok(6) fresh by (intro conjI) simp_all
  have "handed sample_denv ?s (roaming 900) = roaming 1" using env(1) by (simp add: handed_def roaming_def new_subnet_def)
  then show ?thesis
    using own_subnets_defended [OF inv req sample_ok(7) refl, of "sample_connection 1 ''b''", unfolded if_P [OF news] mine] by auto
qed

end
