(* ===== verification/Flooding.thy ===== *)
theory Flooding
  imports Protocol_Subnet
begin

text \<open>
  A mesh of daemons that pass a request on to all their other connections: the interface between one daemon and the
  mesh as a locale, and what follows from it in every order of delivery. A message in flight is a triple of sender,
  receiver and request. The interface is interpreted on the handler of subnet announcements, with the
  dispatch of requests in front of it.
\<close>

section \<open>Runs of a mesh\<close>

type_synonym ('v, 'm, 's) mesh_config = "('v \<Rightarrow> 's) \<times> ('v \<times> 'v \<times> 'm) list"

inductive flood_step ::
  "('v \<Rightarrow> 'v \<Rightarrow> 'm \<Rightarrow> 's \<Rightarrow> 's \<times> 'v list) \<Rightarrow> ('v, 'm, 's) mesh_config \<Rightarrow> ('v, 'm, 's) mesh_config \<Rightarrow> bool" for receive where
  deliver: "receive v u m (\<sigma> v) = (s, ws) \<Longrightarrow>
    flood_step receive (\<sigma>, xs @ (u, v, m) # ys) (\<sigma>(v := s), xs @ ys @ map (\<lambda>w. (v, w, m)) ws)"

inductive_cases flood_stepE: "flood_step receive (\<sigma>, ms) y"

lemma flood_step_possible: "(\<exists>y. flood_step receive (\<sigma>, ms) y) \<longleftrightarrow> ms \<noteq> []"
proof
  assume "ms \<noteq> []"
  then obtain u v m ys where ms: "ms = [] @ (u, v, m) # ys" by (cases ms) auto
  obtain s ws where "receive v u m (\<sigma> v) = (s, ws)" by fastforce
  then show "\<exists>y. flood_step receive (\<sigma>, ms) y" unfolding ms by (blast intro: flood_step.deliver)
qed (auto elim: flood_stepE)

section \<open>Flooding\<close>

locale flooding =
  fixes receive :: "'v \<Rightarrow> 'v \<Rightarrow> 'm \<Rightarrow> 's \<Rightarrow> 's \<times> 'v list"
    and good :: "'v \<Rightarrow> 's \<Rightarrow> bool" and informed_of :: "'s \<Rightarrow> bool" and peers :: "'s \<Rightarrow> 'v list" and requests :: "'m set"
  assumes receive_good: "\<lbrakk>good v s; u \<in> set (peers s); m \<in> requests\<rbrakk> \<Longrightarrow> good v (fst (receive v u m s))"
    and receive_peers: "\<lbrakk>good v s; u \<in> set (peers s); m \<in> requests\<rbrakk> \<Longrightarrow> peers (fst (receive v u m s)) = peers s"
    and receive_informed: "\<lbrakk>good v s; u \<in> set (peers s); m \<in> requests\<rbrakk> \<Longrightarrow> informed_of (fst (receive v u m s))"
    and receive_passes: "\<lbrakk>good v s; u \<in> set (peers s); m \<in> requests\<rbrakk> \<Longrightarrow>
      snd (receive v u m s) = (if informed_of s then [] else filter (\<lambda>w. w \<noteq> u) (peers s))"
begin

text \<open>Who is linked to whom; the links do not change during a run.\<close>

definition mesh_ok :: "'v set \<Rightarrow> ('v \<Rightarrow> 's) \<Rightarrow> bool" where
  "mesh_ok V \<sigma> \<longleftrightarrow> finite V \<and> (\<forall>v \<in> V. good v (\<sigma> v) \<and> set (peers (\<sigma> v)) \<subseteq> V) \<and>
     (\<forall>v \<in> V. \<forall>u \<in> V. u \<in> set (peers (\<sigma> v)) \<longleftrightarrow> v \<in> set (peers (\<sigma> u)))"

lemma mesh_link:
  assumes "mesh_ok V \<sigma>" "u \<in> V" "v \<in> set (peers (\<sigma> u))"
  shows "v \<in> V" "good v (\<sigma> v)" "u \<in> set (peers (\<sigma> v))"
proof -
  show "v \<in> V" using assms by (auto simp: mesh_ok_def)
  then show "good v (\<sigma> v)" "u \<in> set (peers (\<sigma> v))" using assms by (auto simp: mesh_ok_def)
qed

text \<open>
  The invariant of a run: messages travel along links and come from informed nodes, and what an informed node
  told its peers has arrived or is in flight.
\<close>

definition flood_inv :: "'v set \<Rightarrow> ('v, 'm, 's) mesh_config \<Rightarrow> bool" where
  "flood_inv V x \<longleftrightarrow> (case x of (\<sigma>, ms) \<Rightarrow> mesh_ok V \<sigma> \<and>
     (\<forall>u v m. (u, v, m) \<in> set ms \<longrightarrow> u \<in> V \<and> v \<in> set (peers (\<sigma> u)) \<and> m \<in> requests \<and> informed_of (\<sigma> u)) \<and>
     (\<forall>v \<in> V. informed_of (\<sigma> v) \<longrightarrow> (\<forall>w \<in> set (peers (\<sigma> v)). informed_of (\<sigma> w) \<or> (\<exists>m. (v, w, m) \<in> set ms))))"

lemma flood_inv_step:
  assumes inv: "flood_inv V x" and step: "flood_step receive x y"
  shows "flood_inv V y \<and> (\<forall>v. peers (fst y v) = peers (fst x v)) \<and> (\<forall>v. informed_of (fst x v) \<longrightarrow> informed_of (fst y v))"
  using step
proof cases
  case (deliver v u m \<sigma> s ws xs ys)
  have msg: "u \<in> V" "v \<in> set (peers (\<sigma> u))" "m \<in> requests" "informed_of (\<sigma> u)" and ok: "mesh_ok V \<sigma>"
    using inv unfolding flood_inv_def deliver(1) by auto
  have told: "\<forall>a \<in> V. informed_of (\<sigma> a) \<longrightarrow> (\<forall>w \<in> set (peers (\<sigma> a)). informed_of (\<sigma> w) \<or> (\<exists>k. (a, w, k) \<in> set (xs @ (u, v, m) # ys)))"
    using inv unfolding flood_inv_def deliver(1) by auto
  note v = mesh_link [OF ok msg(1,2)]
  note recv = receive_good [OF v(2,3) msg(3)] receive_peers [OF v(2,3) msg(3)] receive_informed [OF v(2,3) msg(3)] receive_passes [OF v(2,3) msg(3)]
  have new: "good v s" "peers s = peers (\<sigma> v)" "informed_of s" "ws = (if informed_of (\<sigma> v) then [] else filter (\<lambda>w. w \<noteq> u) (peers (\<sigma> v)))"
    using recv deliver(3) by simp_all
  let ?\<tau> = "\<sigma>(v := s)" and ?ms = "xs @ ys @ map (\<lambda>w. (v, w, m)) ws"
  have same: "peers (?\<tau> a) = peers (\<sigma> a)" "informed_of (\<sigma> a) \<Longrightarrow> informed_of (?\<tau> a)" for a using new by simp_all
  have ok': "mesh_ok V ?\<tau>" using ok new(1,2) by (auto simp: mesh_ok_def)
  have travel: "a \<in> V \<and> b \<in> set (peers (?\<tau> a)) \<and> k \<in> requests \<and> informed_of (?\<tau> a)" if "(a, b, k) \<in> set ?ms" for a b k
  proof (cases "(a, b, k) \<in> set (xs @ ys)")
    case True
    then have "a \<in> V \<and> b \<in> set (peers (\<sigma> a)) \<and> k \<in> requests \<and> informed_of (\<sigma> a)"
      using inv unfolding flood_inv_def deliver(1) by auto
    then show ?thesis using same by auto
  next
    case False
    with that have "a = v" "b \<in> set ws" "k = m" by auto
    then show ?thesis using new v msg(3) by (auto split: if_splits)
  qed
  have spread: "informed_of (?\<tau> w) \<or> (\<exists>k. (a, w, k) \<in> set ?ms)"
    if "a \<in> V" "informed_of (?\<tau> a)" "w \<in> set (peers (?\<tau> a))" for a w
  proof (cases "informed_of (\<sigma> a)")
    case True
    with told that same have "informed_of (\<sigma> w) \<or> (\<exists>k. (a, w, k) \<in> set (xs @ (u, v, m) # ys))" by auto
    then show ?thesis using same(2) [of w] new(3) by auto
  next
    case False
    with that have "a = v" by (auto split: if_splits)
    with False that new have "w = u \<or> w \<in> set ws" by auto
    then show ?thesis using \<open>a = v\<close> same(2) [OF msg(4)] by auto
  qed
  from ok' travel spread have "flood_inv V (?\<tau>, ?ms)" unfolding flood_inv_def by blast
  with same show ?thesis unfolding deliver(1,2) by simp
qed

text \<open>What is still to be handled: the messages in flight and those that uninformed nodes may yet send.\<close>

definition load :: "'v set \<Rightarrow> ('v, 'm, 's) mesh_config \<Rightarrow> nat" where
  "load V x = length (snd x) + (\<Sum>v \<in> V. if informed_of (fst x v) then 0 else length (peers (fst x v)))"

lemma load_decreases:
  assumes inv: "flood_inv V x" and step: "flood_step receive x y"
  shows "load V y < load V x"
  using step
proof cases
  case (deliver v u m \<sigma> s ws xs ys)
  have msg: "u \<in> V" "v \<in> set (peers (\<sigma> u))" "m \<in> requests" and ok: "mesh_ok V \<sigma>"
    using inv unfolding flood_inv_def deliver(1) by auto
  have fin: "finite V" using ok by (simp add: mesh_ok_def)
  note v = mesh_link [OF ok msg(1,2)]
  note recv = receive_peers [OF v(2,3) msg(3)] receive_informed [OF v(2,3) msg(3)] receive_passes [OF v(2,3) msg(3)]
  have new: "peers s = peers (\<sigma> v)" "informed_of s" "ws = (if informed_of (\<sigma> v) then [] else filter (\<lambda>w. w \<noteq> u) (peers (\<sigma> v)))"
    using recv deliver(3) by simp_all
  let ?due = "\<lambda>\<sigma> v. if informed_of (\<sigma> v) then 0 else length (peers (\<sigma> v))"
  have "(\<Sum>a \<in> V. ?due (\<sigma>(v := s)) a) = (\<Sum>a \<in> V - {v}. ?due \<sigma> a)"
    using v(1) fin new(2) by (auto simp: sum.remove [of V v] split: if_splits intro!: sum.cong)
  moreover have "(\<Sum>a \<in> V. ?due \<sigma> a) = ?due \<sigma> v + (\<Sum>a \<in> V - {v}. ?due \<sigma> a)" using v(1) fin by (simp add: sum.remove)
  moreover have "length ws \<le> ?due \<sigma> v" using new(3) by simp
  ultimately show ?thesis unfolding deliver(1,2) load_def fst_conv snd_conv by simp
qed

lemma flood_run:
  assumes "(flood_step receive ^^ n) x y" "flood_inv V x"
  shows "flood_inv V y \<and> n + load V y \<le> load V x \<and> (\<forall>v. peers (fst y v) = peers (fst x v)) \<and>
    (\<forall>v. informed_of (fst x v) \<longrightarrow> informed_of (fst y v))"
  using assms
proof (induction n arbitrary: y)
  case (Suc n)
  then obtain z where z: "(flood_step receive ^^ n) x z" "flood_step receive z y" by auto
  with Suc.IH [OF z(1) Suc.prems(2)] flood_inv_step [OF _ z(2)] load_decreases [OF _ z(2)] show ?case by fastforce
qed simp

lemma flood_ends:
  assumes "flood_inv V x"
  shows "\<exists>n \<sigma>. (flood_step receive ^^ n) x (\<sigma>, [])"
  using assms
proof (induction "load V x" arbitrary: x rule: less_induct)
  case less
  show ?case
  proof (cases "snd x = []")
    case True
    then have "(flood_step receive ^^ 0) x (fst x, [])" by (cases x) simp
    then show ?thesis by blast
  next
    case False
    then obtain y where y: "flood_step receive x y" using flood_step_possible [of receive "fst x" "snd x"] by auto
    with less obtain n \<sigma> where "(flood_step receive ^^ n) y (\<sigma>, [])" using flood_inv_step load_decreases by blast
    with y have "(flood_step receive ^^ Suc n) x (\<sigma>, [])" by (meson relpowp_Suc_I2)
    then show ?thesis by blast
  qed
qed

text \<open>Once nothing is in flight, everything that the informed nodes are connected to is informed.\<close>

lemma flood_complete:
  assumes "flood_inv V (\<sigma>, [])" "a \<in> V" "informed_of (\<sigma> a)" "(\<lambda>v w. w \<in> set (peers (\<sigma> v)))\<^sup>*\<^sup>* a b"
  shows "b \<in> V \<and> informed_of (\<sigma> b)"
  using assms(4)
proof (induction rule: rtranclp_induct)
  case (step v w)
  then show ?case using assms(1) by (auto simp: flood_inv_def mesh_ok_def)
qed (use assms in simp)

text \<open>The start: one node is informed and has told all its peers.\<close>

lemma flood_inv_start:
  assumes "mesh_ok V \<sigma>" "a \<in> V" "\<forall>v \<in> V. informed_of (\<sigma> v) \<longleftrightarrow> v = a" "set (map fst ms) \<subseteq> {a}"
    "set (map (fst \<circ> snd) ms) = set (peers (\<sigma> a))" "set (map (snd \<circ> snd) ms) \<subseteq> requests"
  shows "flood_inv V (\<sigma>, ms)"
proof -
  have "u = a \<and> v \<in> set (peers (\<sigma> a)) \<and> m \<in> requests" if "(u, v, m) \<in> set ms" for u v m
    using that assms(4-6) by (force simp: image_subset_iff)
  moreover have "\<exists>m. (a, w, m) \<in> set ms" if "w \<in> set (peers (\<sigma> a))" for w
  proof -
    from that assms(5) have "w \<in> (\<lambda>x. fst (snd x)) ` set ms" by simp
    then obtain x where "x \<in> set ms" "fst (snd x) = w" by blast
    with calculation show ?thesis by (cases x) auto
  qed
  ultimately show ?thesis using assms(1-3) unfolding flood_inv_def by auto
qed

end

section \<open>Daemons as nodes of a mesh\<close>

text \<open>The handlers modelled here behind the dispatch; the others are a parameter.\<close>

definition run_handler :: "daemon_env \<Rightarrow> (handler \<Rightarrow> connection \<Rightarrow> string \<Rightarrow> daemon \<Rightarrow> outcome) \<Rightarrow>
    handler \<Rightarrow> connection \<Rightarrow> string \<Rightarrow> daemon \<Rightarrow> outcome" where
  "run_handler env other h = (case h of Add_Subnet_H \<Rightarrow> add_subnet_h env | Del_Subnet_H \<Rightarrow> del_subnet_h env | _ \<Rightarrow> other h)"

definition peer_names :: "daemon \<Rightarrow> string list" where
  "peer_names d = map conn_name (connection_list d)"

text \<open>
  The network between the daemons, which is no code of the daemon: a line arrives from the peer \<open>u\<close>, and the peers on whose connections the handler
  wrote get a message next. That what it wrote is the line it received is \<open>announcement_handled\<close>; the network model
  carries this line on. A request that is refused leaves the daemon as it was, which the meshes considered here exclude.
\<close>

definition deliver_line :: "(string \<Rightarrow> daemon_env) \<Rightarrow> (handler \<Rightarrow> connection \<Rightarrow> string \<Rightarrow> daemon \<Rightarrow> outcome) \<Rightarrow>
    string \<Rightarrow> string \<Rightarrow> string \<Rightarrow> daemon \<Rightarrow> daemon \<times> string list" where
  "deliver_line env other v u line d =
     (case List.find (\<lambda>c. conn_name c = u) (connection_list d) of
        None \<Rightarrow> (d, [])
      | Some c \<Rightarrow>
          (case receive_request (env v) (run_handler (env v) other) c line d of
             Returned True d' \<Rightarrow> (d'\<lparr>outbox := []\<rparr>,
               List.map_filter (\<lambda>(i, _). map_option conn_name (List.find (\<lambda>c. conn_id c = i) (connection_list d'))) (outbox d'))
           | _ \<Rightarrow> (d, [])))"

text \<open>A daemon with activated connections to distinct peers, before or during the flood of one announcement with a nonce from \<open>R\<close>.\<close>

definition flood_ready :: "(net \<times> int) set \<Rightarrow> (string \<Rightarrow> daemon_env) \<Rightarrow> string \<Rightarrow> subnet \<Rightarrow> nat set \<Rightarrow> string \<Rightarrow> daemon \<Rightarrow> bool" where
  "flood_ready B env own s R v d \<longleftrightarrow> daemon_inv B d \<and> announcement B own s \<and> outbox d = [] \<and>
     self (env v) = v \<and> c_string v \<and> \<not> tunnelserver (env v) \<and> \<not> strictsubnets (env v) \<and>
     (\<forall>c \<in> set (connection_list d). conn_edge c \<noteq> None \<and> quic_context c \<and> allow_request c = ALL_REQUESTS) \<and>
     distinct (map conn_id (connection_list d)) \<and> distinct (peer_names d) \<and>
     (v = own \<longrightarrow> has_subnet d own (net s) (weight s)) \<and>
     (\<forall>r \<in> R. subnet_line ADD_SUBNET r own (net2str s) \<in> seen d \<longrightarrow> has_subnet d own (net s) (weight s))"

definition announcements :: "string \<Rightarrow> subnet \<Rightarrow> nat set \<Rightarrow> string set" where
  "announcements own s R = {subnet_line ADD_SUBNET r own (net2str s) |r. r \<in> R \<and> r < 2 ^ 32}"

lemma atoi_line: "c_int_ok q \<Longrightarrow> atoi (print_d q @ CHR '' '' # r) = q"
  by (simp add: atoi_def scan_d_print isdigit_def)

lemma dispatch_announcement:
  "allow_request c = ALL_REQUESTS \<Longrightarrow> receive_request env (run_handler env other) c (subnet_line ADD_SUBNET r own n) d =
     add_subnet_h env c (subnet_line ADD_SUBNET r own n) d"
proof -
  assume "allow_request c = ALL_REQUESTS"
  moreover have "atoi (subnet_line ADD_SUBNET r own n) = 10"
    using atoi_line [of 10] by (simp add: subnet_line_def c_int_ok_def)
  ultimately show ?thesis
    by (simp add: receive_request_def proxy_answer_def dispatch_def Let_def request_handlers_def run_handler_def)
qed

lemma add_subnet_h_anywhere:
  assumes inv: "daemon_inv B d" and ann: "announcement B own s" "r < 2 ^ 32" and me: "c_string (self env)"
    "own = self env \<longrightarrow> has_subnet d own (net s) (weight s)"
    and mode: "\<not> tunnelserver env" "\<not> strictsubnets env" and line: "line = subnet_line ADD_SUBNET r own (net2str s)"
  obtains d' where "add_subnet_h env c line d = Returned True d'" "daemon_inv B d'" "connection_list d' = connection_list d"
    "seen d' = insert line (seen d)"
    "outbox d' = outbox d @ (if informed line own s d then [] else map (\<lambda>c. (conn_id c, line)) (recipients (Some c) d))"
    "\<And>o' n w. has_subnet d' o' n w \<longleftrightarrow> has_subnet d o' n w \<or> (\<not> informed line own s d \<and> o' = own \<and> n = net s \<and> w = weight s)"
proof (cases "own = self env")
  case False
  show thesis by (rule add_subnet_h_effect [OF inv ann me(1) False mode line]) (rule that)
next
  case True
  have known: "informed line own s d" using me(2) True by (simp add: informed_def)
  have n: "net (new_subnet (weight s) (net s)) = net s" "weight (new_subnet (weight s) (net s)) = weight s" by (simp_all add: new_subnet_def)
  have req: "read_request B line own (new_subnet (weight s) (net s))" unfolding line by (rule announcement_read [OF ann]) (simp add: c_int_ok_def)
  obtain d1 d2 d4 where ways: "daemon_inv B d1" "quiet d d1" "seen d1 = insert line (seen d)"
    "daemon_inv B d2" "quiet d d2" "seen d2 = insert line (seen d)" "daemon_inv B d4" "quiet d d4" "seen d4 = insert line (seen d)"
    "add_subnet_h env c line d = Returned True
       (if line \<in> seen d then d1
        else if tunnelserver env \<and> \<not> (own = self env \<and> own \<in> known d) \<and> (if own \<in> known d then Some own else None) \<noteq> conn_node c then d2
        else if has_subnet d own (net s) (weight s) then d4
        else if own = self env then snd (send_del_subnet env c own (new_subnet (weight s) (net s)) d4)
        else if tunnelserver env then d4
        else if strictsubnets env then forward_request env c line d4
        else announce env c line own (new_subnet (weight s) (net s)) d4)"
    by (rule add_subnet_h_ways [OF inv req, unfolded n]) (rule that)
  show thesis
    by (rule that [of "if line \<in> seen d then d1 else d4"]) (use ways True known me(2) mode in \<open>simp_all add: quiet_def\<close>)
qed

lemma recipients_names:
  assumes "\<forall>c \<in> set (connection_list d). conn_edge c \<noteq> None \<and> quic_context c" "distinct (map conn_id (connection_list d))"
    "distinct (peer_names d)" "c \<in> set (connection_list d)"
  shows "List.map_filter (\<lambda>(i, _). map_option conn_name (List.find (\<lambda>c. conn_id c = i) (connection_list d)))
      (map (\<lambda>c. (conn_id c, line)) (recipients (Some c) d)) = filter (\<lambda>w. w \<noteq> conn_name c) (peer_names d)"
proof -
  have same: "x \<in> set (connection_list d) \<Longrightarrow> y \<in> set (connection_list d) \<Longrightarrow> conn_id x = conn_id y \<longleftrightarrow> x = y"
    "x \<in> set (connection_list d) \<Longrightarrow> y \<in> set (connection_list d) \<Longrightarrow> conn_name x = conn_name y \<longleftrightarrow> x = y" for x y
    using assms(2,3) by (auto simp: peer_names_def distinct_map inj_on_eq_iff)
  have found: "x \<in> set (connection_list d) \<Longrightarrow> List.find (\<lambda>c. conn_id c = conn_id x) (connection_list d) = Some x" for x
    using find_unique [of "connection_list d" "\<lambda>c. conn_id c = conn_id x" x] same(1) by auto
  have "recipients (Some c) d = filter (\<lambda>x. conn_name x \<noteq> conn_name c) (connection_list d)"
    unfolding recipients_def using assms(1,4) same by (intro filter_cong) auto
  moreover have "List.map_filter (\<lambda>(i, _). map_option conn_name (List.find (\<lambda>c. conn_id c = i) (connection_list d)))
      (map (\<lambda>c. (conn_id c, line)) (filter P xs)) = map conn_name (filter P xs)" if "set xs \<subseteq> set (connection_list d)" for P xs
    using that by (induction xs) (auto simp: map_filter_simps found)
  ultimately show ?thesis by (simp add: peer_names_def filter_map comp_def)
qed

lemma deliver_announcement:
  assumes ready: "flood_ready B env own s R v d" and u: "u \<in> set (peer_names d)" and line: "line \<in> announcements own s R"
  obtains d' where "deliver_line env other v u line d =
      (d', if has_subnet d own (net s) (weight s) then [] else filter (\<lambda>w. w \<noteq> u) (peer_names d))"
    "flood_ready B env own s R v d'" "peer_names d' = peer_names d" "has_subnet d' own (net s) (weight s)"
proof -
  obtain r where r: "r \<in> R" "r < 2 ^ 32" "line = subnet_line ADD_SUBNET r own (net2str s)" using line by (auto simp: announcements_def)
  have d: "daemon_inv B d" "announcement B own s" "outbox d = []" "self (env v) = v" "c_string v" "\<not> tunnelserver (env v)" "\<not> strictsubnets (env v)"
    "\<forall>c \<in> set (connection_list d). conn_edge c \<noteq> None \<and> quic_context c \<and> allow_request c = ALL_REQUESTS"
    "distinct (map conn_id (connection_list d))" "distinct (peer_names d)" "v = own \<Longrightarrow> has_subnet d own (net s) (weight s)"
    and fresh: "\<forall>r \<in> R. subnet_line ADD_SUBNET r own (net2str s) \<in> seen d \<longrightarrow> has_subnet d own (net s) (weight s)"
    using ready by (simp_all add: flood_ready_def)
  have me: "c_string (self (env v))" "own = self (env v) \<longrightarrow> has_subnet d own (net s) (weight s)" using d(4,5,11) by auto
  have known: "informed line own s d \<longleftrightarrow> has_subnet d own (net s) (weight s)" using fresh r by (auto simp: informed_def)
  obtain c where c: "List.find (\<lambda>c. conn_name c = u) (connection_list d) = Some c" "c \<in> set (connection_list d)" "conn_name c = u"
    using u by (cases "List.find (\<lambda>c. conn_name c = u) (connection_list d)")
      (auto simp: peer_names_def find_None_iff find_Some_iff)
  obtain d' where h: "add_subnet_h (env v) c line d = Returned True d'" "daemon_inv B d'" "connection_list d' = connection_list d"
    "seen d' = insert line (seen d)"
    "outbox d' = outbox d @ (if informed line own s d then [] else map (\<lambda>c. (conn_id c, line)) (recipients (Some c) d))"
    "\<And>o' n w. has_subnet d' o' n w \<longleftrightarrow> has_subnet d o' n w \<or> (\<not> informed line own s d \<and> o' = own \<and> n = net s \<and> w = weight s)"
    by (rule add_subnet_h_anywhere [OF d(1,2) r(2) me d(6,7) r(3)]) (rule that)
  have run: "receive_request (env v) (run_handler (env v) other) c line d = Returned True d'"
    using h(1) d(8) c(2) dispatch_announcement r(3) by simp
  have inv: "daemon_inv B (d'\<lparr>outbox := []\<rparr>)" using h(2) by (simp add: daemon_inv_def request_inv_def)
  have "has_subnet d' own (net s) (weight s)" using h(6) known by auto
  then show thesis
  proof (intro that [of "d'\<lparr>outbox := []\<rparr>"], goal_cases)
    case 1
    show ?case using c run h(3,5) d(3) known recipients_names [of d c line] d(8-10)
      by (simp add: deliver_line_def map_filter_simps)
  next
    case 2
    then show ?case using inv d h(3) by (simp add: flood_ready_def peer_names_def)
  qed (simp_all add: peer_names_def h(3))
qed

interpretation subnet_flood: flooding "deliver_line env other" "flood_ready B env own s R" "\<lambda>d. has_subnet d own (net s) (weight s)"
    peer_names "announcements own s R" for env other B own s R
proof (unfold_locales, goal_cases)
  case (1 v d u m) then show ?case by (rule deliver_announcement [where other = other]) simp
next
  case (2 v d u m) then show ?case by (rule deliver_announcement [where other = other]) simp
next
  case (3 v d u m) then show ?case by (rule deliver_announcement [where other = other]) simp
next
  case (4 v d u m) then show ?case by (rule deliver_announcement [where other = other]) simp
qed

section \<open>Announcements reach the whole mesh\<close>

text \<open>
  Property C23. A node announces a subnet to all its peers, in a mesh of daemons that have not heard of it and that are not in the tunnel server or strict subnets mode. In whatever order
  the messages are delivered, the flood ends after at most as many deliveries as there are connection ends
  and first messages; it never gets stuck before, and when it has ended, every daemon connected to the announcing one,
  directly or through others, has the subnet of that owner in its table.
\<close>

theorem announcement_reaches_mesh:
  assumes "finite V" "own \<in> V" "\<forall>v \<in> V. flood_ready B env own s R v (\<sigma> v) \<and> set (peer_names (\<sigma> v)) \<subseteq> V"
    "\<forall>v \<in> V. \<forall>u \<in> V. u \<in> set (peer_names (\<sigma> v)) \<longleftrightarrow> v \<in> set (peer_names (\<sigma> u))"
    "\<forall>v \<in> V. has_subnet (\<sigma> v) own (net s) (weight s) \<longleftrightarrow> v = own"
    "set (map fst ms) \<subseteq> {own}" "set (map (fst \<circ> snd) ms) = set (peer_names (\<sigma> own))" "set (map (snd \<circ> snd) ms) \<subseteq> announcements own s R"
  shows "(\<exists>n \<tau>. (flood_step (deliver_line env other) ^^ n) (\<sigma>, ms) (\<tau>, [])) \<and>
    (\<forall>n \<tau> ms'. (flood_step (deliver_line env other) ^^ n) (\<sigma>, ms) (\<tau>, ms') \<longrightarrow>
       n \<le> length ms + (\<Sum>v \<in> V. length (peer_names (\<sigma> v))) \<and>
       (ms' \<noteq> [] \<longrightarrow> (\<exists>y. flood_step (deliver_line env other) (\<tau>, ms') y)) \<and>
       (ms' = [] \<longrightarrow> (\<forall>v. (\<lambda>v w. w \<in> set (peer_names (\<sigma> v)))\<^sup>*\<^sup>* own v \<longrightarrow> has_subnet (\<tau> v) own (net s) (weight s))))"
proof -
  have ok: "subnet_flood.mesh_ok B env own s R V \<sigma>" using assms(1-4) by (simp add: subnet_flood.mesh_ok_def)
  note inv = subnet_flood.flood_inv_start [OF ok assms(2,5-8)]
  let ?load = "\<lambda>x. subnet_flood.load own s V x"
  have load: "?load (\<sigma>, ms) \<le> length ms + (\<Sum>v \<in> V. length (peer_names (\<sigma> v)))"
    unfolding subnet_flood.load_def by (auto intro!: sum_mono)
  have "n \<le> length ms + (\<Sum>v \<in> V. length (peer_names (\<sigma> v))) \<and> (ms' \<noteq> [] \<longrightarrow> (\<exists>y. flood_step (deliver_line env other) (\<tau>, ms') y)) \<and>
       (ms' = [] \<longrightarrow> (\<forall>v. (\<lambda>v w. w \<in> set (peer_names (\<sigma> v)))\<^sup>*\<^sup>* own v \<longrightarrow> has_subnet (\<tau> v) own (net s) (weight s)))"
    if run: "(flood_step (deliver_line env other) ^^ n) (\<sigma>, ms) (\<tau>, ms')" for n \<tau> ms'
  proof -
    note end_state = subnet_flood.flood_run [OF run inv]
    then have "has_subnet (\<tau> v) own (net s) (weight s)" if "ms' = []" "(\<lambda>v w. w \<in> set (peer_names (\<sigma> v)))\<^sup>*\<^sup>* own v" for v
      using subnet_flood.flood_complete [of B env own s R V \<tau> own v] that assms(2,5) by simp
    then show ?thesis using end_state load flood_step_possible [of "deliver_line env other" \<tau> ms'] by auto
  qed
  with subnet_flood.flood_ends [OF inv] show ?thesis by blast
qed

definition two_daemons :: "string \<Rightarrow> daemon" where
  "two_daemons v =
     (if v = ''a'' then sample_daemon\<lparr>connection_list := [sample_connection 1 ''b''], subnets := subnet_add (Some ''a'') sample_subnet init_subnets\<rparr>
      else sample_daemon\<lparr>connection_list := [sample_connection 1 ''a'']\<rparr>)"

definition two_envs :: "string \<Rightarrow> daemon_env" where
  "two_envs v = sample_denv\<lparr>self := v\<rparr>"

lemma two_daemons_ready:
  "v \<in> {''a'', ''b''} \<Longrightarrow> flood_ready {} two_envs ''a'' sample_subnet {5} v (two_daemons v)"
  "has_subnet (two_daemons ''a'') ''a'' (net sample_subnet) (weight sample_subnet)"
  "\<not> has_subnet (two_daemons ''b'') ''a'' (net sample_subnet) (weight sample_subnet)"
proof -
  have s: "subnets sample_daemon = init_subnets" "owner sample_subnet = None" "net sample_subnet = SUBNET_IPV4 [10, 1, 0, 0] 16" "weight sample_subnet = 10"
    by (simp_all add: sample_daemon_def sample_subnet_def new_subnet_def)
  have ok: "trees_inv {} init_subnets" "subnet_ok {} (sample_subnet\<lparr>owner := Some ''a''\<rparr>)"
    using sample_ok(1,3) announcement_scan(7) [of "{}" "''a''" sample_subnet 5] by (simp_all add: daemon_inv_def s(1) sample_subnet_def new_subnet_def)
  have add: "trees_inv {} (subnet_add (Some ''a'') sample_subnet init_subnets)" using trees_inv_add [OF ok(1)] ok(2) by simp
  have "has_subnet (two_daemons ''a'') = has_subnet (sample_daemon\<lparr>subnets := subnet_add (Some ''a'') sample_subnet (subnets sample_daemon)\<rparr>)"
    by (simp add: two_daemons_def has_subnet_def [abs_def] s(1))
  then have has: "has_subnet (two_daemons ''a'') ''a'' (net sample_subnet) (weight sample_subnet)"
    using has_subnet_add [where B = "{}" and d = sample_daemon and s = sample_subnet and own = "''a''"] sample_ok(4) ok s(1) by simp
  show "has_subnet (two_daemons ''a'') ''a'' (net sample_subnet) (weight sample_subnet)" by (rule has)
  show "\<not> has_subnet (two_daemons ''b'') ''a'' (net sample_subnet) (weight sample_subnet)"
    using sample_ok(4) by (simp add: two_daemons_def has_subnet_def)
  have "daemon_inv {} (two_daemons v)" "seen (two_daemons v) = {}" "outbox (two_daemons v) = []" for v
    using sample_ok(1,6) add by (simp_all add: two_daemons_def daemon_inv_def request_inv_def seen_def sample_daemon_def)
  then show "flood_ready {} two_envs ''a'' sample_subnet {5} v (two_daemons v)" if "v \<in> {''a'', ''b''}"
    using that has sample_ok(3)
    by (auto simp: flood_ready_def two_envs_def sample_denv_def c_string_def peer_names_def two_daemons_def sample_connection_def)
qed

theorem announcement_reaches_mesh_witness:
  "\<exists>n \<tau>. (flood_step (deliver_line two_envs (\<lambda>_ _ _ _. Aborted)) ^^ n)
      (two_daemons, [(''a'', ''b'', subnet_line ADD_SUBNET 5 ''a'' (net2str sample_subnet))]) (\<tau>, []) \<and>
    n \<le> 3 \<and> has_subnet (\<tau> ''b'') ''a'' (SUBNET_IPV4 [10, 1, 0, 0] 16) 10"
proof -
  let ?ms = "[(''a'', ''b'', subnet_line ADD_SUBNET 5 ''a'' (net2str sample_subnet))]"
  have peers: "peer_names (two_daemons ''a'') = [''b'']" "peer_names (two_daemons ''b'') = [''a'']"
    by (simp_all add: peer_names_def two_daemons_def sample_connection_def)
  have line: "subnet_line ADD_SUBNET 5 ''a'' (net2str sample_subnet) \<in> announcements ''a'' sample_subnet {5}"
    by (auto simp: announcements_def)
  let ?step = "flood_step (deliver_line two_envs (\<lambda>_ _ _ _. Aborted))"
  have way: "(\<lambda>v w. w \<in> set (peer_names (two_daemons v)))\<^sup>*\<^sup>* ''a'' ''b''" using peers by (intro r_into_rtranclp) simp
  have "(\<exists>n \<tau>. (?step ^^ n) (two_daemons, ?ms) (\<tau>, [])) \<and> (\<forall>n \<tau> ms'. (?step ^^ n) (two_daemons, ?ms) (\<tau>, ms') \<longrightarrow>
       n \<le> length ?ms + (\<Sum>v \<in> {''a'', ''b''}. length (peer_names (two_daemons v))) \<and> (ms' \<noteq> [] \<longrightarrow> (\<exists>y. ?step (\<tau>, ms') y)) \<and>
       (ms' = [] \<longrightarrow> (\<forall>v. (\<lambda>v w. w \<in> set (peer_names (two_daemons v)))\<^sup>*\<^sup>* ''a'' v \<longrightarrow>
          has_subnet (\<tau> v) ''a'' (net sample_subnet) (weight sample_subnet))))"
    by (rule announcement_reaches_mesh [where B = "{}" and R = "{5}"]) (use two_daemons_ready line peers in auto)
  then obtain n \<tau> where run: "(?step ^^ n) (two_daemons, ?ms) (\<tau>, [])"
    "n \<le> length ?ms + (\<Sum>v \<in> {''a'', ''b''}. length (peer_names (two_daemons v)))"
    "has_subnet (\<tau> ''b'') ''a'' (net sample_subnet) (weight sample_subnet)" using way by blast
  have "n \<le> 3" using run(2) peers by simp
  with run show ?thesis by (intro exI [of _ n] exI [of _ \<tau>]) (simp add: sample_subnet_def new_subnet_def)
qed

end
