(* ===== verification/Protocol_Edge.thy ===== *)
theory Protocol_Edge
  imports Protocol_Subnet
begin

text \<open>
  The requests that announce and withdraw edges of the mesh (\<^verbatim>\<open>protocol_edge.c\<close>), with the addresses they
  carry (\<^verbatim>\<open>netutl.c\<close>). Every change of an edge is followed by a recomputation of the mesh. The translation between
  addresses and their numeric text is the operating system's.
\<close>

section \<open>Addresses\<close>

fun sa_family :: "sockaddr \<Rightarrow> int" where
  "sa_family AF_UNSPEC = 0"
| "sa_family (AF_INET _ _) = 2"
| "sa_family (AF_INET6 _ _) = 10"
| "sa_family (AF_UNKNOWN _ _) = 255"

definition str2sockaddr :: "daemon_env \<Rightarrow> string \<Rightarrow> string \<Rightarrow> sockaddr" where
  "str2sockaddr env address port =
     (case getaddrinfo env address port of None \<Rightarrow> AF_UNKNOWN address port | Some sa \<Rightarrow> sa)"

definition sockaddr2str :: "daemon_env \<Rightarrow> sockaddr \<Rightarrow> string \<times> string" where
  "sockaddr2str env sa =
     (case sa of
        AF_UNSPEC \<Rightarrow> (''unspec'', ''unspec'')
      | AF_UNKNOWN address port \<Rightarrow> (address, port)
      | _ \<Rightarrow> (case getnameinfo env sa of (address, port) \<Rightarrow> (takeWhile (\<lambda>c. c \<noteq> CHR ''%'') address, port)))"

text \<open>Ports are compared in network byte order.\<close>

definition sockaddrcmp :: "sockaddr \<Rightarrow> sockaddr \<Rightarrow> int" where
  "sockaddrcmp a b =
     (if sa_family a - sa_family b \<noteq> 0 then sa_family a - sa_family b
      else case (a, b) of
        (AF_UNKNOWN x p, AF_UNKNOWN y q) \<Rightarrow> (if strcmp x y \<noteq> 0 then strcmp x y else strcmp p q)
      | (AF_INET x p, AF_INET y q) \<Rightarrow>
          (if memcmp x y \<noteq> 0 then memcmp x y else memcmp (be16_bytes (unat p)) (be16_bytes (unat q)))
      | (AF_INET6 x p, AF_INET6 y q) \<Rightarrow>
          (if memcmp x y \<noteq> 0 then memcmp x y else memcmp (be16_bytes (unat p)) (be16_bytes (unat q)))
      | _ \<Rightarrow> 0)"

lemma sockaddrcmp_refl [simp]: "sockaddrcmp a a = 0"
  by (cases a) (simp_all add: sockaddrcmp_def memcmp_zero)

section \<open>Requests\<close>

definition edge_line :: "int \<Rightarrow> nat \<Rightarrow> string \<Rightarrow> string \<Rightarrow> string" where
  "edge_line reqno r from to = print_d reqno @ '' '' @ print_x r @ '' '' @ from @ '' '' @ to"

definition edge_details :: "string \<times> string \<Rightarrow> u32 \<Rightarrow> int \<Rightarrow> (string \<times> string) option \<Rightarrow> string" where
  "edge_details address options w loc =
     '' '' @ fst address @ '' '' @ snd address @ '' '' @ print_x (unat options) @ '' '' @ print_d w @
     (case loc of None \<Rightarrow> [] | Some (a, p) \<Rightarrow> '' '' @ a @ '' '' @ p)"

definition send_add_edge :: "daemon_env \<Rightarrow> connection \<Rightarrow> edge \<Rightarrow> daemon \<Rightarrow> bool \<times> daemon" where
  "send_add_edge env c e d =
     (case next_rand env d of (r, d) \<Rightarrow>
        send_request env c (edge_line ADD_EDGE r (edge_from e) (edge_to e) @
          edge_details (sockaddr2str env (edge_address e)) (edge_options e) (edge_weight e)
            (if sa_family (edge_local_address e) \<noteq> 0 then Some (sockaddr2str env (edge_local_address e)) else None)) d)"

definition send_del_edge :: "daemon_env \<Rightarrow> connection \<Rightarrow> edge \<Rightarrow> daemon \<Rightarrow> bool \<times> daemon" where
  "send_del_edge env c e d =
     (case next_rand env d of (r, d) \<Rightarrow> send_request env c (edge_line DEL_EDGE r (edge_from e) (edge_to e)) d)"

definition send_del_edge_everyone :: "daemon_env \<Rightarrow> edge \<Rightarrow> daemon \<Rightarrow> bool \<times> daemon" where
  "send_del_edge_everyone env e d =
     (case next_rand env d of (r, d) \<Rightarrow> send_everyone env (edge_line DEL_EDGE r (edge_from e) (edge_to e)) d)"

definition add_edge_format :: "scan_item list" where
  "add_edge_format = [Skip_D, Match_Space, Skip_X, Match_Space, Scan_S 2048, Match_Space, Scan_S 2048, Match_Space, Scan_S 2048, Match_Space,
     Scan_S 2048, Match_Space, Scan_X 32, Match_Space, Scan_D, Match_Space, Scan_S 2048, Match_Space, Scan_S 2048]"

definition del_edge_format :: "scan_item list" where
  "del_edge_format = [Skip_D, Match_Space, Skip_X, Match_Space, Scan_S 2048, Match_Space, Scan_S 2048]"

text \<open>The arguments of an announcement: with six values there is no local address, with eight there is one.\<close>

definition edge_args :: "scan_value list \<Rightarrow> (string \<times> string \<times> (string \<times> string) \<times> u32 \<times> int \<times> (string \<times> string) option) option" where
  "edge_args vs =
     (case vs of
        [V_String from, V_String to, V_String a, V_String p, V_Nat options, V_Int w] \<Rightarrow> Some (from, to, (a, p), of_nat options, w, None)
      | [V_String from, V_String to, V_String a, V_String p, V_Nat options, V_Int w, V_String la, V_String lp] \<Rightarrow>
          Some (from, to, (a, p), of_nat options, w, Some (la, lp))
      | _ \<Rightarrow> None)"

section \<open>Handlers\<close>

text \<open>
  An edge is changed in place, so that both trees see the new values; only a new weight moves it in the
  tree of weights. Taking out an edge that is not there would leave no node to insert again.
\<close>

definition edge_update :: "edge \<Rightarrow> edge \<Rightarrow> edge_state \<Rightarrow> edge_state" where
  "edge_update e e' st =
     (let e1 = e'\<lparr>edge_weight := edge_weight e\<rparr>;
          change = (\<lambda>x y t. map_splay (\<lambda>z. if z = x then y else z) t);
          st = st\<lparr>node_edges := (\<lambda>n. change e e1 (node_edges st n)), edge_weight_tree := change e e1 (edge_weight_tree st)\<rparr>
      in if edge_weight e' = edge_weight e then st
         else case splay_unlink (edge_weight_tree st) e1 of (t, _) \<Rightarrow>
           st\<lparr>node_edges := (\<lambda>n. change e1 e' (node_edges st n)), edge_weight_tree := fst (splay_insert_node t e')\<rparr>)"

definition edge_changed :: "daemon_env \<Rightarrow> connection \<Rightarrow> string \<Rightarrow> daemon \<Rightarrow> outcome" where
  "edge_changed env c line d =
     run_graph env (if tunnelserver env then d else forward_request env c line d) (Returned True)"

definition known_edge :: "string \<Rightarrow> string \<Rightarrow> daemon \<Rightarrow> edge option \<times> daemon" where
  "known_edge from to d = (case lookup_edge from to (edges d) of (r, es) \<Rightarrow> (r, d\<lparr>edges := es\<rparr>))"

text \<open>The edge in its new form: an address is replaced only by a different one, a local address only by a known one.\<close>

definition new_local :: "sockaddr \<Rightarrow> sockaddr \<Rightarrow> bool" where
  "new_local old new \<longleftrightarrow> sa_family new \<noteq> 0 \<and> sa_family new \<noteq> 255 \<and> sockaddrcmp old new \<noteq> 0"

definition edge_revised :: "sockaddr \<Rightarrow> sockaddr \<Rightarrow> u32 \<Rightarrow> int \<Rightarrow> edge \<Rightarrow> edge" where
  "edge_revised address local options w e =
     e\<lparr>edge_options := options, edge_weight := w,
       edge_address := (if sockaddrcmp (edge_address e) address \<noteq> 0 then address else edge_address e),
       edge_local_address := (if new_local (edge_local_address e) local then local else edge_local_address e)\<rparr>"

definition edge_same :: "sockaddr \<Rightarrow> sockaddr \<Rightarrow> u32 \<Rightarrow> int \<Rightarrow> edge \<Rightarrow> bool" where
  "edge_same address local options w e \<longleftrightarrow> edge_weight e = w \<and> edge_options e = options \<and>
     sockaddrcmp (edge_address e) address = 0 \<and> \<not> new_local (edge_local_address e) local"

definition store_edge :: "daemon_env \<Rightarrow> connection \<Rightarrow> string \<Rightarrow> string \<Rightarrow> string \<Rightarrow> sockaddr \<Rightarrow> sockaddr \<Rightarrow> u32 \<Rightarrow> int \<Rightarrow> daemon \<Rightarrow> outcome" where
  "store_edge env c line from to address local options w d =
     (case known_edge from to d of
        (Some e, d) \<Rightarrow>
          if edge_same address local options w e then Returned True d
          else if from = self env then Returned True (snd (send_add_edge env c e d))
          else edge_changed env c line (d\<lparr>edges := edge_update e (edge_revised address local options w e) (edges d)\<rparr>)
      | (None, d) \<Rightarrow>
          if from = self env then
            Returned True (snd (send_del_edge env c (new_edge from to) (d\<lparr>contradicting_add_edge := contradicting_add_edge d + 1\<rparr>)))
          else edge_changed env c line (d\<lparr>edges := edge_add ((new_edge from to)\<lparr>edge_address := address, edge_local_address := local,
                 edge_options := options, edge_weight := w\<rparr>) (edges d)\<rparr>))"

definition add_edge_h :: "daemon_env \<Rightarrow> connection \<Rightarrow> string \<Rightarrow> daemon \<Rightarrow> outcome" where
  "add_edge_h env c line d =
     (case edge_args (fst (sscanf add_edge_format line)) of
        None \<Rightarrow> Returned False d
      | Some (from, to, (a, p), options, w, loc) \<Rightarrow>
          if \<not> check_id from \<or> \<not> check_id to \<or> from = to then Returned False d
          else case seen_request env line d of (old, d) \<Rightarrow>
            if old then Returned True d
            else case lookup_node from d of (f, d) \<Rightarrow> case lookup_node to d of (t, d) \<Rightarrow>
              if tunnelserver env \<and> f \<noteq> Some (self env) \<and> f \<noteq> conn_node c \<and> t \<noteq> Some (self env) \<and> t \<noteq> conn_node c then Returned True d
              else
                let d = (if f = None then node_add from d else d);
                    d = (if t = None then node_add to d else d)
                in store_edge env c line from to (str2sockaddr env a p)
                     (case loc of None \<Rightarrow> AF_UNSPEC | Some (la, lp) \<Rightarrow> str2sockaddr env la lp) options w d)"

text \<open>A node that was cut off may have left an edge to this daemon, which is cleaned up.\<close>

definition drop_return_edge :: "daemon_env \<Rightarrow> string \<Rightarrow> daemon \<Rightarrow> outcome" where
  "drop_return_edge env to d =
     (if reachable (nodes d to) then Returned True d
      else case known_edge to (self env) d of
        (None, d) \<Rightarrow> Returned True d
      | (Some e, d) \<Rightarrow>
          let d = (if tunnelserver env then d else snd (send_del_edge_everyone env e d))
          in Returned True (d\<lparr>edges := edge_del e (edges d)\<rparr>))"

definition del_edge_h :: "daemon_env \<Rightarrow> connection \<Rightarrow> string \<Rightarrow> daemon \<Rightarrow> outcome" where
  "del_edge_h env c line d =
     (case fst (sscanf del_edge_format line) of
        [V_String from, V_String to] \<Rightarrow>
          if \<not> check_id from \<or> \<not> check_id to \<or> from = to then Returned False d
          else (case seen_request env line d of (old, d) \<Rightarrow>
            if old then Returned True d
            else case lookup_node from d of (f, d) \<Rightarrow> case lookup_node to d of (t, d) \<Rightarrow>
              if tunnelserver env \<and> f \<noteq> Some (self env) \<and> f \<noteq> conn_node c \<and> t \<noteq> Some (self env) \<and> t \<noteq> conn_node c then Returned True d
              else if f = None then Returned True d
              else if t = None then Returned True d
              else case known_edge from to d of
                (None, d) \<Rightarrow> Returned True d
              | (Some e, d) \<Rightarrow>
                  if edge_from e = self env then
                    Returned True (snd (send_add_edge env c e (d\<lparr>contradicting_del_edge := contradicting_del_edge d + 1\<rparr>)))
                  else
                    let d = (if tunnelserver env then d else forward_request env c line d);
                        d = d\<lparr>edges := edge_del e (edges d)\<rparr>
                    in run_graph env d (drop_return_edge env to))
      | _ \<Rightarrow> Returned False d)"

section \<open>Changing an edge\<close>

abbreviation edge_set :: "edge_state \<Rightarrow> edge set" where "edge_set \<equiv> Edge.edges"

lemma splay_unlink_delete: "fst (splay_unlink t x) = fst (splay_delete t x)"
  by (simp add: splay_unlink_def splay_delete_def splay_delete_node_def split: prod.split option.split)

lemma set_links_map_splay [simp]: "set (links (map_splay f t)) = f ` set (links t)"
  by (simp add: map_splay_def)

lemma replace_image: "e \<in> A \<Longrightarrow> (\<lambda>z. if z = e then e' else z) ` A = insert e' (A - {e})"
  by auto

lemma keys_replaced: "e \<in> A \<Longrightarrow> edge_key e' = edge_key e \<Longrightarrow> edge_key ` insert e' (A - {e}) = edge_key ` A"
  by (auto simp: image_iff)

lemma node_trees_replaced:
  assumes inv: "edges_inv st" and e: "e \<in> edge_set st" and e': "edge_ok e'" "edge_key e' = edge_key e"
  shows "splay_inv edge_compare (edge_of n) (map_splay (\<lambda>z. if z = e then e' else z) (node_edges st n))"
    "set (links (map_splay (\<lambda>z. if z = e then e' else z) (node_edges st n))) = {x \<in> insert e' (edge_set st - {e}). edge_from x = n}"
proof -
  have "edge_of n (if x = e then e' else x)" if "edge_of n x" for x using that e' by (auto simp: edge_of_def)
  then show "splay_inv edge_compare (edge_of n) (map_splay (\<lambda>z. if z = e then e' else z) (node_edges st n))"
    using e'(2) by (intro map_splay_inv [OF edges_invD(2) [OF inv]]) (auto simp: edge_compare_def)
  show "set (links (map_splay (\<lambda>z. if z = e then e' else z) (node_edges st n))) = {x \<in> insert e' (edge_set st - {e}). edge_from x = n}"
    using edges_invD(3) [OF inv, of n] e e'(2) by auto
qed

lemma edge_replaced:
  assumes inv: "edges_inv st" and e: "e \<in> edge_set st" and e': "edge_ok e'" "edge_key e' = edge_key e" "edge_weight e' = edge_weight e"
    and st': "st' = st\<lparr>node_edges := (\<lambda>n. map_splay (\<lambda>z. if z = e then e' else z) (node_edges st n)),
      edge_weight_tree := map_splay (\<lambda>z. if z = e then e' else z) (edge_weight_tree st)\<rparr>"
  shows "edges_inv st'" "edge_set st' = insert e' (edge_set st - {e})"
proof -
  show set: "edge_set st' = insert e' (edge_set st - {e})" using e by (auto simp: st' Edge.edges_def)
  have "splay_inv edge_weight_compare edge_ok (map_splay (\<lambda>z. if z = e then e' else z) (edge_weight_tree st))"
    by (rule map_splay_inv [OF edges_invD(1) [OF inv]]) (use e' in \<open>auto simp: edge_weight_compare_def Let_def\<close>)
  moreover have "reverse st' = reverse_of (edge_key ` edge_set st')"
    using inv unfolding set keys_replaced [OF e e'(2)] by (simp add: st' edges_inv_alt)
  ultimately show "edges_inv st'"
    using node_trees_replaced [OF inv e e'(1,2)] unfolding edges_inv_alt set by (simp add: st')
qed

lemma edge_reweighted:
  assumes inv: "edges_inv st" and e: "e \<in> edge_set st" and e': "edge_ok e'" "edge_key e' = edge_key e" "edge_weight e' \<noteq> edge_weight e"
    and st': "st' = st\<lparr>node_edges := (\<lambda>n. map_splay (\<lambda>z. if z = e then e' else z) (node_edges st n)),
      edge_weight_tree := fst (splay_insert_node (fst (splay_unlink (edge_weight_tree st) e)) e')\<rparr>"
  shows "edges_inv st'" "edge_set st' = insert e' (edge_set st - {e})"
proof -
  note T = edges_invD(1) [OF inv] and ok = edges_ok [OF inv e]
  note del = edge_weight_order.splay.del_law [OF T ok, folded splay_unlink_delete]
  note ins = edge_weight_order.splay.ins_law [OF conjunct1 [OF del] e'(1), folded edge_weight_order.splay_insert_node_eq]
  have gone: "set (links (fst (splay_unlink (edge_weight_tree st) e))) = edge_set st - {e}"
    using del edges_ok [OF inv] edge_weight_compare_zero [OF ok] edges_unique [OF inv e]
      by (auto simp: set_ordered_delete Edge.edges_def)
  have "x \<in> edge_set st - {e} \<Longrightarrow> edge_weight_compare e' x \<noteq> 0" for x
    using edge_weight_compare_zero [OF e'(1), of x] edges_ok [OF inv] edges_unique [OF inv _ e, of x] e'(2) by auto
  then show set: "edge_set st' = insert e' (edge_set st - {e})"
    using ins gone by (auto simp: st' Edge.edges_def set_ordered_insert)
  have "reverse st' = reverse_of (edge_key ` edge_set st')"
    using inv unfolding set keys_replaced [OF e e'(2)] by (simp add: st' edges_inv_alt)
  then show "edges_inv st'"
    using node_trees_replaced [OF inv e e'(1,2)] ins unfolding edges_inv_alt set by (simp add: st')
qed

lemma edge_update_inv:
  assumes inv: "edges_inv st" and e: "e \<in> edge_set st" and e': "edge_ok e'" "edge_key e' = edge_key e"
  shows "edges_inv (edge_update e e' st)" "edge_set (edge_update e e' st) = insert e' (edge_set st - {e})"
proof -
  let ?e1 = "e'\<lparr>edge_weight := edge_weight e\<rparr>"
  define st1 where "st1 = st\<lparr>node_edges := (\<lambda>n. map_splay (\<lambda>z. if z = e then ?e1 else z) (node_edges st n)),
      edge_weight_tree := map_splay (\<lambda>z. if z = e then ?e1 else z) (edge_weight_tree st)\<rparr>"
  have e1: "edge_ok ?e1" "edge_key ?e1 = edge_key e" "edge_weight ?e1 = edge_weight e"
    using edges_ok [OF inv e] e' by (auto simp: edge_ok_def)
  note one = edge_replaced [OF inv e e1 st1_def]
  have "edges_inv (edge_update e e' st) \<and> edge_set (edge_update e e' st) = insert e' (edge_set st - {e})"
  proof (cases "edge_weight e' = edge_weight e")
    case True
    then have "edge_update e e' st = st1" "?e1 = e'" by (simp_all add: edge_update_def st1_def Let_def)
    then show ?thesis using one by simp
  next
    case False
    have in1: "?e1 \<in> edge_set st1" using one(2) by simp
    have key: "edge_key e' = edge_key ?e1" "edge_weight e' \<noteq> edge_weight ?e1" using False by simp_all
    note two = edge_reweighted [OF one(1) in1 e'(1) key refl]
    have "edge_update e e' st = st1\<lparr>node_edges := (\<lambda>n. map_splay (\<lambda>z. if z = ?e1 then e' else z) (node_edges st1 n)),
      edge_weight_tree := fst (splay_insert_node (fst (splay_unlink (edge_weight_tree st1) ?e1)) e')\<rparr>"
      using False by (simp add: edge_update_def st1_def Let_def case_prod_beta)
    moreover have "?e1 \<notin> edge_set st - {e}" using edges_unique [OF inv _ e, of ?e1] e1(2) by auto
    ultimately show ?thesis using two one(2) by auto
  qed
  then show "edges_inv (edge_update e e' st)" "edge_set (edge_update e e' st) = insert e' (edge_set st - {e})" by simp_all
qed

text \<open>The three changes of the mesh, as changes of the map from pairs of nodes to edges.\<close>

lemma mesh_of_changes:
  assumes inv: "edges_inv st"
  shows "e \<in> edge_set st \<Longrightarrow> edge_ok e' \<Longrightarrow> edge_key e' = edge_key e \<Longrightarrow> mesh_of (edge_update e e' st) = (mesh_of st)(edge_key e \<mapsto> e')"
    and "edge_ok e' \<Longrightarrow> edge_key e' \<notin> edge_key ` edge_set st \<Longrightarrow> mesh_of (edge_add e' st) = (mesh_of st)(edge_key e' \<mapsto> e')"
    and "e \<in> edge_set st \<Longrightarrow> mesh_of (edge_del e st) = (mesh_of st)(edge_key e := None)"
proof -
  note M = mesh_of_Some [OF inv]
  show "mesh_of (edge_update e e' st) = (mesh_of st)(edge_key e \<mapsto> e')" if e: "e \<in> edge_set st" "edge_ok e'" "edge_key e' = edge_key e"
  proof (rule mesh_of_eqI [OF edge_update_inv(1) [OF inv e]])
    fix k x
    show "((mesh_of st)(edge_key e \<mapsto> e')) k = Some x \<longleftrightarrow> x \<in> edge_set (edge_update e e' st) \<and> edge_key x = k"
      unfolding edge_update_inv(2) [OF inv e] using M [of k x] edges_unique [OF inv _ e(1), of x] e(3) by auto
  qed
  show "mesh_of (edge_add e' st) = (mesh_of st)(edge_key e' \<mapsto> e')" if e: "edge_ok e'" "edge_key e' \<notin> edge_key ` edge_set st"
  proof (rule mesh_of_eqI [OF edge_add_new(1) [OF inv e]])
    fix k x
    have "edge_key x \<noteq> edge_key e'" if "x \<in> edge_set st"
      using imageI [OF that, of edge_key] e(2) by (cases "edge_key x = edge_key e'") simp_all
    then show "((mesh_of st)(edge_key e' \<mapsto> e')) k = Some x \<longleftrightarrow> x \<in> edge_set (edge_add e' st) \<and> edge_key x = k"
      unfolding edge_add_new(2) [OF inv e] using M [of k x] by (cases "x = e'"; cases "k = edge_key e'") simp_all
  qed
  show "mesh_of (edge_del e st) = (mesh_of st)(edge_key e := None)" if e: "e \<in> edge_set st"
  proof (rule mesh_of_eqI [OF edge_del_inv(1) [OF inv e]])
    fix k x
    show "((mesh_of st)(edge_key e := None)) k = Some x \<longleftrightarrow> x \<in> edge_set (edge_del e st) \<and> edge_key x = k"
      unfolding edge_del_inv(2) [OF inv e] using M [of k x] edges_unique [OF inv _ e, of x] by auto
  qed
qed

section \<open>The daemon's picture of the mesh\<close>

text \<open>Edges between known nodes, without the indirect option, and marks of reachability that agree with them.\<close>

definition mesh_shape :: "daemon_env \<Rightarrow> daemon \<Rightarrow> bool" where
  "mesh_shape env d \<longleftrightarrow> request_inv d \<and> edges_inv (edges d) \<and> self env \<in> known d \<and>
     (\<forall>e \<in> edge_set (edges d). edge_from e \<in> known d \<and> edge_to e \<in> known d \<and> edge_options e AND OPTION_INDIRECT = 0)"

definition mesh_inv :: "daemon_env \<Rightarrow> daemon \<Rightarrow> bool" where
  "mesh_inv env d \<longleftrightarrow> mesh_shape env d \<and> (\<forall>n \<in> known d. reachable (nodes d n) \<longleftrightarrow> (mutual (edges d))\<^sup>*\<^sup>* (self env) n)"

definition mesh_room :: "daemon_env \<Rightarrow> nat \<Rightarrow> nat \<Rightarrow> bool" where
  "mesh_room env n e \<longleftrightarrow> n < 2 ^ 31 \<and> 1 + n * Suc e \<le> graph_fuel env"

lemma mesh_room_mono: "mesh_room env n e \<Longrightarrow> n' \<le> n \<Longrightarrow> e' \<le> e \<Longrightarrow> mesh_room env n' e'"
proof -
  assume room: "mesh_room env n e" and le: "n' \<le> n" "e' \<le> e"
  then have "n' * Suc e' \<le> n * Suc e" by (intro mult_le_mono) simp_all
  with room le show ?thesis by (simp add: mesh_room_def)
qed

lemma tree_sizes:
  assumes "mesh_shape env d"
  shows "length (links (node_tree d)) = card (known d)" "length (links (edge_weight_tree (edges d))) = card (edge_set (edges d))"
    "distinct (links (node_tree d))"
proof -
  have "splay_inv strcmp c_string (node_tree d)" using assms by (simp add: mesh_shape_def request_inv_def)
  then show d: "distinct (links (node_tree d))"
    using strcmp_order.splay.inv_elems by (intro strcmp_order.sorted_distinct) blast+
  then show "length (links (node_tree d)) = card (known d)" by (simp add: known_def distinct_card)
  have "splay_inv edge_weight_compare edge_ok (edge_weight_tree (edges d))" using assms by (simp add: mesh_shape_def edges_invD)
  then have "distinct (links (edge_weight_tree (edges d)))"
    using edge_weight_order.splay.inv_elems by (intro edge_weight_order.sorted_distinct) blast+
  then show "length (links (edge_weight_tree (edges d))) = card (edge_set (edges d))" by (simp add: Edge.edges_def distinct_card)
qed

lemma run_graph_spec:
  assumes shape: "mesh_shape env d" and room: "mesh_room env (card (known d)) (card (edge_set (edges d)))"
  obtains d' where "\<And>k. run_graph env d k = k d'" "mesh_inv env d'" "edges d' = edges d" "known d' = known d" "seen d' = seen d"
    "outbox d' = outbox d" "connection_list d' = connection_list d"
proof -
  let ?s = "\<lparr>node_names = links (node_tree d), mesh_nodes = nodes d, mesh_edges = edges d, mesh_subnets = subnets d, mst_connections = mst_conns d\<rparr>"
  note size = tree_sizes [OF shape]
  have "direct_mesh (self env) ?s" using shape room size(1) by (auto simp: direct_mesh_def mesh_shape_def known_def mesh_room_def)
  then obtain s rep action where run: "graph (self env) (clock env) (device_standby env) (graph_fuel env) ?s = Graph_Done s rep action"
    using direct_mesh_ends [where me = "self env" and s = ?s and fuel = "graph_fuel env" and now = "clock env" and standby = "device_standby env"]
      room size by (auto simp: mesh_room_def)
  have inv: "edges_inv (mesh_edges ?s)" "distinct (node_names ?s)" using shape size(3) by (simp_all add: mesh_shape_def)
  have reach: "reachable (mesh_nodes s n) \<longleftrightarrow> (mutual (edges d))\<^sup>*\<^sup>* (self env) n" if "n \<in> known d" for n
    by (rule graph_done [OF inv run]) (use that in \<open>simp add: known_def\<close>)
  let ?d = "d\<lparr>nodes := mesh_nodes s, subnets := mesh_subnets s, mst_conns := mst_connections s,
     scripts_run := scripts_run d @ map (\<lambda>(n, up). (n, None, up)) (host_scripts rep)\<rparr>"
  show thesis
  proof (rule that [of ?d])
    show "run_graph env d k = k ?d" for k by (simp add: run_graph_def run)
    show "mesh_inv env ?d" using shape reach by (simp add: mesh_inv_def mesh_shape_def request_inv_def known_def)
  qed (simp_all add: known_def seen_def)
qed

text \<open>Steps that touch neither nodes nor edges.\<close>

definition still :: "daemon \<Rightarrow> daemon \<Rightarrow> bool" where
  "still d d' \<longleftrightarrow> known d' = known d \<and> edges d' = edges d \<and> nodes d' = nodes d \<and> outbox d' = outbox d \<and>
     connection_list d' = connection_list d"

lemma mesh_inv_still: "mesh_inv env d \<Longrightarrow> still d d' \<Longrightarrow> request_inv d' \<Longrightarrow> mesh_inv env d'"
  by (simp add: mesh_inv_def mesh_shape_def still_def)

lemma mesh_inv_node_add:
  assumes inv: "mesh_inv env d" and n: "c_string n" "n \<notin> known d"
  shows "mesh_inv env (node_add n d)" "edges (node_add n d) = edges d" "known (node_add n d) = insert n (known d)"
proof -
  have shape: "request_inv d" using inv by (simp add: mesh_inv_def mesh_shape_def)
  note add = node_add_spec [OF shape n(1)]
  have frame: "edges (node_add n d) = edges d" "nodes (node_add n d) = (nodes d)(n := new_node)" "\<not> reachable new_node"
    by (simp_all add: node_add_def new_node_def)
  then show "edges (node_add n d) = edges d" "known (node_add n d) = insert n (known d)" using add by simp_all
  have "\<not> (mutual (edges d))\<^sup>*\<^sup>* (self env) n"
  proof
    assume "(mutual (edges d))\<^sup>*\<^sup>* (self env) n"
    then show False
    proof (cases rule: rtranclp.cases)
      case rtrancl_refl
      then show False using inv n(2) by (simp add: mesh_inv_def mesh_shape_def)
    next
      case (rtrancl_into_rtrancl m)
      then show False using inv n(2) by (auto simp: mesh_inv_def mesh_shape_def mutual_def)
    qed
  qed
  then show "mesh_inv env (node_add n d)"
    using inv n(2) add frame by (auto simp: mesh_inv_def mesh_shape_def)
qed

section \<open>Reading the requests\<close>

lemma word_scans:
  assumes "text_word s"
  shows "scan_space (CHR '' '' # s @ t) = s @ t" "scan_s 2048 (s @ CHR '' '' # t) = Some (s, CHR '' '' # t)"
    "scan_space (CHR '' '' # s) = s" "scan_s 2048 s = Some (s, [])"
proof -
  have s: "s \<noteq> []" "length s \<le> 2048" "\<And>c. c \<in> set s \<Longrightarrow> \<not> isspace c" using assms by (auto simp: text_word_def)
  have hd: "\<not> isspace (hd (s @ t))" for t using s by (simp add: hd_append)
  show "scan_space (CHR '' '' # s @ t) = s @ t" using scan_space_word [of "s @ t"] s(1) hd by simp
  show "scan_space (CHR '' '' # s) = s" using scan_space_word [of s] s(1) hd [of "[]"] by simp
  show "scan_s 2048 (s @ CHR '' '' # t) = Some (s, CHR '' '' # t)" by (rule scan_s_word) (use s in \<open>auto simp: isspace_def\<close>)
  show "scan_s 2048 s = Some (s, [])" using scan_s_word [of s 2048 "[]"] s by simp
qed

lemma number_scans:
  "n < 2 ^ 32 \<Longrightarrow> scan_x 32 (print_x n @ CHR '' '' # t) = Some (n, CHR '' '' # t)" "scan_space (CHR '' '' # print_x n @ t) = print_x n @ t"
  "c_int_ok v \<Longrightarrow> scan_d (print_d v @ CHR '' '' # t) = Some (v, CHR '' '' # t)" "c_int_ok v \<Longrightarrow> scan_d (print_d v) = Some (v, [])"
  "scan_space (CHR '' '' # print_d v @ t) = print_d v @ t" "scan_space (CHR '' '' # print_d v) = print_d v" "scan_s k [] = None" "scan_space [] = []"
proof -
  have sp: "\<not> isdigit (CHR '' '')" "\<not> isxdigit (CHR '' '')" by (simp_all add: isdigit_def isxdigit_def)
  show "n < 2 ^ 32 \<Longrightarrow> scan_x 32 (print_x n @ CHR '' '' # t) = Some (n, CHR '' '' # t)" by (rule scan_x_print) (use sp in simp_all)
  show "c_int_ok v \<Longrightarrow> scan_d (print_d v @ CHR '' '' # t) = Some (v, CHR '' '' # t)" by (rule scan_d_print) (use sp in simp_all)
  show "c_int_ok v \<Longrightarrow> scan_d (print_d v) = Some (v, [])" using scan_d_print [of v "[]"] by simp
  have x: "\<not> isspace (hd (print_x n @ t))" for t using hd_digit(1) digit_not_space by (simp add: hd_append)
  have d: "\<not> isspace (hd (print_d v @ t))" "print_d v \<noteq> []" for t
    using hd_digit(2) digit_not_space by (auto simp: print_d_def hd_append isspace_def)
  show "scan_space (CHR '' '' # print_x n @ t) = print_x n @ t" using scan_space_word [of "print_x n @ t"] x by simp
  show "scan_space (CHR '' '' # print_d v @ t) = print_d v @ t" using scan_space_word [of "print_d v @ t"] d by simp
  show "scan_space (CHR '' '' # print_d v) = print_d v" using scan_space_word [of "print_d v"] d(1) [of "[]"] d(2) by simp
qed (simp_all add: scan_s_def scan_space_def)

definition words_ok :: "(string \<times> string) option \<Rightarrow> bool" where
  "words_ok loc \<longleftrightarrow> (case loc of None \<Rightarrow> True | Some (a, p) \<Rightarrow> text_word a \<and> text_word p \<and> c_string a \<and> c_string p)"

lemma add_edge_scan:
  assumes "c_int_ok q" "r < 2 ^ 32" "text_word from" "text_word to" "words_ok (Some address)" "c_int_ok w" "words_ok loc"
  shows "edge_args (fst (sscanf add_edge_format (edge_line q r from to @ edge_details address options w loc))) =
    Some (from, to, address, options, w, loc)"
proof -
  have opt: "unat options < 2 ^ 32" using unsigned_less [of options] by simp
  note scans = word_scans [OF assms(3)] word_scans [OF assms(4)] number_scans(1) [OF assms(2)] number_scans(1) [OF opt]
    number_scans(3) [OF assms(1)] number_scans(3,4) [OF assms(6)] number_scans(2,5-8)
  show ?thesis
  proof (cases address)
    case (Pair a p)
    with assms(5) have "text_word a" "text_word p" by (simp_all add: words_ok_def)
    note ap = word_scans [OF this(1)] word_scans [OF this(2)]
    show ?thesis
    proof (cases loc)
      case None
      show ?thesis by (simp add: add_edge_format_def edge_line_def edge_details_def edge_args_def None Pair scans ap)
    next
      case (Some l)
      then obtain la lp where l: "loc = Some (la, lp)" "text_word la" "text_word lp" using assms(7) by (cases l) (auto simp: words_ok_def)
      note lap = word_scans [OF l(2)] word_scans [OF l(3)]
      show ?thesis by (simp add: add_edge_format_def edge_line_def edge_details_def edge_args_def l(1) Pair scans ap lap)
    qed
  qed
qed

lemma del_edge_scan:
  assumes "c_int_ok q" "r < 2 ^ 32" "text_word from" "text_word to"
  shows "fst (sscanf del_edge_format (edge_line q r from to)) = [V_String from, V_String to]"
  by (simp add: del_edge_format_def edge_line_def word_scans [OF assms(3)] word_scans [OF assms(4)] number_scans(1) [OF assms(2)]
      number_scans(3) [OF assms(1)] number_scans(2))

section \<open>Handling an announcement\<close>

lemma edge_request_start:
  assumes inv: "mesh_inv env d" and c: "c_string line" "c_string from" "c_string to"
  obtains d1 d2 d3 where "seen_request env line d = (line \<in> seen d, d1)"
    "lookup_node from d1 = (if from \<in> known d then Some from else None, d2)" "lookup_node to d2 = (if to \<in> known d then Some to else None, d3)"
    "mesh_inv env d1" "still d d1" "seen d1 = insert line (seen d)" "mesh_inv env d3" "still d d3" "seen d3 = insert line (seen d)"
proof -
  have req: "request_inv d" using inv by (simp add: mesh_inv_def mesh_shape_def)
  from seen_request_spec [OF req c(1), of env] obtain p where p: "seen_request env line d = (line \<in> seen d, d\<lparr>past_request_tree := p\<rparr>)"
    "request_inv (d\<lparr>past_request_tree := p\<rparr>)" "request ` set (links p) = insert line (seen d)" by blast
  let ?d1 = "d\<lparr>past_request_tree := p\<rparr>"
  from lookup_node_spec [OF p(2) c(2)] obtain t where t: "lookup_node from ?d1 = (if from \<in> known ?d1 then Some from else None, ?d1\<lparr>node_tree := t\<rparr>)"
    "links t = links (node_tree ?d1)" "splay_inv strcmp c_string t" by blast
  let ?d2 = "?d1\<lparr>node_tree := t\<rparr>"
  have r2: "request_inv ?d2" using p(2) t(3) by (simp add: request_inv_def)
  from lookup_node_spec [OF r2 c(3)] obtain u where u: "lookup_node to ?d2 = (if to \<in> known ?d2 then Some to else None, ?d2\<lparr>node_tree := u\<rparr>)"
    "links u = links (node_tree ?d2)" "splay_inv strcmp c_string u" by blast
  let ?d3 = "?d2\<lparr>node_tree := u\<rparr>"
  have r3: "request_inv ?d3" using p(2) u(3) by (simp add: request_inv_def)
  have k: "known ?d1 = known d" "known ?d2 = known d" "known ?d3 = known d" using t(2) u(2) by (simp_all add: known_def)
  have s: "still d ?d1" "still d ?d3" using k by (simp_all add: still_def)
  show thesis
    by (rule that [OF p(1) _ _ mesh_inv_still [OF inv s(1) p(2)] s(1) _ mesh_inv_still [OF inv s(2) r3] s(2)])
       (use t(1) u(1) k p(3) in \<open>simp_all add: seen_def\<close>)
qed

lemma known_edge_spec:
  assumes inv: "mesh_inv env d" and c: "c_string from" "c_string to"
  obtains es where "known_edge from to d = (mesh_of (edges d) (from, to), d\<lparr>edges := es\<rparr>)" "edge_set es = edge_set (edges d)"
    "mesh_of es = mesh_of (edges d)" "mesh_inv env (d\<lparr>edges := es\<rparr>)" "edges_inv es"
proof -
  have E: "edges_inv (edges d)" using inv by (simp add: mesh_inv_def mesh_shape_def)
  obtain r es where look: "lookup_edge from to (edges d) = (r, es)" by fastforce
  note L = lookup_edge_result [OF E c, unfolded look fst_conv snd_conv]
  have r: "r = mesh_of (edges d) (from, to)"
    using L(1) L(2) mesh_of_Some [OF E, of "(from, to)"] mesh_of_None [of "edges d" "(from, to)"]
    by (cases r; cases "mesh_of (edges d) (from, to)") auto
  have m: "mesh_of es = mesh_of (edges d)" using mesh_of_Some [OF E] by (intro mesh_of_eqI [OF L(3)]) (simp add: L(4))
  have "mutual es = mutual (edges d)" by (intro ext) (simp add: mutual_def L(4))
  then have "mesh_inv env (d\<lparr>edges := es\<rparr>)" using inv L(3,4) by (simp add: mesh_inv_def mesh_shape_def request_inv_def known_def)
  with r m L(3,4) look show thesis by (intro that [of es]) (simp_all add: known_edge_def)
qed

lemma edge_changed_effect:
  assumes shape: "mesh_shape env d" and room: "mesh_room env (card (known d)) (card (edge_set (edges d)))" and mode: "\<not> tunnelserver env"
  obtains d' where "edge_changed env c line d = Returned True d'" "mesh_inv env d'" "edges d' = edges d" "known d' = known d" "seen d' = seen d"
    "outbox d' = outbox d @ map (\<lambda>c. (conn_id c, line)) (recipients (Some c) d)" "connection_list d' = connection_list d"
proof -
  let ?d = "forward_request env c line d"
  have frame: "known ?d = known d" "edges ?d = edges d" "seen ?d = seen d" "connection_list ?d = connection_list d" "request_inv ?d = request_inv d"
    by (simp_all add: forward_request_outbox known_def)
  have "mesh_shape env ?d" using shape frame by (simp add: mesh_shape_def)
  then obtain d' where d': "\<And>k. run_graph env ?d k = k d'" "mesh_inv env d'" "edges d' = edges ?d" "known d' = known ?d" "seen d' = seen ?d"
    "outbox d' = outbox ?d" "connection_list d' = connection_list ?d"
    by (rule run_graph_spec [where env = env]) (use room frame in simp_all)
  show thesis
    by (rule that [of d']) (use d' frame mode in \<open>simp_all add: edge_changed_def\<close>, simp add: forward_request_outbox)
qed

lemma store_edge_effect:
  assumes inv: "mesh_inv env d" and n: "from \<in> known d" "to \<in> known d" "c_string from" "c_string to" "from \<noteq> self env"
    and e: "options AND OPTION_INDIRECT = 0" "0 \<le> w" "c_int_ok w"
    and mode: "\<not> tunnelserver env" and room: "mesh_room env (card (known d)) (Suc (card (edge_set (edges d))))"
    and same: "same \<longleftrightarrow> (\<exists>e. mesh_of (edges d) (from, to) = Some e \<and> edge_same address local options w e)"
  obtains d' e where "store_edge env c line from to address local options w d = Returned True d'" "mesh_inv env d'"
    "known d' = known d" "seen d' = seen d" "connection_list d' = connection_list d"
    "mesh_of (edges d') = (mesh_of (edges d))((from, to) \<mapsto> e)" "edge_weight e = w" "edge_options e = options" "sockaddrcmp (edge_address e) address = 0"
    "outbox d' = outbox d @ (if same then [] else map (\<lambda>c. (conn_id c, line)) (recipients (Some c) d))"
proof -
  note result = that
  obtain es where es: "known_edge from to d = (mesh_of (edges d) (from, to), d\<lparr>edges := es\<rparr>)" "edge_set es = edge_set (edges d)"
    "mesh_of es = mesh_of (edges d)" "mesh_inv env (d\<lparr>edges := es\<rparr>)" "edges_inv es" by (rule known_edge_spec [OF inv n(3,4)])
  have shape: "mesh_shape env (d\<lparr>edges := st\<rparr>)" if "edges_inv st"
      "\<forall>x \<in> edge_set st. x \<in> edge_set (edges d) \<or> (edge_key x = (from, to) \<and> edge_options x = options)" for st
    using inv that n(1,2) e(1) by (auto simp: mesh_inv_def mesh_shape_def request_inv_def known_def)
  have frame: "known (d\<lparr>edges := st\<rparr>) = known d" "seen (d\<lparr>edges := st\<rparr>) = seen d" "recipients x (d\<lparr>edges := st\<rparr>) = recipients x d" for st x
    by (simp_all add: known_def seen_def recipients_def)
  have fin: "finite (edge_set (edges d))" by (simp add: Edge.edges_def)
  have change: thesis if st: "edges_inv st" "mesh_of st = (mesh_of (edges d))((from, to) \<mapsto> x)" "edge_set st \<subseteq> insert x (edge_set (edges d))"
      "edge_key x = (from, to)" "edge_options x = options" "edge_weight x = w" "sockaddrcmp (edge_address x) address = 0" "\<not> same"
      and run: "store_edge env c line from to address local options w d = edge_changed env c line (d\<lparr>edges := st\<rparr>)" for st x
  proof -
    have "card (edge_set st) \<le> Suc (card (edge_set (edges d)))"
      using card_mono [OF _ st(3)] card_insert_if [OF fin, of x] fin by (simp split: if_splits)
    then have room': "mesh_room env (card (known (d\<lparr>edges := st\<rparr>))) (card (edge_set (edges (d\<lparr>edges := st\<rparr>))))"
      using room frame by (auto intro: mesh_room_mono)
    have ok: "mesh_shape env (d\<lparr>edges := st\<rparr>)" by (rule shape [OF st(1)]) (use st(3-5) in auto)
    obtain d' where d': "edge_changed env c line (d\<lparr>edges := st\<rparr>) = Returned True d'" "mesh_inv env d'" "edges d' = edges (d\<lparr>edges := st\<rparr>)"
      "known d' = known (d\<lparr>edges := st\<rparr>)" "seen d' = seen (d\<lparr>edges := st\<rparr>)"
      "outbox d' = outbox (d\<lparr>edges := st\<rparr>) @ map (\<lambda>c. (conn_id c, line)) (recipients (Some c) (d\<lparr>edges := st\<rparr>))"
      "connection_list d' = connection_list (d\<lparr>edges := st\<rparr>)"
      by (rule edge_changed_effect [OF ok room' mode]) (rule that)
    show thesis by (rule result [of d' x]) (use d' run st frame in simp_all)
  qed
  show thesis
  proof (cases "mesh_of (edges d) (from, to)")
    case None
    let ?e = "(new_edge from to)\<lparr>edge_address := address, edge_local_address := local, edge_options := options, edge_weight := w\<rparr>"
    have ok: "edge_ok ?e" "edge_key ?e = (from, to)" using n(3,4) e(2,3) by (simp_all add: edge_ok_def new_edge_def)
    have fresh: "edge_key ?e \<notin> edge_key ` edge_set es" using None es(3) ok(2) mesh_of_None [of es] by simp
    show thesis
      by (rule change [of "edge_add ?e es" ?e])
         (use edge_add_new [OF es(5) ok(1) fresh] mesh_of_changes(2) [OF es(5) ok(1) fresh] es(1-3) ok(2) n(5) None same in
           \<open>auto simp: store_edge_def\<close>)
  next
    case (Some x)
    let ?e = "edge_revised address local options w x"
    have x: "x \<in> edge_set es" "edge_key x = (from, to)" using Some es(3,5) mesh_of_Some by metis+
    have ok: "edge_ok ?e" "edge_key ?e = edge_key x" using edges_ok [OF es(5) x(1)] e(2,3) by (simp_all add: edge_ok_def edge_revised_def)
    show thesis
    proof (cases same)
      case True
      then have "edge_same address local options w x" using same Some by simp
      moreover have "(mesh_of (edges d))((from, to) \<mapsto> x) = mesh_of (edges d)" using Some by auto
      ultimately show thesis using es Some True frame
        by (intro result [of "d\<lparr>edges := es\<rparr>" x]) (simp_all add: store_edge_def edge_same_def)
    next
      case False
      then have "\<not> edge_same address local options w x" using same Some by simp
      then show thesis
        by (intro change [of "edge_update x ?e es" ?e])
           (use edge_update_inv [OF es(5) x(1) ok] mesh_of_changes(1) [OF es(5) x(1) ok] es(1-3) x(2) ok(2) n(5) Some False in
             \<open>auto simp: store_edge_def edge_revised_def\<close>)
    qed
  qed
qed

definition edge_request_ok :: "string \<Rightarrow> string \<Rightarrow> bool" where
  "edge_request_ok from to \<longleftrightarrow> check_id from \<and> check_id to \<and> from \<noteq> to \<and> length from \<le> 2048 \<and> length to \<le> 2048"

lemma edge_request_names:
  assumes "edge_request_ok from to"
  shows "text_word from" "text_word to" "c_string from" "c_string to" "check_id from" "check_id to" "from \<noteq> to"
  using assms check_id_word check_id_c_string by (auto simp: edge_request_ok_def)

lemma edge_line_c_string: "c_string from \<Longrightarrow> c_string to \<Longrightarrow> c_string (edge_line q r from to)"
  using subnet_line_c_string [of "from" to q r] by (simp add: edge_line_def subnet_line_def)

lemma edge_details_c_string: "words_ok (Some a) \<Longrightarrow> words_ok loc \<Longrightarrow> c_string (edge_details a options w loc)"
proof -
  have "CHR 0x00 \<notin> set (print_d w)" "CHR 0x00 \<notin> set (print_x (unat options))"
    using dec_digits [of "CHR 0x00"] hex_digits [of "CHR 0x00" "unat options"] by (auto simp: print_d_def isdigit_def isxdigit_def split: if_splits)
  then show "words_ok (Some a) \<Longrightarrow> words_ok loc \<Longrightarrow> c_string (edge_details a options w loc)"
    by (auto simp: edge_details_def words_ok_def c_string_def split: option.splits prod.splits)
qed

lemma c_string_append: "c_string s \<Longrightarrow> c_string t \<Longrightarrow> c_string (s @ t)"
  by (auto simp: c_string_def)

text \<open>Both ends of the edge are known when it is stored.\<close>

lemma nodes_added:
  assumes inv: "mesh_inv env d" and c: "c_string from" "c_string to"
    and d': "d' = (if to \<in> known d then (if from \<in> known d then d else node_add from d) else node_add to (if from \<in> known d then d else node_add from d))"
    and ne: "from \<noteq> to"
  shows "mesh_inv env d'" "edges d' = edges d" "known d' = insert from (insert to (known d))" "seen d' = seen d" "outbox d' = outbox d"
    "connection_list d' = connection_list d"
proof -
  let ?d = "if from \<in> known d then d else node_add from d"
  have 1: "mesh_inv env ?d" "edges ?d = edges d" "known ?d = insert from (known d)"
    using mesh_inv_node_add [OF inv c(1)] inv by auto
  have "to \<in> known d \<longleftrightarrow> to \<in> known ?d" using 1(3) ne by auto
  then have 2: "d' = (if to \<in> known ?d then ?d else node_add to ?d)" by (simp add: d')
  show "mesh_inv env d'" "edges d' = edges d" "known d' = insert from (insert to (known d))"
    using mesh_inv_node_add [OF 1(1) c(2)] 1 unfolding 2 by auto
  show "seen d' = seen d" "outbox d' = outbox d" "connection_list d' = connection_list d" by (simp_all add: d' node_add_def seen_def)
qed

lemma add_edge_h_effect:
  assumes inv: "mesh_inv env d" and names: "edge_request_ok from to" and w: "words_ok (Some (a, p))" "words_ok loc" "0 \<le> wt" "c_int_ok wt"
    and r: "r < 2 ^ 32" and other: "from \<noteq> self env" and opt: "options AND OPTION_INDIRECT = 0" and mode: "\<not> tunnelserver env"
    and room: "mesh_room env (card (known d) + 2) (Suc (card (edge_set (edges d))))"
    and line: "line = edge_line ADD_EDGE r from to @ edge_details (a, p) options wt loc"
    and address: "address = str2sockaddr env a p" and local: "local = (case loc of None \<Rightarrow> AF_UNSPEC | Some (la, lp) \<Rightarrow> str2sockaddr env la lp)"
    and same: "same \<longleftrightarrow> (\<exists>e. mesh_of (edges d) (from, to) = Some e \<and> edge_same address local options wt e)"
  obtains d' where "add_edge_h env c line d = Returned True d'" "mesh_inv env d'" "seen d' = insert line (seen d)" "connection_list d' = connection_list d"
    "outbox d' = outbox d @ (if line \<in> seen d \<or> same then [] else map (\<lambda>c. (conn_id c, line)) (recipients (Some c) d))"
    "line \<in> seen d \<Longrightarrow> mesh_of (edges d') = mesh_of (edges d)"
    "line \<notin> seen d \<Longrightarrow> \<exists>e. mesh_of (edges d') = (mesh_of (edges d))((from, to) \<mapsto> e) \<and> edge_weight e = wt \<and> edge_options e = options \<and>
       sockaddrcmp (edge_address e) address = 0"
proof -
  note n = edge_request_names [OF names]
  have scan: "edge_args (fst (sscanf add_edge_format line)) = Some (from, to, (a, p), options, wt, loc)"
    unfolding line by (rule add_edge_scan) (use r n w in \<open>simp_all add: c_int_ok_def\<close>)
  have cl: "c_string line" unfolding line using n w by (intro c_string_append edge_line_c_string edge_details_c_string)
  obtain d1 d2 d3 where start: "seen_request env line d = (line \<in> seen d, d1)"
    "lookup_node from d1 = (if from \<in> known d then Some from else None, d2)" "lookup_node to d2 = (if to \<in> known d then Some to else None, d3)"
    "mesh_inv env d1" "still d d1" "seen d1 = insert line (seen d)" "mesh_inv env d3" "still d d3" "seen d3 = insert line (seen d)"
    by (rule edge_request_start [OF inv cl n(3,4)])
  show thesis
  proof (cases "line \<in> seen d")
    case True
    then show thesis using start scan n by (intro that [of d1]) (simp_all add: add_edge_h_def still_def)
  next
    case False
    define d4 where "d4 = (if to \<in> known d3 then (if from \<in> known d3 then d3 else node_add from d3) else node_add to (if from \<in> known d3 then d3 else node_add from d3))"
    note d4 = nodes_added [OF start(7) n(3,4) d4_def n(7)]
    have k: "known d3 = known d" "edges d3 = edges d" "outbox d3 = outbox d" "connection_list d3 = connection_list d" using start(8) by (simp_all add: still_def)
    have fin: "finite (known d)" by (simp add: known_def)
    have "card (known d4) \<le> card (known d) + 2" using d4(3) k(1) fin by (simp add: card_insert_if)
    then have room': "mesh_room env (card (known d4)) (Suc (card (edge_set (edges d4))))" using room d4(2) k(2) by (auto intro: mesh_room_mono)
    have in4: "from \<in> known d4" "to \<in> known d4" using d4(3) by auto
    have same4: "same \<longleftrightarrow> (\<exists>e. mesh_of (edges d4) (from, to) = Some e \<and> edge_same address local options wt e)" using same d4(2) k(2) by simp
    obtain d' e where d': "store_edge env c line from to address local options wt d4 = Returned True d'" "mesh_inv env d'"
      "known d' = known d4" "seen d' = seen d4" "connection_list d' = connection_list d4"
      "mesh_of (edges d') = (mesh_of (edges d4))((from, to) \<mapsto> e)" "edge_weight e = wt" "edge_options e = options" "sockaddrcmp (edge_address e) address = 0"
      "outbox d' = outbox d4 @ (if same then [] else map (\<lambda>c. (conn_id c, line)) (recipients (Some c) d4))"
      by (rule store_edge_effect [OF d4(1) in4 n(3,4) other opt w(3,4) mode room' same4]) (rule that)
    have "add_edge_h env c line d = Returned True d'"
      using d'(1) start(1-3) scan n False mode unfolding add_edge_h_def d4_def k address local
      by (cases "from \<in> known d"; cases "to \<in> known d") (simp_all add: Let_def)
    moreover have "recipients (Some c) d4 = recipients (Some c) d" using d4(6) k(4) by (simp add: recipients_def)
    ultimately show thesis using d' d4 k start(9) False by (intro that [of d']) auto
  qed
qed

section \<open>Handling a withdrawal\<close>

lemma mutual_mesh: "mutual st a b \<longleftrightarrow> mesh_of st (a, b) \<noteq> None \<and> mesh_of st (b, a) \<noteq> None"
  by (simp add: mutual_def mesh_of_None)

lemma mesh_shape_del:
  assumes "mesh_shape env d" "e \<in> edge_set (edges d)"
  shows "mesh_shape env (d\<lparr>edges := edge_del e (edges d)\<rparr>)" "card (edge_set (edge_del e (edges d))) \<le> card (edge_set (edges d))"
proof -
  have inv: "edges_inv (edges d)" using assms(1) by (simp add: mesh_shape_def)
  note del = edge_del_inv [OF inv assms(2)]
  show "mesh_shape env (d\<lparr>edges := edge_del e (edges d)\<rparr>)" using assms(1) del by (simp add: mesh_shape_def request_inv_def known_def)
  show "card (edge_set (edge_del e (edges d))) \<le> card (edge_set (edges d))" unfolding del(2) by (rule card_mono) (auto simp: Edge.edges_def)
qed

text \<open>An edge without a counterpart can be taken out without changing what is reachable.\<close>

lemma mesh_inv_del_single:
  assumes inv: "mesh_inv env d" and e: "e \<in> edge_set (edges d)" "\<not> mutual (edges d) (edge_from e) (edge_to e)"
  shows "mesh_inv env (d\<lparr>edges := edge_del e (edges d)\<rparr>)"
proof -
  have shape: "mesh_shape env d" using inv by (simp add: mesh_inv_def)
  then have E: "edges_inv (edges d)" by (simp add: mesh_shape_def)
  have keys: "edge_key ` edge_set (edge_del e (edges d)) = edge_key ` edge_set (edges d) - {edge_key e}"
    unfolding edge_del_inv(2) [OF E e(1)] using edges_unique [OF E _ e(1)] by auto
  define K where "K = edge_key ` edge_set (edges d)"
  have K: "edge_key e \<in> K" "(edge_to e, edge_from e) \<notin> K" using e by (auto simp: mutual_def K_def)
  have "mutual (edge_del e (edges d)) a b \<longleftrightarrow> mutual (edges d) a b" for a b
    unfolding mutual_def keys K_def [symmetric] using K by auto
  then have "mutual (edge_del e (edges d)) = mutual (edges d)" by (intro ext)
  then show ?thesis using inv mesh_shape_del [OF shape e(1)] by (simp add: mesh_inv_def known_def)
qed

lemma send_del_edge_everyone_frame:
  "still (d\<lparr>outbox := outbox (snd (send_del_edge_everyone env e d))\<rparr>) (snd (send_del_edge_everyone env e d))"
  "seen (snd (send_del_edge_everyone env e d)) = seen d" "request_inv (snd (send_del_edge_everyone env e d)) = request_inv d"
  "\<exists>ms. outbox (snd (send_del_edge_everyone env e d)) = outbox d @ ms \<and> (\<forall>m \<in> set ms. \<exists>r. snd m = edge_line DEL_EDGE r (edge_from e) (edge_to e))"
  by (auto simp: send_del_edge_everyone_def next_rand_def send_everyone_def broadcast_meta_outbox still_def known_def seen_def request_inv_def)

text \<open>What is sent about the edge back: nothing if it stays or there is none, and only withdrawals of it.\<close>

definition return_notices :: "daemon_env \<Rightarrow> string \<Rightarrow> daemon \<Rightarrow> (nat \<times> string) list \<Rightarrow> bool" where
  "return_notices env to d ms \<longleftrightarrow> (reachable (nodes d to) \<or> mesh_of (edges d) (to, self env) = None \<longrightarrow> ms = []) \<and>
     (\<forall>m \<in> set ms. \<exists>r. snd m = edge_line DEL_EDGE r to (self env))"

lemma drop_return_edge_effect:
  assumes inv: "mesh_inv env d" and n: "to \<in> known d" "c_string to" "c_string (self env)"
  obtains d' where "drop_return_edge env to d = Returned True d'" "mesh_inv env d'" "seen d' = seen d" "connection_list d' = connection_list d"
    "mesh_of (edges d') = (if reachable (nodes d to) then mesh_of (edges d) else (mesh_of (edges d))((to, self env) := None))"
    "\<exists>ms. outbox d' = outbox d @ ms \<and> return_notices env to d ms"
proof (cases "reachable (nodes d to)")
  case True
  then show thesis using inv by (intro that [of d]) (simp_all add: drop_return_edge_def return_notices_def)
next
  case False
  obtain es where es: "known_edge to (self env) d = (mesh_of (edges d) (to, self env), d\<lparr>edges := es\<rparr>)" "edge_set es = edge_set (edges d)"
    "mesh_of es = mesh_of (edges d)" "mesh_inv env (d\<lparr>edges := es\<rparr>)" "edges_inv es" by (rule known_edge_spec [OF inv n(2,3)])
  show thesis
  proof (cases "mesh_of (edges d) (to, self env)")
    case None
    then have "(mesh_of (edges d))((to, self env) := None) = mesh_of (edges d)" by auto
    with None False es show thesis by (intro that [of "d\<lparr>edges := es\<rparr>"]) (simp_all add: drop_return_edge_def seen_def return_notices_def)
  next
    case (Some e)
    have e: "e \<in> edge_set es" "edge_key e = (to, self env)" using Some es(3,5) mesh_of_Some by metis+
    let ?d1 = "d\<lparr>edges := es\<rparr>"
    define d2 where "d2 = (if tunnelserver env then ?d1 else snd (send_del_edge_everyone env e ?d1))"
    have d2: "still (?d1\<lparr>outbox := outbox d2\<rparr>) d2" "seen d2 = seen ?d1" "request_inv d2 = request_inv ?d1"
      "\<exists>ms. outbox d2 = outbox ?d1 @ ms \<and> (\<forall>m \<in> set ms. \<exists>r. snd m = edge_line DEL_EDGE r (edge_from e) (edge_to e))"
      using send_del_edge_everyone_frame [where d = ?d1 and env = env and e = e] by (auto simp: d2_def still_def)
    have inv1: "mesh_inv env (?d1\<lparr>outbox := outbox d2\<rparr>)" using es(4) by (simp add: mesh_inv_def mesh_shape_def known_def)
    have inv2: "mesh_inv env d2" by (rule mesh_inv_still [OF inv1 d2(1)]) (use d2(3) es(4) in \<open>simp add: mesh_inv_def mesh_shape_def\<close>)
    have frame: "edges d2 = es" "known d2 = known d" "nodes d2 = nodes d" "connection_list d2 = connection_list d"
      using d2(1) by (simp_all add: still_def known_def)
    have "\<not> mutual es (self env) to"
    proof
      assume "mutual es (self env) to"
      then have "(mutual (edges d2))\<^sup>*\<^sup>* (self env) to" using frame(1) by (simp add: r_into_rtranclp)
      then show False using inv2 False n(1) frame by (simp add: mesh_inv_def)
    qed
    then have single: "\<not> mutual (edges d2) (edge_from e) (edge_to e)" using e(2) frame(1) by (auto simp: mutual_def)
    have e2: "e \<in> edge_set (edges d2)" using e(1) frame(1) by simp
    have "drop_return_edge env to d = Returned True (d2\<lparr>edges := edge_del e (edges d2)\<rparr>)"
      using False es(1) Some by (simp add: drop_return_edge_def d2_def Let_def)
    then show thesis
    proof (rule that [OF _ mesh_inv_del_single [OF inv2 e2 single]], goal_cases)
      case 3
      show ?case using mesh_of_changes(3) [OF es(5) e(1)] e(2) es(3) False frame(1) by simp
    next
      case 4
      show ?case using d2(4) e(2) Some False by (auto simp: return_notices_def)
    qed (use d2 frame in \<open>simp_all add: seen_def\<close>)
  qed
qed

lemma del_edge_h_effect:
  assumes inv: "mesh_inv env d" and names: "edge_request_ok from to" and me: "c_string (self env)"
    and r: "r < 2 ^ 32" and other: "from \<noteq> self env" and mode: "\<not> tunnelserver env"
    and room: "mesh_room env (card (known d)) (card (edge_set (edges d)))"
    and line: "line = edge_line DEL_EDGE r from to"
    and news: "news \<longleftrightarrow> line \<notin> seen d \<and> mesh_of (edges d) (from, to) \<noteq> None"
  obtains d' where "del_edge_h env c line d = Returned True d'" "mesh_inv env d'" "seen d' = insert line (seen d)" "connection_list d' = connection_list d"
    "\<not> news \<Longrightarrow> mesh_of (edges d') = mesh_of (edges d) \<and> outbox d' = outbox d"
    "news \<Longrightarrow> (\<exists>ms. outbox d' = outbox d @ map (\<lambda>c. (conn_id c, line)) (recipients (Some c) d) @ ms \<and>
         ((mutual (edges d'))\<^sup>*\<^sup>* (self env) to \<or> mesh_of (edges d) (to, self env) = None \<longrightarrow> ms = []) \<and>
         (\<forall>m \<in> set ms. \<exists>r. snd m = edge_line DEL_EDGE r to (self env))) \<and>
       mesh_of (edges d') = (if (mutual (edges d'))\<^sup>*\<^sup>* (self env) to then (mesh_of (edges d))((from, to) := None)
         else (mesh_of (edges d))((from, to) := None, (to, self env) := None))"
proof -
  note n = edge_request_names [OF names]
  have scan: "fst (sscanf del_edge_format line) = [V_String from, V_String to]"
    unfolding line by (rule del_edge_scan) (use r n in \<open>simp_all add: c_int_ok_def\<close>)
  have cl: "c_string line" unfolding line using n by (intro edge_line_c_string)
  obtain d1 d2 d3 where start: "seen_request env line d = (line \<in> seen d, d1)"
    "lookup_node from d1 = (if from \<in> known d then Some from else None, d2)" "lookup_node to d2 = (if to \<in> known d then Some to else None, d3)"
    "mesh_inv env d1" "still d d1" "seen d1 = insert line (seen d)" "mesh_inv env d3" "still d d3" "seen d3 = insert line (seen d)"
    by (rule edge_request_start [OF inv cl n(3,4)])
  have k: "known d3 = known d" "edges d3 = edges d" "outbox d3 = outbox d" "connection_list d3 = connection_list d" using start(8) by (simp_all add: still_def)
  obtain es where es: "known_edge from to d3 = (mesh_of (edges d3) (from, to), d3\<lparr>edges := es\<rparr>)" "edge_set es = edge_set (edges d3)"
    "mesh_of es = mesh_of (edges d3)" "mesh_inv env (d3\<lparr>edges := es\<rparr>)" "edges_inv es" by (rule known_edge_spec [OF start(7) n(3,4)])
  let ?d4 = "d3\<lparr>edges := es\<rparr>"
  show thesis
  proof (cases news)
    case False
    have "\<exists>d' \<in> {d1, d3, ?d4}. del_edge_h env c line d = Returned True d'"
      using False news start(1-3) scan n mode es(1) k unfolding del_edge_h_def by (cases "line \<in> seen d"; cases "from \<in> known d"; cases "to \<in> known d") simp_all
    then obtain d' where d': "d' \<in> {d1, d3, ?d4}" "del_edge_h env c line d = Returned True d'" by blast
    then show thesis using False start es k by (intro that [of d']) (auto simp: still_def seen_def)
  next
    case True
    then obtain e where e0: "mesh_of (edges d) (from, to) = Some e" "line \<notin> seen d" using news by auto
    then have e: "e \<in> edge_set es" "edge_key e = (from, to)" using es(3,5) mesh_of_Some k(2) by metis+
    have ends: "from \<in> known d" "to \<in> known d" using es(2) start(7) e k by (auto simp: mesh_inv_def mesh_shape_def)
    let ?d5 = "(forward_request env c line ?d4)\<lparr>edges := edge_del e es\<rparr>"
    have shape4: "mesh_shape env (forward_request env c line ?d4)" "e \<in> edge_set (edges (forward_request env c line ?d4))"
      using es(4) e(1) by (simp_all add: forward_request_outbox mesh_inv_def mesh_shape_def request_inv_def known_def)
    have shape5: "mesh_shape env ?d5" "card (edge_set (edge_del e es)) \<le> card (edge_set (edges d))"
      using mesh_shape_del [OF shape4] es(2) k(2) by (simp_all add: forward_request_outbox)
    have room5: "mesh_room env (card (known ?d5)) (card (edge_set (edges ?d5)))"
      by (rule mesh_room_mono [OF room]) (use shape5(2) k(1) in \<open>simp_all add: forward_request_outbox known_def\<close>)
    obtain d6 where d6: "\<And>k. run_graph env ?d5 k = k d6" "mesh_inv env d6" "edges d6 = edges ?d5" "known d6 = known ?d5" "seen d6 = seen ?d5"
      "outbox d6 = outbox ?d5" "connection_list d6 = connection_list ?d5" by (rule run_graph_spec [OF shape5(1) room5]) (rule that)
    have to6: "to \<in> known d6" using d6(4) ends(2) k(1) by (simp add: forward_request_outbox known_def)
    obtain d' where d': "drop_return_edge env to d6 = Returned True d'" "mesh_inv env d'" "seen d' = seen d6" "connection_list d' = connection_list d6"
      "mesh_of (edges d') = (if reachable (nodes d6 to) then mesh_of (edges d6) else (mesh_of (edges d6))((to, self env) := None))"
      "\<exists>ms. outbox d' = outbox d6 @ ms \<and> return_notices env to d6 ms" by (rule drop_return_edge_effect [OF d6(2) to6 n(4) me]) (rule that)
    have run: "del_edge_h env c line d = Returned True d'"
      using start(1-3) scan n mode es(1) k e0 e(2) other ends d6(1) d'(1)
      unfolding del_edge_h_def by (simp add: Let_def forward_request_outbox)
    have mesh6: "mesh_of (edges d6) = (mesh_of (edges d))((from, to) := None)"
      using mesh_of_changes(3) [OF es(5) e(1)] d6(3) e(2) es(3) k(2) by simp
    have out6: "outbox d6 = outbox d @ map (\<lambda>c. (conn_id c, line)) (recipients (Some c) d)" "seen d6 = insert line (seen d)" "connection_list d6 = connection_list d"
      using d6(5-7) k start(9) by (simp_all add: forward_request_outbox recipients_def seen_def)
    show thesis
    proof (rule that [OF run d'(2)], goal_cases)
      case 4
      have mono: "mutual (edges d') a b \<Longrightarrow> mutual (edges d6) a b" for a b using d'(5) by (auto simp: mutual_mesh split: if_splits)
      have "mutual (edges d') = mutual (edges d6)" if "reachable (nodes d6 to)" using d'(5) that by (simp add: mutual_mesh fun_eq_iff)
      then have reach: "(mutual (edges d'))\<^sup>*\<^sup>* (self env) to \<longleftrightarrow> reachable (nodes d6 to)"
        using rtranclp_mono [of "mutual (edges d')" "mutual (edges d6)"] mono d6(2) to6 by (auto simp: mesh_inv_def)
      obtain ms where ms: "outbox d' = outbox d6 @ ms" "return_notices env to d6 ms" using d'(6) by blast
      have "ms = []" if "reachable (nodes d6 to) \<or> mesh_of (edges d) (to, self env) = None" using ms(2) that mesh6 by (auto simp: return_notices_def split: if_splits)
      then show ?case unfolding reach using d'(5) ms out6(1) mesh6 by (intro conjI exI [of _ ms]) (auto simp: return_notices_def)
    qed (use d' out6 True in simp_all)
  qed
qed

section \<open>The requests between daemons\<close>

definition sample_mesh :: daemon where
  "sample_mesh = (node_add ''a'' sample_daemon)\<lparr>nodes := (\<lambda>_. new_node)(''a'' := new_node\<lparr>reachable := True\<rparr>)\<rparr>"

lemma sample_mesh_ok:
  "mesh_inv sample_denv sample_mesh" "known sample_mesh = {''a''}" "edge_set (edges sample_mesh) = {}" "seen sample_mesh = {}"
  "outbox sample_mesh = []" "recipients (Some (sample_connection 1 ''b'')) sample_mesh = [sample_connection 2 ''c'']" "mesh_of (edges sample_mesh) = (\<lambda>_. None)"
proof -
  have req: "request_inv sample_daemon" using sample_ok(1) by (simp add: daemon_inv_def)
  have a: "c_string ''a''" by (simp add: c_string_def)
  note add = node_add_spec [OF req a]
  show known: "known sample_mesh = {''a''}" using add(2) sample_ok(5) by (simp add: sample_mesh_def known_def)
  have e: "edges sample_mesh = init_edges" by (simp add: sample_mesh_def node_add_def sample_daemon_def)
  then show none: "edge_set (edges sample_mesh) = {}" by (simp add: Edge.edges_def init_edges_def splay_alloc_tree_def)
  show "seen sample_mesh = {}" using sample_ok(6) by (simp add: sample_mesh_def node_add_def seen_def)
  show "outbox sample_mesh = []" "recipients (Some (sample_connection 1 ''b'')) sample_mesh = [sample_connection 2 ''c'']"
    by (simp_all add: sample_mesh_def node_add_def sample_daemon_def recipients_def sample_connection_def)
  show "mesh_of (edges sample_mesh) = (\<lambda>_. None)" using e mesh_of_init by simp
  have "self sample_denv = ''a''" by (simp add: sample_denv_def)
  moreover have "request_inv sample_mesh" using add(1) by (simp add: sample_mesh_def request_inv_def)
  moreover have "reachable (nodes sample_mesh ''a'')" by (simp add: sample_mesh_def)
  ultimately show "mesh_inv sample_denv sample_mesh" using known none e edges_inv_init by (simp add: mesh_inv_def mesh_shape_def)
qed

text \<open>
  Property C27. Outside the tunnel server mode and in a mesh without indirect edges, an announcement of an edge from another node that is not indirect and has a weight of zero or more, in the form in which \<^verbatim>\<open>send_add_edge\<close> writes it, is
  accepted. If it is new, the map of edges has the announced weight, options and address at that pair of nodes and is otherwise
  unchanged; it is passed on to every other active connection unless the edge was known just so. In any case
  the trees stay consistent and a node is marked reachable exactly when edges in both directions lead to it.
\<close>

theorem edge_announcement_handled:
  assumes "mesh_inv env d" "edge_request_ok from to" "words_ok (Some (a, p))" "words_ok loc" "0 \<le> w" "c_int_ok w" "r < 2 ^ 32"
    "from \<noteq> self env" "options AND OPTION_INDIRECT = 0" "\<not> tunnelserver env"
    "mesh_room env (card (known d) + 2) (Suc (card (edge_set (edges d))))"
    and "line = edge_line ADD_EDGE r from to @ edge_details (a, p) options w loc" "address = str2sockaddr env a p"
      "local = (case loc of None \<Rightarrow> AF_UNSPEC | Some (la, lp) \<Rightarrow> str2sockaddr env la lp)"
    and "same \<longleftrightarrow> (\<exists>e. mesh_of (edges d) (from, to) = Some e \<and> edge_same address local options w e)"
  shows "\<exists>d'. add_edge_h env c line d = Returned True d' \<and> edges_inv (edges d') \<and>
    (\<forall>n \<in> known d'. reachable (nodes d' n) \<longleftrightarrow> (mutual (edges d'))\<^sup>*\<^sup>* (self env) n) \<and>
    outbox d' = outbox d @ (if line \<in> seen d \<or> same then [] else map (\<lambda>c. (conn_id c, line)) (recipients (Some c) d)) \<and>
    (if line \<in> seen d then mesh_of (edges d') = mesh_of (edges d)
     else \<exists>e. mesh_of (edges d') = (mesh_of (edges d))((from, to) \<mapsto> e) \<and> edge_weight e = w \<and> edge_options e = options \<and>
       sockaddrcmp (edge_address e) address = 0)"
proof -
  obtain d' where d': "add_edge_h env c line d = Returned True d'" "mesh_inv env d'" "seen d' = insert line (seen d)" "connection_list d' = connection_list d"
    "outbox d' = outbox d @ (if line \<in> seen d \<or> same then [] else map (\<lambda>c. (conn_id c, line)) (recipients (Some c) d))"
    "line \<in> seen d \<Longrightarrow> mesh_of (edges d') = mesh_of (edges d)"
    "line \<notin> seen d \<Longrightarrow> \<exists>e. mesh_of (edges d') = (mesh_of (edges d))((from, to) \<mapsto> e) \<and> edge_weight e = w \<and> edge_options e = options \<and>
       sockaddrcmp (edge_address e) address = 0"
    by (rule add_edge_h_effect [OF assms]) (rule that)
  then show ?thesis by (intro exI [of _ d']) (simp add: mesh_inv_def mesh_shape_def)
qed

theorem edge_announcement_handled_witness:
  "\<exists>d' e. add_edge_h sample_denv (sample_connection 1 ''b'') (edge_line ADD_EDGE 7 ''b'' ''c'' @ edge_details (''h'', ''655'') 0 5 None) sample_mesh = Returned True d' \<and>
     mesh_of (edges d') = [(''b'', ''c'') \<mapsto> e] \<and> edge_weight e = 5 \<and> map fst (outbox d') = [2]"
proof -
  let ?line = "edge_line ADD_EDGE 7 ''b'' ''c'' @ edge_details (''h'', ''655'') 0 5 None"
  have pre: "edge_request_ok ''b'' ''c''" "words_ok (Some (''h'', ''655''))" "words_ok None" "(0::int) \<le> 5" "c_int_ok 5" "(7::nat) < 2 ^ 32"
    "''b'' \<noteq> self sample_denv" "(0::u32) AND OPTION_INDIRECT = 0" "\<not> tunnelserver sample_denv"
    "mesh_room sample_denv (card (known sample_mesh) + 2) (Suc (card (edge_set (edges sample_mesh))))"
    by (simp_all add: edge_request_ok_def check_id_def isalnum_def isdigit_def words_ok_def text_word_def isspace_def c_string_def c_int_ok_def
          sample_denv_def mesh_room_def sample_mesh_ok)
  obtain d' where run: "add_edge_h sample_denv (sample_connection 1 ''b'') ?line sample_mesh = Returned True d'"
    and out: "outbox d' = outbox sample_mesh @ (if ?line \<in> seen sample_mesh \<or>
        (\<exists>e. mesh_of (edges sample_mesh) (''b'', ''c'') = Some e \<and> edge_same (str2sockaddr sample_denv ''h'' ''655'') AF_UNSPEC 0 5 e)
      then [] else map (\<lambda>c. (conn_id c, ?line)) (recipients (Some (sample_connection 1 ''b'')) sample_mesh))"
    and mesh: "if ?line \<in> seen sample_mesh then mesh_of (edges d') = mesh_of (edges sample_mesh)
     else \<exists>e. mesh_of (edges d') = (mesh_of (edges sample_mesh))((''b'', ''c'') \<mapsto> e) \<and> edge_weight e = 5 \<and> edge_options e = 0 \<and>
       sockaddrcmp (edge_address e) (str2sockaddr sample_denv ''h'' ''655'') = 0"
    using edge_announcement_handled [OF sample_mesh_ok(1) pre refl refl refl refl, where c = "sample_connection 1 ''b''", unfolded option.case] by blast
  from mesh obtain e where "mesh_of (edges d') = [(''b'', ''c'') \<mapsto> e]" "edge_weight e = 5" unfolding sample_mesh_ok(4,7) by auto
  moreover have "map fst (outbox d') = [2]" using out unfolding sample_mesh_ok(4-7) by (simp add: sample_connection_def)
  ultimately show ?thesis using run by (intro exI [of _ d'] exI [of _ e]) simp
qed

text \<open>
  Property C28. Outside the tunnel server mode and in a mesh without indirect edges, a withdrawal of an edge from another node that the daemon knows is passed on to every other active
  connection and takes exactly that edge out of the map; if the far end is no longer reachable, the edge from there to the daemon
  itself is taken out as well and its withdrawal is all that is sent besides. Any other withdrawal is not passed on and changes nothing.
  Afterwards a node is marked reachable exactly when edges in both directions lead to it.
\<close>

theorem edge_withdrawal_handled:
  assumes "mesh_inv env d" "edge_request_ok from to" "c_string (self env)" "r < 2 ^ 32" "from \<noteq> self env" "\<not> tunnelserver env"
    "mesh_room env (card (known d)) (card (edge_set (edges d)))"
    and "line = edge_line DEL_EDGE r from to" and "news \<longleftrightarrow> line \<notin> seen d \<and> mesh_of (edges d) (from, to) \<noteq> None"
  shows "\<exists>d'. del_edge_h env c line d = Returned True d' \<and> edges_inv (edges d') \<and>
    (\<forall>n \<in> known d'. reachable (nodes d' n) \<longleftrightarrow> (mutual (edges d'))\<^sup>*\<^sup>* (self env) n) \<and>
    (if news then
       (\<exists>ms. outbox d' = outbox d @ map (\<lambda>c. (conn_id c, line)) (recipients (Some c) d) @ ms \<and>
         ((mutual (edges d'))\<^sup>*\<^sup>* (self env) to \<or> mesh_of (edges d) (to, self env) = None \<longrightarrow> ms = []) \<and>
         (\<forall>m \<in> set ms. \<exists>r. snd m = edge_line DEL_EDGE r to (self env))) \<and>
       mesh_of (edges d') = (if (mutual (edges d'))\<^sup>*\<^sup>* (self env) to then (mesh_of (edges d))((from, to) := None)
         else (mesh_of (edges d))((from, to) := None, (to, self env) := None))
     else mesh_of (edges d') = mesh_of (edges d) \<and> outbox d' = outbox d)"
proof -
  obtain d' where d': "del_edge_h env c line d = Returned True d'" "mesh_inv env d'" "seen d' = insert line (seen d)" "connection_list d' = connection_list d"
    "\<not> news \<Longrightarrow> mesh_of (edges d') = mesh_of (edges d) \<and> outbox d' = outbox d"
    "news \<Longrightarrow> (\<exists>ms. outbox d' = outbox d @ map (\<lambda>c. (conn_id c, line)) (recipients (Some c) d) @ ms \<and>
         ((mutual (edges d'))\<^sup>*\<^sup>* (self env) to \<or> mesh_of (edges d) (to, self env) = None \<longrightarrow> ms = []) \<and>
         (\<forall>m \<in> set ms. \<exists>r. snd m = edge_line DEL_EDGE r to (self env))) \<and>
       mesh_of (edges d') = (if (mutual (edges d'))\<^sup>*\<^sup>* (self env) to then (mesh_of (edges d))((from, to) := None)
         else (mesh_of (edges d))((from, to) := None, (to, self env) := None))"
    by (rule del_edge_h_effect [OF assms]) (rule that)
  have "edges_inv (edges d')" "\<forall>n \<in> known d'. reachable (nodes d' n) \<longleftrightarrow> (mutual (edges d'))\<^sup>*\<^sup>* (self env) n"
    using d'(2) by (simp_all add: mesh_inv_def mesh_shape_def)
  with d'(1,5,6) show ?thesis by (intro exI [of _ d']) (cases news; simp)
qed

definition cut_off_mesh :: daemon where
  "cut_off_mesh = (node_add ''c'' (node_add ''b'' sample_mesh))\<lparr>edges := edge_add (new_edge ''c'' ''a'') (edge_add (new_edge ''b'' ''c'') init_edges)\<rparr>"

lemma cut_off_mesh_ok:
  "mesh_inv sample_denv cut_off_mesh" "known cut_off_mesh = {''a'', ''b'', ''c''}" "seen cut_off_mesh = {}"
  "mesh_of (edges cut_off_mesh) = [(''b'', ''c'') \<mapsto> new_edge ''b'' ''c'', (''c'', ''a'') \<mapsto> new_edge ''c'' ''a'']" "card (edge_set (edges cut_off_mesh)) = 2"
proof -
  have c: "c_string ''b''" "c_string ''c''" "edge_ok (new_edge ''b'' ''c'')" "edge_ok (new_edge ''c'' ''a'')"
    by (simp_all add: edge_ok_def new_edge_def c_string_def c_int_ok_def)
  have "request_inv sample_mesh" using sample_mesh_ok(1) by (simp add: mesh_inv_def mesh_shape_def)
  note b = node_add_spec [OF this c(1)]
  note d = node_add_spec [OF b(1) c(2)]
  have k: "request_inv cut_off_mesh" "known cut_off_mesh = {''a'', ''b'', ''c''}"
    using d b(2) sample_mesh_ok(2) by (auto simp: cut_off_mesh_def request_inv_def known_def)
  then show "known cut_off_mesh = {''a'', ''b'', ''c''}" by simp
  show "seen cut_off_mesh = {}" using sample_mesh_ok(4) by (simp add: cut_off_mesh_def node_add_def seen_def)
  have none: "edge_set init_edges = {}" by (simp add: Edge.edges_def init_edges_def splay_alloc_tree_def)
  have one: "edges_inv (edge_add (new_edge ''b'' ''c'') init_edges)" "edge_set (edge_add (new_edge ''b'' ''c'') init_edges) = {new_edge ''b'' ''c''}"
    using edge_add_new [OF edges_inv_init c(3)] none by simp_all
  have e: "edges_inv (edges cut_off_mesh)" "edge_set (edges cut_off_mesh) = {new_edge ''b'' ''c'', new_edge ''c'' ''a''}"
    using edge_add_new [OF one(1) c(4)] one(2) by (simp_all add: cut_off_mesh_def) (simp_all add: new_edge_def insert_commute)
  have two: "new_edge ''b'' ''c'' \<noteq> new_edge ''c'' ''a''" by (simp add: new_edge_def)
  then show "card (edge_set (edges cut_off_mesh)) = 2" using e(2) by simp
  have m: "mesh_of (edges cut_off_mesh) k = Some x \<longleftrightarrow> x \<in> {new_edge ''b'' ''c'', new_edge ''c'' ''a''} \<and> edge_key x = k" for k x
    using mesh_of_Some [OF e(1)] e(2) by simp
  show "mesh_of (edges cut_off_mesh) = [(''b'', ''c'') \<mapsto> new_edge ''b'' ''c'', (''c'', ''a'') \<mapsto> new_edge ''c'' ''a'']"
  proof
    fix k
    have "mesh_of (edges cut_off_mesh) (''b'', ''c'') = Some (new_edge ''b'' ''c'')" "mesh_of (edges cut_off_mesh) (''c'', ''a'') = Some (new_edge ''c'' ''a'')"
      unfolding m by (simp_all add: new_edge_def)
    moreover have "mesh_of (edges cut_off_mesh) k = None" if "k \<noteq> (''b'', ''c'')" "k \<noteq> (''c'', ''a'')"
    proof (rule ccontr)
      assume "mesh_of (edges cut_off_mesh) k \<noteq> None"
      then obtain x where "mesh_of (edges cut_off_mesh) k = Some x" by blast
      then show False using m [of k x] that by (auto simp: new_edge_def)
    qed
    ultimately show "mesh_of (edges cut_off_mesh) k = [(''b'', ''c'') \<mapsto> new_edge ''b'' ''c'', (''c'', ''a'') \<mapsto> new_edge ''c'' ''a''] k"
      by (cases "k = (''b'', ''c'')"; cases "k = (''c'', ''a'')") simp_all
  qed
  have "\<not> mutual (edges cut_off_mesh) x y" for x y by (auto simp: mutual_def e(2) new_edge_def)
  then have star: "(mutual (edges cut_off_mesh))\<^sup>*\<^sup>* x y \<longleftrightarrow> x = y" for x y by (metis rtranclp.cases rtranclp.rtrancl_refl)
  have "reachable (nodes cut_off_mesh ''a'')" "\<not> reachable (nodes cut_off_mesh ''b'')" "\<not> reachable (nodes cut_off_mesh ''c'')"
    by (simp_all add: cut_off_mesh_def node_add_def sample_mesh_def new_node_def)
  moreover have "self sample_denv = ''a''" by (simp add: sample_denv_def)
  ultimately show "mesh_inv sample_denv cut_off_mesh" using k e star by (simp add: mesh_inv_def mesh_shape_def new_edge_def)
qed

theorem edge_withdrawal_handled_witness:
  "\<exists>d'. del_edge_h sample_denv (sample_connection 1 ''b'') (edge_line DEL_EDGE 7 ''b'' ''c'') cut_off_mesh = Returned True d' \<and>
     mesh_of (edges cut_off_mesh) (''c'', ''a'') \<noteq> None \<and> mesh_of (edges d') = (\<lambda>_. None)"
proof -
  have pre: "edge_request_ok ''b'' ''c''" "c_string (self sample_denv)" "(7::nat) < 2 ^ 32" "''b'' \<noteq> self sample_denv" "\<not> tunnelserver sample_denv"
    "mesh_room sample_denv (card (known cut_off_mesh)) (card (edge_set (edges cut_off_mesh)))" "self sample_denv = ''a''"
    by (simp_all add: edge_request_ok_def check_id_def isalnum_def isdigit_def c_string_def sample_denv_def mesh_room_def cut_off_mesh_ok)
  have news: "edge_line DEL_EDGE 7 ''b'' ''c'' \<notin> seen cut_off_mesh \<and> mesh_of (edges cut_off_mesh) (''b'', ''c'') \<noteq> None"
    unfolding cut_off_mesh_ok(3,4) by simp
  let ?m = "mesh_of (edges cut_off_mesh)"
  obtain d' where d': "del_edge_h sample_denv (sample_connection 1 ''b'') (edge_line DEL_EDGE 7 ''b'' ''c'') cut_off_mesh = Returned True d'"
    "mesh_of (edges d') = (if (mutual (edges d'))\<^sup>*\<^sup>* (self sample_denv) ''c'' then ?m((''b'', ''c'') := None) else ?m((''b'', ''c'') := None, (''c'', self sample_denv) := None))"
    using edge_withdrawal_handled [OF cut_off_mesh_ok(1) pre(1-6) refl refl, where c = "sample_connection 1 ''b''", unfolded if_P [OF news]] by blast
  have less: "?m((''b'', ''c'') := None) = [(''c'', ''a'') \<mapsto> new_edge ''c'' ''a'']" unfolding cut_off_mesh_ok(4) by auto
  have "mesh_of (edges d') k = None" if "k \<noteq> (''c'', ''a'')" for k using d'(2) that unfolding less pre(7) by (cases "(mutual (edges d'))\<^sup>*\<^sup>* ''a'' ''c''") simp_all
  then have "\<not> mutual (edges d') ''a'' y" for y unfolding mutual_mesh by simp
  then have "\<not> (mutual (edges d'))\<^sup>*\<^sup>* ''a'' ''c''" by (auto elim: converse_rtranclpE)
  then have "mesh_of (edges d') = (\<lambda>_. None)" using d'(2) unfolding less pre(7) by auto
  then show ?thesis using d'(1) by (intro exI [of _ d']) (simp add: cut_off_mesh_ok(4))
qed

end
