(* ===== verification/Protocol_Misc.thy ===== *)
theory Protocol_Misc
  imports Protocol_Edge
begin

text \<open>
  The requests that keep a connection alive and those that carry what is known about UDP addresses and packet
  sizes along the mesh (\<^verbatim>\<open>protocol_misc.c\<close>). Following a null pointer is an outcome of its own. The time of the
  last attempt on an outgoing connection and the reset of its address cache are recorded by node name.
\<close>

section \<open>Connections by number\<close>

definition find_connection :: "nat \<Rightarrow> daemon \<Rightarrow> connection option" where
  "find_connection i d = List.find (\<lambda>c. conn_id c = i) (connection_list d)"

definition update_connection :: "connection \<Rightarrow> daemon \<Rightarrow> daemon" where
  "update_connection c d = d\<lparr>connection_list := map (\<lambda>x. if conn_id x = conn_id c then c else x) (connection_list d)\<rparr>"

definition node_conn :: "string \<Rightarrow> daemon \<Rightarrow> connection option" where
  "node_conn n d = Option.bind (node_connection d n) (\<lambda>i. find_connection i d)"

section \<open>Keeping a connection alive\<close>

abbreviation (input) TERMREQ :: int where "TERMREQ \<equiv> 7"
abbreviation (input) PING :: int where "PING \<equiv> 8"
abbreviation (input) PONG :: int where "PONG \<equiv> 9"
abbreviation (input) UDP_INFO :: int where "UDP_INFO \<equiv> 21"
abbreviation (input) MTU_INFO :: int where "MTU_INFO \<equiv> 22"
abbreviation (input) OPTION_TCPONLY :: u32 where "OPTION_TCPONLY \<equiv> 2"

definition send_termreq :: "daemon_env \<Rightarrow> connection \<Rightarrow> daemon \<Rightarrow> bool \<times> daemon" where
  "send_termreq env c d = send_request env c (print_d TERMREQ) d"

definition termreq_h :: "connection \<Rightarrow> string \<Rightarrow> daemon \<Rightarrow> outcome" where
  "termreq_h c line d = Returned False d"

definition send_ping :: "daemon_env \<Rightarrow> connection \<Rightarrow> daemon \<Rightarrow> bool \<times> daemon" where
  "send_ping env c d =
     (let c = c\<lparr>pinged := True, last_ping_time := clock env\<rparr> in send_request env c (print_d PING) (update_connection c d))"

definition send_pong :: "daemon_env \<Rightarrow> connection \<Rightarrow> daemon \<Rightarrow> bool \<times> daemon" where
  "send_pong env c d = send_request env c (print_d PONG) d"

definition ping_h :: "daemon_env \<Rightarrow> connection \<Rightarrow> string \<Rightarrow> daemon \<Rightarrow> outcome" where
  "ping_h env c line d = (case send_pong env c d of (r, d) \<Rightarrow> Returned r d)"

definition pong_h :: "connection \<Rightarrow> string \<Rightarrow> daemon \<Rightarrow> outcome" where
  "pong_h c line d =
     (let d = update_connection (c\<lparr>pinged := False\<rparr>) d;
          n = conn_name c;
          d = (if outgoing c \<and> outgoing_timeout d n \<noteq> 0
               then d\<lparr>outgoing_timeout := (outgoing_timeout d)(n := 0), cache_resets := cache_resets d @ [(n, conn_address c)]\<rparr> else d)
      in Returned True d)"

section \<open>UDP addresses\<close>

definition now_usec :: "daemon_env \<Rightarrow> int" where
  "now_usec env = clock env * 1000000 + clock_usec env"

text \<open>The whole seconds of \<^verbatim>\<open>timersub\<close>.\<close>

definition elapsed_sec :: "daemon_env \<Rightarrow> int \<Rightarrow> int" where
  "elapsed_sec env since = (now_usec env - since) div 1000000"

definition info_line :: "int \<Rightarrow> string \<Rightarrow> string \<Rightarrow> string" where
  "info_line reqno from to = print_d reqno @ '' '' @ from @ '' '' @ to @ '' ''"

text \<open>Sending to the next hop's connection, if there is one; the sender of a null pointer crashes.\<close>

definition send_udp_info :: "daemon_env \<Rightarrow> string \<Rightarrow> string \<Rightarrow> daemon \<Rightarrow> outcome" where
  "send_udp_info env from to d =
     (case (if via (nodes d to) = Some (self env) then nexthop (nodes d to) else via (nodes d to)) of
        None \<Rightarrow> Returned False d
      | Some to \<Rightarrow>
          if to = self env then Returned True d
          else if \<not> reachable (nodes d to) then Returned True d
          else if from = self env \<and> node_connection d to \<noteq> None then Returned True d
          else if from = self env \<and> elapsed_sec env (udp_info_sent d to) < udp_info_interval env then Returned True d
          else if (node_options (nodes d (self env)) OR node_options (nodes d from) OR node_options (nodes d to)) AND OPTION_TCPONLY \<noteq> 0
          then Returned True d
          else case nexthop (nodes d to) of
            None \<Rightarrow> Crashed
          | Some nbr \<Rightarrow>
              if drop_bit 24 (node_options (nodes d nbr)) < 5 then Returned True d
              else case node_conn nbr d of
                None \<Rightarrow> Crashed
              | Some c \<Rightarrow>
                  (case (if from \<noteq> self env then Some (node_address (nodes d from))
                         else map_option edge_local_address (Option.bind (conn_edge c) (mesh_of (edges d)))) of
                     None \<Rightarrow> Crashed
                   | Some sa \<Rightarrow>
                       (case sockaddr2str env sa of (address, port) \<Rightarrow>
                        case send_request env c (info_line UDP_INFO from to @ address @ '' '' @ port) d of (x, d) \<Rightarrow>
                          Returned x (if from = self env then d\<lparr>udp_info_sent := (udp_info_sent d)(to := now_usec env)\<rparr> else d))))"

definition udp_info_format :: "scan_item list" where
  "udp_info_format = [Skip_D, Match_Space, Scan_S 2048, Match_Space, Scan_S 2048, Match_Space, Scan_S 2048, Match_Space, Scan_S 2048]"

definition udp_info_h :: "daemon_env \<Rightarrow> connection \<Rightarrow> string \<Rightarrow> daemon \<Rightarrow> outcome" where
  "udp_info_h env c line d =
     (case fst (sscanf udp_info_format line) of
        [V_String from_name, V_String to_name, V_String address, V_String port] \<Rightarrow>
          if \<not> check_id from_name \<or> \<not> check_id to_name then Returned False d
          else (case lookup_node from_name d of
            (None, d) \<Rightarrow> Returned True d
          | (Some from, d) \<Rightarrow>
              if via (nodes d from) \<noteq> Some from then Returned True d
              else
                let sa = str2sockaddr env address port;
                    d = (if node_connection d from = None \<and> \<not> udp_confirmed (nodes d from) \<and> sockaddrcmp sa (node_address (nodes d from)) \<noteq> 0
                         then d\<lparr>nodes := (nodes d)(from := update_node_udp (self env) from (Some sa) (nodes d from))\<rparr> else d)
                in (case lookup_node to_name d of
                      (None, d) \<Rightarrow> Returned True d
                    | (Some to, d) \<Rightarrow> send_udp_info env from to d))
      | _ \<Rightarrow> Returned False d)"

section \<open>Packet sizes\<close>

text \<open>The size that is passed on: what is known here may be better, or smaller.\<close>

definition measured :: "daemon \<Rightarrow> string \<Rightarrow> bool" where
  "measured d n \<longleftrightarrow> minmtu (nodes d n) = maxmtu (nodes d n)"

definition known_mtu :: "daemon_env \<Rightarrow> string \<Rightarrow> int \<Rightarrow> daemon \<Rightarrow> int option" where
  "known_mtu env from mtu d =
     (if measured d from \<and> via (nodes d from) = Some (self env) then Some (int (minmtu (nodes d from)))
      else case (if via (nodes d from) = Some (self env) then nexthop (nodes d from) else via (nodes d from)) of
        None \<Rightarrow> None
      | Some v \<Rightarrow>
          if measured d v then Some (min mtu (int (minmtu (nodes d v))))
          else (case nexthop (nodes d v) of
                  None \<Rightarrow> None
                | Some h \<Rightarrow> Some (if measured d h then min mtu (int (minmtu (nodes d h))) else mtu)))"

definition send_mtu_info :: "daemon_env \<Rightarrow> string \<Rightarrow> string \<Rightarrow> int \<Rightarrow> daemon \<Rightarrow> outcome" where
  "send_mtu_info env from to mtu d =
     (if to = self env then Returned True d
      else if \<not> reachable (nodes d to) then Returned True d
      else if from = self env \<and> node_connection d to \<noteq> None then Returned True d
      else if from = self env \<and> elapsed_sec env (mtu_info_sent d to) < mtu_info_interval env then Returned True d
      else case nexthop (nodes d to) of
        None \<Rightarrow> Crashed
      | Some nbr \<Rightarrow>
          if drop_bit 24 (node_options (nodes d nbr)) < 6 then Returned True d
          else case known_mtu env from mtu d of
            None \<Rightarrow> Crashed
          | Some mtu \<Rightarrow>
              let d = (if from = self env then d\<lparr>mtu_info_sent := (mtu_info_sent d)(to := now_usec env)\<rparr> else d) in
              case node_conn nbr d of
                None \<Rightarrow> Crashed
              | Some c \<Rightarrow> (case send_request env c (info_line MTU_INFO from to @ print_d mtu) d of (x, d) \<Rightarrow> Returned x d))"

definition mtu_info_format :: "scan_item list" where
  "mtu_info_format = [Skip_D, Match_Space, Scan_S 2048, Match_Space, Scan_S 2048, Match_Space, Scan_D]"

definition mtu_info_h :: "daemon_env \<Rightarrow> connection \<Rightarrow> string \<Rightarrow> daemon \<Rightarrow> outcome" where
  "mtu_info_h env c line d =
     (case fst (sscanf mtu_info_format line) of
        [V_String from_name, V_String to_name, V_Int mtu] \<Rightarrow>
          if mtu < 512 then Returned False d
          else
            let mtu = min mtu (int MTU) in
            if \<not> check_id from_name \<or> \<not> check_id to_name then Returned False d
            else (case lookup_node from_name d of
              (None, d) \<Rightarrow> Returned True d
            | (Some from, d) \<Rightarrow>
                let d = (if node_mtu d from \<noteq> mtu \<and> \<not> measured d from then d\<lparr>node_mtu := (node_mtu d)(from := mtu)\<rparr> else d)
                in (case lookup_node to_name d of
                      (None, d) \<Rightarrow> Returned True d
                    | (Some to, d) \<Rightarrow> send_mtu_info env from to mtu d))
      | _ \<Rightarrow> Returned False d)"

section \<open>What the requests rely on\<close>

text \<open>A reachable node is reached through a neighbour with a connection and an edge, and its relay is reachable as well.\<close>

definition hops_ok :: "daemon_env \<Rightarrow> daemon \<Rightarrow> bool" where
  "hops_ok env d \<longleftrightarrow>
     (\<forall>n. reachable (nodes d n) \<and> n \<noteq> self env \<longrightarrow>
        (\<exists>nbr v. nexthop (nodes d n) = Some nbr \<and> via (nodes d n) = Some v \<and> nexthop (nodes d nbr) \<noteq> None \<and>
           (v \<noteq> self env \<longrightarrow> nexthop (nodes d v) \<noteq> None) \<and>
           (\<exists>c k. node_conn nbr d = Some c \<and> conn_edge c = Some k \<and> mesh_of (edges d) k \<noteq> None)))"

definition returns :: "outcome \<Rightarrow> bool" where
  "returns r \<longleftrightarrow> (\<exists>x d. r = Returned x d)"

lemma returns_simps [simp]: "returns (Returned x d)" "\<not> returns Crashed"
  by (simp_all add: returns_def)

lemma hops_okD:
  assumes "hops_ok env d" "reachable (nodes d n)" "n \<noteq> self env"
  obtains nbr v c k where "nexthop (nodes d n) = Some nbr" "via (nodes d n) = Some v" "nexthop (nodes d nbr) \<noteq> None"
    "v \<noteq> self env \<longrightarrow> nexthop (nodes d v) \<noteq> None" "node_conn nbr d = Some c" "conn_edge c = Some k" "mesh_of (edges d) k \<noteq> None"
  using assms by (auto simp: hops_ok_def) (metis not_None_eq)

lemma send_udp_info_returns:
  assumes "hops_ok env d"
  shows "returns (send_udp_info env from to d)"
proof (cases "if via (nodes d to) = Some (self env) then nexthop (nodes d to) else via (nodes d to)")
  case None
  then show ?thesis by (simp add: send_udp_info_def)
next
  case (Some t)
  show ?thesis
  proof (cases "t \<noteq> self env \<and> reachable (nodes d t)")
    case True
    then obtain nbr v c k where "nexthop (nodes d t) = Some nbr" "node_conn nbr d = Some c" "conn_edge c = Some k" "mesh_of (edges d) k \<noteq> None"
      using assms by (elim hops_okD [of env d t]) auto
    then show ?thesis using Some by (auto simp: send_udp_info_def split: prod.split)
  qed (use Some in \<open>auto simp: send_udp_info_def\<close>)
qed

lemma known_mtu_some:
  assumes "hops_ok env d" "reachable (nodes d n)" "n \<noteq> self env"
  shows "known_mtu env n mtu d \<noteq> None"
  using assms by (elim hops_okD) (auto simp: known_mtu_def split: option.splits)

lemma hops_ok_frame [simp]:
  "hops_ok env (d\<lparr>node_tree := t\<rparr>) = hops_ok env d" "hops_ok env (d\<lparr>node_mtu := m\<rparr>) = hops_ok env d"
  "hops_ok env (d\<lparr>nodes := (nodes d)(n := update_node_udp me n sa (nodes d n))\<rparr>) = hops_ok env d"
proof -
  have keep: "reachable (update_node_udp me n sa t) = reachable t" "nexthop (update_node_udp me n sa t) = nexthop t" "via (update_node_udp me n sa t) = via t" for t
    by (simp_all add: update_node_udp_def split: option.split)
  define N where "N = (nodes d)(n := update_node_udp me n sa (nodes d n))"
  have same: "reachable (N x) = reachable (nodes d x)" "nexthop (N x) = nexthop (nodes d x)" "via (N x) = via (nodes d x)" for x
    by (simp_all add: N_def keep)
  show "hops_ok env (d\<lparr>nodes := (nodes d)(n := update_node_udp me n sa (nodes d n))\<rparr>) = hops_ok env d"
    unfolding N_def [symmetric] by (simp add: hops_ok_def node_conn_def find_connection_def same)
qed (simp_all add: hops_ok_def node_conn_def find_connection_def)

lemma udp_info_returns:
  assumes "hops_ok env d"
  shows "returns (udp_info_h env c line d)"
proof -
  have send: "hops_ok env d \<Longrightarrow> returns (case lookup_node to d of (None, d) \<Rightarrow> Returned True d | (Some to, d) \<Rightarrow> send_udp_info env from to d)" for to "from" d
    using send_udp_info_returns by (auto simp: lookup_node_def split: prod.split option.split)
  have "hops_ok env d'" if "lookup_node from d = (r, d')" for r d' "from"
    using that assms by (auto simp: lookup_node_def split: prod.splits)
  then show ?thesis
    using send unfolding udp_info_h_def Let_def by (auto split: list.split scan_value.split prod.split option.split)
qed

text \<open>The way out of a request about packet sizes that was read.\<close>

lemma mtu_info_read:
  assumes inv: "request_inv d" and n: "check_id from" "check_id to" "length from \<le> 2048" "length to \<le> 2048" "from \<in> known d" "to \<in> known d"
    and mtu: "512 \<le> mtu" "c_int_ok mtu"
  shows "\<exists>t m. mtu_info_h env c (info_line MTU_INFO from to @ print_d mtu) d = send_mtu_info env from to (min mtu (int MTU)) (d\<lparr>node_mtu := m, node_tree := t\<rparr>)"
proof -
  have w: "text_word from" "text_word to" "c_string from" "c_string to" using n check_id_word check_id_c_string by simp_all
  have scan: "fst (sscanf mtu_info_format (info_line MTU_INFO from to @ print_d mtu)) = [V_String from, V_String to, V_Int mtu]"
    by (simp add: mtu_info_format_def info_line_def word_scans [OF w(1)] word_scans [OF w(2)] number_scans(3) number_scans(4) [OF mtu(2)] number_scans(5,6) c_int_ok_def)
  from lookup_node_spec [OF inv w(3)] n(5) obtain t1 where t1: "lookup_node from d = (Some from, d\<lparr>node_tree := t1\<rparr>)"
    "links t1 = links (node_tree d)" "splay_inv strcmp c_string t1" by auto
  define m where "m = (if node_mtu d from \<noteq> min mtu (int MTU) \<and> \<not> measured d from then (node_mtu d)(from := min mtu (int MTU)) else node_mtu d)"
  let ?d = "d\<lparr>node_tree := t1, node_mtu := m\<rparr>"
  have "request_inv ?d" "to \<in> known ?d" using inv t1(2,3) n(6) by (simp_all add: request_inv_def known_def)
  from lookup_node_spec [OF this(1) w(4)] this(2) obtain t2 where t2: "lookup_node to ?d = (Some to, ?d\<lparr>node_tree := t2\<rparr>)" by auto
  have "mtu_info_h env c (info_line MTU_INFO from to @ print_d mtu) d = send_mtu_info env from to (min mtu (int MTU)) (?d\<lparr>node_tree := t2\<rparr>)"
    using scan t1(1) t2 n(1,2) mtu(1) unfolding mtu_info_h_def m_def
    by (cases "node_mtu d from = min mtu (int MTU)"; cases "minmtu (nodes d from) = maxmtu (nodes d from)") (simp_all add: Let_def measured_def)
  then show ?thesis by (intro exI [of _ t2] exI [of _ m]) simp
qed

lemma send_mtu_info_crash:
  assumes "to \<noteq> self env" "reachable (nodes d to)" "nexthop (nodes d to) = Some nbr" "\<not> drop_bit 24 (node_options (nodes d nbr)) < 6"
    "from \<noteq> self env" "via (nodes d from) = None"
  shows "send_mtu_info env from to mtu d = Crashed"
  using assms by (simp add: send_mtu_info_def known_mtu_def)

lemma send_mtu_info_returns:
  assumes "hops_ok env d" "reachable (nodes d from)" "from \<noteq> self env"
  shows "returns (send_mtu_info env from to mtu d)"
proof (cases "to \<noteq> self env \<and> reachable (nodes d to)")
  case True
  then obtain nbr v c k where "nexthop (nodes d to) = Some nbr" "node_conn nbr d = Some c" using assms(1) by (elim hops_okD [of env d to]) auto
  moreover obtain m where "known_mtu env from mtu d = Some m" using known_mtu_some [OF assms] by blast
  ultimately show ?thesis using True assms(3) by (auto simp: send_mtu_info_def Let_def split: prod.split)
qed (auto simp: send_mtu_info_def)

definition sample_relay :: daemon where
  "sample_relay = (node_add ''z'' (node_add ''b'' sample_daemon))
     \<lparr>nodes := (\<lambda>_. new_node)(''b'' := new_node\<lparr>reachable := True, nexthop := Some ''b'', via := Some ''b'', node_options := 0x07000000\<rparr>),
      node_connection := [''b'' \<mapsto> 1], edges := edge_add (new_edge ''a'' ''b'') init_edges\<rparr>"

lemma sample_relay_ok:
  "request_inv sample_relay" "known sample_relay = {''b'', ''z''}" "hops_ok sample_denv sample_relay"
proof -
  have req: "request_inv sample_daemon" using sample_ok(1) by (simp add: daemon_inv_def)
  have c: "c_string ''a''" "c_string ''b''" "c_string ''z''" by (simp_all add: c_string_def)
  note b = node_add_spec [OF req c(2)] and z = node_add_spec [OF node_add_spec(1) [OF req c(2)] c(3)]
  show "request_inv sample_relay" "known sample_relay = {''b'', ''z''}"
    using z b sample_ok(5) by (auto simp: sample_relay_def request_inv_def known_def)
  have e: "edge_ok (new_edge ''a'' ''b'')" "edge_key (new_edge ''a'' ''b'') \<notin> edge_key ` edge_set init_edges"
    using c by (simp_all add: edge_ok_def new_edge_def c_int_ok_def Edge.edges_def init_edges_def splay_alloc_tree_def)
  have "mesh_of (edge_add (new_edge ''a'' ''b'') init_edges) (''a'', ''b'') \<noteq> None"
    using mesh_of_changes(2) [OF edges_inv_init e] by (simp add: new_edge_def)
  moreover have "node_conn ''b'' sample_relay = Some (sample_connection 1 ''b'')"
    by (simp add: node_conn_def find_connection_def sample_relay_def node_add_def sample_daemon_def sample_connection_def)
  moreover have "conn_edge (sample_connection 1 ''b'') = Some (''a'', ''b'')" by (simp add: sample_connection_def)
  ultimately show "hops_ok sample_denv sample_relay"
    by (simp add: hops_ok_def) (simp add: sample_relay_def new_node_def)
qed

text \<open>What is passed on to the next hop: no more than was received and than has been measured on the way to the relay of the origin.\<close>

definition passed_mtu :: "string \<Rightarrow> string \<Rightarrow> int \<Rightarrow> daemon \<Rightarrow> int" where
  "passed_mtu relay step mtu d =
     (if measured d relay then min mtu (int (minmtu (nodes d relay)))
      else if measured d step then min mtu (int (minmtu (nodes d step))) else mtu)"

lemma send_mtu_info_passes:
  assumes "to \<noteq> self env" "reachable (nodes d to)" "nexthop (nodes d to) = Some nbr" "\<not> drop_bit 24 (node_options (nodes d nbr)) < 6" "from \<noteq> self env"
    and "known_mtu env from mtu d = Some m" "c_int_ok m" "node_conn nbr d = Some c" "quic_context c" "length from \<le> 2048" "length to \<le> 2048"
  shows "\<exists>x. send_mtu_info env from to mtu d = Returned x (d\<lparr>outbox := outbox d @ [(conn_id c, info_line MTU_INFO from to @ print_d m)]\<rparr>)"
proof -
  have "length (print_d MTU_INFO) \<le> 11" by (rule length_print_d) (simp add: c_int_ok_def)
  then have "length (info_line MTU_INFO from to @ print_d m) \<le> MAXBUFSIZE - 1" using assms(10,11) length_print_d [OF assms(7)] by (simp add: info_line_def)
  then have "\<exists>x. send_request env c (info_line MTU_INFO from to @ print_d m) d = (x, d\<lparr>outbox := outbox d @ [(conn_id c, info_line MTU_INFO from to @ print_d m)]\<rparr>)"
    using assms(9) by (cases "atoi (info_line MTU_INFO from to @ print_d m) = 0") (auto simp: send_request_def send_meta_def)
  then show ?thesis using assms(1-6,8) by (auto simp: send_mtu_info_def)
qed



end
