(* ===== verification/Protocol_Auth.thy ===== *)
theory Protocol_Auth
  imports Protocol_Misc
begin

text \<open>
  How a connection comes to life and how it ends (\<^verbatim>\<open>protocol_auth.c\<close>, \<^verbatim>\<open>net.c\<close>, \<^verbatim>\<open>connection.c\<close>): the
  identification, the acknowledgement that turns a connection into an edge of the mesh, the choice between two connections with
  the same node, and the termination. What the configuration files say about a node, the time a connection has
  been open and the answers of the operating system are parameters; a new attempt of an outgoing connection is recorded.
\<close>

section \<open>Configuration\<close>

datatype proxy_type = PROXY_NONE | PROXY_SOCKS4 | PROXY_SOCKS4A | PROXY_SOCKS5 | PROXY_HTTP | PROXY_EXEC

record host_options =
  indirect_data :: "bool option"
  tcp_only :: "bool option"
  clamp_option_mss :: "bool option"
  weight_option :: "int option"
  pmtu_option :: "int option"

record auth_config =
  controlcookie :: string
  experimental :: bool
  proxytype :: proxy_type
  proxyuser :: "string option"
  proxypass :: "string option"
  myport :: string
  getpid :: int
  elapsed_ms :: "nat \<Rightarrow> int"
  host_config :: "string \<Rightarrow> host_options"
  server_config :: host_options
  getsockname :: "int \<Rightarrow> sockaddr option"

abbreviation (input) PROT_MAJOR :: int where "PROT_MAJOR \<equiv> 17"
abbreviation (input) PROT_MINOR :: int where "PROT_MINOR \<equiv> 7"
abbreviation (input) OPTION_PMTU_DISCOVERY :: u32 where "OPTION_PMTU_DISCOVERY \<equiv> 4"
abbreviation (input) OPTION_CLAMP_MSS :: u32 where "OPTION_CLAMP_MSS \<equiv> 8"

section \<open>Identification\<close>

definition chars_of :: "nat list \<Rightarrow> string" where
  "chars_of bs = map char_of bs"

definition addr_chars :: "bytes \<Rightarrow> string" where
  "addr_chars bs = map (\<lambda>b. char_of (unat b)) bs"

definition port_chars :: "u16 \<Rightarrow> string" where
  "port_chars p = addr_chars (be16_bytes (unat p))"

definition text_of :: "string option \<Rightarrow> string" where
  "text_of s = (case s of None \<Rightarrow> [] | Some t \<Rightarrow> t)"

text \<open>The greeting of a SOCKS 5 proxy with the request for the connection right behind it.\<close>

definition socks5_greeting :: "auth_config \<Rightarrow> string" where
  "socks5_greeting cfg =
     chars_of [5, 1] @
     (case proxypass cfg of
        Some pass \<Rightarrow> chars_of [2, 1, length (text_of (proxyuser cfg)) mod 256] @ text_of (proxyuser cfg) @ chars_of [length pass mod 256] @ pass
      | None \<Rightarrow> chars_of [0]) @
     chars_of [5, 1, 0]"

definition send_proxyrequest :: "daemon_env \<Rightarrow> auth_config \<Rightarrow> connection \<Rightarrow> daemon \<Rightarrow> bool \<times> daemon" where
  "send_proxyrequest env cfg c d =
     (case proxytype cfg of
        PROXY_HTTP \<Rightarrow>
          (case sockaddr2str env (conn_address c) of (host, port) \<Rightarrow>
             (True, snd (send_request env c (''CONNECT '' @ host @ '':'' @ port @ '' HTTP/1.1'' @ [CHR 0x0D, CHR 0x0A, CHR 0x0D]) d)))
      | PROXY_SOCKS4 \<Rightarrow>
          (case conn_address c of
             AF_INET a p \<Rightarrow>
               (let c = c\<lparr>tcplen := 8\<rparr> in
                send_meta env c (chars_of [4, 1] @ port_chars p @ addr_chars a @ text_of (proxyuser cfg) @ chars_of [0]) (update_connection c d))
           | _ \<Rightarrow> (False, d))
      | PROXY_SOCKS5 \<Rightarrow>
          (let base = 2 + (if proxypass cfg \<noteq> None then 2 else 0) in
           case conn_address c of
             AF_INET a p \<Rightarrow>
               (let c = c\<lparr>tcplen := base + 10\<rparr> in
                send_meta env c (socks5_greeting cfg @ chars_of [1] @ addr_chars a @ port_chars p) (update_connection c d))
           | AF_INET6 a p \<Rightarrow>
               (let c = c\<lparr>tcplen := base + 22\<rparr> in
                send_meta env c (socks5_greeting cfg @ chars_of [3] @ addr_chars a @ port_chars p) (update_connection c d))
           | _ \<Rightarrow> (False, update_connection (c\<lparr>tcplen := base\<rparr>) d))
      | PROXY_EXEC \<Rightarrow> (True, d)
      | _ \<Rightarrow> (False, d))"

definition send_id :: "daemon_env \<Rightarrow> auth_config \<Rightarrow> connection \<Rightarrow> daemon \<Rightarrow> bool \<times> daemon" where
  "send_id env cfg c d =
     (case (if proxytype cfg \<noteq> PROXY_NONE \<and> outgoing c then send_proxyrequest env cfg c d else (True, d)) of (ok, d) \<Rightarrow>
        if \<not> ok then (False, d)
        else send_request env c (print_d ID @ '' '' @ self env @ '' '' @ print_d PROT_MAJOR @ ''.'' @
               print_d (if experimental cfg then PROT_MINOR else 0)) d)"

text \<open>The options and the weight that are offered for the edge.\<close>

definition ack_options :: "auth_config \<Rightarrow> u32 \<Rightarrow> connection \<Rightarrow> u32" where
  "ack_options cfg mine c =
     (let host = host_config cfg (conn_name c);
          options = conn_options c;
          options = (if indirect_data host = Some True \<or> mine AND OPTION_INDIRECT \<noteq> 0 then options OR OPTION_INDIRECT else options);
          options = (if tcp_only host = Some True \<or> mine AND OPTION_TCPONLY \<noteq> 0 then options OR (OPTION_TCPONLY OR OPTION_INDIRECT) else options);
          options = (if mine AND OPTION_PMTU_DISCOVERY \<noteq> 0 \<and> options AND OPTION_TCPONLY = 0 then options OR OPTION_PMTU_DISCOVERY else options);
          choice = (case clamp_option_mss host of Some b \<Rightarrow> b | None \<Rightarrow> mine AND OPTION_CLAMP_MSS \<noteq> 0)
      in if choice then options OR OPTION_CLAMP_MSS else options)"

definition ack_weight :: "auth_config \<Rightarrow> connection \<Rightarrow> int" where
  "ack_weight cfg c =
     (case weight_option (host_config cfg (conn_name c)) of
        Some w \<Rightarrow> w
      | None \<Rightarrow> (case weight_option (server_config cfg) of Some w \<Rightarrow> w | None \<Rightarrow> c_int (elapsed_ms cfg (conn_id c))))"

definition send_ack :: "daemon_env \<Rightarrow> auth_config \<Rightarrow> connection \<Rightarrow> daemon \<Rightarrow> bool \<times> daemon" where
  "send_ack env cfg c d =
     (let c = c\<lparr>conn_options := ack_options cfg (node_options (nodes d (self env))) c, estimated_weight := ack_weight cfg c\<rparr> in
      send_request env c (print_d ACK @ '' '' @ myport cfg @ '' '' @ print_d (estimated_weight c) @ '' '' @
        print_x (unat ((conn_options c AND 0xFFFFFF) OR (if experimental cfg then push_bit 24 (of_int PROT_MINOR) else 0))))
        (update_connection c d))"

definition id_format :: "scan_item list" where
  "id_format = [Skip_D, Match_Space, Scan_S 2048, Match_Space, Scan_WD 2, Match_Char (CHR ''.''), Scan_WD 3]"

definition id_args :: "scan_value list \<Rightarrow> (string \<times> int \<times> int option) option" where
  "id_args vs =
     (case vs of
        [V_String name, V_Int major] \<Rightarrow> Some (name, major, None)
      | [V_String name, V_Int major, V_Int minor] \<Rightarrow> Some (name, major, Some minor)
      | _ \<Rightarrow> None)"

definition id_h :: "daemon_env \<Rightarrow> auth_config \<Rightarrow> connection \<Rightarrow> string \<Rightarrow> daemon \<Rightarrow> outcome" where
  "id_h env cfg c line d =
     (case id_args (fst (sscanf id_format line)) of
        None \<Rightarrow> Returned False d
      | Some (name, major, minor) \<Rightarrow>
          let c = c\<lparr>protocol_major := major, protocol_minor := (case minor of None \<Rightarrow> protocol_minor c | Some m \<Rightarrow> m)\<rparr> in
          if name = CHR ''^'' # controlcookie cfg then
            let c = c\<lparr>control := True, allow_request := CONTROL, last_ping_time := clock env + 3600, conn_name := ''<control>''\<rparr>;
                d = update_connection c d;
                d = (if \<not> outgoing c then snd (send_id env cfg c d) else d)
            in (case send_request env c (print_d ACK @ '' '' @ print_d 0 @ '' '' @ print_d (getpid cfg)) d of (r, d) \<Rightarrow> Returned r d)
          else if \<not> check_id name \<or> name = self env then Returned False (update_connection c d)
          else if outgoing c \<and> conn_name c \<noteq> name then Returned False (update_connection c d)
          else
            let c = (if outgoing c then c else c\<lparr>conn_name := name\<rparr>);
                d = update_connection c d
            in if protocol_major c \<noteq> PROT_MAJOR then Returned False d
               else if quic_context c then
                 let c = c\<lparr>allow_request := ACK\<rparr>;
                     d = update_connection c d;
                     d = (if \<not> outgoing c then snd (send_id env cfg c d) else d)
                 in (case send_ack env cfg c d of (r, d) \<Rightarrow> Returned r d)
               else Returned False d)"

section \<open>Termination\<close>

definition connection_add :: "connection \<Rightarrow> daemon \<Rightarrow> daemon" where
  "connection_add c d = d\<lparr>connection_list := connection_list d @ [c]\<rparr>"

definition connection_del :: "connection \<Rightarrow> daemon \<Rightarrow> daemon" where
  "connection_del c d = d\<lparr>connection_list := filter (\<lambda>x. conn_id x \<noteq> conn_id c) (connection_list d)\<rparr>"

definition close_connection :: "connection \<Rightarrow> daemon \<Rightarrow> daemon" where
  "close_connection c d =
     (let d = connection_del c d in if outgoing c then d\<lparr>retries := retries d @ [conn_name c]\<rparr> else d)"

text \<open>The rest of the caller is the continuation. An edge that the connection has but the trees have not would be a stale pointer.\<close>

definition terminate_connection :: "daemon_env \<Rightarrow> connection \<Rightarrow> bool \<Rightarrow> daemon \<Rightarrow> (daemon \<Rightarrow> outcome) \<Rightarrow> outcome" where
  "terminate_connection env c report d k =
     (case conn_node c of
        None \<Rightarrow> k (close_connection c d)
      | Some n \<Rightarrow>
          let d = (if node_connection d n = Some (conn_id c) then d\<lparr>node_connection := (node_connection d)(n := None)\<rparr> else d) in
          case conn_edge c of
            None \<Rightarrow> k (close_connection c d)
          | Some key \<Rightarrow>
              (case mesh_of (edges d) key of
                 None \<Rightarrow> Crashed
               | Some e \<Rightarrow>
                   let d = (if report \<and> \<not> tunnelserver env then snd (send_del_edge_everyone env e d) else d);
                       d = d\<lparr>edges := edge_del e (edges d)\<rparr>;
                       d = update_connection (c\<lparr>conn_edge := None\<rparr>) d
                   in run_graph env d (\<lambda>d.
                        case (if report then drop_return_edge env n d else Returned True d) of
                          Returned _ d \<Rightarrow> k (close_connection c d)
                        | r \<Rightarrow> r)))"

section \<open>Acknowledgement\<close>

definition sockaddr_setport :: "sockaddr \<Rightarrow> string \<Rightarrow> sockaddr" where
  "sockaddr_setport sa port =
     (let portnum = of_int (atoi port) :: u16 in
      if portnum = 0 then sa
      else case sa of
        AF_INET a _ \<Rightarrow> AF_INET a portnum
      | AF_INET6 a _ \<Rightarrow> AF_INET6 a portnum
      | AF_UNKNOWN a _ \<Rightarrow> AF_UNKNOWN a port
      | AF_UNSPEC \<Rightarrow> AF_UNSPEC)"

definition send_everything :: "daemon_env \<Rightarrow> connection \<Rightarrow> daemon \<Rightarrow> daemon" where
  "send_everything env c d =
     (if tunnelserver env then
        fold (\<lambda>s d. snd (send_add_subnet env c (self env) s d)) (links (node_subnets (subnets d) (self env))) d
      else
        fold (\<lambda>n d.
            let d = fold (\<lambda>s d. snd (send_add_subnet env c n s d)) (links (node_subnets (subnets d) n)) d
            in fold (\<lambda>e d. snd (send_add_edge env c e d)) (links (node_edges (edges d) n)) d)
          (links (node_tree d)) d)"

definition send_add_edge_everyone :: "daemon_env \<Rightarrow> edge \<Rightarrow> daemon \<Rightarrow> bool \<times> daemon" where
  "send_add_edge_everyone env e d =
     (case next_rand env d of (r, d) \<Rightarrow>
        send_everyone env (edge_line ADD_EDGE r (edge_from e) (edge_to e) @
          edge_details (sockaddr2str env (edge_address e)) (edge_options e) (edge_weight e)
            (if sa_family (edge_local_address e) \<noteq> 0 then Some (sockaddr2str env (edge_local_address e)) else None)) d)"

text \<open>The choice between an old and a new connection with the same node.\<close>

datatype tie = Keep_New | Keep_Old

definition second_connection :: "bool \<Rightarrow> bool \<Rightarrow> bool \<Rightarrow> tie" where
  "second_connection old_outgoing new_outgoing peer_smaller =
     (if old_outgoing \<and> new_outgoing \<or> \<not> old_outgoing \<and> \<not> new_outgoing then (if peer_smaller then Keep_New else Keep_Old)
      else if old_outgoing \<and> \<not> new_outgoing then (if peer_smaller then Keep_New else Keep_Old)
      else Keep_New)"

definition c_half :: "int \<Rightarrow> int" where
  "c_half x = (if x < 0 then - ((- x) div 2) else x div 2)"

definition agreed_options :: "host_options \<Rightarrow> u32 \<Rightarrow> u32 \<Rightarrow> u32" where
  "agreed_options host mine his =
     (let pmtu = mine AND his AND OPTION_PMTU_DISCOVERY;
          mine = (if pmtu = 0 then mine AND NOT OPTION_PMTU_DISCOVERY else mine);
          his = (if pmtu = 0 then his AND NOT OPTION_PMTU_DISCOVERY else his);
          mine = mine OR his
      in case clamp_option_mss host of
           None \<Rightarrow> mine
         | Some True \<Rightarrow> mine OR OPTION_CLAMP_MSS
         | Some False \<Rightarrow> mine AND NOT OPTION_CLAMP_MSS)"

definition lower_mtu :: "int option \<Rightarrow> int \<Rightarrow> int" where
  "lower_mtu limit mtu = (case limit of Some m \<Rightarrow> if m < mtu then m else mtu | None \<Rightarrow> mtu)"

definition activate :: "daemon_env \<Rightarrow> auth_config \<Rightarrow> connection \<Rightarrow> string \<Rightarrow> int \<Rightarrow> u32 \<Rightarrow> string \<Rightarrow> daemon \<Rightarrow> outcome" where
  "activate env cfg c hisport w options n d =
     (let host = host_config cfg (conn_name c);
          d = d\<lparr>node_connection := (node_connection d)(n \<mapsto> conn_id c),
                node_mtu := (node_mtu d)(n := lower_mtu (pmtu_option (server_config cfg)) (lower_mtu (pmtu_option host) (node_mtu d n)))\<rparr>;
          c = c\<lparr>conn_node := Some n, conn_options := agreed_options host (conn_options c) options, allow_request := ALL_REQUESTS\<rparr>;
          d = send_everything env c (update_connection c d);
          address = sockaddr_setport (conn_address c) hisport;
          local = (if quic_context c then sockaddr_setport (conn_local_address c) (myport cfg)
                   else case getsockname cfg (socket c) of None \<Rightarrow> AF_UNSPEC | Some sa \<Rightarrow> sockaddr_setport sa (myport cfg));
          e = (new_edge (self env) n)\<lparr>edge_address := address, edge_local_address := local,
                edge_weight := c_half (c_int (w + estimated_weight c)), edge_connection := Some (conn_id c), edge_options := conn_options c\<rparr>;
          c = c\<lparr>conn_edge := Some (self env, n)\<rparr>;
          d = update_connection c d;
          d = d\<lparr>edges := edge_add e (edges d)\<rparr>;
          d = (if tunnelserver env then snd (send_add_edge env c e d) else snd (send_add_edge_everyone env e d))
      in run_graph env d (Returned True))"

definition ack_format :: "scan_item list" where
  "ack_format = [Skip_D, Match_Space, Scan_S 2048, Match_Space, Scan_D, Match_Space, Scan_X 32]"

definition ack_h :: "daemon_env \<Rightarrow> auth_config \<Rightarrow> connection \<Rightarrow> string \<Rightarrow> daemon \<Rightarrow> outcome" where
  "ack_h env cfg c line d =
     (case fst (sscanf ack_format line) of
        [V_String hisport, V_Int w, V_Nat options] \<Rightarrow>
          (case lookup_node (conn_name c) d of
             (None, d) \<Rightarrow> activate env cfg c hisport w (of_nat options) (conn_name c) (node_add (conn_name c) d)
           | (Some n, d) \<Rightarrow>
               (case node_connection d n of
                  None \<Rightarrow> activate env cfg c hisport w (of_nat options) n d
                | Some i \<Rightarrow>
                    if i = conn_id c then activate env cfg c hisport w (of_nat options) n d
                    else case find_connection i d of
                      None \<Rightarrow> Crashed
                    | Some old \<Rightarrow>
                        (case second_connection (outgoing old) (outgoing c) (strcmp (conn_name c) (self env) < 0) of
                           Keep_Old \<Rightarrow> terminate_connection env c False d (Returned True)
                         | Keep_New \<Rightarrow>
                             let c = c\<lparr>outgoing := outgoing old\<rparr>;
                                 old = old\<lparr>outgoing := False\<rparr>;
                                 d = update_connection old (update_connection c d)
                             in terminate_connection env old False d (\<lambda>d.
                                  run_graph env d (activate env cfg c hisport w (of_nat options) n)))))
      | _ \<Rightarrow> Returned False d)"

section \<open>What sending changes\<close>

text \<open>Only the outbox and the random numbers.\<close>

definition sends :: "daemon \<Rightarrow> daemon \<Rightarrow> bool" where
  "sends d d' \<longleftrightarrow> (\<exists>ms r. d' = d\<lparr>outbox := outbox d @ ms, rand_count := r\<rparr>)"

lemma sendsI: "d' = d\<lparr>outbox := outbox d @ ms, rand_count := r\<rparr> \<Longrightarrow> sends d d'"
  by (auto simp: sends_def)

lemma sends_refl [simp]: "sends d d"
  by (rule sendsI [where ms = "[]" and r = "rand_count d"]) simp

lemma sends_trans: "sends d d1 \<Longrightarrow> sends d1 d2 \<Longrightarrow> sends d d2"
  unfolding sends_def by force

lemma sends_rand [simp]: "sends d (d\<lparr>rand_count := r\<rparr>)"
  by (rule sendsI [where ms = "[]" and r = r]) simp

lemma sends_meta: "sends d (snd (send_meta env c line d))"
proof -
  have "sends d (d\<lparr>outbox := outbox d @ [(conn_id c, line)]\<rparr>)"
    by (rule sendsI [where ms = "[(conn_id c, line)]" and r = "rand_count d"]) simp
  then show ?thesis by (simp add: send_meta_def)
qed

lemma sends_request: "sends d (snd (send_request env c line d))"
  using sends_meta by (simp add: send_request_def)

lemma sends_broadcast: "sends d (broadcast_meta env x line d)"
  unfolding broadcast_meta_outbox by (rule sendsI [where r = "rand_count d"]) simp

lemma sends_everyone: "sends d (snd (send_everyone env line d))"
  using sends_broadcast by (simp add: send_everyone_def)

lemma sends_all [simp]:
  "sends d (snd (send_add_subnet env c n s d))" "sends d (snd (send_del_subnet env c n s d))"
  "sends d (snd (send_add_edge env c e d))" "sends d (snd (send_del_edge env c e d))"
  "sends d (snd (send_add_edge_everyone env e d))" "sends d (snd (send_del_edge_everyone env e d))"
  "sends d (forward_request env c line d)" "sends d (snd (send_pong env c d))"
  using sends_trans [OF sends_rand sends_request] sends_trans [OF sends_rand sends_everyone] sends_broadcast sends_request
  by (auto simp: send_add_subnet_def send_del_subnet_def send_add_edge_def send_del_edge_def send_add_edge_everyone_def
      send_del_edge_everyone_def next_rand_def forward_request_def send_pong_def)

lemma sends_fold: "(\<And>x d. sends d (f x d)) \<Longrightarrow> sends d (fold f xs d)"
  by (induction xs arbitrary: d) (auto intro: sends_trans)

lemma sends_everything [simp]: "sends d (send_everything env c d)"
  unfolding send_everything_def Let_def by (auto intro!: sends_fold intro: sends_trans [OF sends_fold sends_fold])

lemma sends_frame:
  assumes "sends d d'"
  shows "connection_list d' = connection_list d" "edges d' = edges d" "nodes d' = nodes d" "known d' = known d" "seen d' = seen d"
    "request_inv d' = request_inv d" "node_connection d' = node_connection d" "retries d' = retries d" "node_tree d' = node_tree d"
    "mesh_shape env d' = mesh_shape env d" "mesh_inv env d' = mesh_inv env d" "\<exists>ms. outbox d' = outbox d @ ms" "subnets d' = subnets d"
  using assms by (auto simp: sends_def known_def seen_def request_inv_def mesh_shape_def mesh_inv_def)

section \<open>Ending a connection\<close>

lemma update_connection_frame [simp]:
  "edges (update_connection c d) = edges d" "nodes (update_connection c d) = nodes d" "known (update_connection c d) = known d"
  "seen (update_connection c d) = seen d" "request_inv (update_connection c d) = request_inv d"
  "node_connection (update_connection c d) = node_connection d" "retries (update_connection c d) = retries d" "outbox (update_connection c d) = outbox d"
  "mesh_shape env (update_connection c d) = mesh_shape env d" "mesh_inv env (update_connection c d) = mesh_inv env d"
  by (simp_all add: update_connection_def known_def seen_def request_inv_def mesh_shape_def mesh_inv_def)

lemma close_connection_frame [simp]:
  "edges (close_connection c d) = edges d" "nodes (close_connection c d) = nodes d" "known (close_connection c d) = known d"
  "node_connection (close_connection c d) = node_connection d" "mesh_inv env (close_connection c d) = mesh_inv env d"
  "seen (close_connection c d) = seen d"
  "connection_list (close_connection c d) = filter (\<lambda>x. conn_id x \<noteq> conn_id c) (connection_list d)"
  "retries (close_connection c d) = retries d @ (if outgoing c then [conn_name c] else [])"
  by (simp_all add: close_connection_def connection_del_def Let_def known_def seen_def request_inv_def mesh_shape_def mesh_inv_def)

lemma filter_updated: "filter (\<lambda>x. conn_id x \<noteq> i) (map (\<lambda>x. if conn_id x = i then y else x) xs) = filter (\<lambda>x. conn_id x \<noteq> i) xs"
  if "conn_id y = i" using that by (induction xs) auto

lemma filter_updated_other: "filter (\<lambda>x. conn_id x \<noteq> i) (map (\<lambda>x. if conn_id x = j then y else x) xs) = map (\<lambda>x. if conn_id x = j then y else x) (filter (\<lambda>x. conn_id x \<noteq> i) xs)"
  if "conn_id y = j" "i \<noteq> j" using that by (induction xs) auto

lemma drop_return_edge_retries:
  "drop_return_edge env n d = Returned x d' \<Longrightarrow> retries d' = retries d \<and> node_connection d' = node_connection d"
  using sends_frame(7,8) [OF sends_all(6)]
  by (auto simp: drop_return_edge_def known_edge_def Let_def split: if_splits prod.splits option.splits)

lemma run_graph_retries:
  assumes shape: "mesh_shape env d" and room: "mesh_room env (card (known d)) (card (edge_set (edges d)))"
  obtains d' where "\<And>k. run_graph env d k = k d'" "mesh_inv env d'" "edges d' = edges d" "known d' = known d" "seen d' = seen d"
    "outbox d' = outbox d" "connection_list d' = connection_list d" "retries d' = retries d" "node_connection d' = node_connection d"
proof -
  obtain d' where d': "\<And>k. run_graph env d k = k d'" "mesh_inv env d'" "edges d' = edges d" "known d' = known d" "seen d' = seen d"
    "outbox d' = outbox d" "connection_list d' = connection_list d" by (rule run_graph_spec [OF shape room]) (rule that)
  have "run_graph env d (Returned True) = Returned True d'" by (rule d'(1))
  then have "retries d' = retries d" "node_connection d' = node_connection d"
    by (auto simp: run_graph_def split: graph_outcome.splits)
  with d' show thesis by (intro that [of d'])
qed

lemma terminate_connection_effect:
  assumes inv: "mesh_inv env d" and c: "conn_node c = Some n" "conn_edge c = Some (self env, n)" and e: "mesh_of (edges d) (self env, n) = Some e"
    and n: "n \<in> known d" "c_string n" "c_string (self env)" and room: "mesh_room env (card (known d)) (card (edge_set (edges d)))"
  obtains d' where "\<And>k. terminate_connection env c report d k = k d'" "mesh_inv env d'" "known d' = known d" "seen d' = seen d"
    "connection_list d' = filter (\<lambda>x. conn_id x \<noteq> conn_id c) (connection_list d)"
    "retries d' = retries d @ (if outgoing c then [conn_name c] else [])"
    "node_connection d' = (if node_connection d n = Some (conn_id c) then (node_connection d)(n := None) else node_connection d)"
    "mesh_of (edges d') = (if report \<and> \<not> (mutual (edges d'))\<^sup>*\<^sup>* (self env) n
       then (mesh_of (edges d))((self env, n) := None, (n, self env) := None) else (mesh_of (edges d))((self env, n) := None))"
proof -
  define d1 where "d1 = (if node_connection d n = Some (conn_id c) then d\<lparr>node_connection := (node_connection d)(n := None)\<rparr> else d)"
  define d2 where "d2 = (if report \<and> \<not> tunnelserver env then snd (send_del_edge_everyone env e d1) else d1)"
  define d3 where "d3 = update_connection (c\<lparr>conn_edge := None\<rparr>) (d2\<lparr>edges := edge_del e (edges d2)\<rparr>)"
  have f1: "edges d1 = edges d" "known d1 = known d" "seen d1 = seen d" "connection_list d1 = connection_list d" "retries d1 = retries d" "mesh_inv env d1"
    using inv by (simp_all add: d1_def known_def seen_def mesh_inv_def mesh_shape_def request_inv_def)
  have s2: "sends d1 d2" by (simp add: d2_def)
  note f2 = sends_frame [OF s2]
  have E: "edges_inv (edges d)" using inv by (simp add: mesh_inv_def mesh_shape_def)
  have e': "e \<in> edge_set (edges d)" "edge_key e = (self env, n)" using e mesh_of_Some [OF E] by blast+
  have shape2: "mesh_shape env d2" using f1(6) f2(10) [of env] by (simp add: mesh_inv_def)
  have e2: "e \<in> edge_set (edges d2)" using e' f1 f2 by simp
  have shape3: "mesh_shape env d3" "card (edge_set (edges d3)) \<le> card (edge_set (edges d))" "known d3 = known d"
    using mesh_shape_del [OF shape2 e2] f1 f2 by (simp_all add: d3_def) (simp_all add: known_def)
  have room3: "mesh_room env (card (known d3)) (card (edge_set (edges d3)))" using room shape3 by (auto intro: mesh_room_mono)
  obtain d4 where d4: "\<And>k. run_graph env d3 k = k d4" "mesh_inv env d4" "edges d4 = edges d3" "known d4 = known d3" "seen d4 = seen d3"
    "outbox d4 = outbox d3" "connection_list d4 = connection_list d3" "retries d4 = retries d3" "node_connection d4 = node_connection d3"
    by (rule run_graph_retries [OF shape3(1) room3]) (rule that)
  have n4: "n \<in> known d4" using d4(4) shape3(3) n(1) by simp
  have m4: "mesh_of (edges d4) = (mesh_of (edges d))((self env, n) := None)"
    using mesh_of_changes(3) [OF E e'(1)] e'(2) d4(3) f1 f2 by (simp add: d3_def)
  obtain d5 where d5: "(if report then drop_return_edge env n d4 else Returned True d4) = Returned True d5" "mesh_inv env d5" "seen d5 = seen d4"
    "connection_list d5 = connection_list d4"
    "mesh_of (edges d5) = (if \<not> report \<or> reachable (nodes d4 n) then mesh_of (edges d4) else (mesh_of (edges d4))((n, self env) := None))"
    "known d5 = known d4"
  proof (cases report)
    case True
    obtain d5 where "drop_return_edge env n d4 = Returned True d5" "mesh_inv env d5" "seen d5 = seen d4" "connection_list d5 = connection_list d4"
      "mesh_of (edges d5) = (if reachable (nodes d4 n) then mesh_of (edges d4) else (mesh_of (edges d4))((n, self env) := None))"
      "\<exists>ms. outbox d5 = outbox d4 @ ms \<and> return_notices env n d4 ms" by (rule drop_return_edge_effect [OF d4(2) n4 n(2,3)]) (rule that)
    moreover from this(1) have "known d5 = known d4"
      using sends_frame(4) [OF sends_all(6)]
      by (auto simp: drop_return_edge_def known_edge_def Let_def known_def split: if_splits prod.splits option.splits)
    ultimately show thesis using True by (intro that [of d5]) simp_all
  qed (use d4 in \<open>auto intro: that\<close>)
  have f5: "retries d5 = retries d4" "node_connection d5 = node_connection d4" using d5(1) drop_return_edge_retries [of env n d4 True d5] by (auto split: if_splits)
  have run: "terminate_connection env c report d k = k (close_connection c d5)" for k
    unfolding terminate_connection_def c option.case Let_def d1_def [symmetric] f1(1) e d2_def [symmetric] d3_def [symmetric] d4(1) d5(1)
    by simp
  have conns: "filter (\<lambda>x. conn_id x \<noteq> conn_id c) (connection_list d5) = filter (\<lambda>x. conn_id x \<noteq> conn_id c) (connection_list d)"
    using d5(4) d4(7) f1(4) f2(1) filter_updated [of "c\<lparr>conn_edge := None\<rparr>" "conn_id c"] by (simp add: d3_def update_connection_def)
  have mono: "mutual (edges d5) a b \<Longrightarrow> mutual (edges d4) a b" for a b using d5(5) by (auto simp: mutual_mesh split: if_splits)
  have "mutual (edges d5) = mutual (edges d4)" if "\<not> report \<or> reachable (nodes d4 n)" using d5(5) that by (simp add: mutual_mesh fun_eq_iff)
  then have far: "(mutual (edges d5))\<^sup>*\<^sup>* (self env) n \<longleftrightarrow> reachable (nodes d4 n)"
    using rtranclp_mono [of "mutual (edges d5)" "mutual (edges d4)"] mono d4(2) n4 by (auto simp: mesh_inv_def)
  have "seen (d2\<lparr>edges := x\<rparr>) = seen d2" for x by (simp add: seen_def)
  then have f3: "seen d3 = seen d" "retries d3 = retries d"
    "node_connection d3 = (if node_connection d n = Some (conn_id c) then (node_connection d)(n := None) else node_connection d)"
    using f1(3,5) f2(5,7,8) by (simp_all add: d3_def) (simp add: d1_def)
  show thesis
  proof (rule that [OF run], goal_cases)
    case 7
    show ?case using d5(5) m4 far by (cases report; cases "reachable (nodes d4 n)") simp_all
  qed (use d5(2,3,6) d4(4,5,8,9) f5 f3 conns shape3(3) in simp_all)
qed

section \<open>Activating a connection\<close>

definition activated :: "daemon_env \<Rightarrow> auth_config \<Rightarrow> connection \<Rightarrow> u32 \<Rightarrow> string \<Rightarrow> connection" where
  "activated env cfg c options n = c\<lparr>conn_node := Some n, conn_options := agreed_options (host_config cfg (conn_name c)) (conn_options c) options,
     allow_request := ALL_REQUESTS, conn_edge := Some (self env, n)\<rparr>"

lemma update_twice:
  "conn_id c' = conn_id c \<Longrightarrow> connection_list (update_connection c' d') = map (\<lambda>x. if conn_id x = conn_id c then c' else x) (connection_list d)"
  if "connection_list d' = map (\<lambda>x. if conn_id x = conn_id c then c else x) (connection_list d)"
  using that by (simp add: update_connection_def)

lemma activate_effect:
  assumes inv: "mesh_inv env d" and n: "n \<in> known d" "c_string n" "c_string (self env)" "mesh_of (edges d) (self env, n) = None"
    and opt: "agreed_options (host_config cfg (conn_name c)) (conn_options c) options AND OPTION_INDIRECT = 0"
    and w: "0 \<le> c_half (c_int (w + estimated_weight c))" "c_int_ok (c_half (c_int (w + estimated_weight c)))"
    and room: "mesh_room env (card (known d)) (Suc (card (edge_set (edges d))))"
  obtains d' e where "activate env cfg c hisport w options n d = Returned True d'" "mesh_inv env d'" "seen d' = seen d"
    "connection_list d' = map (\<lambda>x. if conn_id x = conn_id c then activated env cfg c options n else x) (connection_list d)"
    "node_connection d' = (node_connection d)(n \<mapsto> conn_id c)"
    "mesh_of (edges d') = (mesh_of (edges d))((self env, n) \<mapsto> e)" "edge_weight e = c_half (c_int (w + estimated_weight c))"
    "edge_connection e = Some (conn_id c)" "edge_address e = sockaddr_setport (conn_address c) hisport" "known d' = known d"
proof -
  define d1 where "d1 = d\<lparr>node_connection := (node_connection d)(n \<mapsto> conn_id c), node_mtu := (node_mtu d)(n := lower_mtu (pmtu_option (server_config cfg))
      (lower_mtu (pmtu_option (host_config cfg (conn_name c))) (node_mtu d n)))\<rparr>"
  define c1 where "c1 = c\<lparr>conn_node := Some n, conn_options := agreed_options (host_config cfg (conn_name c)) (conn_options c) options, allow_request := ALL_REQUESTS\<rparr>"
  define d2 where "d2 = send_everything env c1 (update_connection c1 d1)"
  define e where "e = (new_edge (self env) n)\<lparr>edge_address := sockaddr_setport (conn_address c1) hisport,
      edge_local_address := (if quic_context c1 then sockaddr_setport (conn_local_address c1) (myport cfg)
        else case getsockname cfg (socket c1) of None \<Rightarrow> AF_UNSPEC | Some sa \<Rightarrow> sockaddr_setport sa (myport cfg)),
      edge_weight := c_half (c_int (w + estimated_weight c1)), edge_connection := Some (conn_id c1), edge_options := conn_options c1\<rparr>"
  define c2 where "c2 = c1\<lparr>conn_edge := Some (self env, n)\<rparr>"
  define d3 where "d3 = (update_connection c2 d2)\<lparr>edges := edge_add e (edges d2)\<rparr>"
  define d4 where "d4 = (if tunnelserver env then snd (send_add_edge env c2 e d3) else snd (send_add_edge_everyone env e d3))"
  have run: "activate env cfg c hisport w options n d = run_graph env d4 (Returned True)"
    unfolding activate_def Let_def d1_def [symmetric] c1_def [symmetric] d2_def [symmetric] e_def [symmetric] c2_def [symmetric] d4_def d3_def by simp
  have f1: "mesh_inv env d1" "edges d1 = edges d" "known d1 = known d" "seen d1 = seen d" "connection_list d1 = connection_list d"
    using inv by (simp_all add: d1_def mesh_inv_def mesh_shape_def request_inv_def known_def seen_def)
  have s2: "sends (update_connection c1 d1) d2" by (simp add: d2_def)
  note f2 = sends_frame [OF s2]
  have E: "edges_inv (edges d)" using inv by (simp add: mesh_inv_def mesh_shape_def)
  have e: "edge_ok e" "edge_key e = (self env, n)" "edge_options e AND OPTION_INDIRECT = 0" "edge_weight e = c_half (c_int (w + estimated_weight c))"
    "edge_connection e = Some (conn_id c)" "edge_address e = sockaddr_setport (conn_address c) hisport"
    using n w opt by (simp_all add: e_def edge_ok_def new_edge_def c1_def)
  have fresh: "edge_key e \<notin> edge_key ` edge_set (edges d)" using n(4) mesh_of_None [of "edges d"] e(2) by simp
  note add = edge_add_new [OF E e(1) fresh]
  have f3: "edges d3 = edge_add e (edges d)" "known d3 = known d" "seen d3 = seen d"
    using f1 f2 by (simp_all add: d3_def) (simp_all add: known_def seen_def update_connection_def)
  have "self env \<in> known d" "request_inv d2" using inv f1 f2 by (simp_all add: mesh_inv_def mesh_shape_def)
  then have shape3: "mesh_shape env d3"
    using inv n(1) add f3 e(2,3) by (auto simp: mesh_shape_def mesh_inv_def) (simp add: d3_def request_inv_def update_connection_def)
  have s4: "sends d3 d4" by (simp add: d4_def)
  note f4 = sends_frame [OF s4]
  have shape4: "mesh_shape env d4" using f4(10) [of env] shape3 by simp
  have "card (edge_set (edges d4)) \<le> Suc (card (edge_set (edges d)))"
    using f4(2) f3(1) add(2) by (simp add: Edge.edges_def card_insert_if)
  then have room4: "mesh_room env (card (known d4)) (card (edge_set (edges d4)))" using room f4(4) f3(2) by (auto intro: mesh_room_mono)
  obtain d5 where d5: "\<And>k. run_graph env d4 k = k d5" "mesh_inv env d5" "edges d5 = edges d4" "known d5 = known d4" "seen d5 = seen d4"
    "outbox d5 = outbox d4" "connection_list d5 = connection_list d4" "retries d5 = retries d4" "node_connection d5 = node_connection d4"
    by (rule run_graph_retries [OF shape4 room4]) (rule that)
  have "connection_list d2 = map (\<lambda>x. if conn_id x = conn_id c1 then c1 else x) (connection_list d)"
    using f2(1) f1(5) by (simp add: update_connection_def)
  from update_twice [OF this, of c2] have conns: "connection_list d3 = map (\<lambda>x. if conn_id x = conn_id c1 then c2 else x) (connection_list d)"
    by (simp add: d3_def c2_def)
  have act: "c2 = activated env cfg c options n" "conn_id c1 = conn_id c" by (simp_all add: c2_def c1_def activated_def)
  have nc: "node_connection d3 = (node_connection d)(n \<mapsto> conn_id c)" using f2(7) by (simp add: d3_def d1_def update_connection_def)
  show thesis
  proof (rule that [of d5 e], goal_cases)
    case 6
    show ?case using d5(3) f4(2) f3(1) mesh_of_changes(2) [OF E e(1) fresh] e(2) by simp
  qed (use run d5(1,2,4,5,7,9) f4(1,4,5,7) f3(2,3) conns act nc e(4-6) in simp_all)
qed

definition ack_line :: "string \<Rightarrow> int \<Rightarrow> u32 \<Rightarrow> string" where
  "ack_line hisport w options = print_d ACK @ '' '' @ hisport @ '' '' @ print_d w @ '' '' @ print_x (unat options)"

lemma ack_scan:
  assumes "text_word hisport" "c_int_ok w"
  shows "fst (sscanf ack_format (ack_line hisport w options)) = [V_String hisport, V_Int w, V_Nat (unat options)]"
proof -
  have opt: "unat options < 2 ^ 32" using unsigned_less [of options] by simp
  have x: "scan_x 32 (print_x (unat options)) = Some (unat options, [])" using scan_x_print [of "unat options" 32 "[]"] opt by simp
  have sp: "scan_space (CHR '' '' # print_x (unat options)) = print_x (unat options)" using number_scans(2) [where t = "[]"] by simp
  show ?thesis
    by (simp add: ack_format_def ack_line_def word_scans [OF assms(1)] number_scans(3) [OF assms(2)] number_scans(3) number_scans(5) x sp c_int_ok_def)
qed

text \<open>What the handler relies on when it activates a connection.\<close>

definition ack_ok :: "daemon_env \<Rightarrow> auth_config \<Rightarrow> connection \<Rightarrow> string \<Rightarrow> int \<Rightarrow> u32 \<Rightarrow> bool" where
  "ack_ok env cfg c hisport w options \<longleftrightarrow> check_id (conn_name c) \<and> conn_name c \<noteq> self env \<and> c_string (self env) \<and> text_word hisport \<and> c_int_ok w \<and>
     agreed_options (host_config cfg (conn_name c)) (conn_options c) options AND OPTION_INDIRECT = 0 \<and>
     0 \<le> c_half (c_int (w + estimated_weight c)) \<and> c_int_ok (c_half (c_int (w + estimated_weight c)))"

lemma lookup_node_still:
  assumes "mesh_inv env d" "c_string n"
  obtains t where "lookup_node n d = (if n \<in> known d then Some n else None, d\<lparr>node_tree := t\<rparr>)" "mesh_inv env (d\<lparr>node_tree := t\<rparr>)"
    "known (d\<lparr>node_tree := t\<rparr>) = known d"
proof -
  have req: "request_inv d" using assms(1) by (simp add: mesh_inv_def mesh_shape_def)
  from lookup_node_spec [OF req assms(2)] obtain t where t: "lookup_node n d = (if n \<in> known d then Some n else None, d\<lparr>node_tree := t\<rparr>)"
    "links t = links (node_tree d)" "splay_inv strcmp c_string t" by blast
  have k: "known (d\<lparr>node_tree := t\<rparr>) = known d" using t(2) by (simp add: known_def)
  have "request_inv (d\<lparr>node_tree := t\<rparr>)" using req t(3) by (simp add: request_inv_def)
  then have "mesh_inv env (d\<lparr>node_tree := t\<rparr>)" using assms(1) k by (simp add: mesh_inv_def mesh_shape_def)
  with t(1) k show thesis by (intro that [of t])
qed

lemma ack_h_first:
  assumes inv: "mesh_inv env d" and ok: "ack_ok env cfg c hisport w options"
    and alone: "conn_name c \<in> known d \<longrightarrow> node_connection d (conn_name c) = None" "mesh_of (edges d) (self env, conn_name c) = None"
    and room: "mesh_room env (card (known d) + 1) (Suc (card (edge_set (edges d))))"
  obtains d' e where "ack_h env cfg c (ack_line hisport w options) d = Returned True d'" "mesh_inv env d'"
    "connection_list d' = map (\<lambda>x. if conn_id x = conn_id c then activated env cfg c options (conn_name c) else x) (connection_list d)"
    "mesh_of (edges d') = (mesh_of (edges d))((self env, conn_name c) \<mapsto> e)" "edge_weight e = c_half (c_int (w + estimated_weight c))"
    "edge_connection e = Some (conn_id c)" "edge_address e = sockaddr_setport (conn_address c) hisport" "node_connection d' = (node_connection d)(conn_name c \<mapsto> conn_id c)"
    "known d' = insert (conn_name c) (known d)" "seen d' = seen d"
proof -
  let ?n = "conn_name c"
  have n: "c_string ?n" "c_string (self env)" "text_word hisport" "c_int_ok w" using ok check_id_c_string by (simp_all add: ack_ok_def)
  obtain t where t: "lookup_node ?n d = (if ?n \<in> known d then Some ?n else None, d\<lparr>node_tree := t\<rparr>)" "mesh_inv env (d\<lparr>node_tree := t\<rparr>)"
    "known (d\<lparr>node_tree := t\<rparr>) = known d" by (rule lookup_node_still [OF inv n(1)])
  define d1 where "d1 = (if ?n \<in> known d then d\<lparr>node_tree := t\<rparr> else node_add ?n (d\<lparr>node_tree := t\<rparr>))"
  have d1: "mesh_inv env d1" "edges d1 = edges d" "known d1 = insert ?n (known d)" "connection_list d1 = connection_list d" "seen d1 = seen d"
    using t(2,3) mesh_inv_node_add [OF t(2) n(1)] by (auto simp: d1_def node_add_def seen_def)
  have "card (known d1) \<le> card (known d) + 1" using d1(3) by (simp add: card_insert_if known_def)
  then have room1: "mesh_room env (card (known d1)) (Suc (card (edge_set (edges d1))))" using room d1(2) by (auto intro: mesh_room_mono)
  have pre: "?n \<in> known d1" "mesh_of (edges d1) (self env, ?n) = None" using d1(2,3) alone(2) by simp_all
  have o: "agreed_options (host_config cfg (conn_name c)) (conn_options c) options AND OPTION_INDIRECT = 0"
    "0 \<le> c_half (c_int (w + estimated_weight c))" "c_int_ok (c_half (c_int (w + estimated_weight c)))" using ok by (simp_all add: ack_ok_def)
  obtain d' e where d': "activate env cfg c hisport w options ?n d1 = Returned True d'" "mesh_inv env d'" "seen d' = seen d1"
    "connection_list d' = map (\<lambda>x. if conn_id x = conn_id c then activated env cfg c options ?n else x) (connection_list d1)"
    "node_connection d' = (node_connection d1)(?n \<mapsto> conn_id c)"
    "mesh_of (edges d') = (mesh_of (edges d1))((self env, ?n) \<mapsto> e)" "edge_weight e = c_half (c_int (w + estimated_weight c))"
    "edge_connection e = Some (conn_id c)" "edge_address e = sockaddr_setport (conn_address c) hisport" "known d' = known d1"
    by (rule activate_effect [OF d1(1) pre(1) n(1,2) pre(2) o room1]) (rule that)
  have nc: "(node_connection d1)(?n \<mapsto> conn_id c) = (node_connection d)(?n \<mapsto> conn_id c)" by (auto simp: d1_def node_add_def)
  have "ack_h env cfg c (ack_line hisport w options) d = activate env cfg c hisport w options ?n d1"
    using t(1) alone(1) unfolding ack_h_def ack_scan [OF n(3,4)] d1_def by (cases "?n \<in> known d") simp_all
  with d' d1 nc show thesis by (intro that [of d' e]) simp_all
qed

lemma ack_h_keep_old:
  assumes inv: "mesh_inv env d" and ok: "ack_ok env cfg c hisport w options" and new: "conn_node c = None"
    and old: "conn_name c \<in> known d" "node_connection d (conn_name c) = Some i" "i \<noteq> conn_id c" "find_connection i d = Some old"
    and tie: "second_connection (outgoing old) (outgoing c) (strcmp (conn_name c) (self env) < 0) = Keep_Old"
  obtains d' where "ack_h env cfg c (ack_line hisport w options) d = Returned True d'"
    "connection_list d' = filter (\<lambda>x. conn_id x \<noteq> conn_id c) (connection_list d)" "mesh_of (edges d') = mesh_of (edges d)" "mesh_inv env d'"
proof -
  let ?n = "conn_name c"
  have n: "c_string ?n" "text_word hisport" "c_int_ok w" using ok check_id_c_string by (simp_all add: ack_ok_def)
  obtain t where t: "lookup_node ?n d = (if ?n \<in> known d then Some ?n else None, d\<lparr>node_tree := t\<rparr>)" "mesh_inv env (d\<lparr>node_tree := t\<rparr>)"
    "known (d\<lparr>node_tree := t\<rparr>) = known d" by (rule lookup_node_still [OF inv n(1)])
  have "find_connection i (d\<lparr>node_tree := t\<rparr>) = Some old" using old(4) by (simp add: find_connection_def)
  then have "ack_h env cfg c (ack_line hisport w options) d = Returned True (close_connection c (d\<lparr>node_tree := t\<rparr>))"
    using t(1) old tie new unfolding ack_h_def ack_scan [OF n(2,3)] by (simp add: terminate_connection_def)
  from that [OF this] t(2) show thesis by simp
qed

lemma ack_h_keep_new:
  assumes inv: "mesh_inv env d" and ok: "ack_ok env cfg c hisport w options"
    and old: "conn_name c \<in> known d" "node_connection d (conn_name c) = Some i" "i \<noteq> conn_id c" "find_connection i d = Some old"
      "conn_node old = Some (conn_name c)" "conn_edge old = Some (self env, conn_name c)" "mesh_of (edges d) (self env, conn_name c) = Some e0"
    and tie: "second_connection (outgoing old) (outgoing c) (strcmp (conn_name c) (self env) < 0) = Keep_New"
    and room: "mesh_room env (card (known d)) (Suc (card (edge_set (edges d))))"
  obtains d' e where "ack_h env cfg c (ack_line hisport w options) d = Returned True d'" "mesh_inv env d'"
    "connection_list d' = map (\<lambda>x. if conn_id x = conn_id c then activated env cfg (c\<lparr>outgoing := outgoing old\<rparr>) options (conn_name c) else x)
       (filter (\<lambda>x. conn_id x \<noteq> i) (connection_list d))"
    "mesh_of (edges d') = (mesh_of (edges d))((self env, conn_name c) \<mapsto> e)" "edge_connection e = Some (conn_id c)"
proof -
  let ?n = "conn_name c"
  have n: "c_string ?n" "c_string (self env)" "text_word hisport" "c_int_ok w" using ok check_id_c_string by (simp_all add: ack_ok_def)
  have i: "conn_id old = i" using old(4) by (auto simp: find_connection_def find_Some_iff)
  obtain t where t: "lookup_node ?n d = (if ?n \<in> known d then Some ?n else None, d\<lparr>node_tree := t\<rparr>)" "mesh_inv env (d\<lparr>node_tree := t\<rparr>)"
    "known (d\<lparr>node_tree := t\<rparr>) = known d" by (rule lookup_node_still [OF inv n(1)])
  define c1 where "c1 = c\<lparr>outgoing := outgoing old\<rparr>"
  define old1 where "old1 = old\<lparr>outgoing := False\<rparr>"
  define d1 where "d1 = update_connection old1 (update_connection c1 (d\<lparr>node_tree := t\<rparr>))"
  have d1: "mesh_inv env d1" "known d1 = known d" "edges d1 = edges d" "node_connection d1 = node_connection d" using t(2,3) by (simp_all add: d1_def)
  have room1: "mesh_room env (card (known d1)) (card (edge_set (edges d1)))" using room d1 by (auto intro: mesh_room_mono)
  have o: "conn_node old1 = Some ?n" "conn_edge old1 = Some (self env, ?n)" "mesh_of (edges d1) (self env, ?n) = Some e0" "?n \<in> known d1"
    using old d1 by (simp_all add: old1_def)
  obtain d2 where d2: "\<And>k. terminate_connection env old1 False d1 k = k d2" "mesh_inv env d2" "known d2 = known d1" "seen d2 = seen d1"
    "connection_list d2 = filter (\<lambda>x. conn_id x \<noteq> conn_id old1) (connection_list d1)"
    "retries d2 = retries d1 @ (if outgoing old1 then [conn_name old1] else [])"
    "node_connection d2 = (if node_connection d1 ?n = Some (conn_id old1) then (node_connection d1)(?n := None) else node_connection d1)"
    "mesh_of (edges d2) = (if False \<and> \<not> (mutual (edges d2))\<^sup>*\<^sup>* (self env) ?n
       then (mesh_of (edges d1))((self env, ?n) := None, (?n, self env) := None) else (mesh_of (edges d1))((self env, ?n) := None))"
    by (rule terminate_connection_effect [OF d1(1) o n(1,2) room1]) (rule that)
  have m2: "mesh_of (edges d2) = (mesh_of (edges d))((self env, ?n) := None)" using d2(8) d1(3) by simp
  have E: "edges_inv (edges d)" "edges_inv (edges d2)" using inv d2(2) by (simp_all add: mesh_inv_def mesh_shape_def)
  have sub: "edge_set (edges d2) \<subseteq> edge_set (edges d)"
  proof
    fix x assume "x \<in> edge_set (edges d2)"
    then have "mesh_of (edges d2) (edge_key x) = Some x" using mesh_of_Some [OF E(2)] by blast
    then have "mesh_of (edges d) (edge_key x) = Some x" using m2 by (auto split: if_splits)
    then show "x \<in> edge_set (edges d)" using mesh_of_Some [OF E(1)] by blast
  qed
  then have "card (edge_set (edges d2)) \<le> card (edge_set (edges d))" by (intro card_mono) (simp_all add: Edge.edges_def)
  then have room2: "mesh_room env (card (known d2)) (card (edge_set (edges d2)))" "mesh_room env (card (known d2)) (Suc (card (edge_set (edges d2))))"
    using room d2(3) d1(2) by (auto intro: mesh_room_mono)
  have shape2: "mesh_shape env d2" using d2(2) by (simp add: mesh_inv_def)
  obtain d3 where d3: "\<And>k. run_graph env d2 k = k d3" "mesh_inv env d3" "edges d3 = edges d2" "known d3 = known d2" "seen d3 = seen d2"
    "outbox d3 = outbox d2" "connection_list d3 = connection_list d2" by (rule run_graph_spec [OF shape2 room2(1)]) (rule that)
  have pre: "?n \<in> known d3" "mesh_of (edges d3) (self env, ?n) = None" "mesh_room env (card (known d3)) (Suc (card (edge_set (edges d3))))"
    using d3(3,4) d2(3) d1(2) old(1) m2 room2(2) by simp_all
  have opt: "agreed_options (host_config cfg (conn_name c1)) (conn_options c1) options AND OPTION_INDIRECT = 0"
    "0 \<le> c_half (c_int (w + estimated_weight c1))" "c_int_ok (c_half (c_int (w + estimated_weight c1)))" using ok by (simp_all add: ack_ok_def c1_def)
  obtain d' e where d': "activate env cfg c1 hisport w options ?n d3 = Returned True d'" "mesh_inv env d'" "seen d' = seen d3"
    "connection_list d' = map (\<lambda>x. if conn_id x = conn_id c1 then activated env cfg c1 options ?n else x) (connection_list d3)"
    "node_connection d' = (node_connection d3)(?n \<mapsto> conn_id c1)"
    "mesh_of (edges d') = (mesh_of (edges d3))((self env, ?n) \<mapsto> e)" "edge_weight e = c_half (c_int (w + estimated_weight c1))"
    "edge_connection e = Some (conn_id c1)" "edge_address e = sockaddr_setport (conn_address c1) hisport" "known d' = known d3"
    by (rule activate_effect [OF d3(2) pre(1) n(1,2) pre(2) opt pre(3)]) (rule that)
  have fc: "find_connection i (d\<lparr>node_tree := t\<rparr>) = Some old" using old(4) by (simp add: find_connection_def)
  have "ack_h env cfg c (ack_line hisport w options) d =
      terminate_connection env old1 False d1 (\<lambda>d. run_graph env d (activate env cfg c1 hisport w options ?n))"
    using t(1) old(1-3) tie fc unfolding ack_h_def ack_scan [OF n(3,4)] d1_def c1_def old1_def by (simp add: Let_def)
  then have run: "ack_h env cfg c (ack_line hisport w options) d = Returned True d'" using d2(1) d3(1) d'(1) by simp
  have ids: "conn_id old1 = i" "conn_id c1 = conn_id c" using i by (simp_all add: old1_def c1_def)
  have "filter (\<lambda>x. conn_id x \<noteq> i) (connection_list d1) =
      filter (\<lambda>x. conn_id x \<noteq> i) (map (\<lambda>x. if conn_id x = conn_id c then c1 else x) (connection_list d))"
    using filter_updated [OF ids(1), of "map (\<lambda>x. if conn_id x = conn_id c then c1 else x) (connection_list d)"] ids
    by (simp add: d1_def update_connection_def del: map_map)
  also have "\<dots> = map (\<lambda>x. if conn_id x = conn_id c then c1 else x) (filter (\<lambda>x. conn_id x \<noteq> i) (connection_list d))"
    by (rule filter_updated_other) (use old(3) ids in simp_all)
  finally have conns: "connection_list d3 = map (\<lambda>x. if conn_id x = conn_id c then c1 else x) (filter (\<lambda>x. conn_id x \<noteq> i) (connection_list d))"
    using d3(7) d2(5) i by (simp add: old1_def)
  have "connection_list d' = map (\<lambda>x. if conn_id x = conn_id c then activated env cfg c1 options ?n else x) (filter (\<lambda>x. conn_id x \<noteq> i) (connection_list d))"
    unfolding d'(4) conns by (simp add: ids)
  moreover have "mesh_of (edges d') = (mesh_of (edges d))((self env, ?n) \<mapsto> e)" using d'(6) d3(3) m2 by simp
  moreover have "edge_connection e = Some (conn_id c)" using d'(8) ids by simp
  ultimately show thesis using that [OF run d'(2)] by (simp add: c1_def)
qed

section \<open>A second connection\<close>

text \<open>The daemon has an activated connection with the node that now acknowledges another one.\<close>

definition meets :: "daemon_env \<Rightarrow> auth_config \<Rightarrow> connection \<Rightarrow> string \<Rightarrow> int \<Rightarrow> u32 \<Rightarrow> connection \<Rightarrow> daemon \<Rightarrow> bool" where
  "meets env cfg c hisport w options old d \<longleftrightarrow>
     mesh_inv env d \<and> ack_ok env cfg c hisport w options \<and> conn_node c = None \<and> conn_name c \<in> known d \<and>
     node_connection d (conn_name c) = Some (conn_id old) \<and> conn_id old \<noteq> conn_id c \<and> find_connection (conn_id old) d = Some old \<and>
     conn_node old = Some (conn_name c) \<and> conn_edge old = Some (self env, conn_name c) \<and> mesh_of (edges d) (self env, conn_name c) \<noteq> None \<and>
     mesh_room env (card (known d)) (Suc (card (edge_set (edges d))))"

lemma find_updated:
  assumes "conn_id y = i" "find (\<lambda>x. conn_id x = i) xs = Some x0"
  shows "find (\<lambda>x. conn_id x = i) (map (\<lambda>x. if conn_id x = i then y else x) xs) = Some y"
  using assms by (induction xs) (auto split: if_splits)

lemma edges_after:
  assumes "edges_inv st" "edges_inv st'" "mesh_of st' = (mesh_of st)(k \<mapsto> e)"
  shows "card (edge_set st') \<le> Suc (card (edge_set st))"
proof -
  have "edge_set st' \<subseteq> insert e (edge_set st)"
  proof
    fix x assume "x \<in> edge_set st'"
    then have "mesh_of st' (edge_key x) = Some x" using mesh_of_Some [OF assms(2)] by blast
    then have "x = e \<or> mesh_of st (edge_key x) = Some x" using assms(3) by (auto split: if_splits)
    then show "x \<in> insert e (edge_set st)" using mesh_of_Some [OF assms(1)] by blast
  qed
  then have "card (edge_set st') \<le> card (insert e (edge_set st))" by (intro card_mono) (simp_all add: Edge.edges_def)
  then show ?thesis by (simp add: card_insert_if Edge.edges_def split: if_splits)
qed

lemma meets_after_first:
  assumes inv: "mesh_inv env d" and first: "ack_ok env cfg c0 port0 w0 options0" "find_connection (conn_id c0) d = Some c0"
    and alone: "conn_name c0 \<notin> known d" "mesh_of (edges d) (self env, conn_name c0) = None"
    and room: "mesh_room env (card (known d) + 1) (Suc (Suc (card (edge_set (edges d)))))"
    and c: "ack_ok env cfg c hisport w options" "conn_name c = conn_name c0" "conn_id c \<noteq> conn_id c0" "conn_node c = None"
  obtains d' where "ack_h env cfg c0 (ack_line port0 w0 options0) d = Returned True d'"
    "meets env cfg c hisport w options (activated env cfg c0 options0 (conn_name c0)) d'"
proof -
  have "conn_name c0 \<in> known d \<longrightarrow> node_connection d (conn_name c0) = None" "mesh_room env (card (known d) + 1) (Suc (card (edge_set (edges d))))"
    using alone mesh_room_mono [OF room] by simp_all
  note pre = this(1) alone(2) this(2)
  obtain d' e where d': "ack_h env cfg c0 (ack_line port0 w0 options0) d = Returned True d'" "mesh_inv env d'"
    "connection_list d' = map (\<lambda>x. if conn_id x = conn_id c0 then activated env cfg c0 options0 (conn_name c0) else x) (connection_list d)"
    "mesh_of (edges d') = (mesh_of (edges d))((self env, conn_name c0) \<mapsto> e)" "edge_weight e = c_half (c_int (w0 + estimated_weight c0))"
    "edge_connection e = Some (conn_id c0)" "edge_address e = sockaddr_setport (conn_address c0) port0" "node_connection d' = (node_connection d)(conn_name c0 \<mapsto> conn_id c0)"
    "known d' = insert (conn_name c0) (known d)" "seen d' = seen d"
    by (rule ack_h_first [OF inv first(1) pre]) (rule that)
  have E: "edges_inv (edges d)" "edges_inv (edges d')" using inv d'(2) by (simp_all add: mesh_inv_def mesh_shape_def)
  have "card (known d') \<le> card (known d) + 1" using d'(9) by (simp add: card_insert_if known_def)
  then have room': "mesh_room env (card (known d')) (Suc (card (edge_set (edges d'))))"
    using edges_after [OF E d'(4)] mesh_room_mono [OF room] by simp
  have a: "conn_id (activated env cfg c0 options0 n) = conn_id c0" "conn_node (activated env cfg c0 options0 n) = Some n"
    "conn_edge (activated env cfg c0 options0 n) = Some (self env, n)" for n by (simp_all add: activated_def)
  have "find_connection (conn_id c0) d' = Some (activated env cfg c0 options0 (conn_name c0))"
    using find_updated [OF a(1)] first(2) unfolding find_connection_def d'(3) by blast
  with d' room' c a show thesis by (intro that [of d']) (simp_all add: meets_def)
qed

definition sample_link :: "nat \<Rightarrow> string \<Rightarrow> bool \<Rightarrow> connection" where
  "sample_link i peer out = (sample_connection i peer)\<lparr>conn_node := None, conn_edge := None, outgoing := out, allow_request := ACK\<rparr>"

definition sample_pair :: "string \<Rightarrow> connection list \<Rightarrow> daemon" where
  "sample_pair me cs = (node_add me sample_daemon)\<lparr>nodes := (\<lambda>_. new_node)(me := new_node\<lparr>reachable := True\<rparr>), connection_list := cs\<rparr>"

definition sample_host :: host_options where
  "sample_host = \<lparr>indirect_data = None, tcp_only = None, clamp_option_mss = None, weight_option = None, pmtu_option = None\<rparr>"

definition sample_cfg :: auth_config where
  "sample_cfg = \<lparr>controlcookie = ''c'', experimental = True, proxytype = PROXY_NONE, proxyuser = None, proxypass = None, myport = ''655'', getpid = 1,
     elapsed_ms = (\<lambda>_. 10), host_config = (\<lambda>_. sample_host), server_config = sample_host, getsockname = (\<lambda>_. None)\<rparr>"

lemma sample_pair_ok:
  assumes "c_string me"
  shows "mesh_inv (sample_denv\<lparr>self := me\<rparr>) (sample_pair me cs)" "known (sample_pair me cs) = {me}" "edge_set (edges (sample_pair me cs)) = {}"
    "mesh_of (edges (sample_pair me cs)) = (\<lambda>_. None)" "connection_list (sample_pair me cs) = cs"
proof -
  have req: "request_inv sample_daemon" using sample_ok(1) by (simp add: daemon_inv_def)
  note add = node_add_spec [OF req assms]
  show known: "known (sample_pair me cs) = {me}" using add(2) sample_ok(5) by (simp add: sample_pair_def known_def)
  have e: "edges (sample_pair me cs) = init_edges" by (simp add: sample_pair_def node_add_def sample_daemon_def)
  then show none: "edge_set (edges (sample_pair me cs)) = {}" by (simp add: Edge.edges_def init_edges_def splay_alloc_tree_def)
  show "mesh_of (edges (sample_pair me cs)) = (\<lambda>_. None)" using e mesh_of_init by simp
  show "connection_list (sample_pair me cs) = cs" by (simp add: sample_pair_def)
  have "request_inv (sample_pair me cs)" using add(1) by (simp add: sample_pair_def request_inv_def)
  moreover have "reachable (nodes (sample_pair me cs) me)" by (simp add: sample_pair_def)
  ultimately show "mesh_inv (sample_denv\<lparr>self := me\<rparr>) (sample_pair me cs)" using known none e edges_inv_init by (simp add: mesh_inv_def mesh_shape_def)
qed

lemma sample_ack_ok:
  "check_id peer \<Longrightarrow> peer \<noteq> me \<Longrightarrow> c_string me \<Longrightarrow> ack_ok (sample_denv\<lparr>self := me\<rparr>) sample_cfg (sample_link i peer out) ''655'' 20 0"
  by (simp add: ack_ok_def sample_link_def sample_connection_def sample_cfg_def sample_host_def agreed_options_def Let_def text_word_def isspace_def
      c_string_def c_half_def c_int_ok_def c_int_def c_int_diff_exact)

lemma sample_link_fields [simp]:
  "conn_name (sample_link i peer out) = peer" "conn_id (sample_link i peer out) = i" "estimated_weight (sample_link i peer out) = 10"
  "conn_node (sample_link i peer out) = None" "outgoing (sample_link i peer out) = out"
  by (simp_all add: sample_link_def sample_connection_def)

lemma sample_meets:
  assumes n: "c_string me" "check_id peer" "peer \<noteq> me"
  shows "\<exists>d'. meets (sample_denv\<lparr>self := me\<rparr>) sample_cfg (sample_link 2 peer (\<not> out)) ''655'' 20 0
      (activated (sample_denv\<lparr>self := me\<rparr>) sample_cfg (sample_link 1 peer out) 0 peer) d'"
proof -
  let ?env = "sample_denv\<lparr>self := me\<rparr>" and ?d = "sample_pair me [sample_link 1 peer out, sample_link 2 peer (\<not> out)]"
  note start = sample_pair_ok [OF n(1)] and ok = sample_ack_ok [OF n(2,3,1)]
  have "find_connection (conn_id (sample_link 1 peer out)) ?d = Some (sample_link 1 peer out)" "conn_name (sample_link 1 peer out) \<notin> known ?d"
    "mesh_of (edges ?d) (self ?env, conn_name (sample_link 1 peer out)) = None"
    "mesh_room ?env (card (known ?d) + 1) (Suc (Suc (card (edge_set (edges ?d)))))"
    using n by (simp_all add: find_connection_def start mesh_room_def) (simp add: sample_denv_def)
  from meets_after_first [OF start(1) ok this ok [of 2]] show ?thesis by auto
qed

section \<open>The life of a connection\<close>

text \<open>
  Property C29. In a mesh without indirect edges, and if the options agreed on do not make the edge indirect and the mean of both weights is zero or more, the acknowledgement of a node that the daemon has no connection with activates the connection: it is cleared for
  all requests with the options both sides agree on, it becomes the connection of the node, and an edge from the daemon to the node, with the mean of both weights
  and the address the peer listens on, enters the map of edges, which is otherwise unchanged. A node is then marked reachable exactly when edges in both directions lead to it.
\<close>

theorem connection_activated:
  assumes "mesh_inv env d" "ack_ok env cfg c hisport w options"
    and "conn_name c \<in> known d \<longrightarrow> node_connection d (conn_name c) = None" "mesh_of (edges d) (self env, conn_name c) = None"
    and "mesh_room env (card (known d) + 1) (Suc (card (edge_set (edges d))))"
  shows "\<exists>d' e. ack_h env cfg c (ack_line hisport w options) d = Returned True d' \<and>
    connection_list d' = map (\<lambda>x. if conn_id x = conn_id c then activated env cfg c options (conn_name c) else x) (connection_list d) \<and>
    node_connection d' (conn_name c) = Some (conn_id c) \<and> mesh_of (edges d') = (mesh_of (edges d))((self env, conn_name c) \<mapsto> e) \<and>
    edge_weight e = c_half (c_int (w + estimated_weight c)) \<and> edge_connection e = Some (conn_id c) \<and> edge_address e = sockaddr_setport (conn_address c) hisport \<and>
    (\<forall>n \<in> known d'. reachable (nodes d' n) \<longleftrightarrow> (mutual (edges d'))\<^sup>*\<^sup>* (self env) n)"
proof -
  obtain d' e where d': "ack_h env cfg c (ack_line hisport w options) d = Returned True d'" "mesh_inv env d'"
    "connection_list d' = map (\<lambda>x. if conn_id x = conn_id c then activated env cfg c options (conn_name c) else x) (connection_list d)"
    "mesh_of (edges d') = (mesh_of (edges d))((self env, conn_name c) \<mapsto> e)" "edge_weight e = c_half (c_int (w + estimated_weight c))"
    "edge_connection e = Some (conn_id c)" "edge_address e = sockaddr_setport (conn_address c) hisport" "node_connection d' = (node_connection d)(conn_name c \<mapsto> conn_id c)"
    "known d' = insert (conn_name c) (known d)" "seen d' = seen d"
    by (rule ack_h_first [OF assms]) (rule that)
  then show ?thesis by (intro exI [of _ d'] exI [of _ e]) (simp add: mesh_inv_def)
qed

theorem connection_activated_witness:
  "\<exists>d' e. ack_h (sample_denv\<lparr>self := ''a''\<rparr>) sample_cfg (sample_link 1 ''b'' True) (ack_line ''655'' 20 0) (sample_pair ''a'' [sample_link 1 ''b'' True]) = Returned True d' \<and>
     mesh_of (edges d') = [(''a'', ''b'') \<mapsto> e] \<and> edge_weight e = 15 \<and> node_connection d' ''b'' = Some 1"
proof -
  have names: "c_string ''a''" "check_id ''b''" by (simp_all add: c_string_def check_id_def isalnum_def isdigit_def)
  note start = sample_pair_ok [OF names(1)]
  have ok: "ack_ok (sample_denv\<lparr>self := ''a''\<rparr>) sample_cfg (sample_link 1 ''b'' True) ''655'' 20 0" using names by (intro sample_ack_ok) simp_all
  have "conn_name (sample_link 1 ''b'' True) \<in> known (sample_pair ''a'' [sample_link 1 ''b'' True]) \<longrightarrow>
      node_connection (sample_pair ''a'' [sample_link 1 ''b'' True]) (conn_name (sample_link 1 ''b'' True)) = None"
    "mesh_of (edges (sample_pair ''a'' [sample_link 1 ''b'' True])) (self (sample_denv\<lparr>self := ''a''\<rparr>), conn_name (sample_link 1 ''b'' True)) = None"
    "mesh_room (sample_denv\<lparr>self := ''a''\<rparr>) (card (known (sample_pair ''a'' [sample_link 1 ''b'' True])) + 1)
      (Suc (card (edge_set (edges (sample_pair ''a'' [sample_link 1 ''b'' True])))))"
    by (simp_all add: start mesh_room_def) (simp add: sample_denv_def)
  from connection_activated [OF start(1) ok this] obtain d' e where
    "ack_h (sample_denv\<lparr>self := ''a''\<rparr>) sample_cfg (sample_link 1 ''b'' True) (ack_line ''655'' 20 0) (sample_pair ''a'' [sample_link 1 ''b'' True]) = Returned True d'"
    "node_connection d' ''b'' = Some 1" "mesh_of (edges d') = [(''a'', ''b'') \<mapsto> e]" "edge_weight e = c_half (c_int (20 + 10))"
    unfolding start(4) by auto
  then show ?thesis by (intro exI [of _ d'] exI [of _ e]) (simp add: c_half_def c_int_def c_int_diff_exact c_int_ok_def)
qed

text \<open>
  Property C33. Two daemons have opened a connection to each other at the same time, and both activate first the
  one that the daemon with the smaller name opened. When the acknowledgement on the other one arrives, the daemon with
  the smaller name closes that connection and the daemon with the larger name closes the first one, so that neither is left
  with two ends. The larger one also forgets that it had opened the connection it keeps, and will not open it again.
\<close>

theorem tie_break_disagreement:
  assumes names: "strcmp (self env) (self env') < 0" "conn_name c = self env'" "conn_name c' = self env"
    and small: "meets env cfg c hisport w options old d" "outgoing old" "\<not> outgoing c"
    and large: "meets env' cfg' c' hisport' w' options' old' d'" "\<not> outgoing old'" "outgoing c'"
  shows "\<exists>s s'. ack_h env cfg c (ack_line hisport w options) d = Returned True s \<and>
    (\<forall>x \<in> set (connection_list s). conn_id x \<noteq> conn_id c) \<and>
    ack_h env' cfg' c' (ack_line hisport' w' options') d' = Returned True s' \<and>
    (\<forall>x \<in> set (connection_list s'). conn_id x \<noteq> conn_id old' \<and> (conn_id x = conn_id c' \<longrightarrow> \<not> outgoing x))"
proof -
  have tie: "second_connection (outgoing old) (outgoing c) (strcmp (conn_name c) (self env) < 0) = Keep_Old"
    "second_connection (outgoing old') (outgoing c') (strcmp (conn_name c') (self env') < 0) = Keep_New"
    using names strcmp_swap_neg [of "self env" "self env'"] small(2,3) large(2,3) by (simp_all add: second_connection_def)
  from small(1) obtain s where s: "ack_h env cfg c (ack_line hisport w options) d = Returned True s"
    "connection_list s = filter (\<lambda>x. conn_id x \<noteq> conn_id c) (connection_list d)"
    unfolding meets_def by (auto intro: ack_h_keep_old [OF _ _ _ _ _ _ _ tie(1)])
  obtain e0 where e0: "mesh_of (edges d') (self env', conn_name c') = Some e0" using large(1) unfolding meets_def by blast
  have L: "mesh_inv env' d'" "ack_ok env' cfg' c' hisport' w' options'" "conn_name c' \<in> known d'" "node_connection d' (conn_name c') = Some (conn_id old')"
    "conn_id old' \<noteq> conn_id c'" "find_connection (conn_id old') d' = Some old'" "conn_node old' = Some (conn_name c')"
    "conn_edge old' = Some (self env', conn_name c')" "mesh_room env' (card (known d')) (Suc (card (edge_set (edges d'))))"
    using large(1) unfolding meets_def by simp_all
  obtain s' e where s': "ack_h env' cfg' c' (ack_line hisport' w' options') d' = Returned True s'" "mesh_inv env' s'"
    "connection_list s' = map (\<lambda>x. if conn_id x = conn_id c' then activated env' cfg' (c'\<lparr>outgoing := outgoing old'\<rparr>) options' (conn_name c') else x)
       (filter (\<lambda>x. conn_id x \<noteq> conn_id old') (connection_list d'))"
    "mesh_of (edges s') = (mesh_of (edges d'))((self env', conn_name c') \<mapsto> e)" "edge_connection e = Some (conn_id c')"
    by (rule ack_h_keep_new [OF L(1-8) e0 tie(2) L(9)]) (rule that)
  have "\<forall>x \<in> set (connection_list s'). conn_id x \<noteq> conn_id old' \<and> (conn_id x = conn_id c' \<longrightarrow> \<not> outgoing x)"
    unfolding s'(3) using L(5) large(2) by (auto simp: activated_def)
  with s s'(1) show ?thesis by (intro exI [of _ s] exI [of _ s']) simp
qed

theorem tie_break_disagreement_witness:
  "\<exists>d d' s s'. ack_h (sample_denv\<lparr>self := ''a''\<rparr>) sample_cfg (sample_link 2 ''b'' False) (ack_line ''655'' 20 0) d = Returned True s \<and>
     2 \<notin> conn_id ` set (connection_list s) \<and>
     ack_h (sample_denv\<lparr>self := ''b''\<rparr>) sample_cfg (sample_link 2 ''a'' True) (ack_line ''655'' 20 0) d' = Returned True s' \<and>
     1 \<notin> conn_id ` set (connection_list s')"
proof -
  let ?a = "sample_denv\<lparr>self := ''a''\<rparr>" and ?b = "sample_denv\<lparr>self := ''b''\<rparr>"
  have names: "c_string ''a''" "c_string ''b''" "check_id ''a''" "check_id ''b''" by (simp_all add: c_string_def check_id_def isalnum_def isdigit_def)
  obtain d d' where
    "meets ?a sample_cfg (sample_link 2 ''b'' False) ''655'' 20 0 (activated ?a sample_cfg (sample_link 1 ''b'' True) 0 ''b'') d"
    "meets ?b sample_cfg (sample_link 2 ''a'' True) ''655'' 20 0 (activated ?b sample_cfg (sample_link 1 ''a'' False) 0 ''a'') d'"
    using sample_meets [OF names(1,4), of True] sample_meets [OF names(2,3), of False] by auto
  from tie_break_disagreement [OF _ _ _ this(1) _ _ this(2)] show ?thesis by (fastforce simp: activated_def)
qed

text \<open>
  Property C30. In a mesh without indirect edges, terminating an activated connection always ends: the connection is gone, its node no longer refers to it, the edge of the
  connection is taken out of the map and, when the peers are told and the node has become unreachable, so is the edge that the node had announced in
  the other direction. The daemon tries to connect again exactly when it had opened the connection. A node is then marked reachable exactly when edges in both directions lead to it.
\<close>

theorem connection_terminated:
  assumes "mesh_inv env d" "conn_node c = Some n" "conn_edge c = Some (self env, n)" "mesh_of (edges d) (self env, n) = Some e"
    and "n \<in> known d" "c_string n" "c_string (self env)" "mesh_room env (card (known d)) (card (edge_set (edges d)))"
  shows "\<exists>d'. terminate_connection env c report d (Returned True) = Returned True d' \<and>
    connection_list d' = filter (\<lambda>x. conn_id x \<noteq> conn_id c) (connection_list d) \<and> node_connection d' n \<noteq> Some (conn_id c) \<and>
    retries d' = retries d @ (if outgoing c then [conn_name c] else []) \<and>
    mesh_of (edges d') = (if report \<and> \<not> (mutual (edges d'))\<^sup>*\<^sup>* (self env) n
       then (mesh_of (edges d))((self env, n) := None, (n, self env) := None) else (mesh_of (edges d))((self env, n) := None)) \<and>
    edges_inv (edges d') \<and> (\<forall>n \<in> known d'. reachable (nodes d' n) \<longleftrightarrow> (mutual (edges d'))\<^sup>*\<^sup>* (self env) n)"
proof -
  obtain d' where d': "\<And>k. terminate_connection env c report d k = k d'" "mesh_inv env d'" "known d' = known d" "seen d' = seen d"
    "connection_list d' = filter (\<lambda>x. conn_id x \<noteq> conn_id c) (connection_list d)"
    "retries d' = retries d @ (if outgoing c then [conn_name c] else [])"
    "node_connection d' = (if node_connection d n = Some (conn_id c) then (node_connection d)(n := None) else node_connection d)"
    "mesh_of (edges d') = (if report \<and> \<not> (mutual (edges d'))\<^sup>*\<^sup>* (self env) n
       then (mesh_of (edges d))((self env, n) := None, (n, self env) := None) else (mesh_of (edges d))((self env, n) := None))"
    by (rule terminate_connection_effect [OF assms]) (rule that)
  have "edges_inv (edges d')" "\<forall>n \<in> known d'. reachable (nodes d' n) \<longleftrightarrow> (mutual (edges d'))\<^sup>*\<^sup>* (self env) n"
    using d'(2) by (simp_all add: mesh_inv_def mesh_shape_def)
  with d' show ?thesis by (intro exI [of _ d']) simp
qed

definition joined_link :: connection where
  "joined_link = activated (sample_denv\<lparr>self := ''a''\<rparr>) sample_cfg (sample_link 1 ''b'' True) 0 ''b''"

definition joined_pair :: daemon where
  "joined_pair = (node_add ''b'' (sample_pair ''a'' [joined_link]))
     \<lparr>edges := mesh_edges two_nodes, nodes := (\<lambda>_. new_node\<lparr>reachable := True\<rparr>), node_connection := [''b'' \<mapsto> 1]\<rparr>"

lemma joined_pair_ok:
  "mesh_inv (sample_denv\<lparr>self := ''a''\<rparr>) joined_pair" "known joined_pair = {''a'', ''b''}" "edge_set (edges joined_pair) = {new_edge ''a'' ''b'', new_edge ''b'' ''a''}"
  "mesh_of (edges joined_pair) (''a'', ''b'') = Some (new_edge ''a'' ''b'')" "mesh_of (edges joined_pair) (''b'', ''a'') = Some (new_edge ''b'' ''a'')"
  "\<And>k. k \<noteq> (''a'', ''b'') \<Longrightarrow> k \<noteq> (''b'', ''a'') \<Longrightarrow> mesh_of (edges joined_pair) k = None"
proof -
  have c: "c_string ''a''" "c_string ''b''" by (simp_all add: c_string_def)
  note start = sample_pair_ok [OF c(1), of "[joined_link]"]
  have "request_inv (sample_pair ''a'' [joined_link])" using start(1) by (simp add: mesh_inv_def mesh_shape_def)
  from node_add_spec [OF this c(2)] have k: "request_inv joined_pair" "known joined_pair = {''a'', ''b''}"
    by (auto simp: joined_pair_def request_inv_def known_def start(2) [unfolded known_def])
  then show "known joined_pair = {''a'', ''b''}" by simp
  have e: "edges joined_pair = mesh_edges two_nodes" "\<And>n. reachable (nodes joined_pair n)" by (simp_all add: joined_pair_def)
  then show "edge_set (edges joined_pair) = {new_edge ''a'' ''b'', new_edge ''b'' ''a''}" by (simp add: two_nodes_edges)
  have m: "mesh_of (edges joined_pair) k = Some x \<longleftrightarrow> x \<in> {new_edge ''a'' ''b'', new_edge ''b'' ''a''} \<and> edge_key x = k" for k x
    using mesh_of_Some [OF two_nodes_edges(1)] e(1) two_nodes_edges(2) by simp
  show "mesh_of (edges joined_pair) (''a'', ''b'') = Some (new_edge ''a'' ''b'')" "mesh_of (edges joined_pair) (''b'', ''a'') = Some (new_edge ''b'' ''a'')"
    unfolding m by (simp_all add: new_edge_def)
  show "mesh_of (edges joined_pair) k = None" if "k \<noteq> (''a'', ''b'')" "k \<noteq> (''b'', ''a'')" for k
  proof (rule ccontr)
    assume "mesh_of (edges joined_pair) k \<noteq> None"
    then obtain x where "mesh_of (edges joined_pair) k = Some x" by blast
    then show False using m [of k x] that by (auto simp: new_edge_def)
  qed
  have "(mutual (edges joined_pair))\<^sup>*\<^sup>* ''a'' n" if "n \<in> {''a'', ''b''}" for n using that e(1) two_nodes_mutual(1) by auto
  then show "mesh_inv (sample_denv\<lparr>self := ''a''\<rparr>) joined_pair"
    using k e two_nodes_edges by (auto simp: mesh_inv_def mesh_shape_def new_edge_def)
qed

theorem connection_terminated_witness:
  "\<exists>d'. terminate_connection (sample_denv\<lparr>self := ''a''\<rparr>) joined_link True joined_pair (Returned True) = Returned True d' \<and>
     mesh_of (edges joined_pair) (''b'', ''a'') \<noteq> None \<and> mesh_of (edges d') = (\<lambda>_. None) \<and> retries d' = retries joined_pair @ [''b'']"
proof -
  let ?a = "sample_denv\<lparr>self := ''a''\<rparr>"
  have c: "conn_node joined_link = Some ''b''" "conn_edge joined_link = Some (self ?a, ''b'')" "outgoing joined_link" "conn_name joined_link = ''b''"
    by (simp_all add: joined_link_def activated_def)
  have n: "''b'' \<in> known joined_pair" "c_string ''b''" "c_string (self ?a)" "mesh_of (edges joined_pair) (self ?a, ''b'') = Some (new_edge ''a'' ''b'')"
    by (simp_all add: joined_pair_ok c_string_def)
  have room: "mesh_room ?a (card (known joined_pair)) (card (edge_set (edges joined_pair)))"
    by (simp add: joined_pair_ok mesh_room_def new_edge_def) (simp add: sample_denv_def)
  obtain d' where d': "terminate_connection ?a joined_link True joined_pair (Returned True) = Returned True d'" "retries d' = retries joined_pair @ [''b'']"
    "mesh_of (edges d') = (if \<not> (mutual (edges d'))\<^sup>*\<^sup>* ''a'' ''b'' then (mesh_of (edges joined_pair))((''a'', ''b'') := None, (''b'', ''a'') := None)
       else (mesh_of (edges joined_pair))((''a'', ''b'') := None))"
    using connection_terminated [OF joined_pair_ok(1) c(1,2) n(4) n(1-3) room, of True] c(3,4) by auto
  have "mesh_of (edges d') (''a'', y) = None" for y using d'(3) joined_pair_ok(6) [of "(''a'', y)"] by (cases "y = ''b''") simp_all
  then have "\<not> (mutual (edges d'))\<^sup>*\<^sup>* ''a'' ''b''" by (auto simp: mutual_mesh elim: converse_rtranclpE)
  then have "mesh_of (edges d') = (\<lambda>_. None)" using d'(3) joined_pair_ok(6) by (auto simp: fun_eq_iff)
  with d' show ?thesis by (intro exI [of _ d']) (simp add: joined_pair_ok(5))
qed

end
