(* ===== verification/Session.thy ===== *)
theory Session
  imports Protocol_Auth
begin

text \<open>
  The requests of a connection as a state machine: connections are opened, requests arrive on them and are dispatched to
  the handlers, and connections are terminated. Of the handlers of invitations (\<^verbatim>\<open>protocol_invite.c\<close>), which read and write files and certificates,
  the steps have what they assign to the connection, for any name that an invitation may hold; everything that the timers, the control requests, a
  reload of the configuration and the transport may do in between is one step that leaves only the names and the clearances of the connections alone.
\<close>

section \<open>What the handlers do to the connections\<close>

lemma lookup_node_conns [simp]: "connection_list (snd (lookup_node n d)) = connection_list d"
  by (simp add: lookup_node_def split: prod.split)

lemma seen_request_conns [simp]: "connection_list (snd (seen_request env line d)) = connection_list d"
  by (simp add: seen_request_def split: prod.split option.split)

lemma node_add_conns [simp]: "connection_list (node_add n d) = connection_list d"
  by (simp add: node_add_def)

lemma find_subnet_conns [simp]: "connection_list (snd (find_subnet n s d)) = connection_list d"
  by (simp add: find_subnet_def split: prod.split)

lemma known_edge_conns [simp]: "connection_list (snd (known_edge a b d)) = connection_list d"
  by (simp add: known_edge_def split: prod.split)

lemma subnet_update_conns [simp]: "connection_list (subnet_update n s up d) = connection_list d"
  by (simp add: subnet_update_def)

lemma sending_conns [simp]:
  "connection_list (snd (send_add_subnet env c n s d)) = connection_list d" "connection_list (snd (send_del_subnet env c n s d)) = connection_list d"
  "connection_list (snd (send_add_edge env c e d)) = connection_list d" "connection_list (snd (send_del_edge env c e d)) = connection_list d"
  "connection_list (snd (send_del_edge_everyone env e d)) = connection_list d" "connection_list (forward_request env c line d) = connection_list d"
  "connection_list (snd (send_pong env c d)) = connection_list d" "connection_list (snd (send_request env c line d)) = connection_list d"
  "connection_list (snd (send_meta env c line d)) = connection_list d"
  using sends_frame(1) [OF sends_all(1)] sends_frame(1) [OF sends_all(2)] sends_frame(1) [OF sends_all(3)] sends_frame(1) [OF sends_all(4)]
    sends_frame(1) [OF sends_all(6)] sends_frame(1) [OF sends_all(7)] sends_frame(1) [OF sends_all(8)] sends_frame(1) [OF sends_request] sends_frame(1) [OF sends_meta]
  by simp_all

lemma run_graph_conns: "run_graph env d k = Returned x d' \<Longrightarrow> \<exists>d1. k d1 = Returned x d' \<and> connection_list d1 = connection_list d"
  by (auto simp: run_graph_def split: graph_outcome.splits)

lemma conns_results:
  "lookup_node n d = (r, d') \<Longrightarrow> connection_list d' = connection_list d"
  "seen_request env line d = (b, d') \<Longrightarrow> connection_list d' = connection_list d"
  "find_subnet n s d = (q, d') \<Longrightarrow> connection_list d' = connection_list d"
  "known_edge a b' d = (e, d') \<Longrightarrow> connection_list d' = connection_list d"
  "send_request env c line d = (b, d') \<Longrightarrow> connection_list d' = connection_list d"
  using lookup_node_conns [of n d] seen_request_conns [of env line d] find_subnet_conns [of n s d] known_edge_conns [of a b' d] sending_conns(8) [of env c line d]
  by simp_all

lemma fast_handoff_conns [simp]: "connection_list (fast_handoff env n s d) = connection_list d"
  by (auto simp: fast_handoff_def dest: conns_results split: net.split prod.split option.split)

lemma add_subnet_h_conns: "add_subnet_h env c line d = Returned x d' \<Longrightarrow> connection_list d' = connection_list d"
  by (auto simp: add_subnet_h_def split_def Let_def split: list.splits scan_value.splits if_splits str2net_result.splits)

lemma del_subnet_h_conns: "del_subnet_h env c line d = Returned x d' \<Longrightarrow> connection_list d' = connection_list d"
  by (auto simp: del_subnet_h_def Let_def dest!: conns_results split: list.splits scan_value.splits if_splits str2net_result.splits prod.splits option.splits)

lemma store_edge_conns: "store_edge env c line a b sa la opt w d = Returned x d' \<Longrightarrow> connection_list d' = connection_list d"
  by (auto simp: store_edge_def edge_changed_def dest!: conns_results run_graph_conns split: if_splits prod.splits option.splits)

lemma add_edge_h_conns: "add_edge_h env c line d = Returned x d' \<Longrightarrow> connection_list d' = connection_list d"
  by (auto simp: add_edge_h_def Let_def dest!: conns_results store_edge_conns split: if_splits prod.splits option.splits)

lemma drop_return_edge_conns: "drop_return_edge env n d = Returned x d' \<Longrightarrow> connection_list d' = connection_list d"
  by (auto simp: drop_return_edge_def Let_def dest!: conns_results split: if_splits prod.splits option.splits)

lemma del_edge_h_conns: "del_edge_h env c line d = Returned x d' \<Longrightarrow> connection_list d' = connection_list d"
  by (auto simp: del_edge_h_def Let_def dest!: conns_results run_graph_conns drop_return_edge_conns split: list.splits scan_value.splits if_splits prod.splits option.splits)

lemma send_udp_info_conns: "send_udp_info env a b d = Returned x d' \<Longrightarrow> connection_list d' = connection_list d"
  by (auto simp: send_udp_info_def dest!: conns_results split: if_splits prod.splits option.splits)

lemma udp_info_h_conns: "udp_info_h env c line d = Returned x d' \<Longrightarrow> connection_list d' = connection_list d"
  by (auto simp: udp_info_h_def Let_def dest!: conns_results send_udp_info_conns split: list.splits scan_value.splits if_splits prod.splits option.splits)

lemma send_mtu_info_conns: "send_mtu_info env a b m d = Returned x d' \<Longrightarrow> connection_list d' = connection_list d"
  by (auto simp: send_mtu_info_def Let_def dest!: conns_results split: if_splits prod.splits option.splits)

lemma mtu_info_h_conns: "mtu_info_h env c line d = Returned x d' \<Longrightarrow> connection_list d' = connection_list d"
  by (auto simp: mtu_info_h_def Let_def dest!: conns_results send_mtu_info_conns split: list.splits scan_value.splits if_splits prod.splits option.splits)

section \<open>Steps\<close>

text \<open>The handlers that are functions of this model; those of invitations and of control requests are steps of their own below.\<close>

definition modelled_handler :: "daemon_env \<Rightarrow> auth_config \<Rightarrow> handler \<Rightarrow> connection \<Rightarrow> string \<Rightarrow> daemon \<Rightarrow> outcome" where
  "modelled_handler env cfg h =
     (case h of
        Id_H \<Rightarrow> id_h env cfg | Ack_H \<Rightarrow> ack_h env cfg | Termreq_H \<Rightarrow> termreq_h | Ping_H \<Rightarrow> ping_h env | Pong_H \<Rightarrow> pong_h
      | Add_Subnet_H \<Rightarrow> add_subnet_h env | Del_Subnet_H \<Rightarrow> del_subnet_h env | Add_Edge_H \<Rightarrow> add_edge_h env | Del_Edge_H \<Rightarrow> del_edge_h env
      | Udp_Info_H \<Rightarrow> udp_info_h env | Mtu_Info_H \<Rightarrow> mtu_info_h env
      | _ \<Rightarrow> (\<lambda>_ _ _. Running))"

abbreviation (input) INVITE_DATA :: int where "INVITE_DATA \<equiv> 24"
abbreviation (input) INVITE_CSR :: int where "INVITE_CSR \<equiv> 25"
abbreviation (input) INVITE_CERT :: int where "INVITE_CERT \<equiv> 26"

text \<open>
  New connections: those accepted and those opened expect an identification, those opened to join a network expect the data of the invitation.
  The connections of the control socket are not over QUIC.
\<close>

definition new_link :: "connection \<Rightarrow> bool" where
  "new_link c \<longleftrightarrow> (allow_request c = ID \<or> allow_request c = INVITE_DATA \<and> conn_name c = ''<invitation>'') \<and> \<not> (control c \<and> quic_context c)"

text \<open>What can happen besides requests: connections go, lose their transport, are pinged, get addresses and edges.\<close>

definition background :: "daemon \<Rightarrow> daemon \<Rightarrow> bool" where
  "background d d' \<longleftrightarrow> (\<forall>x \<in> set (connection_list d'). \<exists>c \<in> set (connection_list d).
     conn_name x = conn_name c \<and> allow_request x = allow_request c \<and> control x = control c \<and> (quic_context x \<longrightarrow> quic_context c))"

text \<open>A request that is refused does not end a connection over QUIC; the timers of the daemon may end any connection at any time.\<close>

inductive session_step :: "daemon_env \<Rightarrow> auth_config \<Rightarrow> daemon \<Rightarrow> daemon \<Rightarrow> bool" for env cfg where
  opened: "new_link c \<Longrightarrow> session_step env cfg d (connection_add c d)"
| request: "find_connection i d = Some c \<Longrightarrow> receive_request env (modelled_handler env cfg) c line d = Returned x d' \<Longrightarrow> session_step env cfg d d'"
| invite_join: "find_connection i d = Some c \<Longrightarrow> dispatch c line = Some Invite_Join_H \<Longrightarrow>
    sends (update_connection (c\<lparr>conn_name := name, allow_request := INVITE_CSR\<rparr>) d) d' \<Longrightarrow> session_step env cfg d d'"
| invite_data: "find_connection i d = Some c \<Longrightarrow> dispatch c line = Some Invite_Data_H \<Longrightarrow>
    sends (update_connection (c\<lparr>allow_request := INVITE_CERT\<rparr>) d) d' \<Longrightarrow> session_step env cfg d d'"
| terminated: "find_connection i d = Some c \<Longrightarrow> terminate_connection env c report d (Returned True) = Returned x d' \<Longrightarrow> session_step env cfg d d'"
| other: "background d d' \<Longrightarrow> session_step env cfg d d'"

definition identified :: "daemon_env \<Rightarrow> connection \<Rightarrow> bool" where
  "identified env c \<longleftrightarrow> check_id (conn_name c) \<and> conn_name c \<noteq> self env \<and> \<not> control c"

definition cleared :: "daemon_env \<Rightarrow> connection \<Rightarrow> bool" where
  "cleared env c \<longleftrightarrow> (control c \<and> quic_context c \<longrightarrow> allow_request c = CONTROL) \<and>
     (allow_request c \<in> {ID, CONTROL, INVITE_DATA, INVITE_CSR, INVITE_CERT} \<or> allow_request c \<in> {ACK, ALL_REQUESTS} \<and> identified env c)"

definition session_inv :: "daemon_env \<Rightarrow> daemon \<Rightarrow> bool" where
  "session_inv env d \<longleftrightarrow> (\<forall>c \<in> set (connection_list d). cleared env c)"

lemma session_inv_conns: "connection_list d' = connection_list d \<Longrightarrow> session_inv env d' = session_inv env d"
  by (simp add: session_inv_def)

lemma session_inv_same: "connection_list d' = connection_list d \<Longrightarrow> session_inv env d \<Longrightarrow> session_inv env d'"
  by (simp add: session_inv_def)

lemma session_inv_update [intro]: "session_inv env d \<Longrightarrow> cleared env c \<Longrightarrow> session_inv env (update_connection c d)"
  by (auto simp: session_inv_def update_connection_def)

lemma session_inv_close [intro]: "session_inv env d \<Longrightarrow> session_inv env (close_connection c d)"
  by (auto simp: session_inv_def)

lemma session_inv_find: "session_inv env d \<Longrightarrow> find_connection i d = Some c \<Longrightarrow> cleared env c"
  by (auto simp: session_inv_def find_connection_def find_Some_iff)

lemma session_inv_sends: "sends d d' \<Longrightarrow> session_inv env d' = session_inv env d"
  using session_inv_conns sends_frame(1) by blast

section \<open>The invariant is kept\<close>

lemma terminate_connection_session:
  assumes "terminate_connection env c report d k = Returned x d'" "session_inv env d" "cleared env c"
  shows "\<exists>d1. k d1 = Returned x d' \<and> session_inv env d1"
proof (cases "conn_node c")
  case None
  then show ?thesis using assms by (auto simp: terminate_connection_def)
next
  case (Some n)
  define d0 where "d0 = (if node_connection d n = Some (conn_id c) then d\<lparr>node_connection := (node_connection d)(n := None)\<rparr> else d)"
  have inv0: "session_inv env d0" using assms(2) by (simp add: d0_def session_inv_def)
  show ?thesis
  proof (cases "conn_edge c")
    case None
    then show ?thesis using assms(1) Some inv0 d0_def by (auto simp: terminate_connection_def Let_def)
  next
    case (Some key)
    then obtain e where e: "mesh_of (edges d0) key = Some e"
      using assms(1) \<open>conn_node c = Some n\<close> by (cases "mesh_of (edges d0) key") (auto simp: terminate_connection_def Let_def d0_def)
    define d1 where "d1 = (if report \<and> \<not> tunnelserver env then snd (send_del_edge_everyone env e d0) else d0)"
    define d2 where "d2 = update_connection (c\<lparr>conn_edge := None\<rparr>) (d1\<lparr>edges := edge_del e (edges d1)\<rparr>)"
    have "cleared env (c\<lparr>conn_edge := None\<rparr>)" using assms(3) by (simp add: cleared_def identified_def)
    moreover have "session_inv env (d1\<lparr>edges := edge_del e (edges d1)\<rparr>)" using inv0 by (simp add: session_inv_def d1_def)
    ultimately have inv2: "session_inv env d2" by (auto simp: d2_def)
    have "run_graph env d2 (\<lambda>d. case (if report then drop_return_edge env n d else Returned True d) of Returned _ d \<Rightarrow> k (close_connection c d) | r \<Rightarrow> r) = Returned x d'"
      using assms(1) \<open>conn_node c = Some n\<close> Some e unfolding terminate_connection_def d2_def d1_def d0_def by (simp add: Let_def)
    then obtain d3 where d3: "(case (if report then drop_return_edge env n d3 else Returned True d3) of Returned _ d \<Rightarrow> k (close_connection c d) | r \<Rightarrow> r) = Returned x d'"
      "connection_list d3 = connection_list d2" using run_graph_conns by blast
    then obtain y d4 where "k (close_connection c d4) = Returned x d'" "connection_list d4 = connection_list d3"
      using drop_return_edge_conns by (auto split: if_splits outcome.splits)
    then show ?thesis using inv2 d3(2) session_inv_conns [of d4 d2] by auto
  qed
qed

lemma activate_session:
  assumes "activate env cfg c hisport w options n d = Returned x d'" "session_inv env d" "identified env c"
  shows "session_inv env d'"
proof -
  define d1 where "d1 = d\<lparr>node_connection := (node_connection d)(n \<mapsto> conn_id c), node_mtu := (node_mtu d)(n := lower_mtu (pmtu_option (server_config cfg))
      (lower_mtu (pmtu_option (host_config cfg (conn_name c))) (node_mtu d n)))\<rparr>"
  define c1 where "c1 = c\<lparr>conn_node := Some n, conn_options := agreed_options (host_config cfg (conn_name c)) (conn_options c) options, allow_request := ALL_REQUESTS\<rparr>"
  define d2 where "d2 = send_everything env c1 (update_connection c1 d1)"
  have c: "cleared env c1" "cleared env (c1\<lparr>conn_edge := k\<rparr>)" for k using assms(3) by (simp_all add: c1_def cleared_def identified_def)
  have "session_inv env d1" using assms(2) by (simp add: d1_def session_inv_def)
  then have inv2: "session_inv env d2" using session_inv_sends [OF sends_everything] c(1) by (auto simp: d2_def)
  define e where "e = (new_edge (self env) n)\<lparr>edge_address := sockaddr_setport (conn_address c1) hisport,
      edge_local_address := (if quic_context c1 then sockaddr_setport (conn_local_address c1) (myport cfg)
        else case getsockname cfg (socket c1) of None \<Rightarrow> AF_UNSPEC | Some sa \<Rightarrow> sockaddr_setport sa (myport cfg)),
      edge_weight := c_half (c_int (w + estimated_weight c1)), edge_connection := Some (conn_id c1), edge_options := conn_options c1\<rparr>"
  define c2 where "c2 = c1\<lparr>conn_edge := Some (self env, n)\<rparr>"
  define d3 where "d3 = (update_connection c2 d2)\<lparr>edges := edge_add e (edges d2)\<rparr>"
  define d4 where "d4 = (if tunnelserver env then snd (send_add_edge env c2 e d3) else snd (send_add_edge_everyone env e d3))"
  have run: "run_graph env d4 (Returned True) = Returned x d'" using assms(1)
    unfolding activate_def Let_def d1_def [symmetric] c1_def [symmetric] d2_def [symmetric] e_def [symmetric] c2_def [symmetric] d4_def d3_def by (simp split: if_splits)
  have "session_inv env (update_connection c2 d2)" using inv2 c(2) by (auto simp: c2_def)
  then have "session_inv env d3" by (simp add: d3_def session_inv_def)
  moreover have "sends d3 d4" by (simp add: d4_def)
  ultimately have "session_inv env d4" using session_inv_sends by blast
  then show ?thesis using run_graph_conns [OF run] by (auto simp: session_inv_def)
qed

lemma ack_h_session:
  assumes "ack_h env cfg c line d = Returned x d'" "session_inv env d" "identified env c" "cleared env c"
  shows "session_inv env d'"
proof (cases "\<exists>hisport w options. fst (sscanf ack_format line) = [V_String hisport, V_Int w, V_Nat options]")
  case False
  then have "d' = d" using assms(1) by (auto simp: ack_h_def split: list.splits scan_value.splits)
  then show ?thesis using assms(2) by simp
next
  case True
  then obtain hisport w options where line: "fst (sscanf ack_format line) = [V_String hisport, V_Int w, V_Nat options]" by blast
  obtain r d0 where look: "lookup_node (conn_name c) d = (r, d0)" by (cases "lookup_node (conn_name c) d")
  have inv0: "session_inv env d0" using conns_results(1) [OF look] assms(2) by (simp add: session_inv_def)
  have new: "cleared env c" "cleared env (c\<lparr>outgoing := b\<rparr>)" "identified env (c\<lparr>outgoing := b\<rparr>)" for b using assms(3,4) by (simp_all add: cleared_def identified_def)
  have act: "activate env cfg c' hisport w (of_nat options) n d1 = Returned x d' \<Longrightarrow> session_inv env d1 \<Longrightarrow> identified env c' \<Longrightarrow> ?thesis" for c' n d1
    by (rule activate_session)
  note run = assms(1) [unfolded ack_h_def line list.case scan_value.case look prod.case]
  show ?thesis
  proof (cases r)
    case None
    have "session_inv env (node_add (conn_name c) d0)" using inv0 by (simp add: session_inv_def)
    then show ?thesis using act [OF _ _ assms(3)] run None by simp
  next
    case (Some n)
    show ?thesis
    proof (cases "node_connection d0 n = None \<or> node_connection d0 n = Some (conn_id c)")
      case True
      then show ?thesis using act [OF _ inv0 assms(3)] run Some by (auto split: if_splits)
    next
      case False
      then obtain i old where old: "node_connection d0 n = Some i" "i \<noteq> conn_id c" "find_connection i d0 = Some old"
        using run Some by (auto split: option.splits)
      have oldc: "cleared env (old\<lparr>outgoing := False\<rparr>)" using session_inv_find [OF inv0 old(3)] by (simp add: cleared_def identified_def)
      define d1 where "d1 = update_connection (old\<lparr>outgoing := False\<rparr>) (update_connection (c\<lparr>outgoing := outgoing old\<rparr>) d0)"
      have inv1: "session_inv env d1" using inv0 new(2) oldc by (auto simp: d1_def)
      show ?thesis
      proof (cases "second_connection (outgoing old) (outgoing c) (strcmp (conn_name c) (self env) < 0)")
        case Keep_Old
        then have "terminate_connection env c False d0 (Returned True) = Returned x d'" using run Some old by simp
        from terminate_connection_session [OF this inv0 new(1)] show ?thesis by auto
      next
        case Keep_New
        then have "terminate_connection env (old\<lparr>outgoing := False\<rparr>) False d1 (\<lambda>d. run_graph env d
            (activate env cfg (c\<lparr>outgoing := outgoing old\<rparr>) hisport w (of_nat options) n)) = Returned x d'"
          using run Some old by (simp add: Let_def d1_def)
        from terminate_connection_session [OF this inv1 oldc] obtain d2 where
          "run_graph env d2 (activate env cfg (c\<lparr>outgoing := outgoing old\<rparr>) hisport w (of_nat options) n) = Returned x d'" "session_inv env d2" by auto
        then show ?thesis using run_graph_conns act [OF _ _ new(3)] session_inv_conns by blast
      qed
    qed
  qed
qed

lemma sends_id: "\<not> outgoing c \<Longrightarrow> sends d (snd (send_id env cfg c d))"
  by (simp add: send_id_def sends_request)

lemma send_ack_session: "session_inv env d \<Longrightarrow> cleared env c \<Longrightarrow> session_inv env (snd (send_ack env cfg c d))"
  using session_inv_sends [OF sends_request] by (auto simp: send_ack_def Let_def cleared_def identified_def intro!: session_inv_update)

lemma id_h_session:
  assumes run: "id_h env cfg c line d = Returned x d'" and inv: "session_inv env d" "cleared env c" and expected: "allow_request c \<noteq> CONTROL"
  shows "session_inv env d'"
proof (cases "id_args (fst (sscanf id_format line))")
  case None
  then show ?thesis using run inv by (simp add: id_h_def)
next
  case (Some a)
  obtain name major minor where a: "a = (name, major, minor)" by (cases a)
  define c1 where "c1 = c\<lparr>protocol_major := major, protocol_minor := (case minor of None \<Rightarrow> protocol_minor c | Some m \<Rightarrow> m)\<rparr>"
  have c1: "cleared env c1" "outgoing c1 = outgoing c" using inv(2) by (simp_all add: c1_def cleared_def identified_def)
  note run' = run [unfolded id_h_def Some a option.case prod.case Let_def, folded c1_def]
  have old: ?thesis if "d' = update_connection c1 d" using that inv(1) c1(1) by auto
  show ?thesis
  proof (cases "name = CHR ''^'' # controlcookie cfg")
    case True
    define c2 where "c2 = c1\<lparr>control := True, allow_request := CONTROL, last_ping_time := clock env + 3600, conn_name := ''<control>''\<rparr>"
    have "cleared env c2" by (simp add: c2_def cleared_def)
    then have "session_inv env (update_connection c2 d)" using inv(1) by auto
    then have "session_inv env (if \<not> outgoing c2 then snd (send_id env cfg c2 (update_connection c2 d)) else update_connection c2 d)"
      using session_inv_sends [OF sends_id] by auto
    then show ?thesis using run' True sending_conns(8) unfolding c2_def [symmetric] by (auto simp: session_inv_def split: prod.splits dest!: conns_results(5))
  next
    case False
    show ?thesis
    proof (cases "\<not> check_id name \<or> name = self env \<or> outgoing c \<and> conn_name c1 \<noteq> name")
      case True
      then show ?thesis using old run' False c1(2) by (auto split: if_splits)
    next
      case ok: False
      define c2 where "c2 = (if outgoing c1 then c1 else c1\<lparr>conn_name := name\<rparr>)"
      have name: "conn_name c2 = name" "quic_context c2 = quic_context c1" "allow_request c2 = allow_request c1" "outgoing c2 = outgoing c1" using ok c1(2) by (auto simp: c2_def)
      have "control c2 = control c1" by (simp add: c2_def)
      with name have "cleared env c2" using ok c1(1) by (auto simp: cleared_def identified_def)
      then have inv2: "session_inv env (update_connection c2 d)" using inv(1) by auto
      show ?thesis
      proof (cases "protocol_major c2 = PROT_MAJOR \<and> quic_context c2")
        case True
        define c3 where "c3 = c2\<lparr>allow_request := ACK\<rparr>"
        have "\<not> control c2" using \<open>cleared env c2\<close> name(3) expected True c1_def by (auto simp: cleared_def)
        then have c3: "cleared env c3" "outgoing c3 = outgoing c2" using ok name by (simp_all add: c3_def cleared_def identified_def)
        define d3 where "d3 = update_connection c3 (update_connection c2 d)"
        define d4 where "d4 = (if \<not> outgoing c3 then snd (send_id env cfg c3 d3) else d3)"
        have "session_inv env d3" using inv2 c3(1) by (auto simp: d3_def)
        then have "session_inv env d4" using session_inv_sends [OF sends_id] by (auto simp: d4_def)
        moreover have "d' = snd (send_ack env cfg c3 d4)"
          using run' False ok True c1(2) unfolding c2_def [symmetric] c3_def [symmetric] d3_def [symmetric] d4_def [symmetric] by (auto split: prod.splits)
        ultimately show ?thesis using send_ack_session c3(1) by simp
      next
        case False
        then have "d' = update_connection c2 d" using run' \<open>name \<noteq> CHR ''^'' # controlcookie cfg\<close> ok c1(2) unfolding c2_def [symmetric] by (auto split: if_splits)
        then show ?thesis using inv2 by simp
      qed
    qed
  qed
qed

lemma pong_h_session: "pong_h c line d = Returned x d' \<Longrightarrow> session_inv env d \<Longrightarrow> cleared env c \<Longrightarrow> session_inv env d'"
proof -
  assume pong: "pong_h c line d = Returned x d'" and inv: "session_inv env d" "cleared env c"
  have "cleared env (c\<lparr>pinged := False\<rparr>)" using inv(2) by (simp add: cleared_def identified_def)
  then have "session_inv env (update_connection (c\<lparr>pinged := False\<rparr>) d)" using inv(1) by auto
  moreover have "connection_list d' = connection_list (update_connection (c\<lparr>pinged := False\<rparr>) d)" using pong by (auto simp: pong_h_def Let_def)
  ultimately show ?thesis by (simp add: session_inv_def)
qed

lemma ping_h_conns: "ping_h env c line d = Returned x d' \<Longrightarrow> connection_list d' = connection_list d"
  by (auto simp: ping_h_def send_pong_def split: prod.splits dest!: conns_results(5))

text \<open>Apart from identifications, invitations and the control connection, a request is dispatched only on an identified connection.\<close>

lemma dispatch_cleared:
  assumes "dispatch c line = Some h" "h \<notin> {Id_H, Control_H, Invite_Join_H, Invite_Data_H, Invite_Csr_H, Invite_Cert_H}" "cleared env c"
  shows "identified env c"
proof -
  define r where "r = atoi line"
  have r: "0 \<le> r" "r < LAST" "request_handlers ! nat r = Some h" "allow_request c = ALL_REQUESTS \<or> allow_request c = r \<or> r = INVITE_JOIN"
    using assms(1) unfolding dispatch_def Let_def r_def [symmetric] by (auto split: if_splits)
  have "r \<noteq> ID" "r \<noteq> CONTROL" "r \<noteq> INVITE_JOIN" "r \<noteq> INVITE_DATA" "r \<noteq> INVITE_CSR" "r \<noteq> INVITE_CERT"
    using r(3) assms(2) by (auto simp: request_handlers_def)
  then show ?thesis using r(4) assms(3) by (auto simp: cleared_def)
qed

lemma dispatch_id:
  assumes "dispatch c line = Some h" "h \<in> {Id_H, Invite_Join_H, Invite_Data_H}"
  shows "allow_request c \<noteq> CONTROL"
proof -
  define r where "r = atoi line"
  have r: "0 \<le> r" "r < LAST" "request_handlers ! nat r = Some h" "allow_request c = ALL_REQUESTS \<or> allow_request c = r \<or> allow_request c = ID"
    using assms(1) unfolding dispatch_def Let_def r_def [symmetric] by (auto split: if_splits)
  have "r \<noteq> CONTROL" using r(3) assms(2) by (auto simp: request_handlers_def)
  then show ?thesis using r(4) by auto
qed

lemma modelled_handler_session:
  assumes run: "modelled_handler env cfg h c line d = Returned x d'" and inv: "session_inv env d" "cleared env c" and h: "dispatch c line = Some h"
  shows "session_inv env d'"
proof (cases h)
  case Id_H
  then have "allow_request c \<noteq> CONTROL" using dispatch_id h by simp
  then show ?thesis using run inv id_h_session Id_H by (simp add: modelled_handler_def)
next
  case Ack_H
  then have "identified env c" using dispatch_cleared [OF h _ inv(2)] by simp
  then show ?thesis using run inv Ack_H ack_h_session by (simp add: modelled_handler_def)
next
  case Pong_H
  then show ?thesis using run inv pong_h_session by (simp add: modelled_handler_def)
qed (rule session_inv_same [OF _ inv(1)], insert run, simp add: modelled_handler_def termreq_h_def,
    (erule ping_h_conns add_subnet_h_conns del_subnet_h_conns add_edge_h_conns del_edge_h_conns udp_info_h_conns mtu_info_h_conns)?)+

lemma session_step_inv: "session_step env cfg d d' \<Longrightarrow> session_inv env d \<Longrightarrow> session_inv env d'"
proof (induction rule: session_step.induct)
  case (opened c d)
  then show ?case by (auto simp: session_inv_def connection_add_def cleared_def new_link_def)
next
  case (request i d c line x d')
  then have c: "cleared env c" using session_inv_find by blast
  from request(2) consider "d' = d" | h where "dispatch c line = Some h" "modelled_handler env cfg h c line d = Returned x d'"
    by (auto simp: receive_request_def split: option.splits)
  then show ?case using modelled_handler_session [OF _ request(3) c] request(3) by cases auto
next
  case (invite_join i d c line name d')
  have c: "cleared env c" "allow_request c \<noteq> CONTROL" using session_inv_find invite_join(1,4) dispatch_id [OF invite_join(2)] by auto
  then have "cleared env (c\<lparr>conn_name := name, allow_request := INVITE_CSR\<rparr>)" by (auto simp: cleared_def)
  then show ?case using session_inv_sends [OF invite_join(3)] invite_join(4) by auto
next
  case (invite_data i d c line d')
  have c: "cleared env c" "allow_request c \<noteq> CONTROL" using session_inv_find invite_data(1,4) dispatch_id [OF invite_data(2)] by auto
  then have "cleared env (c\<lparr>allow_request := INVITE_CERT\<rparr>)" by (auto simp: cleared_def)
  then show ?case using session_inv_sends [OF invite_data(3)] invite_data(4) by auto
next
  case (other d d')
  show ?case unfolding session_inv_def
  proof
    fix x assume "x \<in> set (connection_list d')"
    then obtain c where c: "c \<in> set (connection_list d)" "conn_name x = conn_name c" "allow_request x = allow_request c" "control x = control c" "quic_context x \<longrightarrow> quic_context c"
      using other(1) by (auto simp: background_def)
    then have "cleared env c" using other(2) by (simp add: session_inv_def)
    then show "cleared env x" using c by (auto simp: cleared_def identified_def)
  qed
next
  case (terminated i d c report x d')
  from terminate_connection_session [OF terminated(2,3) session_inv_find [OF terminated(3,1)]] show ?case by auto
qed

lemma session_reachable_inv: "(session_step env cfg)\<^sup>*\<^sup>* d d' \<Longrightarrow> session_inv env d \<Longrightarrow> session_inv env d'"
  by (induction rule: rtranclp_induct) (auto intro: session_step_inv)

section \<open>A second identification\<close>

text \<open>The connection after an identification under the given name has been accepted.\<close>

definition reidentified :: "daemon_env \<Rightarrow> auth_config \<Rightarrow> connection \<Rightarrow> string \<Rightarrow> int option \<Rightarrow> daemon \<Rightarrow> connection" where
  "reidentified env cfg c name minor d =
     (let c = c\<lparr>protocol_major := PROT_MAJOR, protocol_minor := (case minor of None \<Rightarrow> protocol_minor c | Some m \<Rightarrow> m), conn_name := name, allow_request := ACK\<rparr>
      in c\<lparr>conn_options := ack_options cfg (node_options (nodes d (self env))) c, estimated_weight := ack_weight cfg c\<rparr>)"

lemma reidentified_fields [simp]:
  "conn_id (reidentified env cfg c name minor d) = conn_id c" "conn_name (reidentified env cfg c name minor d) = name"
  "allow_request (reidentified env cfg c name minor d) = ACK" "conn_node (reidentified env cfg c name minor d) = conn_node c"
  "conn_edge (reidentified env cfg c name minor d) = conn_edge c" "outgoing (reidentified env cfg c name minor d) = outgoing c"
  by (simp_all add: reidentified_def Let_def)

lemma id_h_incoming:
  assumes scan: "id_args (fst (sscanf id_format line)) = Some (name, PROT_MAJOR, minor)" and name: "check_id name" "name \<noteq> self env"
    and c: "\<not> outgoing c" "quic_context c"
  obtains x d1 where "id_h env cfg c line d = Returned x d1" "sends (update_connection (reidentified env cfg c name minor d) d) d1"
proof -
  define c1 where "c1 = c\<lparr>protocol_major := PROT_MAJOR, protocol_minor := (case minor of None \<Rightarrow> protocol_minor c | Some m \<Rightarrow> m), conn_name := name\<rparr>"
  define c2 where "c2 = c1\<lparr>allow_request := ACK\<rparr>"
  define d2 where "d2 = update_connection c2 (update_connection c1 d)"
  define d3 where "d3 = snd (send_id env cfg c2 d2)"
  have cookie: "name \<noteq> CHR ''^'' # controlcookie cfg" using name(1) by (auto simp: check_id_def isalnum_def isdigit_def)
  have s3: "sends d2 d3" using c by (simp add: d3_def c2_def c1_def sends_id)
  have nodes3: "nodes d3 = nodes d" using sends_frame(3) [OF s3] by (simp add: d2_def)
  have re: "c2\<lparr>conn_options := ack_options cfg (node_options (nodes d3 (self env))) c2, estimated_weight := ack_weight cfg c2\<rparr> = reidentified env cfg c name minor d"
    by (simp add: reidentified_def Let_def nodes3 c2_def c1_def)
  have twice: "update_connection (reidentified env cfg c name minor d) d2 = update_connection (reidentified env cfg c name minor d) d"
    by (simp add: d2_def update_connection_def c2_def c1_def comp_def)
  have "sends (update_connection r d2) (update_connection r d3)" for r
  proof -
    obtain ms k where "d3 = d2\<lparr>outbox := outbox d2 @ ms, rand_count := k\<rparr>" using s3 by (auto simp: sends_def)
    then show ?thesis by (intro sendsI [where ms = ms and r = k]) (simp add: update_connection_def)
  qed
  then have "sends (update_connection (reidentified env cfg c name minor d) d) (snd (send_ack env cfg c2 d3))"
    using sends_trans [OF _ sends_request] unfolding send_ack_def Let_def re twice [symmetric] by blast
  moreover have "id_h env cfg c line d = Returned (fst (send_ack env cfg c2 d3)) (snd (send_ack env cfg c2 d3))"
    using scan name c cookie unfolding id_h_def d3_def d2_def c2_def c1_def by (simp add: Let_def split_def)
  ultimately show thesis by (intro that)
qed

text \<open>
  Property C32. Nothing ties an activated connection to the name it was activated under. A peer that identifies itself again, under
  another name that the daemon has no connection with, and acknowledges that, becomes the connection of both nodes. When the connection ends
  the first node still refers to it, and the edge to the first node stays in the map.
\<close>

theorem second_identification:
  assumes inv: "mesh_inv env d" and c: "find_connection (conn_id c) d = Some c" "\<not> outgoing c" "quic_context c" "conn_node c = Some n" "node_connection d n = Some (conn_id c)"
    and line: "id_args (fst (sscanf id_format line)) = Some (name, PROT_MAJOR, minor)"
    and name: "name \<noteq> n" "name \<notin> known d" "mesh_of (edges d) (self env, name) = None"
    and ok: "ack_ok env cfg (reidentified env cfg c name minor d) hisport w options"
    and room: "mesh_room env (card (known d) + 1) (Suc (card (edge_set (edges d))))"
  shows "\<exists>x d1 c1 d2 c2 d3. id_h env cfg c line d = Returned x d1 \<and> find_connection (conn_id c) d1 = Some c1 \<and>
    ack_h env cfg c1 (ack_line hisport w options) d1 = Returned True d2 \<and> find_connection (conn_id c) d2 = Some c2 \<and> conn_node c2 = Some name \<and>
    terminate_connection env c2 report d2 (Returned True) = Returned True d3 \<and>
    find_connection (conn_id c) d3 = None \<and> node_connection d3 n = Some (conn_id c) \<and> mesh_of (edges d3) (self env, n) = mesh_of (edges d) (self env, n)"
proof -
  let ?c1 = "reidentified env cfg c name minor d"
  have names: "check_id name" "name \<noteq> self env" "c_string name" "c_string (self env)" using ok check_id_c_string by (auto simp: ack_ok_def)
  obtain x d1 where d1: "id_h env cfg c line d = Returned x d1" "sends (update_connection ?c1 d) d1"
    by (rule id_h_incoming [OF line names(1,2) c(2,3)]) (rule that)
  note f1 = sends_frame [OF d1(2)]
  have inv1: "mesh_inv env d1" using f1(11) inv by simp
  have e1: "edges d1 = edges d" "known d1 = known d" "node_connection d1 = node_connection d" using f1 by simp_all
  have find1: "find_connection (conn_id c) d1 = Some ?c1"
    using c(1) find_updated [of ?c1 "conn_id c"] f1(1) by (simp add: find_connection_def update_connection_def)
  have first: "conn_name ?c1 \<in> known d1 \<longrightarrow> node_connection d1 (conn_name ?c1) = None" "mesh_of (edges d1) (self env, conn_name ?c1) = None"
    "mesh_room env (card (known d1) + 1) (Suc (card (edge_set (edges d1))))" using name e1 room by simp_all
  obtain d2 e where d2: "ack_h env cfg ?c1 (ack_line hisport w options) d1 = Returned True d2" "mesh_inv env d2"
    "connection_list d2 = map (\<lambda>x. if conn_id x = conn_id ?c1 then activated env cfg ?c1 options (conn_name ?c1) else x) (connection_list d1)"
    "mesh_of (edges d2) = (mesh_of (edges d1))((self env, conn_name ?c1) \<mapsto> e)" "edge_weight e = c_half (c_int (w + estimated_weight ?c1))"
    "edge_connection e = Some (conn_id ?c1)" "edge_address e = sockaddr_setport (conn_address ?c1) hisport" "node_connection d2 = (node_connection d1)(conn_name ?c1 \<mapsto> conn_id ?c1)"
    "known d2 = insert (conn_name ?c1) (known d1)" "seen d2 = seen d1"
    by (rule ack_h_first [OF inv1 ok first]) (rule that)
  let ?c2 = "activated env cfg ?c1 options name"
  have c2: "conn_id ?c2 = conn_id c" "conn_node ?c2 = Some name" "conn_edge ?c2 = Some (self env, name)" by (simp_all add: activated_def)
  have find2: "find_connection (conn_id c) d2 = Some ?c2" using find1 find_updated [OF c2(1)] unfolding find_connection_def d2(3) reidentified_fields by blast
  have E: "edges_inv (edges d1)" "edges_inv (edges d2)" using inv1 d2(2) by (simp_all add: mesh_inv_def mesh_shape_def)
  have "card (known d2) \<le> card (known d) + 1" using d2(9) e1(2) by (simp add: card_insert_if known_def)
  then have room2: "mesh_room env (card (known d2)) (card (edge_set (edges d2)))" using edges_after [OF E d2(4)] e1(1) mesh_room_mono [OF room] by simp
  have e2: "mesh_of (edges d2) (self env, name) = Some e" "name \<in> known d2" using d2(4,9) by simp_all
  obtain d3 where d3: "\<And>k. terminate_connection env ?c2 report d2 k = k d3" "mesh_inv env d3" "known d3 = known d2" "seen d3 = seen d2"
    "connection_list d3 = filter (\<lambda>x. conn_id x \<noteq> conn_id ?c2) (connection_list d2)"
    "retries d3 = retries d2 @ (if outgoing ?c2 then [conn_name ?c2] else [])"
    "node_connection d3 = (if node_connection d2 name = Some (conn_id ?c2) then (node_connection d2)(name := None) else node_connection d2)"
    "mesh_of (edges d3) = (if report \<and> \<not> (mutual (edges d3))\<^sup>*\<^sup>* (self env) name
       then (mesh_of (edges d2))((self env, name) := None, (name, self env) := None) else (mesh_of (edges d2))((self env, name) := None))"
    by (rule terminate_connection_effect [OF d2(2) c2(2,3) e2 names(3,4) room2]) (rule that)
  have gone: "find_connection (conn_id c) d3 = None" using d3(5) c2(1) by (auto simp: find_connection_def find_None_iff)
  have dangling: "node_connection d3 n = Some (conn_id c)" using d3(7) d2(8) e1(3) c(5) name(1) by simp
  have left: "mesh_of (edges d3) (self env, n) = mesh_of (edges d) (self env, n)" using d3(8) d2(4) e1(1) name(1) names(2) by auto
  show ?thesis using d1(1) find1 d2(1) find2 c2(2) d3(1) gone dangling left
    by (intro exI [of _ x] exI [of _ d1] exI [of _ ?c1] exI [of _ d2] exI [of _ ?c2] exI [of _ d3]) simp
qed

definition sample_active :: daemon where
  "sample_active = (node_add ''b'' (sample_pair ''a'' [activated sample_denv sample_cfg (sample_link 1 ''b'' False) 0 ''b'']))\<lparr>node_connection := [''b'' \<mapsto> 1]\<rparr>"

lemma sample_active_ok:
  "mesh_inv sample_denv sample_active" "known sample_active = {''a'', ''b''}" "mesh_of (edges sample_active) = (\<lambda>_. None)" "edge_set (edges sample_active) = {}"
proof -
  have c: "c_string ''a''" "c_string ''b''" by (simp_all add: c_string_def)
  have env: "sample_denv\<lparr>self := ''a''\<rparr> = sample_denv" by (simp add: sample_denv_def)
  note start = sample_pair_ok [OF c(1), unfolded env]
  let ?s = "sample_pair ''a'' [activated sample_denv sample_cfg (sample_link 1 ''b'' False) 0 ''b'']"
  have "''b'' \<notin> known ?s" by (simp add: start)
  note add = mesh_inv_node_add [OF start(1) c(2) this]
  then show "mesh_inv sample_denv sample_active" "known sample_active = {''a'', ''b''}"
    using start(2) by (auto simp: sample_active_def mesh_inv_def mesh_shape_def request_inv_def known_def)
  show "mesh_of (edges sample_active) = (\<lambda>_. None)" "edge_set (edges sample_active) = {}"
    using start(3,4) by (simp_all add: sample_active_def node_add_def)
qed

theorem second_identification_witness:
  "\<exists>x d1 c1 d2 c2 d3. id_h sample_denv sample_cfg (activated sample_denv sample_cfg (sample_link 1 ''b'' False) 0 ''b'') ''0 c 17.7'' sample_active = Returned x d1 \<and>
     ack_h sample_denv sample_cfg c1 (ack_line ''655'' 20 0) d1 = Returned True d2 \<and> conn_node c2 = Some ''c'' \<and>
     terminate_connection sample_denv c2 True d2 (Returned True) = Returned True d3 \<and> find_connection 1 d3 = None \<and> node_connection d3 ''b'' = Some 1"
proof -
  let ?c = "activated sample_denv sample_cfg (sample_link 1 ''b'' False) 0 ''b''"
  have c: "find_connection (conn_id ?c) sample_active = Some ?c" "\<not> outgoing ?c" "quic_context ?c" "conn_node ?c = Some ''b''"
    "node_connection sample_active ''b'' = Some (conn_id ?c)" "conn_id ?c = 1"
    by (simp_all add: activated_def sample_active_def find_connection_def node_add_def sample_pair_def) (simp_all add: sample_link_def sample_connection_def)
  have line: "id_args (fst (sscanf id_format ''0 c 17.7'')) = Some (''c'', 17, Some 7)" by code_simp
  have name: "''c'' \<noteq> ''b''" "''c'' \<notin> known sample_active" "mesh_of (edges sample_active) (self sample_denv, ''c'') = None"
    "mesh_room sample_denv (card (known sample_active) + 1) (Suc (card (edge_set (edges sample_active))))"
    by (simp_all add: sample_active_ok mesh_room_def) (simp add: sample_denv_def)
  have mine: "node_options (nodes sample_active (self sample_denv)) = 0"
    by (simp add: sample_active_def node_add_def sample_pair_def sample_denv_def new_node_def)
  have ok: "ack_ok sample_denv sample_cfg (reidentified sample_denv sample_cfg ?c ''c'' (Some 7) sample_active) ''655'' 20 0"
    unfolding ack_ok_def reidentified_def Let_def mine
    by (simp add: activated_def agreed_options_def ack_options_def ack_weight_def sample_cfg_def sample_host_def Let_def sample_link_def sample_connection_def
        check_id_def isalnum_def isdigit_def sample_denv_def c_string_def text_word_def isspace_def c_int_ok_def c_half_def c_int_def c_int_diff_exact)
  show ?thesis using second_identification [OF sample_active_ok(1) c(1-5) line name(1-3) ok name(4), of True] unfolding c(6) by blast
qed

section \<open>Only identified peers\<close>

text \<open>
  Property C31. From a daemon without connections, whatever connections are opened, lost and terminated, whatever requests arrive on
  them, in any order, and whatever the daemon does by itself in between, a request other than an identification, an invitation request or a control
  request is given to a handler, on a connection on which requests can still arrive, only if that connection is over QUIC and its name has been accepted by an identification: a valid node name, and not the daemon's own.
\<close>

theorem only_identified_peers:
  assumes "(session_step env cfg)\<^sup>*\<^sup>* d0 d" "connection_list d0 = []"
    and "find_connection i d = Some c" "quic_context c \<or> control c"
    and "dispatch c line = Some h" "h \<notin> {Id_H, Control_H, Invite_Join_H, Invite_Data_H, Invite_Csr_H, Invite_Cert_H}"
  shows "check_id (conn_name c) \<and> conn_name c \<noteq> self env \<and> quic_context c"
proof -
  have "session_inv env d" using session_reachable_inv [OF assms(1)] assms(2) by (simp add: session_inv_def)
  from dispatch_cleared [OF assms(5,6) session_inv_find [OF this assms(3)]] show ?thesis using assms(4) by (simp add: identified_def)
qed

theorem only_identified_peers_witness:
  "\<exists>d c. (session_step sample_denv sample_cfg)\<^sup>*\<^sup>* (sample_pair ''a'' []) d \<and> find_connection 1 d = Some c \<and> dispatch c ''4 655 10 0'' = Some Ack_H \<and>
     conn_name c = ''b'' \<and> check_id (conn_name c)"
proof -
  let ?c = "(sample_link 1 ''<unknown>'' False)\<lparr>allow_request := ID\<rparr>" and ?d0 = "sample_pair ''a'' []"
  let ?d1 = "connection_add ?c ?d0"
  have "session_step sample_denv sample_cfg ?d0 ?d1" by (rule session_step.opened) (simp add: new_link_def sample_link_def sample_connection_def)
  moreover have f: "find_connection 1 ?d1 = Some ?c" by (simp add: find_connection_def connection_add_def sample_pair_def)
  have line: "id_args (fst (sscanf id_format ''0 b 17.7'')) = Some (''b'', 17, Some 7)" by code_simp
  have h: "dispatch ?c ''0 b 17.7'' = Some Id_H" by code_simp
  have c: "check_id ''b''" "''b'' \<noteq> self sample_denv" "\<not> outgoing ?c" "quic_context ?c"
    by (simp_all add: check_id_def isalnum_def isdigit_def sample_denv_def) (simp add: sample_link_def sample_connection_def)
  obtain x d2 where d2: "id_h sample_denv sample_cfg ?c ''0 b 17.7'' ?d1 = Returned x d2"
    "sends (update_connection (reidentified sample_denv sample_cfg ?c ''b'' (Some 7) ?d1) ?d1) d2" by (rule id_h_incoming [OF line c])
  have "session_step sample_denv sample_cfg ?d1 d2"
    by (rule session_step.request [OF f, of _ _ "''0 b 17.7''" x]) (use h d2(1) in \<open>simp add: receive_request_def proxy_answer_def modelled_handler_def\<close>)
  ultimately have run: "(session_step sample_denv sample_cfg)\<^sup>*\<^sup>* ?d0 d2" by (meson converse_rtranclp_into_rtranclp r_into_rtranclp)
  let ?r = "reidentified sample_denv sample_cfg ?c ''b'' (Some 7) ?d1"
  have find: "find_connection 1 d2 = Some ?r"
    using sends_frame(1) [OF d2(2)] by (simp add: find_connection_def update_connection_def connection_add_def sample_pair_def)
  have "atoi ''4 655 10 0'' = 4" by code_simp
  then have ack: "dispatch ?r ''4 655 10 0'' = Some Ack_H" by (simp add: dispatch_def request_handlers_def)
  have "connection_list ?d0 = []" by (simp add: sample_pair_def)
  moreover have "quic_context ?r" using c(4) by (simp add: reidentified_def Let_def)
  ultimately have "check_id (conn_name ?r)" using only_identified_peers [OF run _ find _ ack] by simp
  with run find ack show ?thesis by (intro exI [of _ d2] exI [of _ ?r]) simp
qed

end
