(* ===== verification/Packet_Transfer.thy ===== *)
theory Packet_Transfer
  imports Protocol_Misc
begin

text \<open>
  How packets leave the daemon and how they come in (\<^verbatim>\<open>net_packet.c\<close>): the device, the connection of the next hop,
  broadcasts, the probes that are sent along, and the discovery of the largest packet size. Packets handed to
  \<^verbatim>\<open>quic_send_packet\<close> are recorded with the number of their connection. Sockets are chosen for UDP only and are left out, as is
  the bit \<^verbatim>\<open>send_locally\<close>, which is cleared again before anything reads it. The result of \<^verbatim>\<open>powf\<close> and
  the system's answer about the size a path carries are parameters.
\<close>

section \<open>State\<close>

datatype bmode = BMODE_NONE | BMODE_MST | BMODE_DIRECT

record transfer =
  host :: daemon
  time_now :: int
  in_packets :: "string \<Rightarrow> u64"
  in_bytes :: "string \<Rightarrow> u64"
  out_packets :: "string \<Rightarrow> u64"
  out_bytes :: "string \<Rightarrow> u64"
  udp_reply_sent :: "string \<Rightarrow> int"
  udp_ping_sent :: "string \<Rightarrow> int"
  mtu_ping_sent :: "string \<Rightarrow> int"
  ping_sent :: "string \<Rightarrow> bool"
  udp_ping_rtt :: "string \<Rightarrow> int"
  udp_ping_timeout :: "string \<Rightarrow> int option"
  udp_turn :: int
  rate_limit :: ratelimit_state
  tap_mac :: bytes
  device_out :: "vpn_packet list"
  device_errors :: int
  datagrams :: "(nat \<times> vpn_packet) list"

record transfer_env =
  daemon_conf :: daemon_env
  route_conf :: route_env
  broadcast_mode :: bmode
  localdiscovery :: bool
  udp_discovery :: bool
  udp_discovery_keepalive_interval :: int
  udp_discovery_interval :: int
  udp_discovery_timeout :: int
  gettimeofday :: int
  random_byte :: "nat \<Rightarrow> byte"
  path_mtu :: "sockaddr \<Rightarrow> int option"
  probe_offset :: "int \<Rightarrow> bool \<Rightarrow> int \<Rightarrow> nat"

text \<open>
  How an operation ends: with a new state, or by writing past a buffer, by following a null pointer or a pointer to a connection that is
  gone, or by dividing by zero.
\<close>

datatype tx = Tx transfer | Tx_Overrun | Tx_Null | Tx_Stale | Tx_Div_Zero

fun tx_then :: "tx \<Rightarrow> (transfer \<Rightarrow> tx) \<Rightarrow> tx" where
  "tx_then (Tx s) k = k s"
| "tx_then Tx_Overrun k = Tx_Overrun"
| "tx_then Tx_Null k = Tx_Null"
| "tx_then Tx_Stale k = Tx_Stale"
| "tx_then Tx_Div_Zero k = Tx_Div_Zero"

abbreviation host_name :: "transfer_env \<Rightarrow> string" where "host_name env \<equiv> self (daemon_conf env)"

abbreviation node_of :: "transfer \<Rightarrow> string \<Rightarrow> gnode" where "node_of s n \<equiv> nodes (host s) n"

definition set_node :: "string \<Rightarrow> gnode \<Rightarrow> transfer \<Rightarrow> transfer" where
  "set_node n t s = s\<lparr>host := (host s)\<lparr>nodes := (nodes (host s))(n := t)\<rparr>\<rparr>"

definition tx_rand :: "transfer_env \<Rightarrow> transfer \<Rightarrow> nat \<times> transfer" where
  "tx_rand env s = (case next_rand (daemon_conf env) (host s) of (r, d) \<Rightarrow> (r, s\<lparr>host := d\<rparr>))"

section \<open>Datagrams\<close>

abbreviation (input) MIN_PROBE_SIZE :: nat where "MIN_PROBE_SIZE \<equiv> 18"
abbreviation (input) PACKET_ROOM :: nat where "PACKET_ROOM \<equiv> 1565"

text \<open>A datagram on the connection of a node, if it has one over QUIC; what \<^verbatim>\<open>quic_send_packet\<close> returns is only logged.\<close>

definition send_datagram :: "string \<Rightarrow> vpn_packet \<Rightarrow> transfer \<Rightarrow> tx" where
  "send_datagram n p s =
     (case node_connection (host s) n of
        None \<Rightarrow> Tx s
      | Some i \<Rightarrow>
          (case find_connection i (host s) of
             None \<Rightarrow> Tx_Stale
           | Some c \<Rightarrow> Tx (if quic_context c then s\<lparr>datagrams := datagrams s @ [(i, p)]\<rparr> else s)))"

definition send_sptps_packet :: "string \<Rightarrow> vpn_packet \<Rightarrow> transfer \<Rightarrow> tx" where
  "send_sptps_packet n p s = send_datagram n p s"

definition send_udppacket :: "string \<Rightarrow> vpn_packet \<Rightarrow> transfer \<Rightarrow> tx" where
  "send_udppacket n p s = (if \<not> reachable (node_of s n) then Tx s else send_datagram n p s)"

text \<open>Fourteen zeros and then random bytes; the number of random bytes is a \<^verbatim>\<open>size_t\<close>.\<close>

definition probe_packet :: "transfer_env \<Rightarrow> nat \<Rightarrow> vpn_packet" where
  "probe_packet env n = \<lparr>pkt_len = n, pkt_data = (\<lambda>i. if i < 14 then 0 else random_byte env i), pkt_priority = 0\<rparr>"

definition send_udp_probe_packet :: "transfer_env \<Rightarrow> string \<Rightarrow> nat \<Rightarrow> transfer \<Rightarrow> tx" where
  "send_udp_probe_packet env n len s =
     (if len < 14 \<or> len > PACKET_ROOM then Tx_Overrun else send_udppacket n (probe_packet env len) s)"

definition send_udp_probe_reply :: "string \<Rightarrow> vpn_packet \<Rightarrow> nat \<Rightarrow> transfer \<Rightarrow> tx" where
  "send_udp_probe_reply n p len s =
     send_udppacket n
       (if drop_bit 24 (node_options (node_of s n)) \<ge> 3
        then (put_data 1 (be16_bytes len) (put_data 0 [2] p))\<lparr>pkt_len := MIN_PROBE_SIZE\<rparr>
        else put_data 0 [1] p) s"

section \<open>The largest packet size\<close>

definition try_fix_mtu :: "string \<Rightarrow> transfer \<Rightarrow> transfer" where
  "try_fix_mtu n s =
     (let t = node_of s n in
      if mtuprobes t < 0 then s
      else if mtuprobes t = 20 \<or> minmtu t \<ge> maxmtu t then
        let t = (if minmtu t > maxmtu t then t\<lparr>minmtu := maxmtu t\<rparr> else t\<lparr>maxmtu := minmtu t\<rparr>);
            s = set_node n (t\<lparr>mtuprobes := - 1\<rparr>) s
        in s\<lparr>host := (host s)\<lparr>daemon.node_mtu := (daemon.node_mtu (host s))(n := int (minmtu t))\<rparr>\<rparr>
      else s)"

definition udp_probe_timeout_handler :: "string \<Rightarrow> transfer \<Rightarrow> transfer" where
  "udp_probe_timeout_handler n s =
     (if \<not> udp_confirmed (node_of s n) then s
      else (set_node n ((node_of s n)\<lparr>udp_confirmed := False, maxrecentlen := 0, mtuprobes := 0, minmtu := 0, maxmtu := MTU\<rparr>) s)
        \<lparr>udp_ping_rtt := (udp_ping_rtt s)(n := - 1)\<rparr>)"

text \<open>The handler of probes, which nothing calls any more: datagrams with probes are dropped when they arrive.\<close>

definition udp_probe_h :: "transfer_env \<Rightarrow> string \<Rightarrow> vpn_packet \<Rightarrow> nat \<Rightarrow> transfer \<Rightarrow> tx" where
  "udp_probe_h env n p len s =
     (if data_at p 0 = 0 then send_udp_probe_reply n p len s
      else
        let len = (if data_at p 0 = 2 then data_be16 p 1 else len);
            s = (if ping_sent s n
                 then s\<lparr>time_now := gettimeofday env, udp_ping_rtt := (udp_ping_rtt s)(n := c_int (gettimeofday env - udp_ping_sent s n)),
                        ping_sent := (ping_sent s)(n := False)\<rparr>
                 else s);
            s = (if \<not> udp_confirmed (node_of s n)
                 then (set_node n ((node_of s n)\<lparr>udp_confirmed := True\<rparr>) s)
                   \<lparr>host := (host (set_node n ((node_of s n)\<lparr>udp_confirmed := True\<rparr>) s))
                     \<lparr>cache_resets := cache_resets (host s) @ [(n, node_address (node_of s n))]\<rparr>\<rparr>
                 else s);
            s = (if udp_discovery env
                 then s\<lparr>udp_ping_timeout := (udp_ping_timeout s)(n \<mapsto> time_now s + udp_discovery_timeout env * 1000000)\<rparr> else s);
            t = node_of s n
        in if len > maxmtu t then Tx (set_node n (t\<lparr>minmtu := len, maxmtu := MTU, mtuprobes := 1\<rparr>) s)
           else
             let s = (if mtuprobes t < 0 \<and> len = maxmtu t
                      then (set_node n (t\<lparr>mtuprobes := - 1\<rparr>) s)\<lparr>mtu_ping_sent := (mtu_ping_sent s)(n := time_now s)\<rparr> else s)
             in if minmtu t < len then Tx (try_fix_mtu n (set_node n ((node_of s n)\<lparr>minmtu := len\<rparr>) s)) else Tx s)"

definition nth_edge :: "nat \<Rightarrow> edge list \<Rightarrow> edge option" where
  "nth_edge j es = (if j < length es then Some (es ! j) else None)"

text \<open>The address: the latest guess if it is confirmed and every third time, otherwise that of a random edge to the node.\<close>

definition choose_udp_address :: "transfer_env \<Rightarrow> string \<Rightarrow> transfer \<Rightarrow> (sockaddr \<Rightarrow> transfer \<Rightarrow> tx) \<Rightarrow> tx" where
  "choose_udp_address env n s k =
     (if udp_confirmed (node_of s n) then k (node_address (node_of s n)) s
      else if udp_turn s + 1 \<ge> 3 then k (node_address (node_of s n)) (s\<lparr>udp_turn := 0\<rparr>)
      else
        let s = s\<lparr>udp_turn := udp_turn s + 1\<rparr>; es = links (node_edges (edges (host s)) n) in
        case tx_rand env s of (r, s) \<Rightarrow>
          if es = [] then Tx_Div_Zero
          else case Option.bind (nth_edge (r mod length es) es) (reverse_edge (edges (host s))) of
            None \<Rightarrow> k (node_address (node_of s n)) s
          | Some e \<Rightarrow> k (edge_address e) (snd (tx_rand env s)))"

definition initial_mtu :: "sockaddr \<Rightarrow> int option \<Rightarrow> nat" where
  "initial_mtu sa ip_mtu =
     (case ip_mtu of
        None \<Rightarrow> MTU
      | Some m \<Rightarrow>
          let mtu = nat ((m - (case sa of AF_INET6 _ _ \<Rightarrow> 40 | _ \<Rightarrow> 20) - 8) mod 65536)
          in if mtu < 512 then MTU else if mtu > MTU then MTU else mtu)"

definition choose_initial_maxmtu :: "transfer_env \<Rightarrow> string \<Rightarrow> transfer \<Rightarrow> (nat \<Rightarrow> transfer \<Rightarrow> tx) \<Rightarrow> tx" where
  "choose_initial_maxmtu env n s k = choose_udp_address env n s (\<lambda>sa s. k (initial_mtu sa (path_mtu env sa)) s)"

definition mtu_wait :: "transfer_env \<Rightarrow> string \<Rightarrow> transfer \<Rightarrow> bool" where
  "mtu_wait env n s \<longleftrightarrow>
     (let probes = mtuprobes (node_of s n); elapsed = time_now s - mtu_ping_sent s n in
      if probes \<ge> 0 then probes \<noteq> 0 \<and> elapsed div 1000000 = 0 \<and> elapsed mod 1000000 < 333333
      else if probes < - 1 then elapsed div 1000000 < 1
      else elapsed div 1000000 < pinginterval (daemon_conf env))"

text \<open>
  The loop of the discovery ends after its first probe, because sending a probe no longer changes the limit. \<^verbatim>\<open>powf\<close> is applied to
  the width of the interval, whether the limit is the largest one, and the place in the cycle.
\<close>

definition probe_size :: "transfer_env \<Rightarrow> gnode \<Rightarrow> nat" where
  "probe_size env t =
     (let minmtu = max (minmtu t) 512
      in (minmtu + probe_offset env (int (maxmtu t) - int minmtu) (maxmtu t = MTU) (8 - mtuprobes t mod 8 - 1)) mod 65536)"

definition try_mtu :: "transfer_env \<Rightarrow> string \<Rightarrow> transfer \<Rightarrow> tx" where
  "try_mtu env n s =
     (if node_options (node_of s n) AND 4 = 0 then Tx s
      else if udp_discovery env \<and> \<not> udp_confirmed (node_of s n)
      then Tx (set_node n ((node_of s n)\<lparr>maxrecentlen := 0, mtuprobes := 0, minmtu := 0, maxmtu := MTU\<rparr>) s)
      else if mtu_wait env n s then Tx s
      else
        let s = try_fix_mtu n (s\<lparr>mtu_ping_sent := (mtu_ping_sent s)(n := time_now s)\<rparr>);
            s = (if mtuprobes (node_of s n) < - 3 then set_node n ((node_of s n)\<lparr>mtuprobes := 0, minmtu := 0\<rparr>) s else s)
        in if mtuprobes (node_of s n) < 0 then
             tx_then (send_udp_probe_packet env n (maxmtu (node_of s n)) s) (\<lambda>s.
               tx_then (if mtuprobes (node_of s n) = - 1 \<and> maxmtu (node_of s n) + 1 < MTU
                        then send_udp_probe_packet env n (maxmtu (node_of s n) + 1) s else Tx s) (\<lambda>s.
                 Tx (set_node n ((node_of s n)\<lparr>mtuprobes := mtuprobes (node_of s n) - 1\<rparr>) s)))
           else
             tx_then
               (if mtuprobes (node_of s n) = 0
                then choose_initial_maxmtu env n s (\<lambda>m s. Tx (set_node n ((node_of s n)\<lparr>maxmtu := m\<rparr>) s)) else Tx s) (\<lambda>s.
               tx_then (send_udp_probe_packet env n (probe_size env (node_of s n)) s) (\<lambda>s.
                 Tx (set_node n ((node_of s n)\<lparr>mtuprobes := mtuprobes (node_of s n) + 1\<rparr>) s))))"

section \<open>Probes that keep a tunnel up\<close>

definition try_udp :: "transfer_env \<Rightarrow> string \<Rightarrow> transfer \<Rightarrow> tx" where
  "try_udp env n s =
     (if \<not> udp_discovery env then Tx s
      else
        tx_then
          (if drop_bit 24 (node_options (node_of s n)) \<ge> 3 \<and> udp_confirmed (node_of s n) \<and>
              (time_now s - udp_reply_sent s n) div 1000000 \<ge> udp_discovery_keepalive_interval env - 1
           then
             let s = s\<lparr>udp_reply_sent := (udp_reply_sent s)(n := time_now s)\<rparr>; recent = maxrecentlen (node_of s n) in
             if recent \<noteq> 0 then
               tx_then (send_udp_probe_reply n ((probe_packet env MIN_PROBE_SIZE)\<lparr>pkt_len := recent\<rparr>) recent s) (\<lambda>s.
                 Tx (set_node n ((node_of s n)\<lparr>maxrecentlen := 0\<rparr>) s))
             else Tx s
           else Tx s) (\<lambda>s.
          let interval = (if udp_confirmed (node_of s n) then udp_discovery_keepalive_interval env else udp_discovery_interval env) in
          if (time_now s - udp_ping_sent s n) div 1000000 \<ge> interval then
            let s = s\<lparr>time_now := gettimeofday env, udp_ping_sent := (udp_ping_sent s)(n := gettimeofday env), ping_sent := (ping_sent s)(n := True)\<rparr> in
            tx_then (send_udp_probe_packet env n MIN_PROBE_SIZE s) (\<lambda>s.
              if localdiscovery env \<and> \<not> udp_confirmed (node_of s n) \<and> prevedge (node_of s n) \<noteq> None
              then send_udp_probe_packet env n MIN_PROBE_SIZE s else Tx s)
          else Tx s))"

definition try_tx :: "transfer_env \<Rightarrow> string \<Rightarrow> bool \<Rightarrow> transfer \<Rightarrow> tx" where
  "try_tx env n mtu s =
     (if \<not> reachable (node_of s n) then Tx s
      else tx_then (try_udp env n s) (\<lambda>s. if mtu then try_mtu env n s else Tx s))"

section \<open>Sending a packet\<close>

definition count_out :: "string \<Rightarrow> vpn_packet \<Rightarrow> transfer \<Rightarrow> transfer" where
  "count_out n p s = s\<lparr>out_packets := (out_packets s)(n := out_packets s n + 1), out_bytes := (out_bytes s)(n := out_bytes s n + of_nat (pkt_len p))\<rparr>"

definition count_in :: "string \<Rightarrow> vpn_packet \<Rightarrow> transfer \<Rightarrow> transfer" where
  "count_in n p s = s\<lparr>in_packets := (in_packets s)(n := in_packets s n + 1), in_bytes := (in_bytes s)(n := in_bytes s n + of_nat (pkt_len p))\<rparr>"

definition for_device :: "transfer_env \<Rightarrow> transfer \<Rightarrow> vpn_packet \<Rightarrow> vpn_packet" where
  "for_device env s p =
     (if overwrite_mac (route_conf env)
      then let p = put_data 0 (tap_mac s) p;
               p = put_data 6 (get_bytes (pkt_data p) 0 6) p
           in put_data 11 [data_at p 11 XOR 0xFF] p
      else p)"

definition send_packet :: "transfer_env \<Rightarrow> string \<Rightarrow> vpn_packet \<Rightarrow> transfer \<Rightarrow> tx" where
  "send_packet env n p s =
     (if n = host_name env then
        let p = for_device env s p in Tx ((count_out n p s)\<lparr>device_out := device_out s @ [p]\<rparr>)
      else if \<not> reachable (node_of s n) then Tx s
      else
        let s = count_out n p s in
        case nexthop (node_of s n) of
          None \<Rightarrow> Tx_Null
        | Some h \<Rightarrow>
            let via = (if h = host_name env then n else h) in
            tx_then (send_sptps_packet via p s) (try_tx env via True))"

text \<open>What is done for each element of a list, one after the other.\<close>

fun tx_each :: "('a \<Rightarrow> transfer \<Rightarrow> tx) \<Rightarrow> 'a list \<Rightarrow> transfer \<Rightarrow> tx" where
  "tx_each f [] s = Tx s"
| "tx_each f (x # xs) s = tx_then (f x s) (tx_each f xs)"

definition mst_send :: "transfer_env \<Rightarrow> string \<Rightarrow> vpn_packet \<Rightarrow> connection \<Rightarrow> transfer \<Rightarrow> tx" where
  "mst_send env from p c s =
     (if conn_edge c \<noteq> None \<and> mst_conns (host s) (conn_id c) then
        case nexthop (node_of s from) of
          None \<Rightarrow> Tx_Null
        | Some h \<Rightarrow>
            if node_connection (host s) h \<noteq> Some (conn_id c)
            then (case conn_node c of None \<Rightarrow> Tx_Null | Some n \<Rightarrow> send_packet env n p s)
            else Tx s
      else Tx s)"

definition direct_send :: "transfer_env \<Rightarrow> vpn_packet \<Rightarrow> string \<Rightarrow> transfer \<Rightarrow> tx" where
  "direct_send env p n s =
     (let t = node_of s n in
      if reachable t \<and> n \<noteq> host_name env \<and> (via t = Some (host_name env) \<and> nexthop t = Some n \<or> via t = Some n)
      then send_packet env n p s else Tx s)"

definition broadcast_packet :: "transfer_env \<Rightarrow> string \<Rightarrow> vpn_packet \<Rightarrow> transfer \<Rightarrow> tx" where
  "broadcast_packet env from p s =
     tx_then (if from \<noteq> host_name env then send_packet env (host_name env) p s else Tx s) (\<lambda>s.
       if tunnelserver (daemon_conf env) \<or> broadcast_mode env = BMODE_NONE then Tx s
       else case broadcast_mode env of
         BMODE_MST \<Rightarrow> tx_each (mst_send env from p) (connection_list (host s)) s
       | BMODE_DIRECT \<Rightarrow> if from \<noteq> host_name env then Tx s else tx_each (direct_send env p) (links (node_tree (host s))) s
       | _ \<Rightarrow> Tx s)"

section \<open>Packets that come in\<close>

text \<open>What routing decided is carried out: packets go out, and subnets learned or forgotten are announced on the active connections.\<close>

definition tell_peers :: "(connection \<Rightarrow> daemon \<Rightarrow> daemon) \<Rightarrow> daemon \<Rightarrow> daemon" where
  "tell_peers f d = fold (\<lambda>c d. if conn_edge c \<noteq> None then f c d else d) (connection_list d) d"

definition perform :: "transfer_env \<Rightarrow> route_action \<Rightarrow> transfer \<Rightarrow> tx" where
  "perform env a s =
     (case a of
        Send_Packet n p \<Rightarrow> send_packet env n p s
      | Broadcast_Packet from p \<Rightarrow> broadcast_packet env from p s
      | Subnet_Learned sn \<Rightarrow>
          Tx (s\<lparr>host := tell_peers (\<lambda>c d. snd (send_add_subnet (daemon_conf env) c (host_name env) sn d))
                 (subnet_update (host_name env) (Some sn) True (host s))\<rparr>)
      | Subnet_Expired sn \<Rightarrow>
          Tx (s\<lparr>host := tell_peers (\<lambda>c d. snd (send_del_subnet (daemon_conf env) c (host_name env) sn d)) (host s)\<rparr>))"

definition router :: "transfer_env \<Rightarrow> transfer \<Rightarrow> route_env" where
  "router env s = (route_conf env)\<lparr>myself := host_name env, route_nodes := nodes (host s),
     route_env.node_mtu := (\<lambda>n. nat (daemon.node_mtu (host s) n)), now_sec := time_now s div 1000000\<rparr>"

definition route_packet :: "transfer_env \<Rightarrow> string \<Rightarrow> vpn_packet \<Rightarrow> transfer \<Rightarrow> tx" where
  "route_packet env source p s =
     (case route (router env s) source p \<lparr>limiter = rate_limit s, table = subnets (host s), mymac = tap_mac s\<rparr> of (st, acts) \<Rightarrow>
        tx_each (perform env) acts
          (s\<lparr>rate_limit := limiter st, tap_mac := mymac st, host := (host s)\<lparr>subnets := table st\<rparr>\<rparr>))"

definition receive_packet :: "transfer_env \<Rightarrow> string \<Rightarrow> vpn_packet \<Rightarrow> transfer \<Rightarrow> tx" where
  "receive_packet env n p s = route_packet env n p (count_in n p s)"

definition receive_tcppacket :: "transfer_env \<Rightarrow> connection \<Rightarrow> bytes \<Rightarrow> transfer \<Rightarrow> tx" where
  "receive_tcppacket env c buffer s =
     (if length buffer > PACKET_ROOM then Tx s
      else case conn_node c of
        None \<Rightarrow> Tx_Null
      | Some n \<Rightarrow> receive_packet env n (put_data 0 buffer \<lparr>pkt_len = length buffer, pkt_data = (\<lambda>_. 0),
          pkt_priority = (if conn_options c AND OPTION_TCPONLY \<noteq> 0 then 0 else - 1)\<rparr>) s)"

text \<open>A packet from the device, or a failure of the device; too many failures in a row end the event loop.\<close>

definition handle_device_data :: "transfer_env \<Rightarrow> vpn_packet option \<Rightarrow> transfer \<Rightarrow> bool \<times> tx" where
  "handle_device_data env r s =
     (case r of
        Some p \<Rightarrow> (False, route_packet env (host_name env) p (count_in (host_name env) p (s\<lparr>device_errors := 0\<rparr>)))
      | None \<Rightarrow> (device_errors s + 1 > 10, Tx (s\<lparr>device_errors := device_errors s + 1\<rparr>)))"

section \<open>The discovery without answers\<close>

lemma set_node_fields [simp]:
  "node_of (set_node n t s) m = (if m = n then t else node_of s m)" "mtu_ping_sent (set_node n t s) = mtu_ping_sent s"
  "time_now (set_node n t s) = time_now s" "edges (host (set_node n t s)) = edges (host s)"
  "node_connection (host (set_node n t s)) = node_connection (host s)" "find_connection i (host (set_node n t s)) = find_connection i (host s)"
  by (simp_all add: set_node_def find_connection_def)

definition link_ok :: "string \<Rightarrow> transfer \<Rightarrow> bool" where
  "link_ok n s \<longleftrightarrow> (\<forall>i. node_connection (host s) n = Some i \<longrightarrow> find_connection i (host s) \<noteq> None)"

lemma send_datagram_ok:
  assumes "link_ok n s"
  shows "\<exists>ds. send_datagram n p s = Tx (s\<lparr>datagrams := ds\<rparr>)"
proof (cases "node_connection (host s) n")
  case None
  then show ?thesis by (intro exI [of _ "datagrams s"]) (simp add: send_datagram_def)
next
  case (Some i)
  with assms obtain c where "find_connection i (host s) = Some c" by (auto simp: link_ok_def)
  then show ?thesis using Some
    by (intro exI [of _ "if quic_context c then datagrams s @ [(i, p)] else datagrams s"]) (simp add: send_datagram_def)
qed

lemma send_probe_ok:
  assumes "link_ok n s" "14 \<le> len" "len \<le> PACKET_ROOM"
  shows "\<exists>ds. send_udp_probe_packet env n len s = Tx (s\<lparr>datagrams := ds\<rparr>)"
proof (cases "reachable (node_of s n)")
  case True
  then show ?thesis using send_datagram_ok [OF assms(1)] assms(2,3) by (simp add: send_udp_probe_packet_def send_udppacket_def)
next
  case False
  then show ?thesis using assms(2,3) by (intro exI [of _ "datagrams s"]) (simp add: send_udp_probe_packet_def send_udppacket_def)
qed

text \<open>A node under discovery, after so many probes and no answer.\<close>

definition probing :: "string \<Rightarrow> nat \<Rightarrow> transfer \<Rightarrow> bool" where
  "probing n j s \<longleftrightarrow> node_options (node_of s n) AND 4 \<noteq> 0 \<and> mtuprobes (node_of s n) = int j \<and> minmtu (node_of s n) = 0 \<and>
     0 < maxmtu (node_of s n) \<and> (0 < j \<longrightarrow> 512 \<le> maxmtu (node_of s n) \<and> maxmtu (node_of s n) \<le> MTU) \<and>
     link_ok n s \<and> links (node_edges (edges (host s)) n) \<noteq> []"

lemma initial_mtu_range: "512 \<le> initial_mtu sa m \<and> initial_mtu sa m \<le> MTU"
  by (auto simp: initial_mtu_def Let_def split: option.split)

lemma tx_rand_frame:
  "tx_rand env s = (r, s') \<Longrightarrow> nodes (host s') = nodes (host s) \<and> edges (host s') = edges (host s) \<and> mtu_ping_sent s' = mtu_ping_sent s \<and> time_now s' = time_now s \<and>
     node_connection (host s') = node_connection (host s) \<and> find_connection i (host s') = find_connection i (host s)"
  by (auto simp: tx_rand_def next_rand_def find_connection_def)

lemma choose_initial_ok:
  assumes "links (node_edges (edges (host s)) n) \<noteq> []"
  obtains m s' where "\<And>k. choose_initial_maxmtu env n s k = k m s'" "512 \<le> m" "m \<le> MTU" "nodes (host s') = nodes (host s)" "edges (host s') = edges (host s)"
    "mtu_ping_sent s' = mtu_ping_sent s" "time_now s' = time_now s" "link_ok n s' = link_ok n s"
proof (cases "udp_confirmed (node_of s n) \<or> udp_turn s + 1 \<ge> 3")
  case True
  let ?s = "if udp_confirmed (node_of s n) then s else s\<lparr>udp_turn := 0\<rparr>" and ?a = "node_address (node_of s n)"
  show thesis
    by (rule that [of "initial_mtu ?a (path_mtu env ?a)" ?s]) (use True initial_mtu_range in \<open>auto simp: choose_initial_maxmtu_def choose_udp_address_def link_ok_def\<close>)
next
  case False
  let ?s = "s\<lparr>udp_turn := udp_turn s + 1\<rparr>" and ?es = "links (node_edges (edges (host s)) n)"
  obtain r s1 where r: "tx_rand env ?s = (r, s1)" by (cases "tx_rand env ?s")
  obtain r2 s2 where r2: "tx_rand env s1 = (r2, s2)" by (cases "tx_rand env s1")
  note f1 = tx_rand_frame [OF r] and f2 = tx_rand_frame [OF r2]
  let ?e = "Option.bind (nth_edge (r mod length ?es) ?es) (reverse_edge (edges (host s1)))"
  let ?a = "case ?e of None \<Rightarrow> node_address (node_of s1 n) | Some e \<Rightarrow> edge_address e" and ?t = "if ?e = None then s1 else s2"
  have run: "choose_initial_maxmtu env n s k = k (initial_mtu ?a (path_mtu env ?a)) ?t" for k
    using False assms r r2 by (simp add: choose_initial_maxmtu_def choose_udp_address_def Let_def split: option.split)
  show thesis
    by (rule that [OF run]) (use f1 f2 initial_mtu_range in \<open>auto simp: link_ok_def split: option.split\<close>)
qed

text \<open>For an exponent between zero and one \<^verbatim>\<open>powf\<close> does not exceed its argument, or one.\<close>

definition powf_ok :: "transfer_env \<Rightarrow> bool" where
  "powf_ok env \<longleftrightarrow> (\<forall>i b k. 0 \<le> i \<longrightarrow> int (probe_offset env i b k) \<le> max 1 i)"

lemma try_mtu_probe:
  assumes env: "\<not> udp_discovery env" "powf_ok env" and p: "probing n j s" "j < 20" and t: "0 < j \<longrightarrow> mtu_ping_sent s n + 1000000 \<le> time_now s"
  shows "\<exists>s'. try_mtu env n s = Tx s' \<and> probing n (Suc j) s' \<and> mtu_ping_sent s' n = time_now s"
proof -
  have wait: "\<not> mtu_wait env n s"
  proof (cases j)
    case (Suc i)
    then have "(1000000::int) div 1000000 \<le> (time_now s - mtu_ping_sent s n) div 1000000" using t by (intro zdiv_mono1) simp_all
    then show ?thesis using p(1) by (simp add: mtu_wait_def probing_def Let_def)
  qed (use p(1) in \<open>simp add: mtu_wait_def probing_def\<close>)
  define s1 where "s1 = s\<lparr>mtu_ping_sent := (mtu_ping_sent s)(n := time_now s)\<rparr>"
  have s1: "probing n j s1" "mtu_ping_sent s1 n = time_now s" using p(1) by (simp_all add: s1_def probing_def link_ok_def)
  have fixed: "try_fix_mtu n s1 = s1" using s1(1) p(2) by (auto simp: try_fix_mtu_def probing_def Let_def)
  have "\<exists>s2. (if mtuprobes (node_of s1 n) = 0 then choose_initial_maxmtu env n s1 (\<lambda>m s. Tx (set_node n ((node_of s n)\<lparr>maxmtu := m\<rparr>) s)) else Tx s1) = Tx s2 \<and>
      probing n j s2 \<and> 512 \<le> maxmtu (node_of s2 n) \<and> maxmtu (node_of s2 n) \<le> MTU \<and> mtu_ping_sent s2 n = time_now s"
  proof (cases "j = 0")
    case True
    have "links (node_edges (edges (host s1)) n) \<noteq> []" using s1(1) by (simp add: probing_def)
    then obtain m s' where c: "\<And>k. choose_initial_maxmtu env n s1 k = k m s'" "512 \<le> m" "m \<le> MTU" "nodes (host s') = nodes (host s1)" "edges (host s') = edges (host s1)"
      "mtu_ping_sent s' = mtu_ping_sent s1" "time_now s' = time_now s1" "link_ok n s' = link_ok n s1" by (rule choose_initial_ok) (rule that)
    show ?thesis using True s1 c by (intro exI [of _ "set_node n ((node_of s' n)\<lparr>maxmtu := m\<rparr>) s'"]) (simp add: probing_def link_ok_def)
  qed (use s1 in \<open>simp add: probing_def\<close>)
  then obtain s2 where s2: "(if mtuprobes (node_of s1 n) = 0 then choose_initial_maxmtu env n s1 (\<lambda>m s. Tx (set_node n ((node_of s n)\<lparr>maxmtu := m\<rparr>) s)) else Tx s1) = Tx s2"
      "probing n j s2" "512 \<le> maxmtu (node_of s2 n)" "maxmtu (node_of s2 n) \<le> MTU" "mtu_ping_sent s2 n = time_now s" by blast
  let ?len = "probe_size env (node_of s2 n)"
  define off where "off = probe_offset env (int (maxmtu (node_of s2 n)) - 512) (maxmtu (node_of s2 n) = MTU) (8 - mtuprobes (node_of s2 n) mod 8 - 1)"
  have "int off \<le> max 1 (int (maxmtu (node_of s2 n)) - 512)" using env(2) s2(3) by (simp add: powf_ok_def off_def)
  then have "off \<le> 1006" using s2(4) by linarith
  moreover have "?len = (512 + off) mod 65536" using s2(2) by (simp add: probe_size_def probing_def off_def)
  ultimately have len: "14 \<le> ?len" "?len \<le> PACKET_ROOM" by simp_all
  have "link_ok n s2" using s2(2) by (simp add: probing_def)
  from send_probe_ok [OF this len] obtain ds where ds: "send_udp_probe_packet env n ?len s2 = Tx (s2\<lparr>datagrams := ds\<rparr>)" by blast
  have j: "\<not> mtuprobes (node_of s1 n) < - 3" "\<not> mtuprobes (node_of s1 n) < 0" using s1(1) by (simp_all add: probing_def)
  let ?s3 = "set_node n ((node_of s2 n)\<lparr>mtuprobes := mtuprobes (node_of s2 n) + 1\<rparr>) (s2\<lparr>datagrams := ds\<rparr>)"
  have o: "node_options (node_of s n) AND 4 \<noteq> 0" using p(1) by (simp add: probing_def)
  have "try_mtu env n s = Tx ?s3"
    unfolding try_mtu_def Let_def s1_def [symmetric] fixed if_not_P [OF j(1)] if_not_P [OF j(2)] s2(1) tx_then.simps ds using o env(1) wait by simp
  moreover have "probing n (Suc j) ?s3" using s2 by (simp add: probing_def link_ok_def)
  ultimately show ?thesis using s2(5) by (intro exI [of _ ?s3]) simp
qed

lemma try_mtu_overrun:
  assumes env: "\<not> udp_discovery env" and p: "probing n 20 s" and t: "mtu_ping_sent s n + 1000000 \<le> time_now s"
  shows "try_mtu env n s = Tx_Overrun"
proof -
  have "(1000000::int) div 1000000 \<le> (time_now s - mtu_ping_sent s n) div 1000000" using t by (intro zdiv_mono1) simp_all
  then have wait: "\<not> mtu_wait env n s" using p by (simp add: mtu_wait_def probing_def Let_def)
  define s1 where "s1 = s\<lparr>mtu_ping_sent := (mtu_ping_sent s)(n := time_now s)\<rparr>"
  define s2 where "s2 = try_fix_mtu n s1"
  have "mtuprobes (node_of s2 n) = - 1" "maxmtu (node_of s2 n) = 0"
    using p by (simp_all add: s2_def try_fix_mtu_def s1_def probing_def Let_def set_node_def)
  then show ?thesis
    using p env wait unfolding try_mtu_def Let_def s1_def [symmetric] s2_def [symmetric] by (simp add: probing_def send_udp_probe_packet_def)
qed

text \<open>Calls of \<^verbatim>\<open>try_mtu\<close> at the given times.\<close>

fun mtu_calls :: "transfer_env \<Rightarrow> string \<Rightarrow> int list \<Rightarrow> transfer \<Rightarrow> tx" where
  "mtu_calls env n [] s = Tx s"
| "mtu_calls env n (t # ts) s = tx_then (try_mtu env n (s\<lparr>time_now := t\<rparr>)) (mtu_calls env n ts)"

lemma mtu_calls_probing:
  assumes "\<not> udp_discovery env" "powf_ok env"
  shows "probing n j s \<Longrightarrow> j + length ts \<le> 20 \<Longrightarrow> successively (\<lambda>a b. a + 1000000 \<le> b) ts \<Longrightarrow>
    0 < j \<longrightarrow> mtu_ping_sent s n + 1000000 \<le> hd ts \<Longrightarrow> \<exists>s'. mtu_calls env n ts s = Tx s' \<and> probing n (j + length ts) s' \<and>
    (ts \<noteq> [] \<longrightarrow> mtu_ping_sent s' n = last ts)"
proof (induction ts arbitrary: j s)
  case (Cons t ts)
  have p: "probing n j (s\<lparr>time_now := t\<rparr>)" using Cons.prems(1) by (simp add: probing_def link_ok_def)
  have "j < 20" using Cons.prems(2) by simp
  with try_mtu_probe [OF assms p] Cons.prems(4) obtain s1 where s1: "try_mtu env n (s\<lparr>time_now := t\<rparr>) = Tx s1" "probing n (Suc j) s1" "mtu_ping_sent s1 n = t" by auto
  have "successively (\<lambda>a b. a + 1000000 \<le> b) ts" "ts \<noteq> [] \<longrightarrow> t + 1000000 \<le> hd ts" using Cons.prems(3) by (cases ts; simp)+
  then have "\<exists>s'. mtu_calls env n ts s1 = Tx s' \<and> probing n (Suc j + length ts) s' \<and> (ts \<noteq> [] \<longrightarrow> mtu_ping_sent s' n = last ts)"
    using Cons.IH [OF s1(2)] Cons.prems(2) s1(2,3) by (cases "ts = []") auto
  then show ?case using s1 by (auto simp: s1(3))
qed auto

lemma mtu_calls_overrun:
  assumes "\<not> udp_discovery env" "powf_ok env"
  shows "probing n j s \<Longrightarrow> j + length ts = 21 \<Longrightarrow> successively (\<lambda>a b. a + 1000000 \<le> b) ts \<Longrightarrow>
    0 < j \<longrightarrow> mtu_ping_sent s n + 1000000 \<le> hd ts \<Longrightarrow> ts \<noteq> [] \<Longrightarrow> mtu_calls env n ts s = Tx_Overrun"
proof (induction ts arbitrary: j s)
  case (Cons t ts)
  have p: "probing n j (s\<lparr>time_now := t\<rparr>)" using Cons.prems(1) by (simp add: probing_def link_ok_def)
  show ?case
  proof (cases "ts = []")
    case True
    then show ?thesis using try_mtu_overrun [OF assms(1)] p Cons.prems by simp
  next
    case False
    then have "j < 20" using Cons.prems(2) by (cases ts) auto
    with try_mtu_probe [OF assms p] Cons.prems(4) obtain s' where s': "try_mtu env n (s\<lparr>time_now := t\<rparr>) = Tx s'" "probing n (Suc j) s'" "mtu_ping_sent s' n = t" by auto
    then show ?thesis using Cons.IH [OF s'(2)] Cons.prems(2,3) False by (cases ts) (auto simp: successively.simps)
  qed
qed simp

definition sample_tenv :: "string \<Rightarrow> transfer_env" where
  "sample_tenv v = \<lparr>daemon_conf = sample_denv\<lparr>self := v\<rparr>,
     route_conf = \<lparr>myself = v, route_nodes = (\<lambda>_. new_node), route_env.node_mtu = (\<lambda>_. MTU), routing_mode = RMODE_ROUTER, forwarding_mode = FMODE_INTERNAL,
       decrement_ttl = False, directonly = False, priorityinheritance = False, macexpire = 600, overwrite_mac = False, now_sec = 0,
       local_ipv4 = (\<lambda>_. None), local_ipv6 = (\<lambda>_. None)\<rparr>,
     broadcast_mode = BMODE_MST, localdiscovery = True, udp_discovery = True, udp_discovery_keepalive_interval = 10, udp_discovery_interval = 2,
     udp_discovery_timeout = 30, gettimeofday = 0, random_byte = (\<lambda>_. 0), path_mtu = (\<lambda>_. None), probe_offset = (\<lambda>_ _ _. 1)\<rparr>"

definition sample_transfer :: "string \<Rightarrow> gnodes \<Rightarrow> transfer" where
  "sample_transfer peer ns = \<lparr>host = sample_daemon\<lparr>nodes := ns, edges := mesh_edges two_nodes, connection_list := [sample_connection 1 peer], node_connection := [peer \<mapsto> 1]\<rparr>,
     time_now = 0, in_packets = (\<lambda>_. 0), in_bytes = (\<lambda>_. 0), out_packets = (\<lambda>_. 0), out_bytes = (\<lambda>_. 0), udp_reply_sent = (\<lambda>_. 0), udp_ping_sent = (\<lambda>_. 0),
     mtu_ping_sent = (\<lambda>_. 0), ping_sent = (\<lambda>_. False), udp_ping_rtt = (\<lambda>_. - 1), udp_ping_timeout = (\<lambda>_. None), udp_turn = 0,
     rate_limit = \<lparr>lasttime = 0, limit_count = 0\<rparr>, tap_mac = [0xFE, 0xFD, 0, 0, 0, 0], device_out = [], device_errors = 0, datagrams = []\<rparr>"

text \<open>
  With \<^verbatim>\<open>UDPDiscovery\<close> switched off the daemon looks for the largest packet size although no daemon answers probes. After
  twenty probes without an answer it takes the largest size to be zero, and the next probe writes random bytes far past the end of the
  packet: whatever the times of the calls are, if there is a second between them.
\<close>

theorem path_mtu_overrun:
  assumes "\<not> udp_discovery env" "powf_ok env"
    and "node_options (node_of s n) AND 4 \<noteq> 0" "mtuprobes (node_of s n) = 0" "minmtu (node_of s n) = 0" "0 < maxmtu (node_of s n)"
    and "link_ok n s" "links (node_edges (edges (host s)) n) \<noteq> []"
    and "length ts = 21" "successively (\<lambda>a b. a + 1000000 \<le> b) ts"
  shows "mtu_calls env n ts s = Tx_Overrun \<and> (\<exists>s'. mtu_calls env n (butlast ts) s = Tx s' \<and> mtuprobes (node_of s' n) = 20)"
proof -
  have p: "probing n 0 s" using assms by (simp add: probing_def)
  have "successively (\<lambda>a b. a + 1000000 \<le> b) (butlast ts @ [last ts])" using assms(9,10) by (cases ts rule: rev_cases) simp_all
  then have "successively (\<lambda>a b. a + 1000000 \<le> b) (butlast ts)" by (simp add: successively_append_iff)
  with mtu_calls_probing [OF assms(1,2) p, of "butlast ts"] assms(9) obtain s' where "mtu_calls env n (butlast ts) s = Tx s'" "probing n 20 s'" by auto
  moreover have "mtu_calls env n ts s = Tx_Overrun" by (rule mtu_calls_overrun [OF assms(1,2) p]) (use assms(9,10) in auto)
  ultimately show ?thesis by (auto simp: probing_def)
qed

theorem path_mtu_overrun_witness:
  "mtu_calls ((sample_tenv ''a'')\<lparr>udp_discovery := False\<rparr>) ''b'' (map (\<lambda>i. 1000000 * int i) [0..<21])
     (sample_transfer ''b'' (\<lambda>_. new_node\<lparr>node_options := 4\<rparr>)) = Tx_Overrun"
proof -
  let ?env = "(sample_tenv ''a'')\<lparr>udp_discovery := False\<rparr>" and ?s = "sample_transfer ''b'' (\<lambda>_. new_node\<lparr>node_options := 4\<rparr>)"
    and ?ts = "map (\<lambda>i. 1000000 * int i) [0..<21]"
  have env: "\<not> udp_discovery ?env" "powf_ok ?env" by (simp_all add: powf_ok_def sample_tenv_def)
  have node: "node_options (node_of ?s ''b'') AND 4 \<noteq> 0" "mtuprobes (node_of ?s ''b'') = 0" "minmtu (node_of ?s ''b'') = 0" "0 < maxmtu (node_of ?s ''b'')"
    by (simp_all add: sample_transfer_def new_node_def)
  have link: "link_ok ''b'' ?s" by (simp add: link_ok_def sample_transfer_def find_connection_def sample_connection_def)
  have "links (node_edges (mesh_edges two_nodes) ''b'') \<noteq> []" unfolding two_nodes_def by code_simp
  then have edge: "links (node_edges (edges (host ?s)) ''b'') \<noteq> []" by (simp add: sample_transfer_def)
  have "successively (\<lambda>a b. a + 1000000 \<le> b) ?ts" by (simp add: upt_rec)
  from path_mtu_overrun [OF env node link edge _ this] show ?thesis by simp
qed

end
