(* ===== verification/Relaying.thy ===== *)
theory Relaying
  imports Packet_Transfer
begin

text \<open>
  Packets on their way through the mesh: every daemon hands a packet for another node to the next hop that its
  search of the mesh has found. The search (\<^verbatim>\<open>graph.c\<close>) and the sending of packets (\<^verbatim>\<open>net_packet.c\<close>) of all the
  daemons on the way work together.
\<close>

section \<open>Next hops after a recomputation\<close>

lemma walk_without_return:
  assumes "(R ^^ j) me x"
  shows "\<exists>i \<le> j. ((\<lambda>n t. t \<noteq> me \<and> R n t) ^^ i) me x"
  using assms
proof (induction j arbitrary: x)
  case 0
  then show ?case by auto
next
  case (Suc j)
  then obtain y where y: "(R ^^ j) me y" "R y x" by auto
  from Suc.IH [OF y(1)] obtain i where i: "i \<le> j" "((\<lambda>n t. t \<noteq> me \<and> R n t) ^^ i) me y" by blast
  show ?case
  proof (cases "x = me")
    case True
    then show ?thesis by (intro exI [of _ 0]) simp
  next
    case False
    then show ?thesis using i y(2) by (intro exI [of _ "Suc i"]) auto
  qed
qed

lemma graph_next_hop:
  assumes mesh: "direct_mesh me s" "distinct (node_names s)" "1 + length (node_names s) * Suc (length (links (edge_weight_tree (mesh_edges s)))) \<le> fuel"
    and run: "graph me now standby fuel s = Graph_Done s' rep action" and x: "(mutual (mesh_edges s))\<^sup>*\<^sup>* me x" "x \<noteq> me"
  shows "\<exists>h k. nexthop (mesh_nodes s' x) = Some h \<and> h \<noteq> me \<and> mutual (mesh_edges s) me h \<and> (mutual (mesh_edges s) ^^ k) h x \<and>
    (\<forall>j. (mutual (mesh_edges s) ^^ j) me x \<longrightarrow> k < j)"
proof -
  let ?es = "mesh_edges s" and ?N = "set (node_names s)"
  let ?hop = "hop me (\<lambda>e. reverse_edge ?es e \<noteq> None) (edges_from ?es)"
  have inv: "edges_inv ?es" using mesh(1) by (simp add: direct_mesh_def)
  have hop: "?hop = (\<lambda>n t. t \<noteq> me \<and> mutual ?es n t)" using hop_mutual [OF inv] by blast
  have "card (mesh_weights ?N (edges_from ?es)) \<le> length (links (edge_weight_tree ?es))" using inv by (intro mesh_weights_card) simp_all
  then have "card ?N * Suc (card (mesh_weights ?N (edges_from ?es))) \<le> length (node_names s) * Suc (length (links (edge_weight_tree ?es)))"
    by (intro mult_le_mono card_length) simp
  then have fuel: "1 + card ?N * Suc (card (mesh_weights ?N (edges_from ?es))) \<le> fuel" using mesh(3) by linarith
  obtain st m where bfs: "sssp_bfs me (\<lambda>e. reverse_edge ?es e \<noteq> None) (edges_from ?es) fuel (mesh_nodes s) = Bfs_Done st"
    and ended: "direct_inv ?N me (\<lambda>e. reverse_edge ?es e \<noteq> None) (edges_from ?es) m {} [] st"
    using sssp_bfs_direct_run [OF direct_mesh_ok [OF mesh(1)] fuel] by blast
  let ?rep = "\<lparr>reachable_count = 0, became_reachable_count = 0, became_unreachable_count = 0, host_scripts = []\<rparr>"
  obtain st1 rep1 where fold: "fold (check_node me now) (node_names s) (st, ?rep) = (st1, rep1)" by (cases "fold (check_node me now) (node_names s) (st, ?rep)")
  obtain st2 mst tree where mst: "mst_kruskal (reverse_edge ?es) (links (edge_weight_tree ?es)) st1 = (st2, mst, tree)"
    by (cases "mst_kruskal (reverse_edge ?es) (links (edge_weight_tree ?es)) st1")
  have "mesh_nodes s' = st2" using run bfs fold mst by (auto simp: graph_def check_reachability_def)
  moreover have "nexthop (st2 x) = nexthop (st1 x)" using arg_cong [OF mst_kruskal_frame [OF mst, where n = x and b = True], of nexthop] by simp
  moreover have "nexthop (st1 x) = nexthop (st x)"
    using check_nodes(1) [OF mesh(2) fold, of x] by (simp add: flip_node_def update_node_udp_def Let_def)
  ultimately have nh: "nexthop (mesh_nodes s' x) = nexthop (st x)" by simp
  have vis: "visited (st x)" using x(1) sssp_bfs_reachability [OF bfs] hop_mutual_reach [OF inv] by simp
  then have "way_ok me (\<lambda>e. reverse_edge ?es e \<noteq> None) (edges_from ?es) st x" using ended by (simp add: direct_inv_def)
  then obtain h where h: "nexthop (st x) = Some h" "?hop me h" "(?hop ^^ nat (distance (st x) - 1)) h x" "1 \<le> distance (st x)"
    using x(2) by (auto simp: way_ok_def)
  have "(mutual ?es ^^ nat (distance (st x) - 1)) h x" using h(3) relpowp_mono [of ?hop "mutual ?es"] unfolding hop by blast
  moreover have "nat (distance (st x) - 1) < j" if j: "(mutual ?es ^^ j) me x" for j
  proof -
    obtain i where "i \<le> j" "(?hop ^^ i) me x" using walk_without_return [OF j] unfolding hop by blast
    then show ?thesis using direct_inv_shortest [OF ended] h(4) by fastforce
  qed
  ultimately show ?thesis using nh h(1,2) unfolding hop by (intro exI [of _ h] exI [of _ "nat (distance (st x) - 1)"]) simp
qed

lemma graph_done_reachable:
  assumes "edges_inv (mesh_edges s)" "distinct (node_names s)" "graph me now standby fuel s = Graph_Done s' rep action" "n \<in> set (node_names s)"
  shows "reachable (mesh_nodes s' n) \<longleftrightarrow> (mutual (mesh_edges s))\<^sup>*\<^sup>* me n"
  by (rule graph_done [OF assms(1-3)]) (use assms(4) in simp)

section \<open>One station\<close>

text \<open>As long as nothing confirms the address of a node, sending a packet is accompanied by small probes at most.\<close>

lemma probe_sent:
  assumes "link_ok n s"
  shows "\<exists>ds. send_udp_probe_packet env n MIN_PROBE_SIZE s = Tx (s\<lparr>datagrams := datagrams s @ ds\<rparr>) \<and> (\<forall>x \<in> set ds. snd x = probe_packet env MIN_PROBE_SIZE)"
proof (cases "reachable (node_of s n) \<and> (\<exists>i. node_connection (host s) n = Some i)")
  case True
  then obtain i c where "reachable (node_of s n)" "node_connection (host s) n = Some i" "find_connection i (host s) = Some c"
    using assms by (auto simp: link_ok_def)
  then show ?thesis
    by (intro exI [of _ "if quic_context c then [(i, probe_packet env MIN_PROBE_SIZE)] else []"])
      (simp add: send_udp_probe_packet_def send_udppacket_def send_datagram_def)
next
  case False
  then show ?thesis by (intro exI [of _ "[]"]) (auto simp: send_udp_probe_packet_def send_udppacket_def send_datagram_def)
qed

lemma try_udp_quiet:
  assumes "link_ok n s" "\<not> udp_confirmed (node_of s n)"
  shows "\<exists>s' ds. try_udp env n s = Tx s' \<and> datagrams s' = datagrams s @ ds \<and> (\<forall>x \<in> set ds. snd x = probe_packet env MIN_PROBE_SIZE) \<and>
    host s' = host s \<and> device_out s' = device_out s"
proof (cases "udp_discovery env \<and> (time_now s - udp_ping_sent s n) div 1000000 \<ge> udp_discovery_interval env")
  case True
  define s1 where "s1 = s\<lparr>time_now := gettimeofday env, udp_ping_sent := (udp_ping_sent s)(n := gettimeofday env), ping_sent := (ping_sent s)(n := True)\<rparr>"
  have l1: "link_ok n s1" using assms(1) by (simp add: s1_def link_ok_def)
  obtain ds where ds: "send_udp_probe_packet env n MIN_PROBE_SIZE s1 = Tx (s1\<lparr>datagrams := datagrams s1 @ ds\<rparr>)" "\<forall>x \<in> set ds. snd x = probe_packet env MIN_PROBE_SIZE"
    using probe_sent [OF l1] by blast
  define s2 where "s2 = s1\<lparr>datagrams := datagrams s1 @ ds\<rparr>"
  have l2: "link_ok n s2" using l1 by (simp add: s2_def link_ok_def)
  obtain ds' where ds': "send_udp_probe_packet env n MIN_PROBE_SIZE s2 = Tx (s2\<lparr>datagrams := datagrams s2 @ ds'\<rparr>)" "\<forall>x \<in> set ds'. snd x = probe_packet env MIN_PROBE_SIZE"
    using probe_sent [OF l2] by blast
  let ?twice = "localdiscovery env \<and> prevedge (node_of s n) \<noteq> None"
  have run: "try_udp env n s = Tx (if ?twice then s2\<lparr>datagrams := datagrams s2 @ ds'\<rparr> else s2)"
    using True assms(2) ds(1) ds'(1) unfolding try_udp_def Let_def s1_def [symmetric] by (simp add: s2_def [symmetric]) (auto simp: s2_def s1_def)
  show ?thesis unfolding run using ds(2) ds'(2)
    by (intro exI [of _ "if ?twice then s2\<lparr>datagrams := datagrams s2 @ ds'\<rparr> else s2"] exI [of _ "if ?twice then ds @ ds' else ds"]) (auto simp: s2_def s1_def)
next
  case False
  then show ?thesis using assms(2) by (intro exI [of _ s] exI [of _ "[]"]) (auto simp: try_udp_def)
qed

lemma try_tx_quiet:
  assumes "link_ok n s" "udp_discovery env" "\<not> udp_confirmed (node_of s n)"
  shows "\<exists>s' ds. try_tx env n True s = Tx s' \<and> datagrams s' = datagrams s @ ds \<and> (\<forall>x \<in> set ds. snd x = probe_packet env MIN_PROBE_SIZE) \<and> device_out s' = device_out s"
proof (cases "reachable (node_of s n)")
  case True
  obtain s1 ds where s1: "try_udp env n s = Tx s1" "datagrams s1 = datagrams s @ ds" "\<forall>x \<in> set ds. snd x = probe_packet env MIN_PROBE_SIZE"
    "host s1 = host s" "device_out s1 = device_out s" using try_udp_quiet [OF assms(1,3)] by blast
  have "try_mtu env n s1 = Tx s1 \<or> (\<exists>t. try_mtu env n s1 = Tx (set_node n t s1))" using assms(2,3) s1(4) by (auto simp: try_mtu_def)
  then obtain s2 where "try_mtu env n s1 = Tx s2" "datagrams s2 = datagrams s1" "device_out s2 = device_out s1" by (auto simp: set_node_def)
  then show ?thesis using True s1 by (intro exI [of _ s2] exI [of _ ds]) (simp add: try_tx_def)
qed (auto simp: try_tx_def intro: exI [of _ s])

text \<open>A packet for another node goes out on the connection of the next hop, before any probes.\<close>

lemma send_packet_relays:
  assumes "n \<noteq> host_name env" "reachable (node_of s n)" "nexthop (node_of s n) = Some h" "h \<noteq> host_name env"
    and "node_connection (host s) h = Some i" "find_connection i (host s) = Some c" "quic_context c" "udp_discovery env" "\<not> udp_confirmed (node_of s h)"
  shows "\<exists>s' ds. send_packet env n p s = Tx s' \<and> datagrams s' = datagrams s @ (i, p) # ds \<and> (\<forall>x \<in> set ds. snd x = probe_packet env MIN_PROBE_SIZE) \<and>
    device_out s' = device_out s"
proof -
  define s1 where "s1 = (count_out n p s)\<lparr>datagrams := datagrams s @ [(i, p)]\<rparr>"
  have h1: "host s1 = host s" "datagrams s1 = datagrams s @ [(i, p)]" "device_out s1 = device_out s" by (simp_all add: s1_def count_out_def)
  have l: "link_ok h s1" "\<not> udp_confirmed (node_of s1 h)" using assms h1 by (simp_all add: link_ok_def)
  have "send_sptps_packet h p (count_out n p s) = Tx s1"
    using assms by (simp add: send_sptps_packet_def send_datagram_def count_out_def s1_def)
  then have "send_packet env n p s = try_tx env h True s1" using assms(1-4) by (simp add: send_packet_def Let_def count_out_def)
  with try_tx_quiet [OF l(1) assms(8) l(2)] h1 show ?thesis by fastforce
qed

section \<open>The whole way\<close>

text \<open>The daemon at the other end of the connection that the first datagram goes out on.\<close>

definition next_station :: "transfer_env \<Rightarrow> string \<Rightarrow> vpn_packet \<Rightarrow> transfer \<Rightarrow> string option" where
  "next_station env w p s =
     (case send_packet env w p s of
        Tx s' \<Rightarrow> (case drop (length (datagrams s)) (datagrams s') of
                   (i, q) # _ \<Rightarrow> Option.bind (find_connection i (host s)) conn_node
                 | [] \<Rightarrow> None)
      | _ \<Rightarrow> None)"

fun station :: "(string \<Rightarrow> transfer_env) \<Rightarrow> (string \<Rightarrow> transfer) \<Rightarrow> string \<Rightarrow> vpn_packet \<Rightarrow> nat \<Rightarrow> string \<Rightarrow> string option" where
  "station env \<sigma> w p 0 v = Some v"
| "station env \<sigma> w p (Suc k) v = Option.bind (next_station (env v) w p (\<sigma> v)) (station env \<sigma> w p k)"

text \<open>
  A daemon that has searched the mesh: its nodes are what a recomputation left, its map has the links \<open>M\<close>, and it
  has a connection with every node it is linked with.
\<close>

definition searched :: "string set \<Rightarrow> (string \<Rightarrow> string \<Rightarrow> bool) \<Rightarrow> transfer_env \<Rightarrow> string \<Rightarrow> transfer \<Rightarrow> bool" where
  "searched N M env v s \<longleftrightarrow> host_name env = v \<and> mutual (edges (host s)) = M \<and> udp_discovery env \<and> (\<forall>u. M v u \<longrightarrow> \<not> udp_confirmed (node_of s u)) \<and>
     (\<exists>m m' now standby fuel rep action. direct_mesh v m \<and> distinct (node_names m) \<and> set (node_names m) = N \<and> mesh_edges m = edges (host s) \<and>
        1 + length (node_names m) * Suc (length (links (edge_weight_tree (mesh_edges m)))) \<le> fuel \<and>
        graph v now standby fuel m = Graph_Done m' rep action \<and> mesh_nodes m' = nodes (host s)) \<and>
     (\<forall>u. M v u \<longrightarrow> (\<exists>i c. node_connection (host s) u = Some i \<and> find_connection i (host s) = Some c \<and> conn_node c = Some u \<and> quic_context c))"

lemma searched_next:
  assumes "searched N M env v s" "w \<in> N" "w \<noteq> v" "M\<^sup>*\<^sup>* v w"
  shows "\<exists>h k. next_station env w p s = Some h \<and> M v h \<and> (M ^^ k) h w \<and> (\<forall>j. (M ^^ j) v w \<longrightarrow> k < j)"
proof -
  obtain m m' now standby fuel rep action where g: "direct_mesh v m" "distinct (node_names m)" "set (node_names m) = N" "mesh_edges m = edges (host s)"
      "1 + length (node_names m) * Suc (length (links (edge_weight_tree (mesh_edges m)))) \<le> fuel"
      "graph v now standby fuel m = Graph_Done m' rep action" "mesh_nodes m' = nodes (host s)"
    and M: "mutual (edges (host s)) = M" and env: "host_name env = v" "udp_discovery env" "\<And>n. M v n \<Longrightarrow> \<not> udp_confirmed (node_of s n)"
    and links: "\<And>u. M v u \<Longrightarrow> \<exists>i c. node_connection (host s) u = Some i \<and> find_connection i (host s) = Some c \<and> conn_node c = Some u \<and> quic_context c"
    using assms(1) unfolding searched_def by blast
  have reach: "(mutual (mesh_edges m))\<^sup>*\<^sup>* v w" using assms(4) g(4) M by simp
  obtain h k where h: "nexthop (node_of s w) = Some h" "h \<noteq> v" "M v h" "(M ^^ k) h w" "\<forall>j. (M ^^ j) v w \<longrightarrow> k < j"
    using graph_next_hop [OF g(1,2,5,6) reach assms(3)] unfolding g(4,7) M by blast
  have "edges_inv (mesh_edges m)" using g(1) by (simp add: direct_mesh_def)
  then have r: "reachable (node_of s w)"
    using graph_done_reachable [OF _ g(2,6)] reach assms(2) g(3,7) by simp
  obtain i c where c: "node_connection (host s) h = Some i" "find_connection i (host s) = Some c" "conn_node c = Some h" "quic_context c" using links [OF h(3)] by blast
  have n: "w \<noteq> host_name env" "h \<noteq> host_name env" using assms(3) h(2) env(1) by simp_all
  obtain s' ds where "send_packet env w p s = Tx s'" "datagrams s' = datagrams s @ (i, p) # ds"
    using send_packet_relays [OF n(1) r h(1) n(2) c(1,2,4) env(2) env(3) [OF h(3)]] by blast
  then have "next_station env w p s = Some h" using c by (simp add: next_station_def)
  with h show ?thesis by blast
qed

text \<open>
  Property C36. If all the daemons of a mesh without indirect edges know the same links, have searched the mesh and are connected over QUIC where they are linked, with
  \<^verbatim>\<open>UDPDiscovery\<close> on and no neighbour confirmed over UDP (no daemon answers probes), then a
  packet for a reachable node that every daemon hands on with \<^verbatim>\<open>send_packet\<close> arrives there: in as many steps as the shortest way has
  links, each over the connection of the next hop. Arrived, it is written to the device.
\<close>

theorem packets_reach_their_node:
  assumes all: "\<forall>v \<in> N. searched N M (env v) v (\<sigma> v)" and closed: "\<forall>v \<in> N. \<forall>u. M v u \<longrightarrow> u \<in> N"
    and way: "v \<in> N" "w \<in> N" "(M ^^ d) v w" "\<forall>j. (M ^^ j) v w \<longrightarrow> d \<le> j"
  shows "station env \<sigma> w p d v = Some w \<and>
    (\<exists>s'. send_packet (env w) w p (\<sigma> w) = Tx s' \<and> device_out s' = device_out (\<sigma> w) @ [for_device (env w) (\<sigma> w) p])"
proof -
  have "station env \<sigma> w p d v = Some w" using way
  proof (induction d arbitrary: v)
    case (Suc d)
    have v: "v \<noteq> w" using Suc.prems(4) by (metis not_less_eq_eq relpowp_0_I zero_le)
    have "M\<^sup>*\<^sup>* v w" using Suc.prems(3) by (rule relpowp_imp_rtranclp)
    then obtain h k where h: "next_station (env v) w p (\<sigma> v) = Some h" "M v h" "(M ^^ k) h w" "\<forall>j. (M ^^ j) v w \<longrightarrow> k < j"
      using searched_next [OF bspec [OF all Suc.prems(1)] Suc.prems(2) v [symmetric]] by blast
    have short: "d \<le> j" if "(M ^^ j) h w" for j
    proof -
      have "(M ^^ Suc j) v w" using relpowp_Suc_I2 [of M v h j w] h(2) that by simp
      then have "Suc d \<le> Suc j" using Suc.prems(4) by blast
      then show ?thesis by simp
    qed
    have "k < Suc d" using h(4) Suc.prems(3) by blast
    then have "k = d" using short [OF h(3)] by simp
    then have "station env \<sigma> w p d h = Some w" using Suc.IH [OF _ Suc.prems(2)] h(2,3) short closed Suc.prems(1) by blast
    then show ?case using h(1) by simp
  qed simp
  moreover have "host_name (env w) = w" using bspec [OF all way(2)] by (simp add: searched_def)
  ultimately show ?thesis by (simp add: send_packet_def Let_def count_out_def)
qed

lemma two_nodes_run:
  assumes "v \<in> {''a'', ''b''}"
  shows "case graph v 0 True 100 two_nodes of Graph_Done m rep action \<Rightarrow> \<not> udp_confirmed (mesh_nodes m ''a'') \<and> \<not> udp_confirmed (mesh_nodes m ''b'') | _ \<Rightarrow> False"
proof -
  have "case graph ''a'' 0 True 100 two_nodes of Graph_Done m rep action \<Rightarrow> \<not> udp_confirmed (mesh_nodes m ''a'') \<and> \<not> udp_confirmed (mesh_nodes m ''b'') | _ \<Rightarrow> False"
    unfolding two_nodes_def by code_simp
  moreover have "case graph ''b'' 0 True 100 two_nodes of Graph_Done m rep action \<Rightarrow> \<not> udp_confirmed (mesh_nodes m ''a'') \<and> \<not> udp_confirmed (mesh_nodes m ''b'') | _ \<Rightarrow> False"
    unfolding two_nodes_def by code_simp
  ultimately show ?thesis using assms by auto
qed

lemma two_nodes_links: "mutual (mesh_edges two_nodes) v u \<longleftrightarrow> v = ''a'' \<and> u = ''b'' \<or> v = ''b'' \<and> u = ''a''"
  unfolding mutual_def two_nodes_edges(2) by (auto simp: new_edge_def)

lemma sample_searched:
  assumes "(v, u) \<in> {(''a'', ''b''), (''b'', ''a'')}"
  shows "\<exists>ns. searched {''a'', ''b''} (mutual (mesh_edges two_nodes)) (sample_tenv v) v (sample_transfer u ns)"
proof -
  have "v \<in> {''a'', ''b''}" using assms by auto
  then obtain m rep action where m: "graph v 0 True 100 two_nodes = Graph_Done m rep action" "\<not> udp_confirmed (mesh_nodes m ''a'')" "\<not> udp_confirmed (mesh_nodes m ''b'')"
    using two_nodes_run [of v] by (auto split: graph_outcome.splits)
  have "length (links (edge_weight_tree (mesh_edges two_nodes))) \<le> 2" unfolding two_nodes_def by code_simp
  then have fuel: "1 + length (node_names two_nodes) * Suc (length (links (edge_weight_tree (mesh_edges two_nodes)))) \<le> 100" by (simp add: two_nodes_def)
  have names: "node_names two_nodes = [''a'', ''b'']" by (simp add: two_nodes_def)
  have direct: "direct_mesh v two_nodes" using two_nodes_direct assms by (auto simp: direct_mesh_def names)
  have mesh: "\<exists>m m' now standby fuel rep action. direct_mesh v m \<and> distinct (node_names m) \<and> set (node_names m) = {''a'', ''b''} \<and> mesh_edges m = mesh_edges two_nodes \<and>
        1 + length (node_names m) * Suc (length (links (edge_weight_tree (mesh_edges m)))) \<le> fuel \<and>
        graph v now standby fuel m = Graph_Done m' rep action \<and> mesh_nodes m' = mesh_nodes (m'')" if "m'' = m" for m''
    using m(1) fuel direct that by (intro exI [of _ two_nodes] exI [of _ m] exI [of _ 0] exI [of _ True] exI [of _ 100] exI [of _ rep] exI [of _ action]) (simp add: names)
  have conn: "find_connection 1 (host (sample_transfer u ns)) = Some (sample_connection 1 u)" "conn_node (sample_connection 1 u) = Some u" "quic_context (sample_connection 1 u)" for ns
    by (simp_all add: sample_transfer_def find_connection_def sample_connection_def)
  have h: "edges (host (sample_transfer u ns)) = mesh_edges two_nodes" "nodes (host (sample_transfer u ns)) = ns" "node_connection (host (sample_transfer u ns)) = [u \<mapsto> 1]" for ns
    by (simp_all add: sample_transfer_def)
  have e: "host_name (sample_tenv v) = v" "udp_discovery (sample_tenv v)" by (simp_all add: sample_tenv_def)
  have peer: "x = u" if "mutual (mesh_edges two_nodes) v x" for x using that assms unfolding two_nodes_links by auto
  have quiet: "\<not> udp_confirmed (mesh_nodes m x)" if "mutual (mesh_edges two_nodes) v x" for x using peer [OF that] assms m(2,3) by auto
  have links: "\<exists>i c. [u \<mapsto> 1] x = Some i \<and> find_connection i (host (sample_transfer u (mesh_nodes m))) = Some c \<and> conn_node c = Some x \<and> quic_context c"
    if "mutual (mesh_edges two_nodes) v x" for x
    using peer [OF that] conn by (intro exI [of _ 1] exI [of _ "sample_connection 1 u"]) simp
  show ?thesis
    by (rule exI [of _ "mesh_nodes m"], unfold searched_def h) (use e mesh [OF refl] quiet links in blast)
qed

theorem packets_reach_their_node_witness:
  "\<forall>p. \<exists>\<sigma> s'. station sample_tenv \<sigma> ''b'' p 1 ''a'' = Some ''b'' \<and> send_packet (sample_tenv ''b'') ''b'' p (\<sigma> ''b'') = Tx s' \<and> length (device_out s') = 1"
proof
  fix p
  obtain na nb where n: "searched {''a'', ''b''} (mutual (mesh_edges two_nodes)) (sample_tenv ''a'') ''a'' (sample_transfer ''b'' na)"
    "searched {''a'', ''b''} (mutual (mesh_edges two_nodes)) (sample_tenv ''b'') ''b'' (sample_transfer ''a'' nb)"
    using sample_searched [of "''a''" "''b''"] sample_searched [of "''b''" "''a''"] by auto
  define \<sigma> where "\<sigma> v = (if v = ''a'' then sample_transfer ''b'' na else sample_transfer ''a'' nb)" for v
  have s: "\<forall>v \<in> {''a'', ''b''}. searched {''a'', ''b''} (mutual (mesh_edges two_nodes)) (sample_tenv v) v (\<sigma> v)" using n by (simp add: \<sigma>_def)
  have d: "(mutual (mesh_edges two_nodes) ^^ 1) ''a'' ''b''" using two_nodes_mutual(1) by (simp add: eq_OO)
  have least: "\<forall>j. (mutual (mesh_edges two_nodes) ^^ j) ''a'' ''b'' \<longrightarrow> 1 \<le> j"
  proof (intro allI impI)
    fix j assume "(mutual (mesh_edges two_nodes) ^^ j) ''a'' ''b''"
    then show "1 \<le> j" by (cases j) simp_all
  qed
  have closed: "\<forall>v \<in> {''a'', ''b''}. \<forall>u. mutual (mesh_edges two_nodes) v u \<longrightarrow> u \<in> {''a'', ''b''}" unfolding two_nodes_links by auto
  have ends: "''a'' \<in> {''a'', ''b''}" "''b'' \<in> {''a'', ''b''}" by simp_all
  from packets_reach_their_node [OF s closed ends d least, of p] obtain s' where
    "station sample_tenv \<sigma> ''b'' p 1 ''a'' = Some ''b''" "send_packet (sample_tenv ''b'') ''b'' p (\<sigma> ''b'') = Tx s'"
    "device_out s' = device_out (\<sigma> ''b'') @ [for_device (sample_tenv ''b'') (\<sigma> ''b'') p]" by blast
  then show "\<exists>\<sigma> s'. station sample_tenv \<sigma> ''b'' p 1 ''a'' = Some ''b'' \<and> send_packet (sample_tenv ''b'') ''b'' p (\<sigma> ''b'') = Tx s' \<and> length (device_out s') = 1"
    by (intro exI [of _ \<sigma>] exI [of _ s']) (simp add: \<sigma>_def sample_transfer_def)
qed

end
