(* ===== verification/Timers.thy ===== *)
theory Timers
  imports Session Packet_Transfer
begin

text \<open>
  What the daemon does by itself (\<^verbatim>\<open>net.c\<close>): looking for connections that are dead, slowing down when another node has the
  same name, forgetting nodes that are gone, keeping the sockets of misbehaving peers open for a while. The global \<^verbatim>\<open>now\<close> is the clock of
  the packet transfer, which probes set anew. The times at which timers run again are left out, and so is whether the socket of a closed
  connection is put into the tarpit.
\<close>

section \<open>Dead connections\<close>

record timer_state =
  last_periodic_run_time :: int
  sleeptime :: int
  pits :: "int list"
  next_pit :: nat

record timer_env =
  pingtimeout :: int
  autoconnect :: bool

text \<open>A run ends with a new state, or as ending a connection or sending a probe ended.\<close>

datatype timed = Timed transfer | Host_Failed outcome | Probe_Failed tx

fun timed_then :: "timed \<Rightarrow> (transfer \<Rightarrow> timed) \<Rightarrow> timed" where
  "timed_then (Timed s) k = k s"
| "timed_then (Host_Failed r) k = Host_Failed r"
| "timed_then (Probe_Failed r) k = Probe_Failed r"

definition host_result :: "transfer \<Rightarrow> outcome \<Rightarrow> timed" where
  "host_result s r = (case r of Returned b d \<Rightarrow> Timed (s\<lparr>host := d\<rparr>) | _ \<Rightarrow> Host_Failed r)"

definition probe_result :: "tx \<Rightarrow> timed" where
  "probe_result r = (case r of Tx s \<Rightarrow> Timed s | _ \<Rightarrow> Probe_Failed r)"

definition now_env :: "transfer_env \<Rightarrow> transfer \<Rightarrow> daemon_env" where
  "now_env env s = (daemon_conf env)\<lparr>clock := time_now s div 1000000\<rparr>"

definition terminate_now :: "transfer_env \<Rightarrow> connection \<Rightarrow> transfer \<Rightarrow> timed" where
  "terminate_now env c s = host_result s (terminate_connection (now_env env s) c (conn_edge c \<noteq> None) (host s) (Returned True))"

definition timeout_one :: "transfer_env \<Rightarrow> timer_env \<Rightarrow> bool \<Rightarrow> connection \<Rightarrow> transfer \<Rightarrow> timed" where
  "timeout_one env te close_all_connections c s =
     (if control c then Timed s
      else if close_all_connections then terminate_now env c s
      else if last_ping_time c + pingtimeout te > clock (now_env env s) then Timed s
      else if conn_edge c = None then terminate_now env c s
      else timed_then (probe_result (case conn_node c of None \<Rightarrow> Tx_Null | Some n \<Rightarrow> try_tx env n False s)) (\<lambda>s.
        if pinged c then terminate_now env c s
        else if last_ping_time c + pinginterval (daemon_conf env) \<le> clock (now_env env s) then
          if protocol_minor c \<ge> 7 \<and> \<not> quic_context c then terminate_now env c s
          else Timed (s\<lparr>host := snd (send_ping (now_env env s) c (host s))\<rparr>)
        else Timed s))"

text \<open>The connections of the list, one after the other.\<close>

fun timeout_loop :: "transfer_env \<Rightarrow> timer_env \<Rightarrow> bool \<Rightarrow> nat list \<Rightarrow> transfer \<Rightarrow> timed" where
  "timeout_loop env te all [] s = Timed s"
| "timeout_loop env te all (i # is) s =
     (case find_connection i (host s) of
        None \<Rightarrow> timeout_loop env te all is s
      | Some c \<Rightarrow> timed_then (timeout_one env te all c s) (timeout_loop env te all is))"

definition timeout_handler :: "transfer_env \<Rightarrow> timer_env \<Rightarrow> timer_state \<Rightarrow> transfer \<Rightarrow> timer_state \<times> timed" where
  "timeout_handler env te ts s =
     (let sleep_time = clock (now_env env s) - last_periodic_run_time ts;
          close_all_connections = (sleep_time > 2 * udp_discovery_timeout env)
      in (ts\<lparr>last_periodic_run_time := clock (now_env env s)\<rparr>,
          timeout_loop env te close_all_connections (map conn_id (connection_list (host s))) s))"

text \<open>Connections that are being made are looked at again at once.\<close>

definition retry_connections :: "daemon \<Rightarrow> daemon" where
  "retry_connections d = d\<lparr>connection_list := map (\<lambda>c. if outgoing c \<and> conn_node c = None then c\<lparr>last_ping_time := 0\<rparr> else c) (connection_list d)\<rparr>"

section \<open>Another node with the same name\<close>

definition periodic_handler :: "timer_state \<Rightarrow> daemon \<Rightarrow> int option \<times> timer_state \<times> daemon" where
  "periodic_handler ts d =
     (let slow = contradicting_del_edge d > 100 \<and> contradicting_add_edge d > 100;
          t = (if slow then let t = c_int (sleeptime ts * 2) in if t < 0 then 3600 else t
               else let t = c_half (sleeptime ts) in if t < 10 then 10 else t)
      in (if slow then Some (sleeptime ts) else None, ts\<lparr>sleeptime := t\<rparr>,
          d\<lparr>contradicting_add_edge := 0, contradicting_del_edge := 0\<rparr>))"

section \<open>Misbehaving peers\<close>

text \<open>The socket that is closed, if any, to make room.\<close>

definition tarpit :: "int \<Rightarrow> timer_state \<Rightarrow> int option \<times> timer_state" where
  "tarpit fd ts =
     (let old = pits ts ! next_pit ts; next = next_pit ts + 1
      in (if old \<noteq> - 1 then Some old else None,
          ts\<lparr>pits := (pits ts)[next_pit ts := fd], next_pit := (if next \<ge> 10 then 0 else next)\<rparr>))"

section \<open>Nodes that are gone\<close>

definition send_del_subnet_everyone :: "daemon_env \<Rightarrow> string \<Rightarrow> subnet \<Rightarrow> daemon \<Rightarrow> bool \<times> daemon" where
  "send_del_subnet_everyone env own s d =
     (case next_rand env d of (r, d) \<Rightarrow> send_everyone env (subnet_line DEL_SUBNET r own (net2str s)) d)"

definition purge_subnet :: "daemon_env \<Rightarrow> string \<Rightarrow> subnet \<Rightarrow> daemon \<Rightarrow> daemon" where
  "purge_subnet env n s d =
     (let d = snd (send_del_subnet_everyone env n s d)
      in if strictsubnets env then d else d\<lparr>subnets := subnet_del (Some n) s (subnets d)\<rparr>)"

definition purge_edge :: "daemon_env \<Rightarrow> edge \<Rightarrow> daemon \<Rightarrow> daemon" where
  "purge_edge env e d =
     (let d = (if tunnelserver env then d else snd (send_del_edge_everyone env e d))
      in d\<lparr>edges := edge_del e (edges d)\<rparr>)"

definition purge_node :: "daemon_env \<Rightarrow> string \<Rightarrow> daemon \<Rightarrow> daemon" where
  "purge_node env n d =
     (if reachable (nodes d n) then d
      else let d = fold (purge_subnet env n) (links (node_subnets (subnets d) n)) d
           in fold (purge_edge env) (links (node_edges (edges d) n)) d)"

fun purge_nodes :: "daemon_env \<Rightarrow> timer_env \<Rightarrow> string list \<Rightarrow> daemon \<Rightarrow> daemon" where
  "purge_nodes env te [] d = d"
| "purge_nodes env te (n # ns) d =
     (if reachable (nodes d n) then purge_nodes env te ns d
      else if list_ex (\<lambda>e. edge_to e = n) (links (edge_weight_tree (edges d))) then d
      else if \<not> autoconnect te \<and> (\<not> strictsubnets env \<or> links (node_subnets (subnets d) n) = []) then purge_nodes env te ns (node_del n d)
      else purge_nodes env te ns d)"

definition purge :: "daemon_env \<Rightarrow> timer_env \<Rightarrow> daemon \<Rightarrow> daemon" where
  "purge env te d =
     (let names = links (node_tree d); d = fold (purge_node env) names d in purge_nodes env te (links (node_tree d)) d)"

section \<open>What the connections have to do with the mesh\<close>

definition conn_active :: "daemon_env \<Rightarrow> daemon \<Rightarrow> connection \<Rightarrow> bool" where
  "conn_active env d c \<longleftrightarrow> (\<exists>n. conn_node c = Some n \<and> conn_edge c = Some (self env, n) \<and> n \<noteq> self env \<and> n \<in> known d \<and> c_string n \<and>
     mesh_of (edges d) (self env, n) \<noteq> None)"

definition conns_ok :: "daemon_env \<Rightarrow> daemon \<Rightarrow> bool" where
  "conns_ok env d \<longleftrightarrow> distinct (map conn_id (connection_list d)) \<and>
     (\<forall>c \<in> set (connection_list d). conn_edge c \<noteq> None \<longrightarrow> conn_active env d c) \<and>
     (\<forall>c \<in> set (connection_list d). \<forall>c' \<in> set (connection_list d). conn_edge c \<noteq> None \<and> conn_edge c = conn_edge c' \<longrightarrow> c = c') \<and>
     (\<forall>n i. node_connection d n = Some i \<longrightarrow> (\<exists>c \<in> set (connection_list d). conn_id c = i \<and> conn_node c = Some n))"

lemma conns_okD:
  assumes "conns_ok env d"
  shows "inj_on conn_id (set (connection_list d))"
    "\<And>c. c \<in> set (connection_list d) \<Longrightarrow> conn_edge c \<noteq> None \<Longrightarrow> conn_active env d c"
    "\<And>c c'. c \<in> set (connection_list d) \<Longrightarrow> c' \<in> set (connection_list d) \<Longrightarrow> conn_edge c \<noteq> None \<Longrightarrow> conn_edge c = conn_edge c' \<Longrightarrow> c = c'"
    "\<And>n i. node_connection d n = Some i \<Longrightarrow> \<exists>c \<in> set (connection_list d). conn_id c = i \<and> conn_node c = Some n"
  using assms by (simp_all add: conns_ok_def distinct_map)

lemma mesh_subset_card:
  assumes "edges_inv st" "edges_inv st'" "\<And>k e. mesh_of st' k = Some e \<Longrightarrow> mesh_of st k = Some e"
  shows "card (edge_set st') \<le> card (edge_set st)"
proof -
  have "edge_set st' \<subseteq> edge_set st"
  proof
    fix x assume "x \<in> edge_set st'"
    then have "mesh_of st' (edge_key x) = Some x" using mesh_of_Some [OF assms(2)] by blast
    then show "x \<in> edge_set st" using assms(3) mesh_of_Some [OF assms(1)] by blast
  qed
  then show ?thesis by (intro card_mono) (simp_all add: Edge.edges_def)
qed

text \<open>Once a connection is out of the list and its node does not refer to it, no node does.\<close>

lemma node_links_after:
  assumes ok: "conns_ok env d" and c: "c \<in> set (connection_list d)" "\<forall>n. conn_node c = Some n \<longrightarrow> node_connection d' n \<noteq> Some (conn_id c)"
    and sub: "\<forall>n i. node_connection d' n = Some i \<longrightarrow> node_connection d n = Some i"
    and list: "connection_list d' = filter (\<lambda>x. conn_id x \<noteq> conn_id c) (connection_list d)"
  shows "\<forall>n i. node_connection d' n = Some i \<longrightarrow> (\<exists>c \<in> set (connection_list d'). conn_id c = i \<and> conn_node c = Some n)"
proof (intro allI impI)
  fix n i assume n: "node_connection d' n = Some i"
  then obtain x where x: "x \<in> set (connection_list d)" "conn_id x = i" "conn_node x = Some n" using conns_okD(4) [OF ok] sub by blast
  have "conn_id x \<noteq> conn_id c"
  proof
    assume "conn_id x = conn_id c"
    then have "x = c" using conns_okD(1) [OF ok] x(1) c(1) by (simp add: inj_on_def)
    then show False using n x c(2) by simp
  qed
  then show "\<exists>c \<in> set (connection_list d'). conn_id c = i \<and> conn_node c = Some n" using x list by auto
qed

lemma conns_ok_filter:
  assumes "conns_ok env d" "known d' = known d" "edges d' = edges d" "connection_list d' = filter P (connection_list d)"
    "\<forall>n i. node_connection d' n = Some i \<longrightarrow> (\<exists>c \<in> set (connection_list d'). conn_id c = i \<and> conn_node c = Some n)"
  shows "conns_ok env d'"
proof -
  have act: "conn_active env d' = conn_active env d" using assms(2,3) by (auto simp: conn_active_def fun_eq_iff)
  have dist: "distinct (map conn_id (connection_list d'))" using assms(1,4) by (simp add: conns_ok_def distinct_map_filter)
  have sub: "c \<in> set (connection_list d)" if "c \<in> set (connection_list d')" for c using that assms(4) by simp
  show ?thesis unfolding conns_ok_def
  proof (intro conjI ballI impI, rule dist)
    show "conn_active env d' c" if "c \<in> set (connection_list d')" "conn_edge c \<noteq> None" for c unfolding act by (rule conns_okD(2) [OF assms(1) sub [OF that(1)] that(2)])
    show "c = c'" if "c \<in> set (connection_list d')" "c' \<in> set (connection_list d')" "conn_edge c \<noteq> None \<and> conn_edge c = conn_edge c'" for c c'
      by (rule conns_okD(3) [OF assms(1) sub [OF that(1)] sub [OF that(2)] conjunct1 [OF that(3)] conjunct2 [OF that(3)]])
  qed (rule assms(5))
qed

lemma terminate_any:
  assumes inv: "mesh_inv env d" "conns_ok env d" and c: "c \<in> set (connection_list d)" and me: "c_string (self env)"
    and room: "mesh_room env (card (known d)) (card (edge_set (edges d)))"
  obtains d' where "\<And>k. terminate_connection env c report d k = k d'" "mesh_inv env d'" "conns_ok env d'" "known d' = known d"
    "connection_list d' = filter (\<lambda>x. conn_id x \<noteq> conn_id c) (connection_list d)" "card (edge_set (edges d')) \<le> card (edge_set (edges d))"
    "retries d' = retries d @ (if outgoing c then [conn_name c] else [])"
proof (cases "conn_edge c")
  case None
  define d1 where "d1 = (case conn_node c of None \<Rightarrow> d
    | Some n \<Rightarrow> if node_connection d n = Some (conn_id c) then d\<lparr>node_connection := (node_connection d)(n := None)\<rparr> else d)"
  have run: "terminate_connection env c report d k = k (close_connection c d1)" for k
    using None by (simp add: terminate_connection_def d1_def Let_def split: option.split)
  have f: "known d1 = known d" "edges d1 = edges d" "connection_list d1 = connection_list d" "retries d1 = retries d" "mesh_inv env d1 = mesh_inv env d"
    by (simp_all add: d1_def known_def mesh_inv_def mesh_shape_def request_inv_def split: option.split)
  have "\<forall>n i. node_connection (close_connection c d1) n = Some i \<longrightarrow>
      (\<exists>c \<in> set (connection_list (close_connection c d1)). conn_id c = i \<and> conn_node c = Some n)"
    by (rule node_links_after [OF inv(2) c]) (use f in \<open>auto simp: d1_def split: option.splits if_splits\<close>)
  then have "conns_ok env (close_connection c d1)" by (intro conns_ok_filter [OF inv(2)]) (use f in simp_all)
  then show thesis using that [OF run] f inv(1) by simp
next
  case (Some key)
  obtain n where n: "conn_node c = Some n" "conn_edge c = Some (self env, n)" "n \<noteq> self env" "n \<in> known d" "c_string n"
    "mesh_of (edges d) (self env, n) \<noteq> None" using inv(2) c Some unfolding conns_ok_def conn_active_def by blast
  then obtain e where e: "mesh_of (edges d) (self env, n) = Some e" by blast
  obtain d' where d': "\<And>k. terminate_connection env c report d k = k d'" "mesh_inv env d'" "known d' = known d" "seen d' = seen d"
    "connection_list d' = filter (\<lambda>x. conn_id x \<noteq> conn_id c) (connection_list d)"
    "retries d' = retries d @ (if outgoing c then [conn_name c] else [])"
    "node_connection d' = (if node_connection d n = Some (conn_id c) then (node_connection d)(n := None) else node_connection d)"
    "mesh_of (edges d') = (if report \<and> \<not> (mutual (edges d'))\<^sup>*\<^sup>* (self env) n then (mesh_of (edges d))((self env, n) := None, (n, self env) := None)
       else (mesh_of (edges d))((self env, n) := None))"
    by (rule terminate_connection_effect [OF inv(1) n(1,2) e n(4,5) me room]) (rule that)
  have E: "edges_inv (edges d)" "edges_inv (edges d')" using inv(1) d'(2) by (simp_all add: mesh_inv_def mesh_shape_def)
  have sub: "mesh_of (edges d') k = Some x \<Longrightarrow> mesh_of (edges d) k = Some x" for k x using d'(8) by (simp split: if_splits)
  have other: "mesh_of (edges d') (self env, m) = mesh_of (edges d) (self env, m)" if "m \<noteq> n" for m using d'(8) that n(3) by (simp split: if_splits)
  have links: "\<forall>n i. node_connection d' n = Some i \<longrightarrow> (\<exists>c \<in> set (connection_list d'). conn_id c = i \<and> conn_node c = Some n)"
    by (rule node_links_after [OF inv(2) c _ _ d'(5)]) (use d'(7) n(1) in \<open>auto split: if_splits\<close>)
  have "conns_ok env d'" unfolding conns_ok_def
  proof (intro conjI ballI impI)
    show "\<forall>n i. node_connection d' n = Some i \<longrightarrow> (\<exists>c \<in> set (connection_list d'). conn_id c = i \<and> conn_node c = Some n)" by (rule links)
  next
    show "distinct (map conn_id (connection_list d'))" using inv(2) d'(5) by (simp add: conns_ok_def distinct_map_filter)
    fix x assume x: "x \<in> set (connection_list d')"
    then have x': "x \<in> set (connection_list d)" "conn_id x \<noteq> conn_id c" using d'(5) by auto
    { assume act: "conn_edge x \<noteq> None"
      then have "conn_active env d x" using inv(2) x'(1) by (simp add: conns_ok_def)
      moreover have "conn_edge x \<noteq> conn_edge c" using conns_okD(3) [OF inv(2) x'(1) c act] x'(2) by auto
      ultimately show "conn_active env d' x" using other d'(3) n(2) by (auto simp: conn_active_def) }
    { fix y assume y: "y \<in> set (connection_list d')" "conn_edge x \<noteq> None \<and> conn_edge x = conn_edge y"
      then have "y \<in> set (connection_list d)" using d'(5) by simp
      then show "x = y" using conns_okD(3) [OF inv(2) x'(1)] y(2) by blast }
  qed
  then show thesis using that [OF d'(1,2) _ d'(3,5) mesh_subset_card [OF E sub] d'(6)] by simp
qed

section \<open>Which connections are closed\<close>

definition dead :: "daemon_env \<Rightarrow> timer_env \<Rightarrow> bool \<Rightarrow> connection \<Rightarrow> bool" where
  "dead env te all c \<longleftrightarrow> \<not> control c \<and> (all \<or> last_ping_time c + pingtimeout te \<le> clock env \<and>
     (conn_edge c = None \<or> pinged c \<or> last_ping_time c + pinginterval env \<le> clock env \<and> 7 \<le> protocol_minor c \<and> \<not> quic_context c))"

definition idle :: "daemon_env \<Rightarrow> timer_env \<Rightarrow> connection \<Rightarrow> bool" where
  "idle env te c \<longleftrightarrow> \<not> control c \<and> last_ping_time c + pingtimeout te \<le> clock env \<and> last_ping_time c + pinginterval env \<le> clock env"

definition pinged_again :: "daemon_env \<Rightarrow> timer_env \<Rightarrow> connection \<Rightarrow> connection" where
  "pinged_again env te c = (if idle env te c then c\<lparr>pinged := True, last_ping_time := clock env\<rparr> else c)"

lemma pinged_again_fields [simp]:
  "conn_id (pinged_again env te c) = conn_id c" "conn_edge (pinged_again env te c) = conn_edge c" "conn_node (pinged_again env te c) = conn_node c"
  "outgoing (pinged_again env te c) = outgoing c" "conn_name (pinged_again env te c) = conn_name c"
  by (simp_all add: pinged_again_def)

lemma conns_ok_update:
  assumes ok: "conns_ok env d" and c: "find_connection (conn_id c') d = Some c" "conn_edge c' = conn_edge c" "conn_node c' = conn_node c"
    and d': "known d' = known d" "edges d' = edges d" "connection_list d' = map (\<lambda>x. if conn_id x = conn_id c' then c' else x) (connection_list d)"
    and links: "node_connection d' = node_connection d"
  shows "conns_ok env d'"
proof -
  have id: "conn_id c = conn_id c'" "c \<in> set (connection_list d)" using c(1) by (auto simp: find_connection_def find_Some_iff)
  have act: "conn_active env d' x \<longleftrightarrow> conn_active env d x" for x using d'(1,2) by (simp add: conn_active_def)
  have same: "x = c" if "x \<in> set (connection_list d)" "conn_id x = conn_id c'" for x
    using conns_okD(1) [OF ok] id that by (simp add: inj_on_def)
  have "map conn_id (connection_list d') = map conn_id (connection_list d)" using d'(3) by (simp add: comp_def if_distrib cong: if_cong)
  then have dist: "distinct (map conn_id (connection_list d'))" using ok by (simp add: conns_ok_def)
  define old where "old x = (if conn_id x = conn_id c' then c else x)" for x
  have in_old: "old x \<in> set (connection_list d)" "conn_edge (old x) = conn_edge x" "conn_node (old x) = conn_node x" "conn_id (old x) = conn_id x"
    if "x \<in> set (connection_list d')" for x using that d'(3) c(2,3) id by (auto simp: old_def)
  have links': "\<exists>x \<in> set (connection_list d'). conn_id x = i \<and> conn_node x = Some n" if at: "node_connection d' n = Some i" for n i
  proof -
    obtain x where x: "x \<in> set (connection_list d)" "conn_id x = i" "conn_node x = Some n" using conns_okD(4) [OF ok, of n i] at links by auto
    then show ?thesis using d'(3) same c(3) by (intro bexI [of _ "if conn_id x = conn_id c' then c' else x"]) auto
  qed
  show ?thesis unfolding conns_ok_def
  proof (intro conjI ballI impI allI, rule dist)
    fix x assume x: "x \<in> set (connection_list d')"
    { assume "conn_edge x \<noteq> None"
      then have "conn_active env d (old x)" using ok in_old [OF x] by (simp add: conns_ok_def)
      then show "conn_active env d' x" using in_old [OF x] unfolding act by (simp add: conn_active_def) }
    { fix y assume y: "y \<in> set (connection_list d')" "conn_edge x \<noteq> None \<and> conn_edge x = conn_edge y"
      have "conn_edge (old x) \<noteq> None" "conn_edge (old x) = conn_edge (old y)"
        unfolding in_old(2) [OF x] in_old(2) [OF y(1)] by (rule conjunct1 [OF y(2)], rule conjunct2 [OF y(2)])
      then have "old x = old y" by (rule conns_okD(3) [OF ok in_old(1) [OF x] in_old(1) [OF y(1)]])
      then have "conn_id x = conn_id y" using in_old(4) [OF x] in_old(4) [OF y(1)] by simp
      then show "x = y" using dist x y(1) by (simp add: distinct_map inj_on_def) }
  qed (rule links')
qed

lemma ping_effect:
  assumes inv: "mesh_inv env d" "conns_ok env d" and c: "find_connection i d = Some c"
  defines "c' \<equiv> c\<lparr>pinged := True, last_ping_time := clock env\<rparr>" and "d' \<equiv> snd (send_ping env c d)"
  shows "mesh_inv env d'" "conns_ok env d'" "known d' = known d" "edges d' = edges d" "retries d' = retries d"
    "connection_list d' = map (\<lambda>x. if conn_id x = i then c' else x) (connection_list d)"
proof -
  have i: "conn_id c = i" using c by (auto simp: find_connection_def find_Some_iff)
  have s: "sends (update_connection c' d) d'" using sends_request by (simp add: d'_def c'_def send_ping_def Let_def)
  note f = sends_frame [OF s]
  show "mesh_inv env d'" "known d' = known d" "edges d' = edges d" "retries d' = retries d" using f inv(1) by simp_all
  show conns: "connection_list d' = map (\<lambda>x. if conn_id x = i then c' else x) (connection_list d)" using f(1) i by (simp add: update_connection_def c'_def)
  show "conns_ok env d'" by (rule conns_ok_update [OF inv(2), of c' c]) (use c i f(2,4,7) conns in \<open>simp_all add: c'_def\<close>)
qed

text \<open>A probe changes nothing of the mesh and none of the connections; it may set the clock.\<close>

definition calm :: "transfer_env \<Rightarrow> transfer \<Rightarrow> transfer \<Rightarrow> bool" where
  "calm env s s' \<longleftrightarrow> (\<exists>ns. host s' = (host s)\<lparr>nodes := ns\<rparr> \<and> (\<forall>m. reachable (ns m) = reachable (nodes (host s) m))) \<and>
     (time_now s' = time_now s \<or> time_now s' = gettimeofday env)"

lemma calm_trans: "calm env s s1 \<Longrightarrow> calm env s1 s2 \<Longrightarrow> calm env s s2"
  by (auto simp: calm_def)

lemma calm_fields: "host s' = host s \<Longrightarrow> time_now s' = time_now s \<or> time_now s' = gettimeofday env \<Longrightarrow> calm env s s'"
  unfolding calm_def by (intro conjI exI [of _ "nodes (host s)"]) simp_all

lemma calm_set_node: "reachable t = reachable (node_of s n) \<Longrightarrow> calm env s (set_node n t s)"
  unfolding calm_def set_node_def by (intro conjI exI [of _ "(nodes (host s))(n := t)"]) auto

lemma calm_link_ok: "calm env s s' \<Longrightarrow> link_ok n s' = link_ok n s"
  by (auto simp: calm_def link_ok_def find_connection_def)

lemma calm_datagram: "link_ok n s \<Longrightarrow> \<exists>s'. send_datagram n p s = Tx s' \<and> calm env s s'"
  using send_datagram_ok [of n s p] calm_fields [of "s\<lparr>datagrams := ds\<rparr>" s env for ds] by fastforce

lemma calm_udp: "link_ok n s \<Longrightarrow> \<exists>s'. send_udppacket n p s = Tx s' \<and> calm env s s'"
  using calm_datagram [of n s p env] calm_fields [of s s env] by (auto simp: send_udppacket_def)

lemma calm_probe: "link_ok n s \<Longrightarrow> \<exists>s'. send_udp_probe_packet env n MIN_PROBE_SIZE s = Tx s' \<and> calm env s s'"
  using calm_udp [of n s "probe_packet env MIN_PROBE_SIZE" env] by (simp add: send_udp_probe_packet_def)

lemma calm_then:
  assumes "\<exists>s1. r = Tx s1 \<and> calm env s s1" "\<And>s1. calm env s s1 \<Longrightarrow> \<exists>s2. k s1 = Tx s2 \<and> calm env s1 s2"
  shows "\<exists>s2. tx_then r k = Tx s2 \<and> calm env s s2"
  using assms by (metis calm_trans tx_then.simps(1))

lemma calm_ret: "\<exists>s'. Tx s = Tx s' \<and> calm env s s'"
  using calm_fields [of s s env] by simp

lemma calm_start:
  assumes "\<exists>s2. r = Tx s2 \<and> calm env s1 s2" "calm env s s1"
  shows "\<exists>s2. r = Tx s2 \<and> calm env s s2"
  using assms calm_trans by blast

lemma calm_try_udp:
  assumes ok: "link_ok n s"
  shows "\<exists>s'. try_udp env n s = Tx s' \<and> calm env s s'"
proof (cases "udp_discovery env")
  case False
  then show ?thesis using calm_ret by (simp add: try_udp_def)
next
  case True
  let ?r = "if drop_bit 24 (node_options (node_of s n)) \<ge> 3 \<and> udp_confirmed (node_of s n) \<and>
              (time_now s - udp_reply_sent s n) div 1000000 \<ge> udp_discovery_keepalive_interval env - 1
           then
             let s = s\<lparr>udp_reply_sent := (udp_reply_sent s)(n := time_now s)\<rparr>; recent = maxrecentlen (node_of s n) in
             if recent \<noteq> 0 then
               tx_then (send_udp_probe_reply n ((probe_packet env MIN_PROBE_SIZE)\<lparr>pkt_len := recent\<rparr>) recent s) (\<lambda>s.
                 Tx (set_node n ((node_of s n)\<lparr>maxrecentlen := 0\<rparr>) s))
             else Tx s
           else Tx s"
  have first: "\<exists>s1. ?r = Tx s1 \<and> calm env s s1"
  proof -
    let ?s = "s\<lparr>udp_reply_sent := (udp_reply_sent s)(n := time_now s)\<rparr>"
    have q: "calm env s ?s" by (rule calm_fields) simp_all
    have "\<exists>s1. tx_then (send_udp_probe_reply n p len ?s) (\<lambda>s. Tx (set_node n ((node_of s n)\<lparr>maxrecentlen := 0\<rparr>) s)) = Tx s1 \<and> calm env ?s s1" for p len
      by (rule calm_then) (use ok calm_udp calm_link_ok [OF q] calm_set_node in \<open>simp_all add: send_udp_probe_reply_def\<close>)
    then show ?thesis using calm_start [OF _ q] calm_ret [of s env] calm_ret [of ?s env] by (simp add: Let_def)
  qed
  show ?thesis unfolding try_udp_def using True
  proof (simp only: not_True_eq_False if_False, intro calm_then [OF first])
    fix s1 assume q: "calm env s s1"
    let ?s = "s1\<lparr>time_now := gettimeofday env, udp_ping_sent := (udp_ping_sent s1)(n := gettimeofday env), ping_sent := (ping_sent s1)(n := True)\<rparr>"
    have q1: "calm env s1 ?s" by (rule calm_fields) simp_all
    have ok1: "link_ok n ?s" using ok calm_link_ok [OF q] calm_link_ok [OF q1] by simp
    have "\<exists>s2. tx_then (send_udp_probe_packet env n MIN_PROBE_SIZE ?s) (\<lambda>s.
              if localdiscovery env \<and> \<not> udp_confirmed (node_of s n) \<and> prevedge (node_of s n) \<noteq> None
              then send_udp_probe_packet env n MIN_PROBE_SIZE s else Tx s) = Tx s2 \<and> calm env ?s s2"
      by (rule calm_then [OF calm_probe [OF ok1]]) (use ok1 calm_link_ok calm_probe calm_ret in auto)
    then show "\<exists>s2. (let interval = (if udp_confirmed (node_of s1 n) then udp_discovery_keepalive_interval env else udp_discovery_interval env) in
          if (time_now s1 - udp_ping_sent s1 n) div 1000000 \<ge> interval then
            let s = ?s in
            tx_then (send_udp_probe_packet env n MIN_PROBE_SIZE s) (\<lambda>s.
              if localdiscovery env \<and> \<not> udp_confirmed (node_of s n) \<and> prevedge (node_of s n) \<noteq> None
              then send_udp_probe_packet env n MIN_PROBE_SIZE s else Tx s)
          else Tx s1) = Tx s2 \<and> calm env s1 s2"
      using calm_start [OF _ q1] calm_ret [of s1 env] by (simp add: Let_def)
  qed
qed

lemma calm_try_tx: "link_ok n s \<Longrightarrow> \<exists>s'. try_tx env n False s = Tx s' \<and> calm env s s'"
  unfolding try_tx_def using calm_ret [of s env] calm_then [OF calm_try_udp [of n s env], of "\<lambda>s. if False then try_mtu env n s else Tx s"] calm_ret by auto

lemma now_env_fields [simp]:
  "self (now_env env s) = self (daemon_conf env)" "mesh_inv (now_env env s) d = mesh_inv (daemon_conf env) d" "conns_ok (now_env env s) d = conns_ok (daemon_conf env) d"
  "mesh_room (now_env env s) a b = mesh_room (daemon_conf env) a b" "clock (now_env env s) = time_now s div 1000000" "pinginterval (now_env env s) = pinginterval (daemon_conf env)"
  by (simp_all add: now_env_def mesh_inv_def mesh_shape_def conns_ok_def conn_active_def mesh_room_def)

lemma calm_frame:
  assumes "calm env s s'"
  shows "mesh_inv e (host s') = mesh_inv e (host s)" "conns_ok e (host s') = conns_ok e (host s)" "known (host s') = known (host s)" "edges (host s') = edges (host s)"
    "connection_list (host s') = connection_list (host s)" "retries (host s') = retries (host s)" "find_connection i (host s') = find_connection i (host s)"
    "gettimeofday env div 1000000 = time_now s div 1000000 \<Longrightarrow> now_env env s' = now_env env s"
proof -
  obtain ns where h: "host s' = (host s)\<lparr>nodes := ns\<rparr>" "\<forall>m. reachable (ns m) = reachable (nodes (host s) m)"
    and t: "time_now s' = time_now s \<or> time_now s' = gettimeofday env" using assms by (auto simp: calm_def)
  show "mesh_inv e (host s') = mesh_inv e (host s)" "conns_ok e (host s') = conns_ok e (host s)" "known (host s') = known (host s)" "edges (host s') = edges (host s)"
    "connection_list (host s') = connection_list (host s)" "retries (host s') = retries (host s)" "find_connection i (host s') = find_connection i (host s)"
    using h by (simp_all add: mesh_inv_def mesh_shape_def conns_ok_def conn_active_def known_def request_inv_def find_connection_def)
  show "gettimeofday env div 1000000 = time_now s div 1000000 \<Longrightarrow> now_env env s' = now_env env s" using t by (auto simp: now_env_def)
qed

text \<open>One connection, when the run stays within the second in which it started.\<close>

lemma terminate_now_effect:
  assumes inv: "mesh_inv (daemon_conf env) (host s)" "conns_ok (daemon_conf env) (host s)" and c: "c \<in> set (connection_list (host s))" and me: "c_string (host_name env)"
    and room: "mesh_room (daemon_conf env) (card (known (host s))) (card (edge_set (edges (host s))))"
  obtains d where "terminate_now env c s = Timed (s\<lparr>host := d\<rparr>)" "mesh_inv (daemon_conf env) d" "conns_ok (daemon_conf env) d" "known d = known (host s)"
    "connection_list d = filter (\<lambda>x. conn_id x \<noteq> conn_id c) (connection_list (host s))" "card (edge_set (edges d)) \<le> card (edge_set (edges (host s)))"
    "retries d = retries (host s) @ (if outgoing c then [conn_name c] else [])"
proof -
  obtain d where d: "\<And>k. terminate_connection (now_env env s) c (conn_edge c \<noteq> None) (host s) k = k d" "mesh_inv (now_env env s) d" "conns_ok (now_env env s) d" "known d = known (host s)"
    "connection_list d = filter (\<lambda>x. conn_id x \<noteq> conn_id c) (connection_list (host s))" "card (edge_set (edges d)) \<le> card (edge_set (edges (host s)))"
    "retries d = retries (host s) @ (if outgoing c then [conn_name c] else [])"
    by (rule terminate_any [OF _ _ c, of "now_env env s" "conn_edge c \<noteq> None"]) (simp_all add: inv me room)
  show thesis by (rule that [of d]) (use d in \<open>simp_all add: terminate_now_def host_result_def\<close>)
qed

lemma timeout_one_effect:
  assumes inv: "mesh_inv (daemon_conf env) (host s)" "conns_ok (daemon_conf env) (host s)" and c: "find_connection i (host s) = Some c" and me: "c_string (host_name env)"
    and room: "mesh_room (daemon_conf env) (card (known (host s))) (card (edge_set (edges (host s))))"
    and t: "gettimeofday env div 1000000 = time_now s div 1000000"
  defines "E \<equiv> now_env env s"
  obtains s' where "timeout_one env te all c s = Timed s'" "mesh_inv (daemon_conf env) (host s')" "conns_ok (daemon_conf env) (host s')" "known (host s') = known (host s)"
    "card (edge_set (edges (host s'))) \<le> card (edge_set (edges (host s)))" "time_now s' div 1000000 = time_now s div 1000000"
    "connection_list (host s') = (if dead E te all c then filter (\<lambda>x. conn_id x \<noteq> i) (connection_list (host s))
       else map (\<lambda>x. if conn_id x = i then pinged_again E te c else x) (connection_list (host s)))"
    "retries (host s') = retries (host s) @ (if dead E te all c \<and> outgoing c then [conn_name c] else [])"
proof -
  note result = that
  have i: "conn_id c = i" "c \<in> set (connection_list (host s))" using c by (auto simp: find_connection_def find_Some_iff)
  have same: "x = c" if "x \<in> set (connection_list (host s))" "conn_id x = i" for x
    using conns_okD(1) [OF inv(2)] i that by (auto simp: inj_on_def)
  have keep: "map (\<lambda>x. if conn_id x = i then c else x) (connection_list (host s)) = connection_list (host s)" using same by (auto intro: map_idI)
  have stop: thesis if run: "timeout_one env te all c s = terminate_now env c u" and u: "calm env s u" and dead: "dead E te all c" for u
  proof -
    note f = calm_frame [OF u]
    obtain d where d: "terminate_now env c u = Timed (u\<lparr>host := d\<rparr>)" "mesh_inv (daemon_conf env) d" "conns_ok (daemon_conf env) d" "known d = known (host u)"
      "connection_list d = filter (\<lambda>x. conn_id x \<noteq> conn_id c) (connection_list (host u))" "card (edge_set (edges d)) \<le> card (edge_set (edges (host u)))"
      "retries d = retries (host u) @ (if outgoing c then [conn_name c] else [])"
      by (rule terminate_now_effect [of env u c]) (use f inv i me room in simp_all)
    have "time_now u div 1000000 = time_now s div 1000000" using u t by (auto simp: calm_def)
    with d dead i f run show thesis by (intro result [of "u\<lparr>host := d\<rparr>"]) simp_all
  qed
  have go: thesis if run: "timeout_one env te all c s = Timed u" and u: "calm env s u" and alive: "\<not> dead E te all c" "\<not> idle E te c" for u
  proof -
    note f = calm_frame [OF u]
    have "time_now u div 1000000 = time_now s div 1000000" using u t by (auto simp: calm_def)
    moreover have "map (\<lambda>x. if conn_id x = i then pinged_again E te c else x) (connection_list (host s)) = connection_list (host s)"
      unfolding pinged_again_def if_not_P [OF alive(2)] by (rule keep)
    ultimately show thesis using alive f inv run by (intro result [of u]) simp_all
  qed
  have refl: "calm env s s" by (rule calm_fields) simp_all
  show thesis
  proof (cases "control c \<or> all \<or> last_ping_time c + pingtimeout te > clock E \<or> conn_edge c = None")
    case True
    show thesis
    proof (cases "dead E te all c")
      case dead: True
      then have "timeout_one env te all c s = terminate_now env c s" using True by (auto simp: dead_def timeout_one_def E_def)
      then show thesis by (rule stop [OF _ refl dead])
    next
      case False
      then have "timeout_one env te all c s = Timed s" "\<not> idle E te c" using True by (auto simp: dead_def idle_def timeout_one_def E_def)
      then show thesis by (intro go [OF _ refl False])
    qed
  next
    case False
    then obtain n where n: "conn_node c = Some n" using conns_okD(2) [OF inv(2) i(2)] by (auto simp: conn_active_def)
    have "link_ok n s" using conns_okD(4) [OF inv(2), of n] by (fastforce simp: link_ok_def find_connection_def find_None_iff)
    then obtain u where u: "try_tx env n False s = Tx u" "calm env s u" using calm_try_tx by blast
    have E: "now_env env u = E" using calm_frame(8) [OF u(2) t] by (simp add: E_def)
    have run: "timeout_one env te all c s = (if pinged c then terminate_now env c u
        else if last_ping_time c + pinginterval (daemon_conf env) \<le> clock E then
          if protocol_minor c \<ge> 7 \<and> \<not> quic_context c then terminate_now env c u else Timed (u\<lparr>host := snd (send_ping E c (host u))\<rparr>)
        else Timed u)"
    proof -
      have g: "\<not> control c" "\<not> all" "\<not> last_ping_time c + pingtimeout te > clock E" "conn_edge c \<noteq> None" using False by auto
      show ?thesis unfolding timeout_one_def E_def [symmetric] if_not_P [OF g(1)] if_not_P [OF g(2)] if_not_P [OF g(3)] if_not_P [OF g(4)]
        by (simp only: n u(1) option.case probe_result_def tx.case timed_then.simps E)
    qed
    consider (stop) "dead E te all c" "timeout_one env te all c s = terminate_now env c u" | (go) "\<not> dead E te all c" "\<not> idle E te c" "timeout_one env te all c s = Timed u"
      | (ping) "\<not> dead E te all c" "idle E te c" "timeout_one env te all c s = Timed (u\<lparr>host := snd (send_ping E c (host u))\<rparr>)"
    proof -
      define due where "due \<longleftrightarrow> last_ping_time c + pinginterval (daemon_conf env) \<le> clock E"
      define lost where "lost \<longleftrightarrow> 7 \<le> protocol_minor c \<and> \<not> quic_context c"
      have p: "pinginterval E = pinginterval (daemon_conf env)" by (simp add: E_def)
      have "dead E te all c \<longleftrightarrow> pinged c \<or> due \<and> lost" "idle E te c \<longleftrightarrow> due"
        using False by (auto simp: dead_def idle_def due_def lost_def p)
      note d = this run [folded due_def lost_def]
      consider "pinged c" | "\<not> pinged c" "due" "lost" | "\<not> pinged c" "due" "\<not> lost" | "\<not> pinged c" "\<not> due" by blast
      then show thesis by cases (use d that in simp_all)
    qed
    then show thesis
    proof cases
      case ping
      note f = calm_frame [OF u(2)]
      have "mesh_inv E (host u)" "conns_ok E (host u)" "find_connection i (host u) = Some c" using f inv c by (simp_all add: E_def)
      note p = ping_effect [OF this]
      have "time_now u div 1000000 = time_now s div 1000000" using u(2) t by (auto simp: calm_def)
      then show thesis using ping p f by (intro result [of "u\<lparr>host := snd (send_ping E c (host u))\<rparr>"]) (simp_all add: pinged_again_def, simp_all add: E_def)
    qed (use stop [OF _ u(2)] go [OF _ u(2)] in blast)+
  qed
qed

lemma find_here: "conn_id c \<notin> conn_id ` set xs \<Longrightarrow> List.find (\<lambda>x. conn_id x = conn_id c) (xs @ c # cs) = Some c"
  by (induction xs) auto

lemma update_here:
  assumes "distinct (map conn_id (xs @ c # cs))"
  shows "filter (\<lambda>x. conn_id x \<noteq> conn_id c) (xs @ c # cs) = xs @ cs"
    "map (\<lambda>x. if conn_id x = conn_id c then y else x) (xs @ c # cs) = xs @ y # cs"
proof -
  have "conn_id x \<noteq> conn_id c" if "x \<in> set xs \<or> x \<in> set cs" for x using assms that by (auto simp: image_iff)
  then show "filter (\<lambda>x. conn_id x \<noteq> conn_id c) (xs @ c # cs) = xs @ cs" "map (\<lambda>x. if conn_id x = conn_id c then y else x) (xs @ c # cs) = xs @ y # cs"
    by (auto simp: filter_id_conv intro: map_idI)
qed

lemma timeout_loop_effect:
  assumes "mesh_inv (daemon_conf env) (host s)" "conns_ok (daemon_conf env) (host s)" "c_string (host_name env)"
    "mesh_room (daemon_conf env) (card (known (host s))) (card (edge_set (edges (host s))))" "gettimeofday env div 1000000 = time_now s div 1000000"
    "connection_list (host s) = xs @ cs"
  shows "\<exists>s'. timeout_loop env te all (map conn_id cs) s = Timed s' \<and> mesh_inv (daemon_conf env) (host s') \<and> conns_ok (daemon_conf env) (host s') \<and>
    connection_list (host s') = xs @ map (pinged_again (now_env env s) te) (filter (\<lambda>c. \<not> dead (now_env env s) te all c) cs) \<and>
    retries (host s') = retries (host s) @ map conn_name (filter (\<lambda>c. dead (now_env env s) te all c \<and> outgoing c) cs)"
  using assms
proof (induction cs arbitrary: s xs)
  case Nil
  then show ?case by simp
next
  case (Cons c cs)
  let ?E = "now_env env s"
  have dist: "distinct (map conn_id (xs @ c # cs))" using Cons.prems(2,6) by (simp add: conns_ok_def)
  then have find: "find_connection (conn_id c) (host s) = Some c" using Cons.prems(6) find_here [of c xs cs] by (auto simp: find_connection_def)
  note here = update_here(1) [OF dist] update_here(2) [OF dist, of "pinged_again ?E te c"]
  obtain s1 where s1: "timeout_one env te all c s = Timed s1" "mesh_inv (daemon_conf env) (host s1)" "conns_ok (daemon_conf env) (host s1)" "known (host s1) = known (host s)"
    "card (edge_set (edges (host s1))) \<le> card (edge_set (edges (host s)))" "time_now s1 div 1000000 = time_now s div 1000000"
    "connection_list (host s1) = (if dead ?E te all c then filter (\<lambda>x. conn_id x \<noteq> conn_id c) (connection_list (host s))
       else map (\<lambda>x. if conn_id x = conn_id c then pinged_again ?E te c else x) (connection_list (host s)))"
    "retries (host s1) = retries (host s) @ (if dead ?E te all c \<and> outgoing c then [conn_name c] else [])"
    by (rule timeout_one_effect [OF Cons.prems(1,2) find Cons.prems(3-5)]) (rule that)
  have room: "mesh_room (daemon_conf env) (card (known (host s1))) (card (edge_set (edges (host s1))))" using Cons.prems(4) s1(4,5) by (auto intro: mesh_room_mono)
  have E: "now_env env s1 = ?E" "gettimeofday env div 1000000 = time_now s1 div 1000000" using s1(6) Cons.prems(5) by (simp_all add: now_env_def)
  have "connection_list (host s1) = (if dead ?E te all c then xs else xs @ [pinged_again ?E te c]) @ cs" using s1(7) here Cons.prems(6) by simp
  from Cons.IH [OF s1(2,3) Cons.prems(3) room E(2) this] obtain s' where
    s': "timeout_loop env te all (map conn_id cs) s1 = Timed s'" "mesh_inv (daemon_conf env) (host s')" "conns_ok (daemon_conf env) (host s')"
      "connection_list (host s') = (if dead ?E te all c then xs else xs @ [pinged_again ?E te c]) @ map (pinged_again ?E te) (filter (\<lambda>c. \<not> dead ?E te all c) cs)"
      "retries (host s') = retries (host s1) @ map conn_name (filter (\<lambda>c. dead ?E te all c \<and> outgoing c) cs)" unfolding E by blast
  have "timeout_loop env te all (map conn_id (c # cs)) s = Timed s'" using find s1(1) s'(1) by simp
  then show ?case using s' s1(8) by (intro exI [of _ s']) simp
qed


definition sample_timers :: timer_env where
  "sample_timers = \<lparr>pingtimeout = 5, autoconnect = False\<rparr>"

definition sample_clock :: timer_state where
  "sample_clock = \<lparr>last_periodic_run_time = 999, sleeptime = 10, pits = replicate 10 (- 1), next_pit = 0\<rparr>"


section \<open>Slowing down\<close>

definition back_off_ok :: "timer_state \<Rightarrow> bool" where
  "back_off_ok ts \<longleftrightarrow> 10 \<le> sleeptime ts \<and> sleeptime ts < 2 ^ 31"

fun periodic_runs :: "timer_state \<Rightarrow> daemon list \<Rightarrow> timer_state \<times> int list" where
  "periodic_runs ts [] = (ts, [])"
| "periodic_runs ts (d # ds) =
     (case periodic_handler ts d of (pause, ts, _) \<Rightarrow>
        (case periodic_runs ts ds of (ts, pauses) \<Rightarrow> (ts, (case pause of None \<Rightarrow> pauses | Some p \<Rightarrow> p # pauses))))"

lemma periodic_handler_bounds:
  assumes "back_off_ok ts"
  shows "back_off_ok (fst (snd (periodic_handler ts d)))"
proof -
  have r: "- (2 ^ 31) \<le> c_int (sleeptime ts * 2)" "c_int (sleeptime ts * 2) < 2 ^ 31"
    using sint_ge [of "word_of_int (sleeptime ts * 2) :: 32 word"] sint_lt [of "word_of_int (sleeptime ts * 2) :: 32 word"]
    by (simp_all add: c_int_def c_int_diff_def)
  have "10 \<le> c_int (sleeptime ts * 2)" if "0 \<le> c_int (sleeptime ts * 2)"
  proof (cases "sleeptime ts < 2 ^ 30")
    case True
    then have "c_int (sleeptime ts * 2) = sleeptime ts * 2" using assms by (simp add: c_int_def c_int_diff_exact c_int_ok_def back_off_ok_def)
    then show ?thesis using assms by (simp add: back_off_ok_def)
  next
    case False
    define x where "x = sleeptime ts * 2"
    have x: "2 ^ 31 \<le> x" "x < 2 ^ 32" using False assms by (simp_all add: x_def back_off_ok_def)
    have "(x + 2147483648) mod 4294967296 = (x - 2147483648) mod 4294967296" using minus_mod_self2 [of "x + 2147483648" 4294967296] by simp
    also have "\<dots> = x - 2147483648" using x by simp
    finally have "c_int x = x - 2 ^ 32" by (simp add: c_int_def c_int_diff_def int_word_sint)
    then have "c_int x < 0" using x by simp
    then show ?thesis using that by (simp add: x_def)
  qed
  then show ?thesis using assms r by (auto simp: periodic_handler_def Let_def back_off_ok_def c_half_def)
qed

lemma periodic_runs_bounds:
  "back_off_ok ts \<Longrightarrow> back_off_ok (fst (periodic_runs ts ds)) \<and> (\<forall>p \<in> set (snd (periodic_runs ts ds)). 10 \<le> p \<and> p < 2 ^ 31)"
proof (induction ds arbitrary: ts)
  case (Cons d ds)
  obtain pause ts1 d1 where p: "periodic_handler ts d = (pause, ts1, d1)" by (cases "periodic_handler ts d")
  have "back_off_ok ts1" using periodic_handler_bounds [OF Cons.prems, of d] p by simp
  note ih = Cons.IH [OF this]
  have "\<forall>q. pause = Some q \<longrightarrow> 10 \<le> q \<and> q < 2 ^ 31" using p Cons.prems by (auto simp: periodic_handler_def Let_def back_off_ok_def split: if_splits)
  then show ?case using ih p by (cases "periodic_runs ts1 ds"; cases pause) auto
qed simp

text \<open>
  However often another node with the same name is noticed, and in whatever order, the pause that the daemon makes stays between ten
  seconds and the largest value of an \<^verbatim>\<open>int\<close>; a doubling that overflows starts again at an hour. The counters start again from zero after every run.
\<close>

theorem back_off_bounds:
  assumes "10 \<le> sleeptime ts" "sleeptime ts < 2 ^ 31"
  shows "10 \<le> sleeptime (fst (periodic_runs ts ds)) \<and> sleeptime (fst (periodic_runs ts ds)) < 2 ^ 31 \<and>
    (\<forall>p \<in> set (snd (periodic_runs ts ds)). 10 \<le> p \<and> p < 2 ^ 31) \<and>
    (\<forall>d. contradicting_add_edge (snd (snd (periodic_handler ts d))) = 0 \<and> contradicting_del_edge (snd (snd (periodic_handler ts d))) = 0)"
proof -
  have "back_off_ok ts" using assms by (simp add: back_off_ok_def)
  from periodic_runs_bounds [OF this, of ds] show ?thesis by (simp add: back_off_ok_def periodic_handler_def Let_def)
qed

theorem back_off_bounds_witness:
  "10 \<le> sleeptime (fst (periodic_runs \<lparr>last_periodic_run_time = 0, sleeptime = 10, pits = replicate 10 (- 1), next_pit = 0\<rparr> [sample_daemon\<lparr>contradicting_add_edge := 101, contradicting_del_edge := 101\<rparr>, sample_daemon]))"
  using back_off_bounds [of "\<lparr>last_periodic_run_time = 0, sleeptime = 10, pits = replicate 10 (- 1), next_pit = 0\<rparr>"
      "[sample_daemon\<lparr>contradicting_add_edge := 101, contradicting_del_edge := 101\<rparr>, sample_daemon]"] by simp

section \<open>Purging\<close>

abbreviation subnet_set :: "daemon \<Rightarrow> subnet set" where "subnet_set d \<equiv> set (links (subnet_tree (subnets d)))"

definition gone :: "daemon \<Rightarrow> string \<Rightarrow> bool" where
  "gone d n \<longleftrightarrow> \<not> reachable (nodes d n)"

text \<open>Purging and forgetting only touch the table of subnets, the edges and what is sent.\<close>

definition same_nodes :: "daemon \<Rightarrow> daemon \<Rightarrow> bool" where
  "same_nodes d d' \<longleftrightarrow> nodes d' = nodes d \<and> node_tree d' = node_tree d \<and> past_request_tree d' = past_request_tree d"

lemma same_nodes_trans: "same_nodes d d1 \<Longrightarrow> same_nodes d1 d2 \<Longrightarrow> same_nodes d d2"
  by (simp add: same_nodes_def)

lemma sends_same_nodes: "sends d d' \<Longrightarrow> same_nodes d d'"
  by (auto simp: sends_def same_nodes_def)

lemma purge_subnet_frame:
  "same_nodes d (purge_subnet env n s d)" "edges (purge_subnet env n s d) = edges d"
  "subnets (purge_subnet env n s d) = (if strictsubnets env then subnets d else subnet_del (Some n) s (subnets d))"
proof -
  have "sends d (snd (send_del_subnet_everyone env n s d))"
    using sends_trans [OF sends_rand sends_everyone] by (simp add: send_del_subnet_everyone_def next_rand_def)
  note f = sends_same_nodes [OF this] sends_frame [OF this]
  show "same_nodes d (purge_subnet env n s d)" "edges (purge_subnet env n s d) = edges d"
    "subnets (purge_subnet env n s d) = (if strictsubnets env then subnets d else subnet_del (Some n) s (subnets d))"
    using f by (simp_all add: purge_subnet_def Let_def same_nodes_def)
qed

lemma purge_edge_frame:
  "same_nodes d (purge_edge env e d)" "subnets (purge_edge env e d) = subnets d" "edges (purge_edge env e d) = edge_del e (edges d)"
proof -
  have "sends d (if tunnelserver env then d else snd (send_del_edge_everyone env e d))" by simp
  note f = sends_same_nodes [OF this] sends_frame [OF this]
  show "same_nodes d (purge_edge env e d)" "subnets (purge_edge env e d) = subnets d" "edges (purge_edge env e d) = edge_del e (edges d)"
    using f by (simp_all add: purge_edge_def Let_def same_nodes_def)
qed

lemma subnet_del_set:
  assumes "trees_inv B st" "x \<in> set (links (subnet_tree st))" "owner x = Some n"
  shows "trees_inv B (subnet_del (Some n) x st)" "set (links (subnet_tree (subnet_del (Some n) x st))) = set (links (subnet_tree st)) - {x}"
proof -
  have T: "splay_inv subnet_compare (subnet_ok B) (subnet_tree st)" using assms(1) by (simp add: trees_inv_def)
  have ok: "\<And>y. y \<in> set (links (subnet_tree st)) \<Longrightarrow> subnet_ok B y" using subnet_order.splay.inv_elems [OF T] by (auto simp: list_all_iff)
  show "trees_inv B (subnet_del (Some n) x st)" using assms(1) ok [OF assms(2)] assms(3) by (rule trees_inv_del)
  have sorted: "sorted_wrt (\<lambda>x y. subnet_compare x y < 0) (links (subnet_tree st))" using subnet_order.splay.inv_elems [OF T] by blast
  have unique: "y = x" if "y \<in> set (links (subnet_tree st))" "subnet_compare x y = 0" for y
  proof (rule ccontr)
    assume "y \<noteq> x"
    then have "subnet_compare x y < 0 \<or> subnet_compare y x < 0" using sorted_wrt_connex [OF sorted assms(2) that(1)] by auto
    then show False using that(2) subnet_order.cmp_zero_sym [OF ok [OF assms(2)] ok [OF that(1)]] by auto
  qed
  have "subnet_compare x x = 0" using subnet_order.cmp_refl [OF ok [OF assms(2)]] .
  then show "set (links (subnet_tree (subnet_del (Some n) x st))) = set (links (subnet_tree st)) - {x}"
    using subnet_order.splay.del_law [OF T ok [OF assms(2)]] unique by (auto simp: subnet_del_def Let_def set_ordered_delete)
qed

lemma fold_purge_subnet:
  assumes "trees_inv B (subnets d)" "set xs \<subseteq> subnet_set d" "\<forall>s \<in> set xs. owner s = Some n" "distinct xs"
  shows "same_nodes d (fold (purge_subnet env n) xs d) \<and> edges (fold (purge_subnet env n) xs d) = edges d \<and>
    trees_inv B (subnets (fold (purge_subnet env n) xs d)) \<and>
    subnet_set (fold (purge_subnet env n) xs d) = (if strictsubnets env then subnet_set d else subnet_set d - set xs)"
  using assms
proof (induction xs arbitrary: d)
  case (Cons x xs)
  note f = purge_subnet_frame [where d = d and env = env and n = n and s = x]
  have x: "x \<in> subnet_set d" "owner x = Some n" using Cons.prems(2,3) by auto
  note del = subnet_del_set [OF Cons.prems(1) x]
  have set: "subnet_set (purge_subnet env n x d) = (if strictsubnets env then subnet_set d else subnet_set d - {x})" using f(3) del(2) by simp
  have "trees_inv B (subnets (purge_subnet env n x d))" using f(3) del(1) Cons.prems(1) by simp
  moreover have "set xs \<subseteq> subnet_set (purge_subnet env n x d)" "\<forall>s \<in> set xs. owner s = Some n" "distinct xs"
    using Cons.prems(2-4) set by auto
  ultimately show ?case using Cons.IH [of "purge_subnet env n x d"] same_nodes_trans [OF f(1)] f(2) set by auto
qed (simp add: same_nodes_def)

lemma fold_purge_edge:
  assumes "edges_inv (edges d)" "set xs \<subseteq> edge_set (edges d)" "distinct xs"
  shows "same_nodes d (fold (purge_edge env) xs d) \<and> subnets (fold (purge_edge env) xs d) = subnets d \<and>
    edges_inv (edges (fold (purge_edge env) xs d)) \<and> edge_set (edges (fold (purge_edge env) xs d)) = edge_set (edges d) - set xs"
  using assms
proof (induction xs arbitrary: d)
  case (Cons x xs)
  note f = purge_edge_frame [where d = d and env = env and e = x]
  have x: "x \<in> edge_set (edges d)" using Cons.prems(2) by simp
  note del = edge_del_inv [OF Cons.prems(1) x, folded f(3)]
  have "set xs \<subseteq> edge_set (edges (purge_edge env x d))" "distinct xs" using Cons.prems(2,3) del(2) by auto
  from Cons.IH [OF del(1) this] show ?case using same_nodes_trans [OF f(1)] f(2) del(2) by auto
qed (simp add: same_nodes_def)

lemma purge_node_effect:
  assumes "trees_inv B (subnets d)" "edges_inv (edges d)"
  shows "same_nodes d (purge_node env n d) \<and> trees_inv B (subnets (purge_node env n d)) \<and> edges_inv (edges (purge_node env n d)) \<and>
    edge_set (edges (purge_node env n d)) = {e \<in> edge_set (edges d). \<not> (gone d n \<and> edge_from e = n)} \<and>
    subnet_set (purge_node env n d) = {s \<in> subnet_set d. strictsubnets env \<or> \<not> (gone d n \<and> owner s = Some n)}"
proof (cases "reachable (nodes d n)")
  case False
  define xs where "xs = links (node_subnets (subnets d) n)"
  define d1 where "d1 = fold (purge_subnet env n) xs d"
  define es where "es = links (node_edges (edges d1) n)"
  have T: "splay_inv subnet_compare (subnet_ok B) (node_subnets (subnets d) n)" "set xs = {s \<in> subnet_set d. owner s = Some n}"
    using assms(1) by (simp_all add: trees_inv_def xs_def)
  then have "distinct xs" unfolding xs_def using subnet_order.splay.inv_elems by (intro subnet_order.sorted_distinct) blast+
  moreover have "set xs \<subseteq> subnet_set d" "\<forall>s \<in> set xs. owner s = Some n" using T(2) by auto
  ultimately have 1: "same_nodes d d1" "edges d1 = edges d" "trees_inv B (subnets d1)"
    "subnet_set d1 = (if strictsubnets env then subnet_set d else subnet_set d - set xs)"
    using fold_purge_subnet [OF assms(1), of xs n env] by (simp_all add: d1_def)
  have E: "splay_inv edge_compare (edge_of n) (node_edges (edges d1) n)" "set es = {e \<in> edge_set (edges d1). edge_from e = n}"
    using edges_invD(2,3) [OF assms(2)] 1(2) by (simp_all add: es_def)
  then have "distinct es" unfolding es_def using node_edge_order.splay.inv_elems by (intro node_edge_order.sorted_distinct) blast+
  moreover have "set es \<subseteq> edge_set (edges d1)" using E(2) by auto
  ultimately have 2: "same_nodes d1 (fold (purge_edge env) es d1)" "subnets (fold (purge_edge env) es d1) = subnets d1"
    "edges_inv (edges (fold (purge_edge env) es d1))" "edge_set (edges (fold (purge_edge env) es d1)) = edge_set (edges d1) - set es"
    using fold_purge_edge [of d1 es env] assms(2) 1(2) by simp_all
  have "purge_node env n d = fold (purge_edge env) es d1" using False by (simp add: purge_node_def d1_def es_def xs_def Let_def)
  moreover have "edge_set (edges d) - set es = {e \<in> edge_set (edges d). \<not> (gone d n \<and> edge_from e = n)}"
    using E(2) 1(2) False by (auto simp: gone_def)
  moreover have "subnet_set d1 = {s \<in> subnet_set d. strictsubnets env \<or> \<not> (gone d n \<and> owner s = Some n)}"
    using 1(4) T(2) False by (auto simp: gone_def)
  ultimately show ?thesis using same_nodes_trans [OF 1(1) 2(1)] 1(2,3) 2(2-4) by simp
qed (use assms in \<open>auto simp: purge_node_def same_nodes_def gone_def\<close>)

lemma fold_purge_node:
  assumes "trees_inv B (subnets d)" "edges_inv (edges d)"
  shows "same_nodes d (fold (purge_node env) ns d) \<and> trees_inv B (subnets (fold (purge_node env) ns d)) \<and>
    edges_inv (edges (fold (purge_node env) ns d)) \<and>
    edge_set (edges (fold (purge_node env) ns d)) = {e \<in> edge_set (edges d). \<not> (gone d (edge_from e) \<and> edge_from e \<in> set ns)} \<and>
    subnet_set (fold (purge_node env) ns d) = {s \<in> subnet_set d. strictsubnets env \<or> \<not> (\<exists>n \<in> set ns. gone d n \<and> owner s = Some n)}"
  using assms
proof (induction ns arbitrary: d)
  case (Cons n ns)
  note f = purge_node_effect [OF Cons.prems, of env n]
  have g: "gone (purge_node env n d) = gone d" using f by (simp add: same_nodes_def gone_def fun_eq_iff)
  note IH = Cons.IH [of "purge_node env n d", unfolded g]
  show ?case using IH f same_nodes_trans [of d "purge_node env n d"] by auto
qed (auto simp: same_nodes_def)

definition purged :: "daemon_env \<Rightarrow> timer_env \<Rightarrow> daemon \<Rightarrow> string set \<Rightarrow> string set \<Rightarrow> bool" where
  "purged env te d N K \<longleftrightarrow> K \<subseteq> known d \<and>
    (\<forall>n \<in> known d - K. n \<in> N \<and> gone d n \<and> (\<forall>e \<in> edge_set (edges d). edge_to e \<noteq> n)) \<and>
    (\<not> autoconnect te \<and> \<not> strictsubnets env \<and> (\<forall>e \<in> edge_set (edges d). \<not> gone d (edge_to e)) \<longrightarrow> K = known d - {n \<in> N. gone d n})"

definition purgeable :: "daemon_env \<Rightarrow> daemon \<Rightarrow> string \<Rightarrow> bool" where
  "purgeable env d n \<longleftrightarrow> n \<in> known d \<and> (gone d n \<longrightarrow> (\<forall>e \<in> edge_set (edges d). edge_from e \<noteq> n) \<and>
     (\<not> strictsubnets env \<longrightarrow> (\<forall>s \<in> subnet_set d. owner s \<noteq> Some n)))"

lemma purged_skip: "purged env te d N K \<Longrightarrow> \<not> gone d n \<or> autoconnect te \<or> strictsubnets env \<Longrightarrow> purged env te d (insert n N) K"
  unfolding purged_def by blast

lemma purged_stop: "gone d n \<Longrightarrow> e \<in> edge_set (edges d) \<Longrightarrow> edge_to e = n \<Longrightarrow> purged env te d N (known d)"
  unfolding purged_def by blast

lemma purged_del:
  assumes "purged env te d' N K" "known d' = known d - {n}" "gone d' = gone d" "edges d' = edges d" "gone d n" "n \<in> known d"
    "\<forall>e \<in> edge_set (edges d). edge_to e \<noteq> n"
  shows "purged env te d (insert n N) K"
proof -
  note p = assms(1) [unfolded purged_def assms(2-4)]
  have "K \<subseteq> known d" "\<forall>m \<in> known d - K. m \<in> insert n N \<and> gone d m \<and> (\<forall>e \<in> edge_set (edges d). edge_to e \<noteq> m)"
    using p assms(5,7) by blast+
  moreover have eq: "known d - {n} - {m \<in> N. gone d m} = known d - {m \<in> insert n N. gone d m}" using assms(5) by blast
  note p [THEN conjunct2, THEN conjunct2, unfolded eq]
  ultimately show ?thesis unfolding purged_def by (intro conjI)
qed

lemma node_del_purgeable:
  assumes inv: "request_inv d" "edges_inv (edges d)" "trees_inv B (subnets d)" and n: "purgeable env d n" "gone d n"
    and s: "\<not> strictsubnets env \<or> links (node_subnets (subnets d) n) = []"
  obtains t where "node_del n d = d\<lparr>node_tree := t\<rparr>" "splay_inv strcmp c_string t" "set (links t) = known d - {n}"
proof -
  have "set (links (node_edges (edges d) n)) = {}" using edges_invD(3) [OF inv(2), of n] n by (auto simp: purgeable_def)
  moreover have "set (links (node_subnets (subnets d) n)) = {}" 
  proof (cases "strictsubnets env")
    case False
    then have "\<forall>s \<in> subnet_set d. owner s \<noteq> Some n" using n by (simp add: purgeable_def)
    then show ?thesis using inv(3) by (simp add: trees_inv_def)
  qed (use s in simp)
  ultimately have nd: "node_del n d = d\<lparr>node_tree := fst (splay_delete (node_tree d) n)\<rparr>" by (simp add: node_del_def Let_def)
  have N: "splay_inv strcmp c_string (node_tree d)" using inv(1) by (simp add: request_inv_def)
  have ok: "c_string x" if "x \<in> known d" for x using strcmp_order.splay.inv_elems [OF N] that by (auto simp: list_all_iff known_def)
  have k: "n \<in> known d" using n(1) by (simp add: purgeable_def)
  note del = strcmp_order.splay.del_law [OF N ok [OF k]]
  have "set (ordered_delete strcmp n (links (node_tree d))) = known d - {n}"
    using ok k by (auto simp: set_ordered_delete known_def strcmp_zero)
  then show thesis using that [OF nd] del by simp
qed

lemma purge_nodes_effect:
  assumes "request_inv d" "edges_inv (edges d)" "trees_inv B (subnets d)" "distinct ns" "\<forall>n \<in> set ns. purgeable env d n"
  shows "\<exists>t. purge_nodes env te ns d = d\<lparr>node_tree := t\<rparr> \<and> splay_inv strcmp c_string t \<and> purged env te d (set ns) (set (links t))"
  using assms
proof (induction ns arbitrary: d)
  case Nil
  then show ?case by (intro exI [of _ "node_tree d"]) (simp add: request_inv_def known_def purged_def)
next
  case (Cons n ns)
  have here: "splay_inv strcmp c_string (node_tree d)" using Cons.prems(1) by (simp add: request_inv_def)
  have IH: "\<exists>t. purge_nodes env te ns d = d\<lparr>node_tree := t\<rparr> \<and> splay_inv strcmp c_string t \<and> purged env te d (set ns) (set (links t))"
    using Cons.IH [OF Cons.prems(1-3)] Cons.prems(4,5) by simp
  consider "\<not> gone d n" | e where "gone d n" "e \<in> edge_set (edges d)" "edge_to e = n"
    | "gone d n" "\<forall>e \<in> edge_set (edges d). edge_to e \<noteq> n" "\<not> (\<not> autoconnect te \<and> (\<not> strictsubnets env \<or> links (node_subnets (subnets d) n) = []))"
    | "gone d n" "\<forall>e \<in> edge_set (edges d). edge_to e \<noteq> n" "\<not> autoconnect te" "\<not> strictsubnets env \<or> links (node_subnets (subnets d) n) = []" by blast
  then show ?case
  proof cases
    case 1
    then have "purge_nodes env te (n # ns) d = purge_nodes env te ns d" by (simp add: gone_def)
    then show ?thesis using IH purged_skip 1 by auto
  next
    case 2
    then have "purge_nodes env te (n # ns) d = d" by (auto simp: gone_def list_ex_iff Edge.edges_def)
    then show ?thesis using purged_stop [OF 2] here by (intro exI [of _ "node_tree d"]) (simp add: known_def)
  next
    case 3
    then have "purge_nodes env te (n # ns) d = purge_nodes env te ns d" by (auto simp: gone_def list_ex_iff Edge.edges_def)
    then show ?thesis using IH purged_skip 3(3) by auto
  next
    case 4
    obtain t where t: "node_del n d = d\<lparr>node_tree := t\<rparr>" "splay_inv strcmp c_string t" "set (links t) = known d - {n}"
      by (rule node_del_purgeable [OF Cons.prems(1-3) _ 4(1) 4(4)]) (use Cons.prems(5) in simp)
    have run: "purge_nodes env te (n # ns) d = purge_nodes env te ns (d\<lparr>node_tree := t\<rparr>)"
      using 4 t(1) by (auto simp: gone_def list_ex_iff Edge.edges_def)
    have k: "known (d\<lparr>node_tree := t\<rparr>) = known d - {n}" "gone (d\<lparr>node_tree := t\<rparr>) = gone d" "request_inv (d\<lparr>node_tree := t\<rparr>)"
      using t Cons.prems(1) by (simp_all add: known_def gone_def fun_eq_iff request_inv_def)
    have "\<forall>m \<in> set ns. purgeable env (d\<lparr>node_tree := t\<rparr>) m" using Cons.prems(4,5) k by (auto simp: purgeable_def)
    then obtain u where "purge_nodes env te ns (d\<lparr>node_tree := t\<rparr>) = d\<lparr>node_tree := t\<rparr>\<lparr>node_tree := u\<rparr>" "splay_inv strcmp c_string u"
      "purged env te (d\<lparr>node_tree := t\<rparr>) (set ns) (set (links u))" using Cons.IH [of "d\<lparr>node_tree := t\<rparr>"] k(3) Cons.prems(2-4) by auto
    moreover have "n \<in> known d" using Cons.prems(5) by (simp add: purgeable_def)
    ultimately show ?thesis unfolding run using purged_del [OF _ k(1,2) _ 4(1) _ 4(2)] by (intro exI [of _ u]) simp
  qed
qed

lemma mutual_subset:
  assumes "edge_set st' = {e \<in> edge_set st. R (edge_from e)}"
  shows "mutual st' a b \<longleftrightarrow> mutual st a b \<and> R a \<and> R b"
proof -
  have "(x, y) \<in> edge_key ` edge_set st' \<longleftrightarrow> (x, y) \<in> edge_key ` edge_set st \<and> R x" for x y
    unfolding assms by (auto simp: image_iff)
  then show ?thesis by (auto simp: mutual_def)
qed

lemma paths_of_reachable:
  assumes sub: "\<And>a b. mutual st' a b \<longleftrightarrow> mutual st a b \<and> R a \<and> R b" and R: "\<And>n. (mutual st)\<^sup>*\<^sup>* s n \<Longrightarrow> R n"
  shows "(mutual st')\<^sup>*\<^sup>* s n \<longleftrightarrow> (mutual st)\<^sup>*\<^sup>* s n"
proof
  assume "(mutual st)\<^sup>*\<^sup>* s n"
  then show "(mutual st')\<^sup>*\<^sup>* s n"
  proof (induction rule: rtranclp_induct)
    case (step a b)
    then have "R a" "R b" using R by (blast intro: rtranclp.rtrancl_into_rtrancl)+
    with step show ?case using sub by (blast intro: rtranclp.rtrancl_into_rtrancl)
  qed simp
next
  assume "(mutual st')\<^sup>*\<^sup>* s n"
  then show "(mutual st)\<^sup>*\<^sup>* s n" by (rule rtranclp_mono [THEN predicate2D, rotated]) (use sub in blast)
qed

lemma purge_effect:
  assumes inv: "mesh_inv env d" and tr: "trees_inv B (subnets d)"
  obtains d1 t where "purge env te d = d1\<lparr>node_tree := t\<rparr>" "same_nodes d d1" "trees_inv B (subnets d1)" "edges_inv (edges d1)"
    "edge_set (edges d1) = {e \<in> edge_set (edges d). reachable (nodes d (edge_from e))}"
    "subnet_set d1 = {s \<in> subnet_set d. strictsubnets env \<or> \<not> (\<exists>n \<in> known d. gone d n \<and> owner s = Some n)}"
    "splay_inv strcmp c_string t" "purged env te d1 (known d) (set (links t))"
proof -
  have shape: "mesh_shape env d" "request_inv d" "edges_inv (edges d)" using inv by (simp_all add: mesh_inv_def mesh_shape_def)
  have src: "edge_from e \<in> known d" if "e \<in> edge_set (edges d)" for e using shape(1) that by (simp add: mesh_shape_def)
  define d1 where "d1 = fold (purge_node env) (links (node_tree d)) d"
  note f = fold_purge_node [OF tr shape(3), of env "links (node_tree d)", folded d1_def known_def]
  have k: "links (node_tree d1) = links (node_tree d)" "known d1 = known d" "gone d1 = gone d" "request_inv d1"
    using f shape(2) by (simp_all add: same_nodes_def known_def gone_def fun_eq_iff request_inv_def)
  have e: "edge_set (edges d1) = {e \<in> edge_set (edges d). reachable (nodes d (edge_from e))}" using f src by (auto simp: gone_def)
  have "\<forall>n \<in> set (links (node_tree d)). purgeable env d1 n"
  proof
    fix n assume "n \<in> set (links (node_tree d))"
    then have n: "n \<in> known d" by (simp add: known_def)
    moreover have "edge_from x \<noteq> n" if "gone d n" "x \<in> edge_set (edges d1)" for x using that e by (auto simp: gone_def)
    moreover have "owner s \<noteq> Some n" if "gone d n" "\<not> strictsubnets env" "s \<in> subnet_set d1" for s using that f n by auto
    ultimately show "purgeable env d1 n" by (simp add: purgeable_def k)
  qed
  then obtain t where t: "purge_nodes env te (links (node_tree d)) d1 = d1\<lparr>node_tree := t\<rparr>" "splay_inv strcmp c_string t"
    "purged env te d1 (set (links (node_tree d))) (set (links t))"
    using purge_nodes_effect [OF k(4) _ _ tree_sizes(3) [OF shape(1)], of B env te] f by blast
  have run: "purge env te d = d1\<lparr>node_tree := t\<rparr>" using t(1) by (simp add: purge_def d1_def [symmetric] k(1) Let_def)
  show thesis using that [OF run] f e t(2,3) by (simp add: known_def)
qed

text \<open>
  Property C40. In a mesh without indirect edges, purging keeps the invariants of the mesh and of the subnet table: afterwards there is an edge exactly where there was one
  from a reachable node, no subnet of an unreachable node is left (unless subnets are strict, when all are kept) and no other one is lost,
  every reachable node is still known, and only nodes to which no edge leads any more are forgotten. All unreachable
  nodes are forgotten when no reachable node claims an edge to one of them, unless subnets are strict or connections are made automatically.
\<close>

theorem purge_forgets_unreachable:
  assumes inv: "mesh_inv env d" and tr: "trees_inv B (subnets d)"
  shows "mesh_inv env (purge env te d) \<and> trees_inv B (subnets (purge env te d)) \<and>
    edge_set (edges (purge env te d)) = {e \<in> edge_set (edges d). reachable (nodes d (edge_from e))} \<and>
    subnet_set (purge env te d) = {s \<in> subnet_set d. strictsubnets env \<or> \<not> (\<exists>n \<in> known d. \<not> reachable (nodes d n) \<and> owner s = Some n)} \<and>
    known (purge env te d) \<subseteq> known d \<and> {n \<in> known d. reachable (nodes d n)} \<subseteq> known (purge env te d) \<and>
    (\<not> autoconnect te \<and> \<not> strictsubnets env \<and>
       (\<forall>e \<in> edge_set (edges d). reachable (nodes d (edge_from e)) \<longrightarrow> reachable (nodes d (edge_to e))) \<longrightarrow>
     known (purge env te d) = {n \<in> known d. reachable (nodes d n)})"
proof -
  obtain d1 t where p: "purge env te d = d1\<lparr>node_tree := t\<rparr>" "same_nodes d d1" "trees_inv B (subnets d1)" "edges_inv (edges d1)"
    "edge_set (edges d1) = {e \<in> edge_set (edges d). reachable (nodes d (edge_from e))}"
    "subnet_set d1 = {s \<in> subnet_set d. strictsubnets env \<or> \<not> (\<exists>n \<in> known d. gone d n \<and> owner s = Some n)}"
    "splay_inv strcmp c_string t" "purged env te d1 (known d) (set (links t))" by (rule purge_effect [OF inv tr]) (rule that)
  have k: "known (d1\<lparr>node_tree := t\<rparr>) = set (links t)" "known d1 = known d" "gone d1 = gone d" "nodes d1 = nodes d" "past_request_tree d1 = past_request_tree d"
    using p(2) by (simp_all add: known_def same_nodes_def gone_def fun_eq_iff)
  note q = p(8) [unfolded purged_def k p(5)]
  note forgotten = q [THEN conjunct2, THEN conjunct1] and fewer = q [THEN conjunct1]
  have keep: "{n \<in> known d. reachable (nodes d n)} \<subseteq> set (links t)" using forgotten by (auto simp: gone_def)
  have shape: "mesh_shape env d" and R: "\<And>n. n \<in> known d \<Longrightarrow> reachable (nodes d n) \<longleftrightarrow> (mutual (edges d))\<^sup>*\<^sup>* (self env) n"
    using inv by (simp_all add: mesh_inv_def)
  have ends: "edge_from e \<in> known d" "edge_to e \<in> known d" "edge_options e AND OPTION_INDIRECT = 0" if "e \<in> edge_set (edges d)" for e
    using shape that by (simp_all add: mesh_shape_def)
  have me: "self env \<in> known d" "reachable (nodes d (self env))" using shape R by (auto simp: mesh_shape_def)
  have "mesh_shape env (d1\<lparr>node_tree := t\<rparr>)" unfolding mesh_shape_def k(1)
  proof (intro conjI ballI)
    show "request_inv (d1\<lparr>node_tree := t\<rparr>)" using shape p(7) k(5) by (simp add: mesh_shape_def request_inv_def)
    show "edges_inv (edges (d1\<lparr>node_tree := t\<rparr>))" using p(4) by simp
    show "self env \<in> set (links t)" using me keep by blast
  next
    fix e assume "e \<in> edge_set (edges (d1\<lparr>node_tree := t\<rparr>))"
    then have e: "e \<in> edge_set (edges d)" "reachable (nodes d (edge_from e))" using p(5) by simp_all
    then show "edge_from e \<in> set (links t)" "edge_options e AND OPTION_INDIRECT = 0" using keep ends by auto
    show "edge_to e \<in> set (links t)" using forgotten e ends(2) by blast
  qed
  moreover have "reachable (nodes d n) \<longleftrightarrow> (mutual (edges d1))\<^sup>*\<^sup>* (self env) n" if "n \<in> set (links t)" for n
  proof -
    have star: "reachable (nodes d m)" if "(mutual (edges d))\<^sup>*\<^sup>* (self env) m" for m
    proof -
      have "m \<in> known d" using that by (rule rtranclp.cases) (use me ends in \<open>auto simp: mutual_def\<close>)
      then show ?thesis using R that by simp
    qed
    have "n \<in> known d" using fewer that by blast
    then show ?thesis using R paths_of_reachable [OF mutual_subset [OF p(5)] star] by simp
  qed
  ultimately have "mesh_inv env (d1\<lparr>node_tree := t\<rparr>)" unfolding mesh_inv_def k(1) using k(4) by simp
  moreover have rest: "known d - {n \<in> known d. gone d n} = {n \<in> known d. reachable (nodes d n)}" by (auto simp: gone_def)
  have "set (links t) = {n \<in> known d. reachable (nodes d n)}"
    if "\<not> autoconnect te \<and> \<not> strictsubnets env \<and>
       (\<forall>e \<in> edge_set (edges d). reachable (nodes d (edge_from e)) \<longrightarrow> reachable (nodes d (edge_to e)))"
    unfolding rest [symmetric] using that by (intro q [THEN conjunct2, THEN conjunct2, THEN mp]) (simp add: gone_def)
  ultimately show ?thesis unfolding p(1) k(1) using fewer keep p(3,5,6) by (intro conjI impI) (simp_all add: gone_def)
qed

definition stale_node :: daemon where
  "stale_node = (node_add ''b'' (sample_pair ''a'' []))\<lparr>edges := edge_add (new_edge ''b'' ''a'') init_edges\<rparr>"

theorem purge_forgets_unreachable_witness:
  "known stale_node = {''a'', ''b''} \<and> known (purge (sample_denv\<lparr>self := ''a''\<rparr>) sample_timers stale_node) = {''a''} \<and>
   edge_set (edges (purge (sample_denv\<lparr>self := ''a''\<rparr>) sample_timers stale_node)) = {}"
proof -
  let ?a = "sample_denv\<lparr>self := ''a''\<rparr>"
  have c: "c_string ''a''" "c_string ''b''" "edge_ok (new_edge ''b'' ''a'')" by (simp_all add: edge_ok_def new_edge_def c_string_def c_int_ok_def)
  note start = sample_pair_ok [OF c(1), of "[]"]
  have "request_inv (sample_pair ''a'' [])" using start(1) by (simp add: mesh_inv_def mesh_shape_def)
  from node_add_spec [OF this c(2)] have k: "request_inv stale_node" "known stale_node = {''a'', ''b''}"
    by (auto simp: stale_node_def request_inv_def known_def start(2) [unfolded known_def])
  have none: "edge_set init_edges = {}" by (simp add: Edge.edges_def init_edges_def splay_alloc_tree_def)
  have e: "edges_inv (edges stale_node)" "edge_set (edges stale_node) = {new_edge ''b'' ''a''}"
    using edge_add_new [OF edges_inv_init c(3)] none by (simp_all add: stale_node_def)
  have n: "reachable (nodes stale_node ''a'')" "\<not> reachable (nodes stale_node ''b'')"
    by (simp_all add: stale_node_def node_add_def sample_pair_def new_node_def)
  have "\<not> mutual (edges stale_node) x y" for x y by (auto simp: mutual_def e(2) new_edge_def)
  then have "(mutual (edges stale_node))\<^sup>*\<^sup>* x y \<longleftrightarrow> x = y" for x y by (metis rtranclp.cases rtranclp.rtrancl_refl)
  then have inv: "mesh_inv ?a stale_node" using k e n by (simp add: mesh_inv_def mesh_shape_def new_edge_def)
  have tr: "trees_inv {} (subnets stale_node)" using trees_inv_init by (simp add: stale_node_def node_add_def sample_pair_def sample_daemon_def)
  have conf: "\<not> autoconnect sample_timers" "\<not> strictsubnets ?a" by (simp_all add: sample_timers_def sample_denv_def)
  have "known (purge ?a sample_timers stale_node) = {m \<in> known stale_node. reachable (nodes stale_node m)}"
    "edge_set (edges (purge ?a sample_timers stale_node)) = {e \<in> edge_set (edges stale_node). reachable (nodes stale_node (edge_from e))}"
    using purge_forgets_unreachable [OF inv tr, of sample_timers] conf e(2) n by (simp_all add: new_edge_def)
  then show ?thesis using k(2) e(2) n by (auto simp: new_edge_def)
qed

end
