(* ===== verification/Spec2Isabelle.thy ===== *)
theory Spec2Isabelle
  imports Splay_Tree Quic_Framing Subnet_Table Graph Graph_Loop Route_Packets Route_Delivery Flooding Session Relaying Timers
begin

text \<open>
  Verification of the tinc VPN daemon, in its variant over QUIC (\<^verbatim>\<open>src/src\<close>).

  \<^bold>\<open>The program.\<close> A daemon keeps connections to other daemons over QUIC. On the control stream of a connection they exchange requests, lines of text
  that announce and withdraw edges of the mesh and subnets of nodes; every daemon passes news on to its other peers, so that all have the same map of the mesh and the same
  table of subnets. After each change of the map a daemon searches it: which nodes can be reached, over which next hop, and which connections
  form a tree for broadcasts. Packets of the network device, and those that arrive as datagrams, are routed by the table of subnets, to the device or
  to the next hop of the owner. Framing hides the traffic as HTTP/3 and pads it.

  \<^bold>\<open>Theories and sources.\<close> Each theory holds the state of its part as records, one definition per function of the code with the same name, the invariant, and the
  lemmas about it.

  \<^item> \<^verbatim>\<open>Prelude\<close>: machine integers and bytes of C, \<^verbatim>\<open>strcmp\<close> and \<^verbatim>\<open>memcmp\<close>, and the contract of a comparison function (locale \<open>c_compare\<close>).
    \<^verbatim>\<open>C_Text\<close>: characters, \<^verbatim>\<open>printf\<close> of numbers and \<^verbatim>\<open>sscanf\<close> as functions on strings.
  \<^item> \<^verbatim>\<open>Splay_Tree\<close> (\<^verbatim>\<open>splay_tree.c\<close>): the tree with its threaded list; top-down and bottom-up splaying, all searches, insertions and deletions. Any
    comparison function that keeps its contract makes the tree a sorted list of distinct elements (locale \<open>ordered_table\<close>, a sublocale of \<open>c_compare\<close>); the orders of
    subnets, edges, weights, names and past requests are its interpretations.
  \<^item> \<^verbatim>\<open>Hash_Table\<close> (\<^verbatim>\<open>hash.c\<close>): a lossy cache (locale \<open>lookup_cache\<close>, interpreted on the table). \<^verbatim>\<open>Utils\<close> (\<^verbatim>\<open>utils.c\<close>): hexadecimal and base64, names.
  \<^item> \<^verbatim>\<open>Subnet\<close>, \<^verbatim>\<open>Subnet_Text\<close> (\<^verbatim>\<open>subnet_parse.c\<close>): masks, the order of subnets, reading and writing them (locale \<open>number_format\<close> for the number
    formats of addresses). \<^verbatim>\<open>Subnet_Table\<close> (\<^verbatim>\<open>subnet.c\<close>): the two kinds of trees, the lookups and their caches.
  \<^item> \<^verbatim>\<open>Edge\<close> (\<^verbatim>\<open>edge.c\<close>): the edge trees and reverse pointers refine a map from pairs of nodes. \<^verbatim>\<open>Graph_Bfs\<close>, \<^verbatim>\<open>Mst\<close>, \<^verbatim>\<open>Graph\<close>, \<^verbatim>\<open>Graph_Loop\<close> (\<^verbatim>\<open>graph.c\<close>):
    the search, the tree for broadcasts, reachability with its scripts, their composition, and a mesh on which the search does not end.
  \<^item> \<^verbatim>\<open>Packet\<close>, \<^verbatim>\<open>Route\<close>, \<^verbatim>\<open>Route_Packets\<close>, \<^verbatim>\<open>Route_Delivery\<close> (\<^verbatim>\<open>route.c\<close>): the packet as a store of bytes, checksums, every handler; what
    the packets it writes look like, and where packets go. Sending is an action of the result.
  \<^item> \<^verbatim>\<open>Http3_Frames\<close> (\<^verbatim>\<open>http3_frames.c\<close>), \<^verbatim>\<open>Packet_Padding\<close> (\<^verbatim>\<open>padding.c\<close>), \<^verbatim>\<open>Meta_Buffer\<close> (\<^verbatim>\<open>buffer.c\<close>, \<^verbatim>\<open>meta.c\<close>), \<^verbatim>\<open>Quic_Framing\<close> (\<^verbatim>\<open>quic.c\<close>):
    what is written to datagrams and to the control stream and what is read from them, with the buffer as an interpretation of \<open>line_buffer\<close>.
  \<^item> \<^verbatim>\<open>Daemon\<close> (\<^verbatim>\<open>protocol.c\<close>, \<^verbatim>\<open>meta.c\<close>, \<^verbatim>\<open>node.c\<close>, \<^verbatim>\<open>connection.h\<close>): the state that requests work on, sending, requests seen before, dispatch.
    \<^verbatim>\<open>Protocol_Subnet\<close>, \<^verbatim>\<open>Protocol_Edge\<close>, \<^verbatim>\<open>Protocol_Misc\<close>, \<^verbatim>\<open>Protocol_Auth\<close> (the files of these names, \<^verbatim>\<open>netutl.c\<close>, \<^verbatim>\<open>connection.c\<close>, \<^verbatim>\<open>terminate_connection\<close> of
    \<^verbatim>\<open>net.c\<close>): every handler and sender with all its branches.
  \<^item> \<^verbatim>\<open>Flooding\<close>: many daemons; passing on what is news (locale \<open>flooding\<close>) reaches the whole mesh, interpreted on \<^verbatim>\<open>receive_request\<close> with \<^verbatim>\<open>add_subnet_h\<close>. The network
    between them, \<open>deliver_line\<close>, is no code of the daemon. \<^verbatim>\<open>Session\<close>: the requests of all connections as a step relation.
  \<^item> \<^verbatim>\<open>Packet_Transfer\<close> (\<^verbatim>\<open>net_packet.c\<close>): sending, broadcasting, receiving, probes and the search for the largest packet. \<^verbatim>\<open>Relaying\<close>: packets on their way through
    many daemons. \<^verbatim>\<open>Timers\<close> (\<^verbatim>\<open>net.c\<close>): dead connections, purging, the pause for a node of the same name, the tarpit.

  \<^bold>\<open>What the lemmas show.\<close> The containers refine sorted lists, maps and byte queues after any history of operations. Lookups, cached or not, are longest-prefix matches. On
  meshes without indirect edges the search ends, with shortest ways, loop-free next hops, correct marks of reachability and a minimum spanning tree; with indirect edges it
  need not end. The handlers change map and table exactly as the request says, pass it on exactly when it is news, and keep all invariants; announcements reach every daemon,
  and packets reach their node over the next hops that the daemons have found. Encodings of subnets, numbers, frames and padding are read back. Where
  the code fails, a theorem shows it: packets lost to padding, a null pointer, writes past a buffer, a connection identified twice, two daemons that close different connections.

  \<^bold>\<open>Fuel and bounds.\<close> Loops are structural, have a measure, or, for the search of the mesh, fuel: running out is an outcome of its own (\<open>Bfs_Running\<close>, \<open>Graph_Running\<close>, \<open>Running\<close>). On a mesh
  of \<open>n\<close> nodes and \<open>e\<close> edges without indirect ones, \<open>1 + n * (e + 1)\<close> rounds are enough (\<open>graph_terminates\<close>, \<open>mesh_room\<close>). The draining of the input buffer takes
  the number of its bytes. Words have the widths of the code, and the differences that comparison functions compute wrap around.

  \<^bold>\<open>Parameters.\<close> What the sources only call is an argument: \<^verbatim>\<open>rand\<close>, the clock, \<^verbatim>\<open>getaddrinfo\<close> and \<^verbatim>\<open>getnameinfo\<close>, the configuration, the bytes of fresh memory, the local addresses and path
  sizes that the kernel reports, \<^verbatim>\<open>powf\<close>. Following a null or stale pointer, writing past a buffer and dividing by zero are outcomes of the operations where the code can do so.

  \<^bold>\<open>Not modelled.\<close> MsQuic and the callbacks, threads and reference counts around it, certificates, devices, sockets and the event loop, scripts (the nodes and subnets they run for are
  recorded), configuration files, the control socket and the command line client, invitations but for what they assign to the connection, \<^verbatim>\<open>autoconnect.c\<close> and \<^verbatim>\<open>address_cache.c\<close>, log output.
  These are calls of the system and of libraries whose sources are not here, or tools beside the daemon.
\<close>

end
